(* ===== verification/Py_Prelude.thy ===== *)
theory Py_Prelude
  imports "HOL-Library.Word" "HOL-Library.Sublist" "HOL-Library.Multiset" "HOL-Library.AList"
begin

text \<open>
  The Python runtime the scripts run on: errors, byte buffers, slices, the \<^verbatim>\<open>struct\<close>
  module's little-endian fields, and the \<^verbatim>\<open>bytes\<close> methods the code uses.

  \<^item> Python's integers are \<^typ>\<open>int\<close>; their bit operations are those of infinite two's
    complement, which is what \<^typ>\<open>int\<close> has in HOL.
  \<^item> \<^verbatim>\<open>bytes\<close> and \<^verbatim>\<open>bytearray\<close> are lists of 8-bit words. A function that mutates a
    \<^verbatim>\<open>bytearray\<close> returns the new one.
  \<^item> An exception is a value of \<open>py_error\<close>; a computation that may raise has type \<open>'a res\<close>.
  \<^item> Printing is left out.
\<close>

unbundle bit_operations_syntax

named_theorems res_simps \<open>unfolding of the result monad\<close>
named_theorems buf_simps \<open>lengths and reads of byte buffers\<close>

subsection \<open>Errors\<close>

datatype py_error =
    Struct_Error
  | Index_Error
  | Type_Error
  | Key_Error
  | Value_Error
  | Unicode_Error
  | Stop_Iteration
  | Assertion_Error
  | Runtime_Error
  | Os_Error
  | System_Exit

type_synonym 'a res = "py_error + 'a"

definition bindR :: "'a res \<Rightarrow> ('a \<Rightarrow> 'b res) \<Rightarrow> 'b res" where
  "bindR m f = (case m of Inl e \<Rightarrow> Inl e | Inr x \<Rightarrow> f x)"

definition guardR :: "bool \<Rightarrow> py_error \<Rightarrow> unit res" where
  "guardR b e = (if b then Inr () else Inl e)"

definition is_ok :: "'a res \<Rightarrow> bool" where
  "is_ok m = (case m of Inl _ \<Rightarrow> False | Inr _ \<Rightarrow> True)"

lemma bindR_simps [simp]: "bindR (Inl e) f = Inl e" "bindR (Inr x) f = f x"
  by (simp_all add: bindR_def)

lemma bindR_assoc: "bindR (bindR m f) g = bindR m (\<lambda>x. bindR (f x) g)"
  by (cases m) auto

lemma bindR_Inr_iff: "bindR m f = Inr y \<longleftrightarrow> (\<exists>x. m = Inr x \<and> f x = Inr y)"
  by (cases m) auto

lemma bindR_Inl_iff: "bindR m f = Inl e \<longleftrightarrow> m = Inl e \<or> (\<exists>x. m = Inr x \<and> f x = Inl e)"
  by (cases m) auto

lemma bindR_cong [fundef_cong]:
  "m = m' \<Longrightarrow> (\<And>x. m' = Inr x \<Longrightarrow> f x = g x) \<Longrightarrow> bindR m f = bindR m' g"
  by (cases m') auto

lemma guardR_simps [simp]: "guardR True e = Inr ()" "guardR False e = Inl e"
  by (simp_all add: guardR_def)

lemma guardR_Inr_iff [simp]: "guardR b e = Inr u \<longleftrightarrow> b"
  by (simp add: guardR_def)

lemma guardR_Inl_iff [simp]: "guardR b e = Inl e' \<longleftrightarrow> \<not> b \<and> e = e'"
  by (auto simp: guardR_def)

lemma is_ok_simps [simp]: "is_ok (Inr x)" "\<not> is_ok (Inl e)"
  by (simp_all add: is_ok_def)

lemma is_ok_iff: "is_ok m \<longleftrightarrow> (\<exists>x. m = Inr x)"
  by (cases m) auto

lemma bindE [elim?]:
  assumes "bindR m f = Inr y"
  obtains x where "m = Inr x" and "f x = Inr y"
  using assms by (auto simp: bindR_Inr_iff)

lemmas bindR_iffs [res_simps] = bindR_Inr_iff bindR_Inl_iff

text \<open>Loops whose body may raise: a fold that stops at the first error.\<close>

fun foldR :: "('a \<Rightarrow> 's \<Rightarrow> 's res) \<Rightarrow> 'a list \<Rightarrow> 's \<Rightarrow> 's res" where
  "foldR f [] s = Inr s"
| "foldR f (x # xs) s = bindR (f x s) (foldR f xs)"

fun mapR :: "('a \<Rightarrow> 'b res) \<Rightarrow> 'a list \<Rightarrow> 'b list res" where
  "mapR f [] = Inr []"
| "mapR f (x # xs) = bindR (f x) (\<lambda>y. bindR (mapR f xs) (\<lambda>ys. Inr (y # ys)))"

lemma foldR_append: "foldR f (xs @ ys) s = bindR (foldR f xs s) (foldR f ys)"
proof (induction xs arbitrary: s)
  case (Cons x xs)
  then show ?case by (cases "f x s") auto
qed auto

lemma foldR_invariant:
  assumes "foldR f xs s = Inr s'" and "I s"
    and "\<And>x s t. x \<in> set xs \<Longrightarrow> I s \<Longrightarrow> f x s = Inr t \<Longrightarrow> I t"
  shows "I s'"
  using assms
proof (induction xs arbitrary: s)
  case (Cons x xs)
  from Cons.prems(1) obtain t where t: "f x s = Inr t" "foldR f xs t = Inr s'"
    by (auto simp: bindR_Inr_iff)
  have "I t" using Cons.prems(2,3) t(1) by auto
  then show ?case using Cons.IH [OF t(2)] Cons.prems(3) by (meson list.set_intros(2))
qed auto

lemma foldR_cong: "(\<And>x s. x \<in> set xs \<Longrightarrow> f x s = g x s) \<Longrightarrow> foldR f xs s = foldR g xs s"
proof (induction xs arbitrary: s)
  case (Cons x xs)
  then show ?case by (cases "g x s") simp_all
qed simp

lemma foldR_steps: "foldR f xs s = Inr s' \<Longrightarrow> x \<in> set xs \<Longrightarrow> \<exists>s t. f x s = Inr t"
  by (induction xs arbitrary: s) (auto simp: bindR_Inr_iff)

lemma mapR_length: "mapR f xs = Inr ys \<Longrightarrow> length ys = length xs"
  by (induction xs arbitrary: ys) (auto simp: bindR_Inr_iff)

lemma mapR_nth: "mapR f xs = Inr ys \<Longrightarrow> i < length xs \<Longrightarrow> f (xs ! i) = Inr (ys ! i)"
  by (induction xs arbitrary: ys i) (auto simp: bindR_Inr_iff nth_Cons split: nat.splits)

lemma mapR_Inr_map: "(\<And>x. x \<in> set xs \<Longrightarrow> f x = Inr (g x)) \<Longrightarrow> mapR f xs = Inr (map g xs)"
  by (induction xs) auto

text \<open>\<^verbatim>\<open>min\<close> and \<^verbatim>\<open>max\<close> of the elements of a list.\<close>

definition list_min :: "int list \<Rightarrow> int res" where
  "list_min xs = (case xs of [] \<Rightarrow> Inl Value_Error | y # ys \<Rightarrow> Inr (fold min ys y))"

definition list_max :: "int list \<Rightarrow> int res" where
  "list_max xs = (case xs of [] \<Rightarrow> Inl Value_Error | y # ys \<Rightarrow> Inr (fold max ys y))"

text \<open>Sorting a dict's items by key.\<close>

lemma distinct_fst_mset:
  assumes "mset xs = mset ys"
  shows "distinct (map fst xs) \<longleftrightarrow> distinct (map fst ys)"
proof -
  have "mset (map fst xs) = mset (map fst ys)" using assms by simp
  then show ?thesis by (metis distinct_count_atmost_1 set_mset_mset)
qed

lemma distinct_sort_key: "distinct (map fst (sort_key fst xs)) \<longleftrightarrow> distinct (map fst xs)"
  by (rule distinct_fst_mset) simp

lemma map_of_sort_key:
  assumes "distinct (map fst xs)"
  shows "map_of (sort_key fst xs) = map_of xs"
proof -
  have d: "distinct (map fst (sort_key fst xs))" using assms by (simp add: distinct_sort_key)
  have "map_of (sort_key fst xs) k = Some v \<longleftrightarrow> map_of xs k = Some v" for k v
    by (simp add: map_of_eq_Some_iff d assms)
  then show ?thesis by (metis not_Some_eq ext)
qed

text \<open>Dicts as association lists.\<close>

lemma update_same: "map_of al k = Some v \<Longrightarrow> AList.update k v al = al"
  by (induction al) (auto split: if_splits)

lemma update_twice: "AList.update k v (AList.update k w al) = AList.update k v al"
  by (induction al) auto

lemma map_of_update: "map_of (AList.update k v al) k' = (if k' = k then Some v else map_of al k')"
  by (simp add: update_conv')

text \<open>A search loop that returns at its first hit, without running the rest.\<close>

fun firstR :: "('a \<Rightarrow> 'b option res) \<Rightarrow> 'a list \<Rightarrow> 'b option res" where
  "firstR f [] = Inr None"
| "firstR f (x # xs) = bindR (f x) (\<lambda>r. case r of None \<Rightarrow> firstR f xs | Some y \<Rightarrow> Inr (Some y))"

lemma firstR_Some:
  "firstR f xs = Inr (Some y) \<Longrightarrow> \<exists>x \<in> set xs. f x = Inr (Some y)"
  by (induction xs) (auto simp: bindR_Inr_iff split: option.splits)

lemma firstR_None:
  "firstR f xs = Inr None \<longleftrightarrow> (\<forall>x \<in> set xs. f x = Inr None)"
  by (induction xs) (auto simp: bindR_Inr_iff split: option.splits)

subsection \<open>Bytes, indices and slices\<close>

type_synonym byte = "8 word"
type_synonym bytes = "byte list"

text \<open>\<^verbatim>\<open>xs[i]\<close>: a negative index counts from the end, an index outside raises.\<close>

definition index_pos :: "nat \<Rightarrow> int \<Rightarrow> nat res" where
  "index_pos n i =
     bindR (guardR (- int n \<le> i \<and> i < int n) Index_Error) (\<lambda>_.
     Inr (nat (if 0 \<le> i then i else i + int n)))"

definition py_index :: "'a list \<Rightarrow> int \<Rightarrow> 'a res" where
  "py_index xs i = bindR (index_pos (length xs) i) (\<lambda>p. Inr (xs ! p))"

definition py_set_index :: "'a list \<Rightarrow> int \<Rightarrow> 'a \<Rightarrow> 'a list res" where
  "py_set_index xs i v = bindR (index_pos (length xs) i) (\<lambda>p. Inr (xs[p := v]))"

lemma py_index_less: "py_index xs i = Inr v \<Longrightarrow> - int (length xs) \<le> i \<and> i < int (length xs)"
  by (auto simp: py_index_def index_pos_def guardR_def split: if_splits)

lemma py_index_nonneg: "0 \<le> i \<Longrightarrow> i < int (length xs) \<Longrightarrow> py_index xs i = Inr (xs ! nat i)"
  by (simp add: py_index_def index_pos_def)

text \<open>\<^verbatim>\<open>xs[a:b]\<close> and \<^verbatim>\<open>xs[a:b] = ys\<close>: both bounds are clamped, and the assignment changes
  the length when \<^verbatim>\<open>ys\<close> is not as long as the slice it replaces.\<close>

definition slice_bound :: "nat \<Rightarrow> int \<Rightarrow> nat" where
  "slice_bound n i = (if i < 0 then nat (int n + i) else min (nat i) n)"

definition py_slice :: "'a list \<Rightarrow> int \<Rightarrow> int \<Rightarrow> 'a list" where
  "py_slice xs a b =
     (let i = slice_bound (length xs) a; j = slice_bound (length xs) b
      in take (j - i) (drop i xs))"

definition py_set_slice :: "'a list \<Rightarrow> int \<Rightarrow> int \<Rightarrow> 'a list \<Rightarrow> 'a list" where
  "py_set_slice xs a b ys =
     (let i = slice_bound (length xs) a; j = slice_bound (length xs) b
      in take i xs @ ys @ drop (max i j) xs)"

definition zeros :: "int \<Rightarrow> bytes" where
  "zeros n = replicate (nat n) 0"

text \<open>Overwriting part of a buffer in place, at a resolved position.\<close>

definition put_at :: "'a list \<Rightarrow> nat \<Rightarrow> 'a list \<Rightarrow> 'a list" where
  "put_at xs i ys = take i xs @ ys @ drop (i + length ys) xs"

lemma length_put_at [simp, buf_simps]:
  "i + length ys \<le> length xs \<Longrightarrow> length (put_at xs i ys) = length xs"
  by (simp add: put_at_def)

lemma nth_put_at:
  "i + length ys \<le> length xs \<Longrightarrow> k < length xs \<Longrightarrow>
   put_at xs i ys ! k = (if i \<le> k \<and> k < i + length ys then ys ! (k - i) else xs ! k)"
  by (auto simp: put_at_def nth_append min_def)

lemma take_drop_put_at_same:
  "i + length ys \<le> length xs \<Longrightarrow> take (length ys) (drop i (put_at xs i ys)) = ys"
  by (simp add: put_at_def)

lemma take_drop_put_at_other:
  assumes "i + length ys \<le> length xs" and "j + w \<le> i \<or> i + length ys \<le> j"
    and "j + w \<le> length xs"
  shows "take w (drop j (put_at xs i ys)) = take w (drop j xs)"
  by (rule nth_equalityI) (use assms in \<open>auto simp: nth_put_at\<close>)

lemma put_at_Nil [simp]: "put_at xs i [] = xs"
  by (simp add: put_at_def)

lemma put_at_idem:
  "i + length ys \<le> length xs \<Longrightarrow> put_at (put_at xs i ys) i ys = put_at xs i ys"
  by (rule nth_equalityI) (auto simp: nth_put_at)

lemma py_set_slice_put_at:
  "0 \<le> a \<Longrightarrow> b = a + int (length ys) \<Longrightarrow> b \<le> int (length xs) \<Longrightarrow>
   py_set_slice xs a b ys = put_at xs (nat a) ys"
  by (auto simp: py_set_slice_def slice_bound_def put_at_def Let_def nat_add_distrib min_def max_def)

lemma py_slice_take_drop:
  "0 \<le> a \<Longrightarrow> a \<le> b \<Longrightarrow> b \<le> int (length xs) \<Longrightarrow>
   py_slice xs a b = take (nat (b - a)) (drop (nat a) xs)"
  by (auto simp: py_slice_def slice_bound_def Let_def nat_diff_distrib min_def)

lemma length_py_slice:
  "0 \<le> a \<Longrightarrow> a \<le> b \<Longrightarrow> b \<le> int (length xs) \<Longrightarrow> length (py_slice xs a b) = nat (b - a)"
  by (auto simp: py_slice_take_drop)

lemma length_py_slice_le: "length (py_slice xs a b) \<le> length xs"
  by (simp add: py_slice_def Let_def)

lemma length_zeros [simp, buf_simps]: "length (zeros n) = nat n"
  by (simp add: zeros_def)

subsection \<open>Little-endian integers\<close>

fun le_int :: "bytes \<Rightarrow> int" where
  "le_int [] = 0"
| "le_int (b # bs) = uint b + 256 * le_int bs"

fun le_bytes :: "nat \<Rightarrow> int \<Rightarrow> bytes" where
  "le_bytes 0 v = []"
| "le_bytes (Suc n) v = word_of_int (v mod 256) # le_bytes n (v div 256)"

lemma length_le_bytes [simp, buf_simps]: "length (le_bytes n v) = n"
  by (induction n arbitrary: v) auto

lemma uint_byte_bounds: "0 \<le> uint (b::byte)" "uint (b::byte) < 256"
  using uint_bounded [of b] by simp_all

lemma le_int_nonneg [simp]: "0 \<le> le_int bs"
  by (induction bs) (auto intro: add_nonneg_nonneg)

lemma le_int_upper: "le_int bs < 256 ^ length bs"
proof (induction bs)
  case (Cons b bs)
  have "uint b < 256" by (rule uint_byte_bounds)
  then show ?case using Cons.IH by simp
qed simp

lemma uint_of_byte: "0 \<le> v \<Longrightarrow> v < 256 \<Longrightarrow> uint (word_of_int v :: byte) = v"
  by (simp add: uint_word_of_int)

lemma le_int_le_bytes_mod: "le_int (le_bytes n v) = v mod 256 ^ n"
proof (induction n arbitrary: v)
  case (Suc n)
  have "v mod (256 * 256 ^ n) = 256 * (v div 256 mod 256 ^ n) + v mod 256"
    by (rule zmod_zmult2_eq) simp
  then show ?case by (simp add: Suc.IH uint_of_byte)
qed simp

lemma le_int_le_bytes: "0 \<le> v \<Longrightarrow> v < 256 ^ n \<Longrightarrow> le_int (le_bytes n v) = v"
  by (simp add: le_int_le_bytes_mod)

lemma le_bytes_le_int: "le_bytes (length bs) (le_int bs) = bs"
proof (induction bs)
  case (Cons b bs)
  have b: "0 \<le> uint b" "uint b < 256" by (rule uint_byte_bounds)+
  then have "(uint b + 256 * le_int bs) mod 256 = uint b"
    and "(uint b + 256 * le_int bs) div 256 = le_int bs" by simp_all
  then show ?case using Cons.IH by simp
qed simp

lemma le_int_append: "le_int (xs @ ys) = le_int xs + 256 ^ length xs * le_int ys"
  by (induction xs) (auto simp: algebra_simps)

subsection \<open>The \<^verbatim>\<open>struct\<close> module\<close>

text \<open>The position an offset of \<^verbatim>\<open>unpack_from\<close> or \<^verbatim>\<open>pack_into\<close> resolves to: a negative
  offset counts from the end, and the whole field must lie inside the buffer.\<close>

definition at_off :: "bytes \<Rightarrow> nat \<Rightarrow> int \<Rightarrow> nat res" where
  "at_off b w off =
     (let n = int (length b) in
      if off < 0 then (if off + int w > 0 \<or> off + n < 0 then Inl Struct_Error else Inr (nat (off + n)))
      else if n - off < int w then Inl Struct_Error else Inr (nat off))"

definition unpack_u :: "nat \<Rightarrow> bytes \<Rightarrow> int \<Rightarrow> int res" where
  "unpack_u w b off = bindR (at_off b w off) (\<lambda>i. Inr (le_int (take w (drop i b))))"

definition to_signed :: "nat \<Rightarrow> int \<Rightarrow> int" where
  "to_signed w v = (if v < 256 ^ w div 2 then v else v - 256 ^ w)"

definition unpack_s :: "nat \<Rightarrow> bytes \<Rightarrow> int \<Rightarrow> int res" where
  "unpack_s w b off = bindR (unpack_u w b off) (\<lambda>v. Inr (to_signed w v))"

definition pack_u :: "nat \<Rightarrow> bytes \<Rightarrow> int \<Rightarrow> int \<Rightarrow> bytes res" where
  "pack_u w b off v =
     bindR (at_off b w off) (\<lambda>i.
     if 0 \<le> v \<and> v < 256 ^ w then Inr (put_at b i (le_bytes w v)) else Inl Struct_Error)"

definition pack_s :: "nat \<Rightarrow> bytes \<Rightarrow> int \<Rightarrow> int \<Rightarrow> bytes res" where
  "pack_s w b off v =
     bindR (at_off b w off) (\<lambda>i.
     if - (256 ^ w div 2) \<le> v \<and> v < 256 ^ w div 2 then Inr (put_at b i (le_bytes w v))
     else Inl Struct_Error)"

abbreviation u8 :: "bytes \<Rightarrow> int \<Rightarrow> int res" where "u8 \<equiv> unpack_u 1"
abbreviation u16 :: "bytes \<Rightarrow> int \<Rightarrow> int res" where "u16 \<equiv> unpack_u 2"
abbreviation u32 :: "bytes \<Rightarrow> int \<Rightarrow> int res" where "u32 \<equiv> unpack_u 4"
abbreviation u64 :: "bytes \<Rightarrow> int \<Rightarrow> int res" where "u64 \<equiv> unpack_u 8"
abbreviation i32 :: "bytes \<Rightarrow> int \<Rightarrow> int res" where "i32 \<equiv> unpack_s 4"
abbreviation i64 :: "bytes \<Rightarrow> int \<Rightarrow> int res" where "i64 \<equiv> unpack_s 8"
abbreviation p16 :: "bytes \<Rightarrow> int \<Rightarrow> int \<Rightarrow> bytes res" where "p16 \<equiv> pack_u 2"
abbreviation p32 :: "bytes \<Rightarrow> int \<Rightarrow> int \<Rightarrow> bytes res" where "p32 \<equiv> pack_u 4"
abbreviation p64 :: "bytes \<Rightarrow> int \<Rightarrow> int \<Rightarrow> bytes res" where "p64 \<equiv> pack_u 8"
abbreviation pi32 :: "bytes \<Rightarrow> int \<Rightarrow> int \<Rightarrow> bytes res" where "pi32 \<equiv> pack_s 4"
abbreviation pi64 :: "bytes \<Rightarrow> int \<Rightarrow> int \<Rightarrow> bytes res" where "pi64 \<equiv> pack_s 8"

text \<open>Several fields of one format, and the two shapes the code unpacks most.\<close>

fun split_fields :: "nat list \<Rightarrow> bytes \<Rightarrow> int list" where
  "split_fields [] bs = []"
| "split_fields (w # ws) bs = le_int (take w bs) # split_fields ws (drop w bs)"

definition unpack_us :: "nat list \<Rightarrow> bytes \<Rightarrow> int \<Rightarrow> int list res" where
  "unpack_us ws b off = bindR (at_off b (sum_list ws) off) (\<lambda>i. Inr (split_fields ws (drop i b)))"

definition u32x2 :: "bytes \<Rightarrow> int \<Rightarrow> (int \<times> int) res" where
  "u32x2 b off = bindR (unpack_us [4, 4] b off) (\<lambda>vs. Inr (vs ! 0, vs ! 1))"

definition u64x2 :: "bytes \<Rightarrow> int \<Rightarrow> (int \<times> int) res" where
  "u64x2 b off = bindR (unpack_us [8, 8] b off) (\<lambda>vs. Inr (vs ! 0, vs ! 1))"

definition u64x4 :: "bytes \<Rightarrow> int \<Rightarrow> (int \<times> int \<times> int \<times> int) res" where
  "u64x4 b off = bindR (unpack_us [8, 8, 8, 8] b off) (\<lambda>vs. Inr (vs ! 0, vs ! 1, vs ! 2, vs ! 3))"

lemma length_split_fields [simp]: "length (split_fields ws bs) = length ws"
  by (induction ws arbitrary: bs) auto

text \<open>Writing a list of 32-bit words at consecutive places, as \<^verbatim>\<open>pack_into('<nI', ...)\<close> does.\<close>

fun le_words :: "nat \<Rightarrow> int list \<Rightarrow> bytes" where
  "le_words w [] = []"
| "le_words w (v # vs) = le_bytes w v @ le_words w vs"

lemma length_le_words [simp, buf_simps]: "length (le_words w vs) = w * length vs"
  by (induction vs) auto

definition pack_us :: "nat \<Rightarrow> bytes \<Rightarrow> int \<Rightarrow> int list \<Rightarrow> bytes res" where
  "pack_us w b off vs =
     bindR (at_off b (w * length vs) off) (\<lambda>i.
     if list_all (\<lambda>v. 0 \<le> v \<and> v < 256 ^ w) vs then Inr (put_at b i (le_words w vs))
     else Inl Struct_Error)"

abbreviation p32s :: "bytes \<Rightarrow> int \<Rightarrow> int list \<Rightarrow> bytes res" where "p32s \<equiv> pack_us 4"

text \<open>\<^verbatim>\<open>struct.pack\<close>, which makes new bytes.\<close>

definition pack_new :: "nat \<Rightarrow> int list \<Rightarrow> bytes res" where
  "pack_new w vs = (if list_all (\<lambda>v. 0 \<le> v \<and> v < 256 ^ w) vs then Inr (le_words w vs) else Inl Struct_Error)"

subsection \<open>Laws of the fields\<close>

lemma at_off_Inr:
  "at_off b w off = Inr i \<Longrightarrow> i + w \<le> length b \<and> (0 \<le> off \<longrightarrow> i = nat off)"
  by (auto simp: at_off_def Let_def split: if_splits)

lemma at_off_nonneg:
  "0 \<le> off \<Longrightarrow> at_off b w off = (if off + int w \<le> int (length b) then Inr (nat off) else Inl Struct_Error)"
  by (auto simp: at_off_def Let_def)

lemma at_off_len: "length b' = length b \<Longrightarrow> at_off b' w off = at_off b w off"
  by (simp add: at_off_def)

lemma pack_u_length: "pack_u w b off v = Inr b' \<Longrightarrow> length b' = length b"
  by (auto simp: pack_u_def bindR_Inr_iff dest!: at_off_Inr split: if_splits)

lemma pack_s_length: "pack_s w b off v = Inr b' \<Longrightarrow> length b' = length b"
  by (auto simp: pack_s_def bindR_Inr_iff dest!: at_off_Inr split: if_splits)

lemma pack_us_length: "pack_us w b off vs = Inr b' \<Longrightarrow> length b' = length b"
  by (auto simp: pack_us_def bindR_Inr_iff dest!: at_off_Inr split: if_splits)

lemma unpack_u_bounds: "unpack_u w b off = Inr v \<Longrightarrow> 0 \<le> v \<and> v < 256 ^ w"
proof -
  assume "unpack_u w b off = Inr v"
  then obtain i where i: "at_off b w off = Inr i" and v: "v = le_int (take w (drop i b))"
    by (auto simp: unpack_u_def bindR_Inr_iff)
  from at_off_Inr [OF i] have "length (take w (drop i b)) = w" by auto
  with le_int_upper [of "take w (drop i b)"] v show ?thesis by simp
qed

lemma unpack_u_bounds_if_pack:
  "pack_u w b off v = Inr b' \<Longrightarrow> 0 \<le> v \<and> v < 256 ^ w"
  by (auto simp: pack_u_def bindR_Inr_iff split: if_splits)

lemma unpack_u_pack_u_same:
  assumes "pack_u w b off v = Inr b'"
  shows "unpack_u w b' off = Inr v"
proof -
  from assms obtain i where i: "at_off b w off = Inr i" and v: "0 \<le> v" "v < 256 ^ w"
    and b': "b' = put_at b i (le_bytes w v)"
    by (auto simp: pack_u_def bindR_Inr_iff split: if_splits)
  from at_off_Inr [OF i] have le: "i + w \<le> length b" by simp
  have "at_off b' w off = Inr i" using i pack_u_length [OF assms] at_off_len by metis
  moreover have "take w (drop i b') = le_bytes w v"
    using take_drop_put_at_same [of i "le_bytes w v" b] le by (simp add: b')
  ultimately show ?thesis using v by (simp add: unpack_u_def le_int_le_bytes)
qed

lemma unpack_u_put_at_other:
  assumes "0 \<le> off'" "i + length xs \<le> length b" "off' + int w' \<le> int i \<or> int (i + length xs) \<le> off'"
  shows "unpack_u w' (put_at b i xs) off' = unpack_u w' b off'"
proof (cases "off' + int w' \<le> int (length b)")
  case True
  have "take w' (drop (nat off') (put_at b i xs)) = take w' (drop (nat off') b)"
    by (rule take_drop_put_at_other) (use assms True in auto)
  then show ?thesis using assms True by (simp add: unpack_u_def at_off_nonneg)
next
  case False
  then show ?thesis using assms by (simp add: unpack_u_def at_off_nonneg)
qed

lemma unpack_u_pack_u_other:
  assumes "pack_u w b off v = Inr b'" "0 \<le> off" "0 \<le> off'"
    "off' + int w' \<le> off \<or> off + int w \<le> off'"
  shows "unpack_u w' b' off' = unpack_u w' b off'"
proof -
  from assms obtain i where i: "at_off b w off = Inr i" and b': "b' = put_at b i (le_bytes w v)"
    by (auto simp: pack_u_def bindR_Inr_iff split: if_splits)
  show ?thesis unfolding b'
    by (rule unpack_u_put_at_other) (use assms at_off_Inr [OF i] in auto)
qed

lemma unpack_u_ok_iff:
  "0 \<le> off \<Longrightarrow> is_ok (unpack_u w b off) \<longleftrightarrow> off + int w \<le> int (length b)"
  by (simp add: unpack_u_def at_off_nonneg)

lemma pack_u_ok:
  "0 \<le> off \<Longrightarrow> off + int w \<le> int (length b) \<Longrightarrow> 0 \<le> v \<Longrightarrow> v < 256 ^ w \<Longrightarrow>
   pack_u w b off v = Inr (put_at b (nat off) (le_bytes w v))"
  by (simp add: pack_u_def at_off_nonneg)

text \<open>Bytes outside a written field are untouched.\<close>

definition same_outside :: "(nat \<Rightarrow> bool) \<Rightarrow> 'a list \<Rightarrow> 'a list \<Rightarrow> bool" where
  "same_outside R b b' \<longleftrightarrow> length b' = length b \<and> (\<forall>k < length b. \<not> R k \<longrightarrow> b' ! k = b ! k)"

lemma same_outside_refl [simp]: "same_outside R b b"
  by (simp add: same_outside_def)

lemma same_outside_trans:
  "same_outside R b c \<Longrightarrow> same_outside R c d \<Longrightarrow> same_outside R b d"
  by (simp add: same_outside_def)

lemma same_outside_mono:
  "same_outside R b b' \<Longrightarrow> (\<And>k. k < length b \<Longrightarrow> R k \<Longrightarrow> S k) \<Longrightarrow> same_outside S b b'"
  by (auto simp: same_outside_def)

lemma same_outside_length: "same_outside R b b' \<Longrightarrow> length b' = length b"
  by (simp add: same_outside_def)

lemma same_outside_put_at:
  "i + length xs \<le> length b \<Longrightarrow> same_outside (\<lambda>k. i \<le> k \<and> k < i + length xs) b (put_at b i xs)"
  by (auto simp: same_outside_def nth_put_at)

lemma same_outside_pack_u:
  assumes "pack_u w b off v = Inr b'" "0 \<le> off"
  shows "same_outside (\<lambda>k. off \<le> int k \<and> int k < off + int w) b b'"
proof -
  from assms obtain i where i: "at_off b w off = Inr i" and b': "b' = put_at b i (le_bytes w v)"
    by (auto simp: pack_u_def bindR_Inr_iff split: if_splits)
  show ?thesis unfolding b'
    by (rule same_outside_mono [OF same_outside_put_at])
       (use at_off_Inr [OF i] assms(2) in auto)
qed

lemma same_outside_unpack_u:
  assumes "same_outside R b b'" "0 \<le> off"
    "\<And>k. off \<le> int k \<Longrightarrow> int k < off + int w \<Longrightarrow> \<not> R k"
  shows "unpack_u w b' off = unpack_u w b off"
proof (cases "off + int w \<le> int (length b)")
  case True
  have "take w (drop (nat off) b') = take w (drop (nat off) b)"
    by (rule nth_equalityI) (use assms True in \<open>auto simp: same_outside_def\<close>)
  then show ?thesis using assms True
    by (simp add: unpack_u_def at_off_nonneg same_outside_length)
next
  case False
  then show ?thesis using assms by (simp add: unpack_u_def at_off_nonneg same_outside_length)
qed

subsection \<open>Fields as an interface\<close>

text \<open>
  What the header rewriters rely on: a field at an offset that can be read and written,
  where a write is read back, keeps the length, and leaves every disjoint field alone.
\<close>

locale buffer_field =
  fixes rd :: "bytes \<Rightarrow> int \<Rightarrow> int res"
    and wr :: "bytes \<Rightarrow> int \<Rightarrow> int \<Rightarrow> bytes res"
    and width :: nat
    and fits :: "int \<Rightarrow> bool"
  assumes wr_ok: "0 \<le> off \<Longrightarrow> off + int width \<le> int (length b) \<Longrightarrow> fits v \<Longrightarrow> \<exists>b'. wr b off v = Inr b'"
    and rd_wr_same: "wr b off v = Inr b' \<Longrightarrow> rd b' off = Inr v"
    and wr_len: "wr b off v = Inr b' \<Longrightarrow> length b' = length b"
    and wr_outside: "wr b off v = Inr b' \<Longrightarrow> 0 \<le> off \<Longrightarrow>
      same_outside (\<lambda>k. off \<le> int k \<and> int k < off + int width) b b'"
begin

lemma rd_wr_other:
  assumes "wr b off v = Inr b'" "0 \<le> off" "0 \<le> off'" "off' + int w \<le> off \<or> off + int width \<le> off'"
  shows "unpack_u w b' off' = unpack_u w b off'"
  by (rule same_outside_unpack_u [OF wr_outside [OF assms(1,2)]]) (use assms in auto)

text \<open>A sequence of writes (offset, value), in order.\<close>

definition wr_list :: "(int \<times> int) list \<Rightarrow> bytes \<Rightarrow> bytes res" where
  "wr_list ovs b = foldR (\<lambda>(o', v) b. wr b o' v) ovs b"

lemma wr_list_Nil [simp]: "wr_list [] b = Inr b"
  by (simp add: wr_list_def)

lemma wr_list_Cons [simp]: "wr_list ((o', v) # ovs) b = bindR (wr b o' v) (wr_list ovs)"
  by (cases "wr b o' v") (simp_all add: wr_list_def)

lemma wr_list_outside:
  assumes "wr_list ovs b = Inr b'" and "\<forall>(o', v) \<in> set ovs. 0 \<le> o'"
  shows "same_outside (\<lambda>k. \<exists>(o', v) \<in> set ovs. o' \<le> int k \<and> int k < o' + int width) b b'"
  using assms
proof (induction ovs arbitrary: b)
  case (Cons ov ovs)
  obtain o' v where ov: "ov = (o', v)" by (cases ov)
  from Cons.prems(1) obtain c where c: "wr b o' v = Inr c" and r: "wr_list ovs c = Inr b'"
    by (auto simp: ov bindR_Inr_iff)
  have "same_outside (\<lambda>k. o' \<le> int k \<and> int k < o' + int width) b c"
    using wr_outside [OF c] Cons.prems(2) by (auto simp: ov)
  then have 1: "same_outside (\<lambda>k. \<exists>(o', v) \<in> set (ov # ovs). o' \<le> int k \<and> int k < o' + int width) b c"
    by (rule same_outside_mono) (auto simp: ov)
  have "same_outside (\<lambda>k. \<exists>(o', v) \<in> set ovs. o' \<le> int k \<and> int k < o' + int width) c b'"
    using Cons.IH [OF r] Cons.prems(2) by auto
  then have 2: "same_outside (\<lambda>k. \<exists>(o', v) \<in> set (ov # ovs). o' \<le> int k \<and> int k < o' + int width) c b'"
    by (rule same_outside_mono) auto
  show ?case by (rule same_outside_trans [OF 1 2])
qed auto

lemma wr_list_append: "wr_list (xs @ ys) b = bindR (wr_list xs b) (wr_list ys)"
  by (cases "wr_list xs b") (simp_all add: wr_list_def foldR_append)

lemma wr_list_length: "wr_list ovs b = Inr b' \<Longrightarrow> length b' = length b"
  by (induction ovs arbitrary: b) (auto simp: bindR_Inr_iff wr_len)

lemma wr_list_ok:
  "\<forall>(o', v) \<in> set ovs. 0 \<le> o' \<and> o' + int width \<le> int (length b) \<and> fits v \<Longrightarrow> \<exists>b'. wr_list ovs b = Inr b'"
proof (induction ovs arbitrary: b)
  case (Cons ov ovs)
  obtain o' v where ov: "ov = (o', v)" by (cases ov)
  have "0 \<le> o'" "o' + int width \<le> int (length b)" "fits v" using Cons.prems by (auto simp: ov)
  from wr_ok [OF this] obtain c where c: "wr b o' v = Inr c" by blast
  then show ?case using Cons.IH [of c] Cons.prems by (simp add: ov wr_len [OF c])
qed auto

text \<open>Writes at places a field apart are all read back at the end.\<close>

definition spaced :: "int list \<Rightarrow> bool" where
  "spaced os \<longleftrightarrow> (\<forall>i < length os. \<forall>j < i. int width \<le> \<bar>os ! i - os ! j\<bar>)"

lemma spaced_Cons: "spaced (o' # os) \<longleftrightarrow> spaced os \<and> (\<forall>p \<in> set os. int width \<le> \<bar>p - o'\<bar>)"
proof
  assume h: "spaced (o' # os)"
  have "spaced os" unfolding spaced_def
  proof (intro allI impI)
    fix i j assume "i < length os" "j < i"
    then show "int width \<le> \<bar>os ! i - os ! j\<bar>"
      using h [unfolded spaced_def, rule_format, of "Suc i" "Suc j"] by simp
  qed
  moreover have "\<forall>p \<in> set os. int width \<le> \<bar>p - o'\<bar>"
  proof
    fix p assume "p \<in> set os"
    then obtain i where "i < length os" "os ! i = p" by (auto simp: in_set_conv_nth)
    then show "int width \<le> \<bar>p - o'\<bar>" using h [unfolded spaced_def, rule_format, of "Suc i" 0] by simp
  qed
  ultimately show "spaced os \<and> (\<forall>p \<in> set os. int width \<le> \<bar>p - o'\<bar>)" by simp
next
  assume h: "spaced os \<and> (\<forall>p \<in> set os. int width \<le> \<bar>p - o'\<bar>)"
  show "spaced (o' # os)" unfolding spaced_def
  proof (intro allI impI)
    fix i j assume ij: "i < length (o' # os)" "j < i"
    then obtain i' where i: "i = Suc i'" by (cases i) auto
    show "int width \<le> \<bar>(o' # os) ! i - (o' # os) ! j\<bar>"
      using h ij by (cases j) (auto simp: i spaced_def)
  qed
qed

end

text \<open>A field whose reader depends on the bytes of the field only.\<close>

locale local_field = buffer_field +
  assumes rd_local: "unpack_u width b' p = unpack_u width b p \<Longrightarrow> rd b' p = rd b p"
begin

lemma wr_list_keeps:
  assumes "wr_list ovs b = Inr b'" "\<forall>(o', v) \<in> set ovs. 0 \<le> o' \<and> int width \<le> \<bar>o' - p\<bar>" "0 \<le> p"
  shows "rd b' p = rd b p"
proof (rule rd_local, rule same_outside_unpack_u [OF wr_list_outside [OF assms(1)]])
  show "\<forall>(o', v) \<in> set ovs. 0 \<le> o'" using assms(2) by auto
  show "0 \<le> p" by (rule assms(3))
  fix k assume k: "p \<le> int k" "int k < p + int width"
  show "\<not> (\<exists>(o', v) \<in> set ovs. o' \<le> int k \<and> int k < o' + int width)"
    using k assms(2) by fastforce
qed

lemma wr_list_read:
  assumes "wr_list ovs b = Inr b'" "\<forall>(o', v) \<in> set ovs. 0 \<le> o'" "spaced (map fst ovs)"
    "(p, v) \<in> set ovs"
  shows "rd b' p = Inr v"
  using assms
proof (induction ovs arbitrary: b)
  case (Cons ov ovs)
  obtain o' w where ov: "ov = (o', w)" by (cases ov)
  from Cons.prems(1) obtain c where c: "wr b o' w = Inr c" and r: "wr_list ovs c = Inr b'"
    by (auto simp: ov bindR_Inr_iff)
  have sp: "spaced (map fst ovs)" and far: "\<forall>q \<in> set (map fst ovs). int width \<le> \<bar>q - o'\<bar>"
    using Cons.prems(3) by (auto simp: ov spaced_Cons)
  show ?case
  proof (cases "(p, v) = ov")
    case True
    have "rd b' o' = rd c o'"
    proof (rule wr_list_keeps [OF r])
      show "\<forall>(q, v) \<in> set ovs. 0 \<le> q \<and> int width \<le> \<bar>q - o'\<bar>"
        using far Cons.prems(2) by force
      show "0 \<le> o'" using Cons.prems(2) by (simp add: ov)
    qed
    then show ?thesis using True rd_wr_same [OF c] by (simp add: ov)
  next
    case False
    then show ?thesis using Cons.IH [OF r _ sp] Cons.prems(2,4) by auto
  qed
qed simp

end

interpretation f16: local_field u16 p16 2 "\<lambda>v. 0 \<le> v \<and> v < 256 ^ 2"
  by unfold_locales
     (auto simp: pack_u_ok dest: unpack_u_pack_u_same pack_u_length same_outside_pack_u)

interpretation f32: local_field u32 p32 4 "\<lambda>v. 0 \<le> v \<and> v < 256 ^ 4"
  by unfold_locales
     (auto simp: pack_u_ok dest: unpack_u_pack_u_same pack_u_length same_outside_pack_u)

interpretation f64: local_field u64 p64 8 "\<lambda>v. 0 \<le> v \<and> v < 256 ^ 8"
  by unfold_locales
     (auto simp: pack_u_ok dest: unpack_u_pack_u_same pack_u_length same_outside_pack_u)

lemma to_signed_mod:
  assumes "- (256 ^ w div 2) \<le> v" "v < 256 ^ w div 2" "0 < w"
  shows "to_signed w (v mod 256 ^ w) = v"
proof -
  obtain n where w: "w = Suc n" using assms(3) by (cases w) auto
  have e: "(256 :: int) ^ w = 2 * (256 ^ w div 2)" by (simp add: w)
  let ?h = "(256 :: int) ^ w div 2"
  have h: "0 < ?h" by (simp add: w)
  show ?thesis
  proof (cases "0 \<le> v")
    case True
    then have "v mod 256 ^ w = v" using assms(2) e h by (intro mod_pos_pos_trivial) linarith+
    then show ?thesis using assms(2) by (simp add: to_signed_def)
  next
    case False
    then have "(v + 256 ^ w) mod 256 ^ w = v + 256 ^ w"
      using assms(1) e h by (intro mod_pos_pos_trivial) linarith+
    then have "v mod 256 ^ w = v + 256 ^ w" by simp
    then show ?thesis using assms(1) e h by (simp add: to_signed_def)
  qed
qed

lemma unpack_s_pack_s_same:
  assumes "pack_s w b off v = Inr b'" "0 < w"
  shows "unpack_s w b' off = Inr v"
proof -
  from assms obtain i where i: "at_off b w off = Inr i"
    and v: "- (256 ^ w div 2) \<le> v" "v < 256 ^ w div 2" and b': "b' = put_at b i (le_bytes w v)"
    by (auto simp: pack_s_def bindR_Inr_iff split: if_splits)
  have le: "i + w \<le> length b" using at_off_Inr [OF i] by simp
  have "at_off b' w off = Inr i" using i pack_s_length [OF assms(1)] at_off_len by metis
  moreover have "take w (drop i b') = le_bytes w v"
    using take_drop_put_at_same [of i "le_bytes w v" b] le by (simp add: b')
  ultimately show ?thesis using v assms(2)
    by (simp add: unpack_s_def unpack_u_def le_int_le_bytes_mod to_signed_mod)
qed

lemma same_outside_pack_s:
  assumes "pack_s w b off v = Inr b'" "0 \<le> off"
  shows "same_outside (\<lambda>k. off \<le> int k \<and> int k < off + int w) b b'"
proof -
  from assms obtain i where i: "at_off b w off = Inr i" and b': "b' = put_at b i (le_bytes w v)"
    by (auto simp: pack_s_def bindR_Inr_iff split: if_splits)
  show ?thesis unfolding b'
    by (rule same_outside_mono [OF same_outside_put_at])
       (use at_off_Inr [OF i] assms(2) in auto)
qed

lemma pack_s_ok:
  "0 \<le> off \<Longrightarrow> off + int w \<le> int (length b) \<Longrightarrow> - (256 ^ w div 2) \<le> v \<Longrightarrow> v < 256 ^ w div 2 \<Longrightarrow>
   \<exists>b'. pack_s w b off v = Inr b'"
  by (simp add: pack_s_def at_off_nonneg)

interpretation fs32: local_field i32 pi32 4 "\<lambda>v. - (256 ^ 4 div 2) \<le> v \<and> v < 256 ^ 4 div 2"
  by unfold_locales
     (auto simp: pack_s_ok unpack_s_def dest: unpack_s_pack_s_same pack_s_length same_outside_pack_s)

interpretation fs64: local_field i64 pi64 8 "\<lambda>v. - (256 ^ 8 div 2) \<le> v \<and> v < 256 ^ 8 div 2"
  by unfold_locales
     (auto simp: pack_s_ok unpack_s_def dest: unpack_s_pack_s_same pack_s_length same_outside_pack_s)

subsection \<open>The methods of \<^verbatim>\<open>bytes\<close>\<close>

text \<open>String literals as bytes; \<^verbatim>\<open>b.split(b"\0")[0]\<close>; \<^verbatim>\<open>b.find(b"\0", start, end)\<close>, which is
  \<open>-1\<close> when there is none.\<close>

definition ascii :: "string \<Rightarrow> bytes" where
  "ascii s = map of_char s"

definition before_nul :: "bytes \<Rightarrow> bytes" where
  "before_nul bs = takeWhile (\<lambda>b. b \<noteq> 0) bs"

definition find_nul :: "bytes \<Rightarrow> int \<Rightarrow> int \<Rightarrow> int" where
  "find_nul b start stop =
     (let i = slice_bound (length b) start;
          s = py_slice b start stop; k = length (before_nul s)
      in if k < length s then int (i + k) else -1)"

text \<open>\<^verbatim>\<open>data.count(old)\<close> and \<^verbatim>\<open>data.replace(old, new)\<close> for a non-empty \<open>old\<close>: matches are
  taken from the left and do not overlap.\<close>

function py_count :: "'a list \<Rightarrow> 'a list \<Rightarrow> nat" where
  "py_count old [] = 0"
| "py_count old (x # xs) =
     (if old \<noteq> [] \<and> prefix old (x # xs) then Suc (py_count old (drop (length old) (x # xs)))
      else py_count old xs)"
  by pat_completeness auto
termination by (relation "measure (\<lambda>(old, xs). length xs)") auto

function py_replace :: "'a list \<Rightarrow> 'a list \<Rightarrow> 'a list \<Rightarrow> 'a list" where
  "py_replace old new [] = []"
| "py_replace old new (x # xs) =
     (if old \<noteq> [] \<and> prefix old (x # xs)
      then new @ py_replace old new (drop (length old) (x # xs))
      else x # py_replace old new xs)"
  by pat_completeness auto
termination by (relation "measure (\<lambda>(old, new, xs). length xs)") auto

lemma py_replace_length:
  "length new = length old \<Longrightarrow> length (py_replace old new xs) = length xs"
proof (induction old new xs rule: py_replace.induct)
  case (2 old new x xs)
  show ?case
  proof (cases "old \<noteq> [] \<and> prefix old (x # xs)")
    case True
    then have "length old \<le> length (x # xs)" by (blast dest: prefix_length_le)
    with 2 True show ?thesis by simp
  next
    case False
    with 2 show ?thesis by auto
  qed
qed auto

text \<open>Positions covered by a match of \<open>old\<close>, and what a replacement of equal length keeps.\<close>

definition in_match :: "'a list \<Rightarrow> 'a list \<Rightarrow> nat \<Rightarrow> bool" where
  "in_match old xs k \<longleftrightarrow> (\<exists>i \<le> k. k < i + length old \<and> prefix old (drop i xs))"

lemma in_matchI: "i \<le> k \<Longrightarrow> k < i + length old \<Longrightarrow> prefix old (drop i xs) \<Longrightarrow> in_match old xs k"
  by (auto simp: in_match_def)

lemma in_match_Cons: "in_match old xs k \<Longrightarrow> in_match old (x # xs) (Suc k)"
proof -
  assume "in_match old xs k"
  then obtain i where "i \<le> k" "k < i + length old" "prefix old (drop i xs)"
    by (auto simp: in_match_def)
  then show ?thesis by (intro in_matchI [of "Suc i"]) auto
qed

lemma in_match_drop: "in_match old (drop n xs) k \<Longrightarrow> in_match old xs (n + k)"
proof -
  assume "in_match old (drop n xs) k"
  then obtain i where "i \<le> k" "k < i + length old" "prefix old (drop i (drop n xs))"
    by (auto simp: in_match_def)
  then show ?thesis by (intro in_matchI [of "n + i"]) (auto simp: add.commute)
qed

lemma py_replace_same_outside:
  "length new = length old \<Longrightarrow> same_outside (in_match old xs) xs (py_replace old new xs)"
proof (induction old new xs rule: py_replace.induct)
  case (1 old new)
  then show ?case by simp
next
  case (2 old new x xs)
  note len = py_replace_length [OF "2.prems"]
  show ?case
  proof (cases "old \<noteq> [] \<and> prefix old (x # xs)")
    case True
    let ?n = "length old"
    have n: "?n \<le> length (x # xs)" using True prefix_length_le by blast
    have IH: "same_outside (in_match old (drop ?n (x # xs))) (drop ?n (x # xs))
        (py_replace old new (drop ?n (x # xs)))"
      by (rule "2.IH"(1) [OF True "2.prems"])
    show ?thesis unfolding same_outside_def
    proof (intro conjI allI impI)
      show "length (py_replace old new (x # xs)) = length (x # xs)" by (rule len)
    next
      fix k assume k: "k < length (x # xs)" "\<not> in_match old (x # xs) k"
      have "\<not> k < ?n" using k(2) True unfolding in_match_def by (metis drop0 le0 add_0)
      then obtain j where j: "k = ?n + j" by (metis le_Suc_ex not_less)
      have "\<not> in_match old (drop ?n (x # xs)) j" using k(2) in_match_drop j by blast
      then have "py_replace old new (drop ?n (x # xs)) ! j = drop ?n (x # xs) ! j"
        using IH k(1) j n unfolding same_outside_def by (auto simp del: drop_Suc_Cons)
      then show "py_replace old new (x # xs) ! k = (x # xs) ! k"
        using True "2.prems" j n k(1) by (simp add: nth_append del: drop_Suc_Cons)
    qed
  next
    case False
    have IH: "same_outside (in_match old xs) xs (py_replace old new xs)"
      by (rule "2.IH"(2) [OF False "2.prems"])
    show ?thesis unfolding same_outside_def
    proof (intro conjI allI impI)
      show "length (py_replace old new (x # xs)) = length (x # xs)" by (rule len)
    next
      fix k assume k: "k < length (x # xs)" "\<not> in_match old (x # xs) k"
      then show "py_replace old new (x # xs) ! k = (x # xs) ! k"
        using IH False by (cases k) (auto simp: same_outside_def dest: in_match_Cons)
    qed
  qed
qed

text \<open>\<^verbatim>\<open>b.decode()\<close> accepts exactly the well-formed UTF-8 byte strings; the model keeps the
  bytes, since decoding is injective.\<close>

definition utf8_cont :: "byte \<Rightarrow> bool" where
  "utf8_cont b \<longleftrightarrow> 0x80 \<le> uint b \<and> uint b \<le> 0xBF"

fun utf8_ok :: "bytes \<Rightarrow> bool" where
  "utf8_ok [] = True"
| "utf8_ok (a # bs) =
     (if uint a < 0x80 then utf8_ok bs
      else case bs of
        [] \<Rightarrow> False
      | b # cs \<Rightarrow>
         if 0xC2 \<le> uint a \<and> uint a \<le> 0xDF then utf8_cont b \<and> utf8_ok cs
         else case cs of
           [] \<Rightarrow> False
         | c # ds \<Rightarrow>
            if 0xE0 \<le> uint a \<and> uint a \<le> 0xEF
            then utf8_cont b \<and> utf8_cont c \<and> (uint a = 0xE0 \<longrightarrow> 0xA0 \<le> uint b)
              \<and> (uint a = 0xED \<longrightarrow> uint b \<le> 0x9F) \<and> utf8_ok ds
            else case ds of
              [] \<Rightarrow> False
            | d # es \<Rightarrow> 0xF0 \<le> uint a \<and> uint a \<le> 0xF4
                \<and> utf8_cont b \<and> utf8_cont c \<and> utf8_cont d
                \<and> (uint a = 0xF0 \<longrightarrow> 0x90 \<le> uint b) \<and> (uint a = 0xF4 \<longrightarrow> uint b \<le> 0x8F)
                \<and> utf8_ok es)"

definition py_decode :: "bytes \<Rightarrow> bytes res" where
  "py_decode bs = (if utf8_ok bs then Inr bs else Inl Unicode_Error)"

lemma py_decode_Inr [simp]: "py_decode bs = Inr s \<longleftrightarrow> utf8_ok bs \<and> s = bs"
  by (auto simp: py_decode_def)

lemma find_nul_bounds:
  assumes "0 \<le> start" "find_nul b start stop = e" "0 \<le> e"
  shows "start \<le> e \<and> e < int (length b)"
proof -
  let ?i = "slice_bound (length b) start" and ?s = "py_slice b start stop"
  have k: "length (before_nul ?s) < length ?s" and e: "e = int (?i + length (before_nul ?s))"
    using assms(2,3) by (auto simp: find_nul_def Let_def split: if_splits)
  have "?i + length ?s \<le> length b \<or> ?s = []" by (auto simp: py_slice_def Let_def)
  with k have "?i + length (before_nul ?s) < length b" by auto
  moreover have "start \<le> int ?i"
  proof (rule ccontr)
    assume "\<not> start \<le> int ?i"
    then have "?i = length b" using assms(1) by (auto simp: slice_bound_def min_def split: if_splits)
    then show False using k by (simp add: py_slice_def Let_def)
  qed
  ultimately show ?thesis using e by simp
qed

end
