(* ===== verification/MachO.thy ===== *)
theory MachO
  imports Py_Prelude
begin

text \<open>
  Thin little-endian 64-bit Mach-O images as the scripts see them: a 32-byte header with the
  command count at 16 and the size of the command table at 20, then the load commands, each
  with its number and its size; an \<^verbatim>\<open>LC_SEGMENT_64\<close> command is followed by its 80-byte
  sections. The loops over commands and sections are combinators, since every script of the
  pipeline has its own copy of them; each script's own bounds checks are in its theory.
\<close>

subsection \<open>Constants of \<^verbatim>\<open>uncache.py\<close>\<close>

definition LC_SEGMENT_64 :: int where "LC_SEGMENT_64 = 0x19"
definition LC_LOAD_DYLIB :: int where "LC_LOAD_DYLIB = 0xC"
definition LC_LOAD_WEAK_DYLIB :: int where "LC_LOAD_WEAK_DYLIB = 0x80000018"
definition LC_SYMTAB :: int where "LC_SYMTAB = 0x2"
definition LC_DYSYMTAB :: int where "LC_DYSYMTAB = 0xB"
definition LC_FUNCTION_STARTS :: int where "LC_FUNCTION_STARTS = 0x26"
definition LC_DATA_IN_CODE :: int where "LC_DATA_IN_CODE = 0x29"
definition LC_DYLD_CHAINED_FIXUPS :: int where "LC_DYLD_CHAINED_FIXUPS = 0x80000034"
definition LC_DYLD_EXPORTS_TRIE :: int where "LC_DYLD_EXPORTS_TRIE = 0x80000033"
definition MH_DYLIB_IN_CACHE :: int where "MH_DYLIB_IN_CACHE = 0x80000000"
definition MH_MAGIC_64 :: int where "MH_MAGIC_64 = 0xFEEDFACF"
definition PF_ARM64E_USERLAND :: int where "PF_ARM64E_USERLAND = 9"
definition START_NONE :: int where "START_NONE = 0xFFFF"
definition PAGE :: int where "PAGE = 0x4000"

lemmas macho_consts =
  LC_SEGMENT_64_def LC_LOAD_DYLIB_def LC_LOAD_WEAK_DYLIB_def LC_SYMTAB_def LC_DYSYMTAB_def
  LC_FUNCTION_STARTS_def LC_DATA_IN_CODE_def LC_DYLD_CHAINED_FIXUPS_def
  LC_DYLD_EXPORTS_TRIE_def MH_DYLIB_IN_CACHE_def MH_MAGIC_64_def PF_ARM64E_USERLAND_def
  START_NONE_def PAGE_def

subsection \<open>The loop over load commands\<close>

text \<open>
  \<^verbatim>\<open>for _ in range(ncmds): cmd, sz = unpack_from("<II", buf, off); ...; off += sz\<close>.
  The buffer may be part of the state the body changes: \<open>g\<close> reads it from the state.
\<close>

fun for_cmds :: "('s \<Rightarrow> bytes) \<Rightarrow> (int \<Rightarrow> int \<Rightarrow> int \<Rightarrow> 's \<Rightarrow> 's res) \<Rightarrow> nat \<Rightarrow> int \<Rightarrow> 's \<Rightarrow> 's res" where
  "for_cmds g f 0 off s = Inr s"
| "for_cmds g f (Suc n) off s =
     bindR (u32x2 (g s) off) (\<lambda>(cmd, sz).
     bindR (f cmd sz off s) (for_cmds g f n (off + sz)))"

text \<open>The same loop returning at the first hit.\<close>

fun first_cmd :: "bytes \<Rightarrow> (int \<Rightarrow> int \<Rightarrow> int \<Rightarrow> 'a option res) \<Rightarrow> nat \<Rightarrow> int \<Rightarrow> 'a option res" where
  "first_cmd b f 0 off = Inr None"
| "first_cmd b f (Suc n) off =
     bindR (u32x2 b off) (\<lambda>(cmd, sz).
     bindR (f cmd sz off) (\<lambda>r. case r of
       Some y \<Rightarrow> Inr (Some y)
     | None \<Rightarrow> first_cmd b f n (off + sz)))"

text \<open>The table as a list of (command, size, offset).\<close>

fun lc_table :: "bytes \<Rightarrow> nat \<Rightarrow> int \<Rightarrow> (int \<times> int \<times> int) list res" where
  "lc_table b 0 off = Inr []"
| "lc_table b (Suc n) off =
     bindR (u32x2 b off) (\<lambda>(cmd, sz).
     bindR (lc_table b n (off + sz)) (\<lambda>cs. Inr ((cmd, sz, off) # cs)))"

lemma u32x2_eq:
  assumes "0 \<le> off"
  shows "u32x2 b off = bindR (u32 b off) (\<lambda>x. bindR (u32 b (off + 4)) (\<lambda>y. Inr (x, y)))"
  using assms
  by (auto simp: u32x2_def unpack_us_def unpack_u_def at_off_nonneg nat_add_distrib add.commute)

lemma u32x2_bounds:
  assumes "u32x2 b off = Inr (x, y)"
  shows "0 \<le> x \<and> x < 2 ^ 32 \<and> 0 \<le> y \<and> y < 2 ^ 32"
proof -
  from assms obtain i where "x = le_int (take 4 (drop i b))" "y = le_int (take 4 (drop 4 (drop i b)))"
    by (auto simp: u32x2_def unpack_us_def bindR_Inr_iff)
  moreover have "le_int (take 4 bs) < 2 ^ 32" for bs :: bytes
  proof -
    have "le_int (take 4 bs) < 256 ^ length (take 4 bs)" by (rule le_int_upper)
    also have "\<dots> \<le> (256 :: int) ^ 4" by (rule power_increasing) auto
    finally show ?thesis by simp
  qed
  ultimately show ?thesis by simp
qed

lemma for_cmds_invariant:
  assumes "for_cmds g f n off s = Inr s'" and "I s"
    and "\<And>cmd sz o' t u. I t \<Longrightarrow> off \<le> o' \<Longrightarrow> u32x2 (g t) o' = Inr (cmd, sz) \<Longrightarrow>
           f cmd sz o' t = Inr u \<Longrightarrow> I u"
  shows "I s'"
  using assms
proof (induction n arbitrary: off s)
  case (Suc n)
  from Suc.prems(1) obtain cmd sz t where h: "u32x2 (g s) off = Inr (cmd, sz)"
    and f: "f cmd sz off s = Inr t" and r: "for_cmds g f n (off + sz) t = Inr s'"
    by (auto simp: bindR_Inr_iff)
  have sz: "0 \<le> sz" using u32x2_bounds [OF h] by simp
  show ?case
  proof (rule Suc.IH [OF r])
    show "I t" using Suc.prems(2,3) h f by blast
  next
    fix cmd' sz' o' t u
    assume "I t" "off + sz \<le> o'" "u32x2 (g t) o' = Inr (cmd', sz')" "f cmd' sz' o' t = Inr u"
    then show "I u" using Suc.prems(3) sz by (meson add_increasing2 order_trans order_refl)
  qed
qed auto

lemma for_cmds_foldR:
  assumes "lc_table b n off = Inr cs"
  shows "for_cmds (\<lambda>_. b) f n off s = foldR (\<lambda>(cmd, sz, o') s. f cmd sz o' s) cs s"
  using assms
proof (induction n arbitrary: off s cs)
  case (Suc n)
  then obtain cmd sz cs' where h: "u32x2 b off = Inr (cmd, sz)" and t: "lc_table b n (off + sz) = Inr cs'"
    and cs: "cs = (cmd, sz, off) # cs'"
    by (auto simp: bindR_Inr_iff)
  have "for_cmds (\<lambda>_. b) f n (off + sz) = foldR (\<lambda>(cmd, sz, o') s. f cmd sz o' s) cs'"
    using Suc.IH [OF t] by (rule ext)
  then show ?case by (simp add: h cs)
qed auto

lemma lc_table_length: "lc_table b n off = Inr cs \<Longrightarrow> length cs = n"
  by (induction n arbitrary: off cs) (auto simp: bindR_Inr_iff)

lemma lc_table_cong:
  assumes "lc_table b n off = Inr cs" "\<forall>(c, sz, o') \<in> set cs. u32x2 b' o' = u32x2 b o'"
  shows "lc_table b' n off = Inr cs"
  using assms
proof (induction n arbitrary: off cs)
  case (Suc n)
  from Suc.prems(1) obtain cmd z cs' where h: "u32x2 b off = Inr (cmd, z)"
    and t: "lc_table b n (off + z) = Inr cs'" and cs: "cs = (cmd, z, off) # cs'"
    by (auto simp: bindR_Inr_iff)
  have "lc_table b' n (off + z) = Inr cs'" using Suc.IH [OF t] Suc.prems(2) by (simp add: cs)
  then show ?case using Suc.prems(2) by (simp add: cs h)
qed auto

lemma lc_table_off: "lc_table b n off = Inr cs \<Longrightarrow> (c, sz, o') \<in> set cs \<Longrightarrow> off \<le> o'"
proof (induction n arbitrary: off cs)
  case (Suc n)
  from Suc.prems(1) obtain cmd z cs' where h: "u32x2 b off = Inr (cmd, z)"
    and t: "lc_table b n (off + z) = Inr cs'" and cs: "cs = (cmd, z, off) # cs'"
    by (auto simp: bindR_Inr_iff)
  show ?case
    using Suc.IH [OF t] Suc.prems(2) u32x2_bounds [OF h] by (fastforce simp: cs)
qed auto

subsection \<open>Segments and sections\<close>

record segment =
  seg_name :: bytes
  vmaddr :: int
  vmsize :: int
  fileoff :: int
  filesize :: int
  lc_off :: int

definition cstr16 :: "bytes \<Rightarrow> int \<Rightarrow> bytes" where
  "cstr16 b off = before_nul (py_slice b off (off + 16))"

definition sect_offs :: "int \<Rightarrow> int \<Rightarrow> int list" where
  "sect_offs lc ns = map (\<lambda>k. lc + 72 + int k * 80) [0..<nat ns]"

definition seg_end :: "segment \<Rightarrow> int" where
  "seg_end s = vmaddr s + vmsize s"

text \<open>\<^verbatim>\<open>parse_segments\<close>: the segments in table order, the command count and the table size.\<close>

definition parse_segment_cmd :: "bytes \<Rightarrow> int \<Rightarrow> int \<Rightarrow> int \<Rightarrow> segment list \<Rightarrow> segment list res" where
  "parse_segment_cmd buf cmd sz off segs =
     (if cmd = LC_SEGMENT_64 then
        bindR (py_decode (cstr16 buf (off + 8))) (\<lambda>nm.
        bindR (u64x4 buf (off + 24)) (\<lambda>(va, vs, fo, fs).
        Inr (segs @ [\<lparr>seg_name = nm, vmaddr = va, vmsize = vs, fileoff = fo, filesize = fs,
                      lc_off = off\<rparr>])))
      else Inr segs)"

definition parse_segments :: "bytes \<Rightarrow> (segment list \<times> int \<times> int) res" where
  "parse_segments buf =
     bindR (unpack_us [4, 4, 4, 4, 4, 4, 4, 4] buf 0) (\<lambda>h.
     bindR (for_cmds (\<lambda>_. buf) (parse_segment_cmd buf) (nat (h ! 4)) 32 []) (\<lambda>segs.
     Inr (segs, h ! 4, h ! 5)))"

text \<open>\<^verbatim>\<open>_find_section\<close>: the first section of that name in one segment command.\<close>

definition find_section :: "bytes \<Rightarrow> int \<Rightarrow> int \<Rightarrow> bytes \<Rightarrow> (int option \<times> int \<times> int) res" where
  "find_section buf lc ns sectname =
     bindR (firstR (\<lambda>so. if cstr16 buf so = sectname
                          then bindR (u64x2 buf (so + 32)) (\<lambda>(sa, ssz). Inr (Some (Some so, sa, ssz)))
                          else Inr None) (sect_offs lc ns)) (\<lambda>r.
     Inr (case r of None \<Rightarrow> (None, 0, 0) | Some x \<Rightarrow> x))"

text \<open>\<^verbatim>\<open>_section_segment\<close>: the name of the segment that has the section.\<close>

definition section_segment :: "bytes \<Rightarrow> bytes \<Rightarrow> bytes option res" where
  "section_segment buf sectname =
     bindR (u32 buf 16) (\<lambda>ncmds.
     first_cmd buf (\<lambda>cmd sz off.
       if cmd = LC_SEGMENT_64 then
         bindR (u32 buf (off + 64)) (\<lambda>ns.
         firstR (\<lambda>so. if cstr16 buf so = sectname
                       then bindR (py_decode (cstr16 buf (off + 8))) (\<lambda>nm. Inr (Some nm))
                       else Inr None) (sect_offs off ns))
       else Inr None) (nat ncmds) 32)"

text \<open>\<^verbatim>\<open>_find_sect\<close>: address, size and file offset of the first section of that name.\<close>

definition find_sect :: "bytes \<Rightarrow> bytes \<Rightarrow> (int \<times> int \<times> int) option res" where
  "find_sect buf name =
     bindR (parse_segments buf) (\<lambda>(osegs, _, _).
     firstR (\<lambda>s. bindR (u32 buf (lc_off s + 64)) (\<lambda>ns.
       firstR (\<lambda>so. if cstr16 buf so = name
                     then bindR (u64x2 buf (so + 32)) (\<lambda>(sa, sz).
                          bindR (u32 buf (so + 48)) (\<lambda>fo. Inr (Some (sa, sz, fo))))
                     else Inr None) (sect_offs (lc_off s) ns))) osegs)"

end
