(* ===== verification/Bits.thy ===== *)
theory Bits
  imports Py_Prelude
begin

text \<open>
  Bit fields of Python integers. \<open>bits k w x\<close> is \<^verbatim>\<open>(x >> k) & ((1 << w) - 1)\<close>; a packed word
  is an \<^verbatim>\<open>OR\<close> of shifted masked fields, and the lemmas read one field out of such an
  \<^verbatim>\<open>OR\<close> term by term.
\<close>

named_theorems bits_simps \<open>reading a bit field out of a packed word\<close>

definition bits :: "nat \<Rightarrow> nat \<Rightarrow> int \<Rightarrow> int" where
  "bits k w x = take_bit w (drop_bit k x)"

definition msk :: "nat \<Rightarrow> int" where
  "msk w = push_bit w 1 - 1"

lemma msk_eq_mask: "msk w = mask w"
  by (simp add: msk_def mask_eq_exp_minus_1 push_bit_eq_mult)

lemma and_msk: "x AND msk w = take_bit w x"
  by (simp add: msk_eq_mask take_bit_eq_mask)

lemma bits_bounds: "0 \<le> bits k w x" "bits k w x < 2 ^ w"
  by (simp_all add: bits_def)

text \<open>\<open>fld m w x\<close> is \<^verbatim>\<open>(x & ((1 << w) - 1)) << m\<close>.\<close>

definition fld :: "nat \<Rightarrow> nat \<Rightarrow> int \<Rightarrow> int" where
  "fld m w x = push_bit m (take_bit w x)"

lemma bits_or [bits_simps]: "bits k w (x OR y) = bits k w x OR bits k w y"
  by (simp add: bits_def)

lemma bits_fld_same [bits_simps]: "bits k w (fld k w x) = take_bit w x"
  by (rule bit_eqI) (auto simp: bits_def fld_def bit_simps)

lemma bits_fld_below [bits_simps]: "m + n \<le> k \<Longrightarrow> bits k w (fld m n x) = 0"
  by (rule bit_eqI) (auto simp: bits_def fld_def bit_simps)

lemma bits_fld_above [bits_simps]: "k + w \<le> m \<Longrightarrow> bits k w (fld m n x) = 0"
  by (rule bit_eqI) (auto simp: bits_def fld_def bit_simps)

lemma fld_nonneg [simp]: "0 \<le> fld m w x"
  by (simp add: fld_def)

lemma bits_mod: "bits k w x = x div 2 ^ k mod 2 ^ w"
  by (simp add: bits_def take_bit_eq_mod drop_bit_eq_div)

lemma bits_and_eq: "drop_bit k x AND msk w = bits k w x"
  by (simp add: bits_def and_msk)

lemma or_nonneg: "0 \<le> (x::int) \<Longrightarrow> 0 \<le> y \<Longrightarrow> 0 \<le> x OR y"
  by simp

text \<open>An \<open>OR\<close> of fields that fit in \<open>n\<close> bits fits in \<open>n\<close> bits.\<close>

lemma or_less: "0 \<le> (x::int) \<Longrightarrow> x < 2 ^ n \<Longrightarrow> 0 \<le> y \<Longrightarrow> y < 2 ^ n \<Longrightarrow> x OR y < 2 ^ n"
  by (metis OR_upper)

lemma fld_less:
  assumes "m + w \<le> n"
  shows "fld m w x < 2 ^ n"
proof -
  have "fld m w x < 2 ^ m * 2 ^ w"
    by (simp add: fld_def push_bit_eq_mult mult.commute)
  also have "\<dots> = 2 ^ (m + w)" by (simp add: power_add)
  also have "\<dots> \<le> (2::int) ^ n" using assms by (intro power_increasing) auto
  finally show ?thesis .
qed

lemma take_bit_idle: "0 \<le> (x::int) \<Longrightarrow> x < 2 ^ w \<Longrightarrow> take_bit w x = x"
  by (simp add: take_bit_int_eq_self)

end
