(* ===== verification/Chained.thy ===== *)
theory Chained
  imports MachO Bits
begin

text \<open>
  The arm64e userland chained pointers \<^verbatim>\<open>uncache.py\<close> emits: the four 64-bit words, the
  weaving of the page chains, and the fixups blob.
\<close>

subsection \<open>The pointer words\<close>

definition pack_rebase :: "int \<Rightarrow> int \<Rightarrow> int \<Rightarrow> int" where
  "pack_rebase runtimeOffset nxt high8 =
     (runtimeOffset AND (push_bit 43 1 - 1)) OR push_bit 43 (high8 AND 0xFF)
     OR push_bit 51 (nxt AND 0x7FF) OR push_bit 62 0 OR push_bit 63 0"

definition pack_auth_rebase :: "int \<Rightarrow> int \<Rightarrow> int \<Rightarrow> int \<Rightarrow> int \<Rightarrow> int" where
  "pack_auth_rebase runtimeOffset div' addrDiv key nxt =
     (runtimeOffset AND 0xFFFFFFFF) OR push_bit 32 (div' AND 0xFFFF) OR push_bit 48 (addrDiv AND 1)
     OR push_bit 49 (key AND 3) OR push_bit 51 (nxt AND 0x7FF) OR push_bit 62 0 OR push_bit 63 1"

definition pack_bind :: "int \<Rightarrow> int \<Rightarrow> int \<Rightarrow> int" where
  "pack_bind ordinal addend nxt =
     (ordinal AND 0xFFFF) OR push_bit 16 0 OR push_bit 32 (addend AND 0x7FFFF)
     OR push_bit 51 (nxt AND 0x7FF) OR push_bit 62 1 OR push_bit 63 0"

definition pack_auth_bind :: "int \<Rightarrow> int \<Rightarrow> int \<Rightarrow> int \<Rightarrow> int \<Rightarrow> int" where
  "pack_auth_bind ordinal div' addrDiv key nxt =
     (ordinal AND 0xFFFF) OR push_bit 16 0 OR push_bit 32 (div' AND 0xFFFF) OR push_bit 48 (addrDiv AND 1)
     OR push_bit 49 (key AND 3) OR push_bit 51 (nxt AND 0x7FF) OR push_bit 62 1 OR push_bit 63 1"

lemma masks:
  "x AND (0xFF::int) = take_bit 8 x" "x AND (0x7FF::int) = take_bit 11 x"
  "x AND (0xFFFF::int) = take_bit 16 x" "x AND (0xFFFFFFFF::int) = take_bit 32 x"
  "x AND (0x7FFFF::int) = take_bit 19 x" "x AND (3::int) = take_bit 2 x"
  "x AND (1::int) = take_bit 1 x" "x AND (push_bit 43 1 - 1::int) = take_bit 43 x"
  by (simp_all add: take_bit_eq_mask mask_eq_exp_minus_1)

lemma pack_forms:
  "pack_rebase r n h = fld 0 43 r OR fld 43 8 h OR fld 51 11 n"
  "pack_auth_rebase r d a k n = fld 0 32 r OR fld 32 16 d OR fld 48 1 a OR fld 49 2 k OR fld 51 11 n
     OR fld 63 1 1"
  "pack_bind o' ad n = fld 0 16 o' OR fld 32 19 ad OR fld 51 11 n OR fld 62 1 1"
  "pack_auth_bind o' d a k n = fld 0 16 o' OR fld 32 16 d OR fld 48 1 a OR fld 49 2 k OR fld 51 11 n
     OR fld 62 1 1 OR fld 63 1 1"
  by (simp_all only: pack_rebase_def pack_auth_rebase_def pack_bind_def pack_auth_bind_def masks
       fld_def push_bit_of_0 or.right_neutral) simp_all

text \<open>The fields of each word, and its width.\<close>

lemma pack_next:
  "bits 51 11 (pack_rebase r n h) = take_bit 11 n"
  "bits 51 11 (pack_auth_rebase r d a k n) = take_bit 11 n"
  "bits 51 11 (pack_bind o' ad n) = take_bit 11 n"
  "bits 51 11 (pack_auth_bind o' d a k n) = take_bit 11 n"
  by (simp_all add: pack_forms bits_simps del: One_nat_def)

lemma pack_kind:
  "bits 62 1 (pack_rebase r n h) = 0" "bits 63 1 (pack_rebase r n h) = 0"
  "bits 62 1 (pack_auth_rebase r d a k n) = 0" "bits 63 1 (pack_auth_rebase r d a k n) = 1"
  "bits 62 1 (pack_bind o' ad n) = 1" "bits 63 1 (pack_bind o' ad n) = 0"
  "bits 62 1 (pack_auth_bind o' d a k n) = 1" "bits 63 1 (pack_auth_bind o' d a k n) = 1"
  by (simp_all add: pack_forms bits_simps del: One_nat_def)

lemma pack_rebase_fields:
  "bits 0 43 (pack_rebase r n h) = take_bit 43 r" "bits 43 8 (pack_rebase r n h) = take_bit 8 h"
  by (simp_all add: pack_forms bits_simps del: One_nat_def)

lemma pack_auth_fields:
  "bits 0 32 (pack_auth_rebase r d a k n) = take_bit 32 r"
  "bits 32 16 (pack_auth_rebase r d a k n) = take_bit 16 d"
  "bits 48 1 (pack_auth_rebase r d a k n) = take_bit 1 a"
  "bits 49 2 (pack_auth_rebase r d a k n) = take_bit 2 k"
  "bits 0 16 (pack_auth_bind o' d a k n) = take_bit 16 o'"
  "bits 32 16 (pack_auth_bind o' d a k n) = take_bit 16 d"
  "bits 48 1 (pack_auth_bind o' d a k n) = take_bit 1 a"
  "bits 49 2 (pack_auth_bind o' d a k n) = take_bit 2 k"
  by (simp_all add: pack_forms bits_simps del: One_nat_def)

lemma pack_bind_fields:
  "bits 0 16 (pack_bind o' ad n) = take_bit 16 o'" "bits 32 19 (pack_bind o' ad n) = take_bit 19 ad"
  by (simp_all add: pack_forms bits_simps del: One_nat_def)

lemma pack_u64:
  "0 \<le> pack_rebase r n h" "pack_rebase r n h < 2 ^ 64"
  "0 \<le> pack_auth_rebase r d a k n" "pack_auth_rebase r d a k n < 2 ^ 64"
  "0 \<le> pack_bind o' ad n" "pack_bind o' ad n < 2 ^ 64"
  "0 \<le> pack_auth_bind o' d a k n" "pack_auth_bind o' d a k n < 2 ^ 64"
  unfolding pack_forms
  by (auto intro!: or_less fld_less simp del: power_numeral)

subsection \<open>Fixup entries and the word written for one\<close>

datatype fix_kind = Rebase | Bind

record fixup_entry =
  fx_kind :: fix_kind
  fx_val :: int
  fx_auth :: bool
  fx_key :: int
  fx_div :: int
  fx_addrdiv :: int
  fx_high8 :: int

definition entry_word :: "fixup_entry \<Rightarrow> int \<Rightarrow> int" where
  "entry_word e nxt =
     (if fx_kind e = Rebase then
        (if fx_auth e then pack_auth_rebase (fx_val e) (fx_div e) (fx_addrdiv e) (fx_key e) nxt
         else pack_rebase (fx_val e) nxt (fx_high8 e))
      else
        (if fx_auth e then pack_auth_bind (fx_val e) (fx_div e) (fx_addrdiv e) (fx_key e) nxt
         else pack_bind (fx_val e) 0 nxt))"

lemma entry_word_u64: "0 \<le> entry_word e nxt" "entry_word e nxt < 2 ^ 64"
  using pack_u64 by (auto simp: entry_word_def)

lemma entry_word_next: "bits 51 11 (entry_word e nxt) = take_bit 11 nxt"
  by (simp add: entry_word_def pack_next)

lemma entry_word_kind:
  "bits 62 1 (entry_word e nxt) = (if fx_kind e = Bind then 1 else 0)"
  "bits 63 1 (entry_word e nxt) = (if fx_auth e then 1 else 0)"
  by (cases "fx_kind e"; simp add: entry_word_def pack_kind del: One_nat_def)+

text \<open>Reading an entry back from its word: what the format says of each of the four kinds.\<close>

definition decode_word :: "int \<Rightarrow> fixup_entry" where
  "decode_word w =
     (if bits 62 1 w = 0 then
        (if bits 63 1 w = 1
         then \<lparr>fx_kind = Rebase, fx_val = bits 0 32 w, fx_auth = True, fx_key = bits 49 2 w,
               fx_div = bits 32 16 w, fx_addrdiv = bits 48 1 w, fx_high8 = 0\<rparr>
         else \<lparr>fx_kind = Rebase, fx_val = bits 0 43 w, fx_auth = False, fx_key = 0, fx_div = 0,
               fx_addrdiv = 0, fx_high8 = bits 43 8 w\<rparr>)
      else
        (if bits 63 1 w = 1
         then \<lparr>fx_kind = Bind, fx_val = bits 0 16 w, fx_auth = True, fx_key = bits 49 2 w,
               fx_div = bits 32 16 w, fx_addrdiv = bits 48 1 w, fx_high8 = 0\<rparr>
         else \<lparr>fx_kind = Bind, fx_val = bits 0 16 w, fx_auth = False, fx_key = 0, fx_div = 0,
               fx_addrdiv = 0, fx_high8 = 0\<rparr>))"

text \<open>An entry whose fields fit the format.\<close>

definition entry_fits :: "fixup_entry \<Rightarrow> bool" where
  "entry_fits e \<longleftrightarrow>
     0 \<le> fx_val e
     \<and> (if fx_kind e = Bind then fx_val e < 2 ^ 16 else if fx_auth e then fx_val e < 2 ^ 32 else fx_val e < 2 ^ 43)
     \<and> (if fx_auth e then 0 \<le> fx_key e \<and> fx_key e < 4 \<and> 0 \<le> fx_div e \<and> fx_div e < 2 ^ 16
          \<and> 0 \<le> fx_addrdiv e \<and> fx_addrdiv e < 2 \<and> fx_high8 e = 0
        else fx_key e = 0 \<and> fx_div e = 0 \<and> fx_addrdiv e = 0
          \<and> 0 \<le> fx_high8 e \<and> fx_high8 e < 2 ^ 8 \<and> (fx_kind e = Bind \<longrightarrow> fx_high8 e = 0))"

lemma decode_entry_word: "entry_fits e \<Longrightarrow> decode_word (entry_word e nxt) = e"
  by (cases e; cases "fx_kind e"; cases "fx_auth e")
     (auto simp: entry_fits_def entry_word_def decode_word_def pack_kind pack_rebase_fields
        pack_auth_fields pack_bind_fields take_bit_idle simp del: One_nat_def)

end
