(* ===== verification/Weave.thy ===== *)
theory Weave
  imports Chained
begin

text \<open>
  Weaving the fixup entries into per-page chains (\<^verbatim>\<open>main\<close> of \<^verbatim>\<open>uncache.py\<close>): the entries
  are grouped by output segment and page, and each page's words are linked through their
  \<^verbatim>\<open>next\<close> fields, in units of 8 bytes.
\<close>

subsection \<open>From addresses to file offsets\<close>

fun addr2off :: "segment list \<Rightarrow> int \<Rightarrow> int res" where
  "addr2off [] a = Inl Key_Error"
| "addr2off (s # ss) a =
     (if vmaddr s \<le> a \<and> a < vmaddr s + vmsize s then Inr (fileoff s + (a - vmaddr s)) else addr2off ss a)"

fun seg_index :: "segment list \<Rightarrow> int \<Rightarrow> nat option" where
  "seg_index [] a = None"
| "seg_index (s # ss) a =
     (if vmaddr s \<le> a \<and> a < vmaddr s + vmsize s then Some 0 else map_option Suc (seg_index ss a))"

text \<open>\<^verbatim>\<open>seg_fixups\<close>: each address goes to the first segment that holds it, or nowhere.\<close>

definition seg_fixups :: "segment list \<Rightarrow> int list \<Rightarrow> nat \<Rightarrow> int list" where
  "seg_fixups segs addrs i = filter (\<lambda>a. seg_index segs a = Some i) addrs"

lemma addr2off_seg_index:
  "addr2off segs a = (case seg_index segs a of None \<Rightarrow> Inl Key_Error
     | Some i \<Rightarrow> Inr (fileoff (segs ! i) + (a - vmaddr (segs ! i))))"
  by (induction segs) (auto split: option.splits)

lemma seg_index_Some:
  "seg_index segs a = Some i \<Longrightarrow>
   i < length segs \<and> vmaddr (segs ! i) \<le> a \<and> a < vmaddr (segs ! i) + vmsize (segs ! i)"
  by (induction segs arbitrary: i) (auto split: if_splits)

subsection \<open>One page, one segment, the image\<close>

text \<open>The distance to the next address of the page, in 8-byte units; 0 ends the chain.\<close>

definition next_delta :: "int \<Rightarrow> int list \<Rightarrow> int" where
  "next_delta a as = (case as of [] \<Rightarrow> 0 | a' # _ \<Rightarrow> (a' - a) div 8)"

fun weave_page :: "segment list \<Rightarrow> (int \<Rightarrow> fixup_entry) \<Rightarrow> int list \<Rightarrow> bytes \<Rightarrow> bytes res" where
  "weave_page segs ent [] buf = Inr buf"
| "weave_page segs ent (a # as) buf =
     bindR (addr2off segs a) (\<lambda>o'.
     bindR (p64 buf o' (entry_word (ent a) (next_delta a as))) (weave_page segs ent as))"

definition page_of :: "segment \<Rightarrow> int \<Rightarrow> int" where
  "page_of s a = (a - vmaddr s) div PAGE"

definition first_occ :: "'a list \<Rightarrow> 'a list" where
  "first_occ xs = rev (remdups (rev xs))"

definition page_addrs :: "segment \<Rightarrow> int list \<Rightarrow> int \<Rightarrow> int list" where
  "page_addrs s addrs pg = sort (filter (\<lambda>a. page_of s a = pg) addrs)"

definition weave_one_page ::
    "segment list \<Rightarrow> (int \<Rightarrow> fixup_entry) \<Rightarrow> segment \<Rightarrow> int list \<Rightarrow> int \<Rightarrow> bytes \<times> int list
     \<Rightarrow> (bytes \<times> int list) res" where
  "weave_one_page segs ent s addrs pg = (\<lambda>(buf, pstart).
     bindR (py_index (page_addrs s addrs pg) 0) (\<lambda>a0.
     bindR (py_set_index pstart pg ((a0 - vmaddr s) - pg * PAGE)) (\<lambda>pstart.
     bindR (weave_page segs ent (page_addrs s addrs pg) buf) (\<lambda>buf.
     Inr (buf, pstart)))))"

definition weave_segment ::
    "segment list \<Rightarrow> (int \<Rightarrow> fixup_entry) \<Rightarrow> segment \<Rightarrow> int list \<Rightarrow> bytes \<Rightarrow> (bytes \<times> int list) res" where
  "weave_segment segs ent s addrs buf =
     (let addrs = sort addrs; npages = (vmsize s + PAGE - 1) div PAGE in
      foldR (weave_one_page segs ent s addrs) (first_occ (map (page_of s) addrs))
        (buf, replicate (nat npages) START_NONE))"

definition weave ::
    "segment list \<Rightarrow> (int \<Rightarrow> fixup_entry) \<Rightarrow> int list \<Rightarrow> bytes \<Rightarrow> (bytes \<times> (nat \<times> int list) list) res" where
  "weave segs ent locs buf =
     foldR (\<lambda>(i, s) (buf, starts).
         let addrs = seg_fixups segs locs i in
         if addrs = [] then Inr (buf, starts)
         else bindR (weave_segment segs ent s addrs buf) (\<lambda>(buf, pstart).
              Inr (buf, starts @ [(i, pstart)])))
       (zip [0..<length segs] segs) (buf, [])"

subsection \<open>Walking a chain\<close>

text \<open>
  The format's own reading of a page: start at an address, decode the word there, and move by
  the \<^verbatim>\<open>next\<close> field until it is 0. The fuel bounds the number of words; a page has at most
  2048 of them.
\<close>

fun walk_chain :: "nat \<Rightarrow> segment list \<Rightarrow> bytes \<Rightarrow> int \<Rightarrow> (int \<times> fixup_entry) list option" where
  "walk_chain 0 segs buf a = None"
| "walk_chain (Suc n) segs buf a =
     (case addr2off segs a of Inl _ \<Rightarrow> None | Inr o' \<Rightarrow>
      case u64 buf o' of Inl _ \<Rightarrow> None | Inr w \<Rightarrow>
      if bits 51 11 w = 0 then Some [(a, decode_word w)]
      else map_option ((#) (a, decode_word w)) (walk_chain n segs buf (a + bits 51 11 w * 8)))"

fun page_words :: "(int \<Rightarrow> fixup_entry) \<Rightarrow> int list \<Rightarrow> (int \<times> int) list" where
  "page_words ent [] = []"
| "page_words ent (a # as) = (a, entry_word (ent a) (next_delta a as)) # page_words ent as"

lemma map_fst_page_words [simp]: "map fst (page_words ent as) = as"
  by (induction as) auto

lemma page_words_Cons_mem:
  "(a, entry_word (ent a) (next_delta a as)) \<in> set (page_words ent (pre @ a # as))"
  by (induction pre) auto

lemma weave_page_wr_list:
  assumes "\<forall>a \<in> set as. addr2off segs a = Inr (off a)"
  shows "weave_page segs ent as buf = f64.wr_list (map (\<lambda>(a, w). (off a, w)) (page_words ent as)) buf"
  using assms
proof (induction as arbitrary: buf)
  case (Cons a as)
  have "weave_page segs ent as = f64.wr_list (map (\<lambda>(a, w). (off a, w)) (page_words ent as))"
    by (rule ext) (use Cons in simp)
  then show ?case using Cons.prems by simp
qed simp

text \<open>Words that sit in the buffer at their offsets are what the walk reads.\<close>

lemma walk_chain_reads:
  assumes "sorted_wrt (<) (a # as)" and "\<forall>b \<in> set as. 8 dvd (b - a)"
    and "\<forall>b \<in> set (a # as). b < a + PAGE"
    and "\<forall>b \<in> set (a # as). addr2off segs b = Inr (off b) \<and> entry_fits (ent b)"
    and "\<forall>(b, w) \<in> set (page_words ent (a # as)). u64 buf (off b) = Inr w"
    and "length as < n"
  shows "walk_chain n segs buf a = Some (map (\<lambda>b. (b, ent b)) (a # as))"
  using assms
proof (induction as arbitrary: a n)
  case Nil
  then show ?case
    by (cases n) (auto simp: entry_word_next next_delta_def decode_entry_word)
next
  case (Cons b as)
  obtain m where n: "n = Suc m" using Cons.prems(6) by (cases n) auto
  let ?w = "entry_word (ent a) (next_delta a (b # as))"
  have lt: "a < b" and div: "8 dvd (b - a)" using Cons.prems(1,2) by auto
  have d: "0 < b - a" "b - a < 0x4000" using lt Cons.prems(3) by (auto simp: PAGE_def)
  obtain k where k: "b - a = 8 * k" using div by (auto simp: dvd_def)
  have k0: "0 < k" "k < 2048" using d k by auto
  have nx: "bits 51 11 ?w = k" using k k0 by (simp add: entry_word_next next_delta_def take_bit_int_eq_self)
  have rd: "u64 buf (off a) = Inr ?w" using Cons.prems(5) by simp
  have dec: "decode_word ?w = ent a" using Cons.prems(4) by (simp add: decode_entry_word)
  have dv: "\<forall>c \<in> set as. 8 dvd (c - b)"
  proof
    fix c assume "c \<in> set as"
    then have "8 dvd (c - a)" using Cons.prems(2) by auto
    then show "8 dvd (c - b)" using div dvd_diff [of 8 "c - a" "b - a"] by simp
  qed
  have "walk_chain m segs buf b = Some (map (\<lambda>b. (b, ent b)) (b # as))"
    by (rule Cons.IH) (use Cons.prems dv n lt in auto)
  moreover have "a + k * 8 = b" using k by simp
  ultimately show ?case using Cons.prems(4) rd nx k0 dec by (simp add: n)
qed

subsection \<open>The woven image\<close>

lemma set_page_addrs: "set (page_addrs s addrs pg) = {a \<in> set addrs. page_of s a = pg}"
  by (auto simp: page_addrs_def)

lemma page_addrs_sorted: "distinct addrs \<Longrightarrow> sorted_wrt (<) (page_addrs s addrs pg)"
  by (simp add: page_addrs_def strict_sorted_iff)

lemma set_first_occ [simp]: "set (first_occ xs) = set xs"
  by (simp add: first_occ_def)

lemma distinct_first_occ [simp]: "distinct (first_occ xs)"
  by (simp add: first_occ_def)

text \<open>Chains of 8-byte steps inside a page have at most 2048 words.\<close>

lemma aligned_chain_reach:
  "sorted_wrt (<) (a # as) \<Longrightarrow> \<forall>b \<in> set as. (8::int) dvd (b - a) \<Longrightarrow>
   \<exists>b \<in> set (a # as). a + 8 * int (length as) \<le> b"
proof (induction as arbitrary: a)
  case (Cons b as)
  have ab: "a < b" "8 dvd (b - a)" using Cons.prems by auto
  from ab(2) obtain k where "b - a = 8 * k" by (rule dvdE)
  with ab(1) have step: "a + 8 \<le> b" by presburger
  have "\<forall>c \<in> set as. 8 dvd (c - b)"
  proof
    fix c assume "c \<in> set as"
    then have "8 dvd (c - a)" using Cons.prems(2) by auto
    then show "8 dvd (c - b)" using ab dvd_diff [of 8 "c - a" "b - a"] by simp
  qed
  then obtain c where "c \<in> set (b # as)" "b + 8 * int (length as) \<le> c"
    using Cons.IH [of b] Cons.prems(1) by auto
  then show ?case using step by (intro bexI [of _ c]) auto
qed simp

text \<open>
  What the weaving needs of its input: every address resolves to a file offset whose word lies
  in the buffer, words do not overlap in the file, addresses are 8-byte aligned relative to
  their segment, and entries fit their format.
\<close>

definition off_of :: "segment list \<Rightarrow> int \<Rightarrow> int" where
  "off_of segs a = (case addr2off segs a of Inl _ \<Rightarrow> 0 | Inr o' \<Rightarrow> o')"

definition weavable :: "segment list \<Rightarrow> (int \<Rightarrow> fixup_entry) \<Rightarrow> int list \<Rightarrow> bytes \<Rightarrow> bool" where
  "weavable segs ent locs buf \<longleftrightarrow> distinct locs
     \<and> (\<forall>a \<in> set locs. \<forall>i < length segs. seg_index segs a = Some i \<longrightarrow>
          0 \<le> off_of segs a \<and> off_of segs a + 8 \<le> int (length buf)
          \<and> 8 dvd (a - vmaddr (segs ! i)) \<and> entry_fits (ent a))
     \<and> (\<forall>a \<in> set locs. \<forall>b \<in> set locs. a \<noteq> b \<longrightarrow> seg_index segs a \<noteq> None \<longrightarrow> seg_index segs b \<noteq> None \<longrightarrow>
          8 \<le> \<bar>off_of segs a - off_of segs b\<bar>)"

lemma addr2off_off_of: "seg_index segs a \<noteq> None \<Longrightarrow> addr2off segs a = Inr (off_of segs a)"
  by (auto simp: off_of_def addr2off_seg_index)

abbreviation off_words :: "segment list \<Rightarrow> (int \<times> int) list \<Rightarrow> (int \<times> int) list" where
  "off_words segs \<equiv> map (\<lambda>(a, w). (off_of segs a, w))"

definition page_start :: "segment \<Rightarrow> int list \<Rightarrow> int \<Rightarrow> int" where
  "page_start s addrs pg = (hd (page_addrs s addrs pg) - vmaddr s) - pg * PAGE"

definition set_start :: "segment \<Rightarrow> int list \<Rightarrow> int \<Rightarrow> int list \<Rightarrow> int list" where
  "set_start s addrs pg ps = ps[nat pg := page_start s addrs pg]"

lemma length_fold_set_start [simp]: "length (fold (set_start s addrs) pgs ps) = length ps"
  by (induction pgs arbitrary: ps) (auto simp: set_start_def)

lemma nth_fold_set_start:
  "k < length ps \<Longrightarrow> \<forall>pg \<in> set pgs. 0 \<le> pg \<Longrightarrow>
   fold (set_start s addrs) pgs ps ! k = (if int k \<in> set pgs then page_start s addrs (int k) else ps ! k)"
  by (induction pgs arbitrary: ps) (auto simp: set_start_def nth_list_update)

lemma weave_one_page_eq:
  assumes "\<forall>a \<in> set (page_addrs s addrs pg). seg_index segs a \<noteq> None"
    and "page_addrs s addrs pg \<noteq> []" and "0 \<le> pg" "pg < int (length ps)"
  shows "weave_one_page segs ent s addrs pg (buf, ps) =
    bindR (f64.wr_list (off_words segs (page_words ent (page_addrs s addrs pg))) buf)
      (\<lambda>buf'. Inr (buf', set_start s addrs pg ps))"
proof -
  have 1: "weave_page segs ent (page_addrs s addrs pg) buf =
      f64.wr_list (off_words segs (page_words ent (page_addrs s addrs pg))) buf"
    by (rule weave_page_wr_list) (use assms(1) addr2off_off_of in blast)
  have 2: "py_index (page_addrs s addrs pg) 0 = Inr (hd (page_addrs s addrs pg))"
    using assms(2) by (simp add: py_index_def index_pos_def hd_conv_nth)
  have 3: "py_set_index ps pg v = Inr (ps[nat pg := v])" for v
    using assms(3,4) by (simp add: py_set_index_def index_pos_def)
  show ?thesis by (simp add: weave_one_page_def 1 2 3 set_start_def page_start_def)
qed

lemma weave_pages_eq:
  assumes "\<forall>pg \<in> set pgs. (\<forall>a \<in> set (page_addrs s addrs pg). seg_index segs a \<noteq> None)
      \<and> page_addrs s addrs pg \<noteq> [] \<and> 0 \<le> pg \<and> pg < int (length ps)"
  shows "foldR (weave_one_page segs ent s addrs) pgs (buf, ps) =
    bindR (f64.wr_list (off_words segs (concat (map (\<lambda>pg. page_words ent (page_addrs s addrs pg)) pgs))) buf)
      (\<lambda>buf'. Inr (buf', fold (set_start s addrs) pgs ps))"
  using assms
proof (induction pgs arbitrary: buf ps)
  case (Cons pg pgs)
  have len: "length (set_start s addrs pg ps) = length ps" by (simp add: set_start_def)
  have "foldR (weave_one_page segs ent s addrs) pgs (b, set_start s addrs pg ps) =
    bindR (f64.wr_list (off_words segs (concat (map (\<lambda>pg. page_words ent (page_addrs s addrs pg)) pgs))) b)
      (\<lambda>buf'. Inr (buf', fold (set_start s addrs) pgs (set_start s addrs pg ps)))" for b
    by (rule Cons.IH) (use Cons.prems len in simp)
  moreover have "weave_one_page segs ent s addrs pg (buf, ps) =
    bindR (f64.wr_list (off_words segs (page_words ent (page_addrs s addrs pg))) buf)
      (\<lambda>buf'. Inr (buf', set_start s addrs pg ps))"
    by (rule weave_one_page_eq) (use Cons.prems in auto)
  ultimately show ?case by (simp add: f64.wr_list_append bindR_assoc)
qed simp


subsection \<open>The whole image as one list of words\<close>

definition seg_pages :: "segment list \<Rightarrow> int list \<Rightarrow> nat \<Rightarrow> int list" where
  "seg_pages segs locs i = first_occ (map (page_of (segs ! i)) (sort (seg_fixups segs locs i)))"

definition page_list :: "segment list \<Rightarrow> int list \<Rightarrow> nat \<Rightarrow> int \<Rightarrow> int list" where
  "page_list segs locs i pg = page_addrs (segs ! i) (seg_fixups segs locs i) pg"

definition seg_words :: "segment list \<Rightarrow> (int \<Rightarrow> fixup_entry) \<Rightarrow> int list \<Rightarrow> nat \<Rightarrow> (int \<times> int) list" where
  "seg_words segs ent locs i =
     concat (map (\<lambda>pg. page_words ent (page_list segs locs i pg)) (seg_pages segs locs i))"

definition page_count :: "segment \<Rightarrow> int" where
  "page_count s = (vmsize s + PAGE - 1) div PAGE"

definition seg_starts :: "segment list \<Rightarrow> int list \<Rightarrow> nat \<Rightarrow> int list" where
  "seg_starts segs locs i =
     fold (set_start (segs ! i) (seg_fixups segs locs i)) (seg_pages segs locs i)
       (replicate (nat (page_count (segs ! i))) START_NONE)"

lemma page_addrs_sort [simp]: "page_addrs s (sort addrs) pg = page_addrs s addrs pg"
  by (simp add: page_addrs_def filter_sort sorted_sort_id)

lemma weave_one_page_sort [simp]:
  "weave_one_page segs ent s (sort addrs) = weave_one_page segs ent s addrs"
  by (intro ext) (simp add: weave_one_page_def)

lemma mem_seg_fixups: "a \<in> set (seg_fixups segs locs i) \<longleftrightarrow> a \<in> set locs \<and> seg_index segs a = Some i"
  by (auto simp: seg_fixups_def)

lemma mem_page_list:
  "a \<in> set (page_list segs locs i pg) \<longleftrightarrow>
   a \<in> set locs \<and> seg_index segs a = Some i \<and> page_of (segs ! i) a = pg"
  by (auto simp: page_list_def set_page_addrs mem_seg_fixups)

lemma mem_seg_pages:
  "pg \<in> set (seg_pages segs locs i) \<longleftrightarrow> page_list segs locs i pg \<noteq> []"
proof -
  have "page_list segs locs i pg \<noteq> [] \<longleftrightarrow> (\<exists>a. a \<in> set (page_list segs locs i pg))"
    by (cases "page_list segs locs i pg") auto
  then show ?thesis by (auto simp: seg_pages_def mem_page_list mem_seg_fixups)
qed

lemma page_of_bounds:
  assumes "seg_index segs a = Some i"
  shows "0 \<le> page_of (segs ! i) a \<and> page_of (segs ! i) a < page_count (segs ! i)"
  using seg_index_Some [OF assms] by (auto simp: page_of_def page_count_def PAGE_def)

lemma seg_pages_bounds:
  assumes "pg \<in> set (seg_pages segs locs i)"
  shows "0 \<le> pg \<and> pg < page_count (segs ! i)"
proof -
  obtain a where "a \<in> set (page_list segs locs i pg)"
    using assms by (cases "page_list segs locs i pg") (auto simp: mem_seg_pages)
  then show ?thesis using page_of_bounds by (auto simp: mem_page_list)
qed

lemma weave_segment_eq:
  "weave_segment segs ent (segs ! i) (seg_fixups segs locs i) buf =
     bindR (f64.wr_list (off_words segs (seg_words segs ent locs i)) buf)
       (\<lambda>b. Inr (b, seg_starts segs locs i))"
proof -
  let ?s = "segs ! i" and ?as = "seg_fixups segs locs i"
  have "foldR (weave_one_page segs ent ?s ?as) (seg_pages segs locs i)
      (buf, replicate (nat (page_count ?s)) START_NONE) =
    bindR (f64.wr_list (off_words segs (concat (map (\<lambda>pg. page_words ent (page_addrs ?s ?as pg))
        (seg_pages segs locs i)))) buf)
      (\<lambda>buf'. Inr (buf', fold (set_start ?s ?as) (seg_pages segs locs i)
        (replicate (nat (page_count ?s)) START_NONE)))"
  proof (rule weave_pages_eq, intro ballI conjI)
    fix pg assume pg: "pg \<in> set (seg_pages segs locs i)"
    show "page_addrs ?s ?as pg \<noteq> []" using pg by (simp add: mem_seg_pages page_list_def)
    show "0 \<le> pg" and "pg < int (length (replicate (nat (page_count ?s)) START_NONE))"
      using seg_pages_bounds [OF pg] by simp_all
    fix a assume "a \<in> set (page_addrs ?s ?as pg)"
    then show "seg_index segs a \<noteq> None" by (auto simp: set_page_addrs mem_seg_fixups)
  qed
  then show ?thesis
    by (simp add: weave_segment_def Let_def seg_starts_def seg_words_def page_list_def seg_pages_def
        page_count_def)
qed

definition image_words :: "segment list \<Rightarrow> (int \<Rightarrow> fixup_entry) \<Rightarrow> int list \<Rightarrow> (int \<times> int) list" where
  "image_words segs ent locs = concat (map (seg_words segs ent locs) [0..<length segs])"

definition image_starts :: "segment list \<Rightarrow> int list \<Rightarrow> (nat \<times> int list) list" where
  "image_starts segs locs =
     map (\<lambda>i. (i, seg_starts segs locs i))
       (filter (\<lambda>i. seg_fixups segs locs i \<noteq> []) [0..<length segs])"

lemma weave_eq:
  "weave segs ent locs buf =
     bindR (f64.wr_list (off_words segs (image_words segs ent locs)) buf)
       (\<lambda>b. Inr (b, image_starts segs locs))"
proof -
  let ?body = "\<lambda>(i, s) (buf, starts).
         let addrs = seg_fixups segs locs i in
         if addrs = [] then Inr (buf, starts)
         else bindR (weave_segment segs ent s addrs buf) (\<lambda>(buf, pstart).
              Inr (buf, starts @ [(i, pstart)]))"
  have empty: "seg_words segs ent locs i = []" if "seg_fixups segs locs i = []" for i
    using that by (simp add: seg_words_def seg_pages_def first_occ_def)
  have "foldR ?body (map (\<lambda>i. (i, segs ! i)) js) (buf, starts) =
     bindR (f64.wr_list (off_words segs (concat (map (seg_words segs ent locs) js))) buf)
       (\<lambda>b. Inr (b, starts @ map (\<lambda>i. (i, seg_starts segs locs i))
          (filter (\<lambda>i. seg_fixups segs locs i \<noteq> []) js)))" for js starts buf
  proof (induction js arbitrary: buf starts)
    case (Cons j js)
    show ?case
    proof (cases "seg_fixups segs locs j = []")
      case True
      then show ?thesis using Cons.IH by (simp add: empty)
    next
      case False
      then show ?thesis
        by (simp add: weave_segment_eq bindR_assoc f64.wr_list_append Cons.IH)
    qed
  qed simp
  moreover have "zip [0..<length segs] segs = map (\<lambda>i. (i, segs ! i)) [0..<length segs]"
    by (rule nth_equalityI) auto
  ultimately show ?thesis by (simp add: weave_def image_words_def image_starts_def)
qed

lemma distinct_concat_map:
  "distinct is \<Longrightarrow> (\<And>i. i \<in> set is \<Longrightarrow> distinct (f i)) \<Longrightarrow>
   (\<And>i x. i \<in> set is \<Longrightarrow> x \<in> set (f i) \<Longrightarrow> g x = i) \<Longrightarrow> distinct (concat (map f is))"
proof (induction "is")
  case (Cons j js)
  have "set (f j) \<inter> set (concat (map f js)) = {}"
  proof (rule ccontr)
    assume "set (f j) \<inter> set (concat (map f js)) \<noteq> {}"
    then obtain x i where "x \<in> set (f j)" "i \<in> set js" "x \<in> set (f i)" by auto
    then have "g x = j" "g x = i" using Cons.prems(3) by simp_all
    then show False using Cons.prems(1) \<open>i \<in> set js\<close> by simp
  qed
  then show ?case using Cons by simp
qed simp

lemma distinct_image_words:
  assumes "distinct locs"
  shows "distinct (map fst (image_words segs ent locs))"
proof -
  have seg: "map fst (seg_words segs ent locs i) = concat (map (page_list segs locs i) (seg_pages segs locs i))" for i
    by (simp add: seg_words_def map_concat comp_def)
  have "distinct (concat (map (\<lambda>i. concat (map (page_list segs locs i) (seg_pages segs locs i)))
      [0..<length segs]))"
  proof (rule distinct_concat_map [where g = "\<lambda>a. the (seg_index segs a)"])
    fix i
    show "distinct (concat (map (page_list segs locs i) (seg_pages segs locs i)))"
      by (rule distinct_concat_map [where g = "page_of (segs ! i)"])
         (use assms in \<open>auto simp: seg_pages_def page_list_def page_addrs_def seg_fixups_def\<close>)
  next
    fix i x assume "x \<in> set (concat (map (page_list segs locs i) (seg_pages segs locs i)))"
    then show "the (seg_index segs x) = i" by (auto simp: mem_page_list)
  qed simp
  then show ?thesis by (simp add: image_words_def map_concat comp_def seg)
qed

lemma fst_page_words [simp]: "fst ` set (page_words ent as) = set as"
  by (induction as) auto

lemma fst_image_words:
  assumes "a \<in> fst ` set (image_words segs ent locs)"
  obtains i where "i < length segs" "seg_index segs a = Some i" "a \<in> set locs"
proof -
  from assms obtain w where "(a, w) \<in> set (image_words segs ent locs)" by auto
  then obtain i pg where i: "i < length segs" "(a, w) \<in> set (page_words ent (page_list segs locs i pg))"
    by (auto simp: image_words_def seg_words_def)
  have "a \<in> fst ` set (page_words ent (page_list segs locs i pg))"
    using imageI [OF i(2), of fst] by (simp only: fst_conv)
  then have "a \<in> set (page_list segs locs i pg)" by simp
  with i(1) have "i < length segs \<and> a \<in> set (page_list segs locs i pg)" by simp
  then show thesis by (intro that) (auto simp: mem_page_list)
qed


lemma seg_starts_nth:
  assumes "0 \<le> pg" "pg < page_count (segs ! i)"
  shows "seg_starts segs locs i ! nat pg =
    (if page_list segs locs i pg = [] then START_NONE
     else hd (page_list segs locs i pg) - vmaddr (segs ! i) - pg * PAGE)"
proof -
  have "seg_starts segs locs i ! nat pg =
      (if int (nat pg) \<in> set (seg_pages segs locs i)
       then page_start (segs ! i) (seg_fixups segs locs i) (int (nat pg))
       else replicate (nat (page_count (segs ! i))) START_NONE ! nat pg)"
    unfolding seg_starts_def by (rule nth_fold_set_start) (use assms seg_pages_bounds in auto)
  then show ?thesis using assms by (auto simp: mem_seg_pages page_start_def page_list_def)
qed

lemma length_seg_starts [simp]: "length (seg_starts segs locs i) = nat (page_count (segs ! i))"
  by (simp add: seg_starts_def)

lemma weavable_spaced:
  assumes "weavable segs ent locs buf"
  shows "f64.spaced (map fst (off_words segs (image_words segs ent locs)))"
  unfolding f64.spaced_def
proof (intro allI impI)
  let ?ws = "image_words segs ent locs"
  fix i j assume ij: "i < length (map fst (off_words segs ?ws))" "j < i"
  have d: "distinct (map fst ?ws)" using assms by (intro distinct_image_words) (simp add: weavable_def)
  have ne: "fst (?ws ! i) \<noteq> fst (?ws ! j)"
    using d ij nth_eq_iff_index_eq [OF d, of i j] by simp
  have "?ws ! i \<in> set ?ws" "?ws ! j \<in> set ?ws" using ij by simp_all
  then have m: "fst (?ws ! i) \<in> fst ` set ?ws" "fst (?ws ! j) \<in> fst ` set ?ws" by blast+
  obtain k where k: "seg_index segs (fst (?ws ! i)) = Some k" "fst (?ws ! i) \<in> set locs"
    using m(1) by (rule fst_image_words)
  obtain l where l: "seg_index segs (fst (?ws ! j)) = Some l" "fst (?ws ! j) \<in> set locs"
    using m(2) by (rule fst_image_words)
  have "8 \<le> \<bar>off_of segs (fst (?ws ! i)) - off_of segs (fst (?ws ! j))\<bar>"
    using assms ne k l unfolding weavable_def by blast
  then show "int 8 \<le> \<bar>map fst (off_words segs ?ws) ! i - map fst (off_words segs ?ws) ! j\<bar>"
    using ij by (simp add: case_prod_beta)
qed

lemma page_words_word: "(a, w) \<in> set (page_words ent as) \<Longrightarrow> \<exists>nxt. w = entry_word (ent a) nxt"
  by (induction as) auto

lemma weavable_writes:
  assumes "weavable segs ent locs buf"
  shows "\<forall>(p, w) \<in> set (off_words segs (image_words segs ent locs)).
    0 \<le> p \<and> p + int 8 \<le> int (length buf) \<and> (0 \<le> w \<and> w < 256 ^ 8)"
proof (clarsimp)
  fix a w assume aw: "(a, w) \<in> set (image_words segs ent locs)"
  then have "a \<in> fst ` set (image_words segs ent locs)" by force
  then obtain i where "i < length segs" "seg_index segs a = Some i" "a \<in> set locs"
    by (rule fst_image_words)
  then have 1: "0 \<le> off_of segs a \<and> off_of segs a + 8 \<le> int (length buf)"
    using assms unfolding weavable_def by blast
  obtain nxt where w: "w = entry_word (ent a) nxt"
    using aw page_words_word by (fastforce simp: image_words_def seg_words_def)
  show "0 \<le> off_of segs a \<and> off_of segs a + 8 \<le> int (length buf) \<and> 0 \<le> w \<and> w < 18446744073709551616"
    using 1 entry_word_u64 [of "ent a" nxt] by (simp add: w)
qed

lemma weavable_weave:
  assumes "weavable segs ent locs buf"
  obtains b where "f64.wr_list (off_words segs (image_words segs ent locs)) buf = Inr b"
    and "weave segs ent locs buf = Inr (b, image_starts segs locs)"
    and "\<And>a w. (a, w) \<in> set (image_words segs ent locs) \<Longrightarrow> u64 b (off_of segs a) = Inr w"
proof -
  obtain b where b: "f64.wr_list (off_words segs (image_words segs ent locs)) buf = Inr b"
    using f64.wr_list_ok [OF weavable_writes [OF assms]] by blast
  have "u64 b (off_of segs a) = Inr w" if "(a, w) \<in> set (image_words segs ent locs)" for a w
  proof (rule f64.wr_list_read [OF b _ weavable_spaced [OF assms]])
    show "\<forall>(o', v) \<in> set (off_words segs (image_words segs ent locs)). 0 \<le> o'"
      using weavable_writes [OF assms] by blast
    show "(off_of segs a, w) \<in> set (off_words segs (image_words segs ent locs))" using that by force
  qed
  with b show thesis by (intro that) (simp_all add: weave_eq)
qed

lemma page_words_in_image:
  assumes "pg \<in> set (seg_pages segs locs i)" "i < length segs"
    "x \<in> set (page_words ent (page_list segs locs i pg))"
  shows "x \<in> set (image_words segs ent locs)"
  using assms by (auto simp: image_words_def seg_words_def)

lemma page_walk:
  assumes w: "weavable segs ent locs buf" and i: "i < length segs"
    and pg: "page_list segs locs i pg \<noteq> []"
    and rd: "\<And>a v. (a, v) \<in> set (image_words segs ent locs) \<Longrightarrow> u64 b (off_of segs a) = Inr v"
  shows "walk_chain 2048 segs b (hd (page_list segs locs i pg)) =
    Some (map (\<lambda>a. (a, ent a)) (page_list segs locs i pg))"
proof -
  obtain a as where as: "page_list segs locs i pg = a # as" using pg by (cases "page_list segs locs i pg") auto
  have mem: "x \<in> set locs \<and> seg_index segs x = Some i \<and> page_of (segs ! i) x = pg" if "x \<in> set (a # as)" for x
    using that mem_page_list [of x segs locs i pg] unfolding as by blast
  have dv: "8 dvd (x - vmaddr (segs ! i)) \<and> entry_fits (ent x)" if "x \<in> set (a # as)" for x
    using mem [OF that] w i unfolding weavable_def by blast
  have pgs: "x < a + PAGE" if "x \<in> set (a # as)" for x
    using mem [OF that] mem [of a] by (auto simp: page_of_def PAGE_def)
  have "distinct (seg_fixups segs locs i)" using w by (simp add: weavable_def seg_fixups_def)
  then have so: "sorted_wrt (<) (a # as)" using page_addrs_sorted as by (metis page_list_def)
  have al: "\<forall>x \<in> set as. 8 dvd (x - a)"
  proof
    fix x assume "x \<in> set as"
    then have "8 dvd (x - vmaddr (segs ! i))" "8 dvd (a - vmaddr (segs ! i))"
      using dv by simp_all
    then have "8 dvd (x - vmaddr (segs ! i) - (a - vmaddr (segs ! i)))" by (rule dvd_diff)
    then show "8 dvd (x - a)" by simp
  qed
  obtain x where x: "x \<in> set (a # as)" "a + 8 * int (length as) \<le> x"
    using aligned_chain_reach [OF so al] by blast
  have "walk_chain 2048 segs b a = Some (map (\<lambda>a. (a, ent a)) (a # as))"
  proof (rule walk_chain_reads [OF so al, where off = "off_of segs"])
    show "\<forall>x \<in> set (a # as). x < a + PAGE" using pgs by blast
    show "\<forall>x \<in> set (a # as). addr2off segs x = Inr (off_of segs x) \<and> entry_fits (ent x)"
      using mem dv addr2off_off_of by blast
    show "\<forall>(x, v) \<in> set (page_words ent (a # as)). u64 b (off_of segs x) = Inr v"
    proof (clarify)
      fix x v assume "(x, v) \<in> set (page_words ent (a # as))"
      then have "(x, v) \<in> set (image_words segs ent locs)"
        using page_words_in_image i pg mem_seg_pages as by metis
      then show "u64 b (off_of segs x) = Inr v" by (rule rd)
    qed
    show "length as < 2048" using pgs [OF x(1)] x(2) by (simp add: PAGE_def)
  qed
  then show ?thesis by (simp add: as)
qed

text \<open>C1: Weaving never fails on well-formed fixups, and afterwards every page of every segment
  either has no fixups and is marked \<^verbatim>\<open>START_NONE\<close>, or has a start from which the chain, read
  back by its own \<^verbatim>\<open>next\<close> fields, visits exactly the page's fixups in ascending order, each
  decoding to the entry it was given.\<close>

theorem weave_chains:
  assumes "weavable segs ent locs buf"
  shows "\<exists>b. weave segs ent locs buf = Inr (b, image_starts segs locs) \<and> length b = length buf
    \<and> (\<forall>i < length segs. \<forall>pg. 0 \<le> pg \<longrightarrow> pg < page_count (segs ! i) \<longrightarrow>
        (let start = seg_starts segs locs i ! nat pg; as = page_list segs locs i pg in
         if as = [] then start = START_NONE
         else walk_chain 2048 segs b (vmaddr (segs ! i) + pg * PAGE + start) =
           Some (map (\<lambda>a. (a, ent a)) as)))"
proof -
  obtain b where b: "f64.wr_list (off_words segs (image_words segs ent locs)) buf = Inr b"
    "weave segs ent locs buf = Inr (b, image_starts segs locs)"
    "\<And>a w. (a, w) \<in> set (image_words segs ent locs) \<Longrightarrow> u64 b (off_of segs a) = Inr w"
    using weavable_weave [OF assms] by metis
  show ?thesis
    by (rule exI [of _ b])
       (use b(2) f64.wr_list_length [OF b(1)] page_walk [OF assms _ _ b(3)]
         in \<open>auto simp: Let_def seg_starts_nth\<close>)
qed


definition weave_example_seg :: segment where
  "weave_example_seg = \<lparr>seg_name = ascii ''__DATA'', vmaddr = 0x8000, vmsize = 0x6000, fileoff = 8,
     filesize = 0x40, lc_off = 32\<rparr>"

definition weave_example_entry :: "int \<Rightarrow> fixup_entry" where
  "weave_example_entry a =
     (if a = 0x8010
      then \<lparr>fx_kind = Bind, fx_val = 3, fx_auth = True, fx_key = 0, fx_div = 0x61F8, fx_addrdiv = 1, fx_high8 = 0\<rparr>
      else \<lparr>fx_kind = Rebase, fx_val = 0x4321, fx_auth = False, fx_key = 0, fx_div = 0, fx_addrdiv = 0,
            fx_high8 = 0x80\<rparr>)"

lemma weave_chains_witness:
  "\<exists>b. weave [weave_example_seg] weave_example_entry [0x8010, 0x8000] (replicate 64 0)
       = Inr (b, [(0, [0, 0xFFFF])])
     \<and> walk_chain 2048 [weave_example_seg] b 0x8000
       = Some [(0x8000, weave_example_entry 0x8000), (0x8010, weave_example_entry 0x8010)]"
proof -
  let ?s = "[weave_example_seg]" and ?l = "[0x8010, 0x8000] :: int list"
  have w: "weavable ?s weave_example_entry ?l (replicate 64 0)"
    by (auto simp: weavable_def weave_example_seg_def off_of_def entry_fits_def weave_example_entry_def)
  have pl: "page_list ?s ?l 0 0 = [0x8000, 0x8010]"
    by (simp add: page_list_def page_addrs_def seg_fixups_def weave_example_seg_def page_of_def PAGE_def)
  have st: "image_starts ?s ?l = [(0, [0, 0xFFFF])]"
    by (simp add: image_starts_def seg_starts_def seg_pages_def first_occ_def seg_fixups_def
        weave_example_seg_def page_of_def PAGE_def page_count_def set_start_def page_start_def
        page_addrs_def START_NONE_def numeral_2_eq_2)
  have st0: "seg_starts ?s ?l 0 ! nat 0 = 0" using st by (simp add: image_starts_def split: if_splits)
  have pc: "0 < page_count (?s ! 0)" by (simp add: page_count_def weave_example_seg_def PAGE_def)
  have va: "vmaddr (?s ! 0) = 0x8000" by (simp add: weave_example_seg_def)
  obtain b where b: "weave ?s weave_example_entry ?l (replicate 64 0) = Inr (b, image_starts ?s ?l)"
    and pages: "\<forall>i < length ?s. \<forall>pg. 0 \<le> pg \<longrightarrow> pg < page_count (?s ! i) \<longrightarrow>
        (let start = seg_starts ?s ?l i ! nat pg; as = page_list ?s ?l i pg in
         if as = [] then start = START_NONE
         else walk_chain 2048 ?s b (vmaddr (?s ! i) + pg * PAGE + start) =
           Some (map (\<lambda>a. (a, weave_example_entry a)) as))"
    using weave_chains [OF w] by blast
  have "walk_chain 2048 ?s b 0x8000 = Some (map (\<lambda>a. (a, weave_example_entry a)) [0x8000, 0x8010])"
    using pages [rule_format, of 0 0] pc unfolding pl st0 va by (simp add: Let_def)
  then show ?thesis using b st by auto
qed

end
