(* ===== verification/Arm64.thy ===== *)
theory Arm64
  imports MachO Bits
begin

text \<open>
  The instruction words \<^verbatim>\<open>uncache.py\<close> rewrites: the page immediate of an \<^verbatim>\<open>ADRP\<close>, the
  12-bit immediates of \<^verbatim>\<open>ADD\<close> and of the scaled loads and stores, and the authenticated
  import stubs that are built of an \<^verbatim>\<open>ADRP\<close>/\<^verbatim>\<open>ADD\<close> pair.
\<close>

subsection \<open>Immediates\<close>

definition page_base :: "int \<Rightarrow> int" where
  "page_base a = a AND NOT 0xFFF"

definition adrp_target :: "int \<Rightarrow> int \<Rightarrow> int" where
  "adrp_target word pc =
     (let immlo = drop_bit 29 word AND 3;
          immhi = drop_bit 5 word AND 0x7FFFF;
          imm = push_bit 2 immhi OR immlo;
          imm = (if imm AND push_bit 20 1 \<noteq> 0 then imm - push_bit 21 1 else imm)
      in page_base pc + push_bit 12 imm)"

definition set_adrp :: "int \<Rightarrow> int \<Rightarrow> int \<Rightarrow> int" where
  "set_adrp word pc target =
     (let imm = drop_bit 12 (page_base target - page_base pc);
          word = word AND NOT (push_bit 29 3 OR push_bit 5 0x7FFFF)
      in word OR push_bit 29 (imm AND 3) OR push_bit 5 (drop_bit 2 imm AND 0x7FFFF))"

definition add_imm :: "int \<Rightarrow> int" where
  "add_imm word = push_bit (if drop_bit 22 word AND 1 \<noteq> 0 then 12 else 0) (drop_bit 10 word AND 0xFFF)"

definition set_add_imm :: "int \<Rightarrow> int \<Rightarrow> int" where
  "set_add_imm word imm =
     (let word = word AND NOT (push_bit 22 1 OR push_bit 10 0xFFF)
      in word OR push_bit 10 (imm AND 0xFFF))"

text \<open>\<^verbatim>\<open>set_consumer_disp\<close>: the new low-12 byte offset of an \<^verbatim>\<open>ADD\<close> or of a scaled load or store;
  \<^verbatim>\<open>None\<close> is its \<^verbatim>\<open>False\<close>, which leaves the buffer alone.\<close>

definition consumer_word :: "int \<Rightarrow> int \<Rightarrow> int option" where
  "consumer_word w new_off =
     (if w AND 0x7F800000 = 0x11000000 then
        Some ((w AND NOT (push_bit 22 1 OR push_bit 10 0xFFF)) OR push_bit 10 (new_off AND 0xFFF))
      else if w AND 0x3B000000 = 0x39000000 then
        (let scale = drop_bit 30 w AND 3 in
         if new_off AND (push_bit (nat scale) 1 - 1) \<noteq> 0 then None
         else Some ((w AND NOT (push_bit 10 0xFFF)) OR push_bit 10 (drop_bit (nat scale) new_off AND 0xFFF)))
      else None)"

definition set_consumer_disp :: "bytes \<Rightarrow> int \<Rightarrow> int \<Rightarrow> (bytes \<times> bool) res" where
  "set_consumer_disp buf foff new_off =
     bindR (u32 buf foff) (\<lambda>w.
     case consumer_word w new_off of
       None \<Rightarrow> Inr (buf, False)
     | Some w' \<Rightarrow> bindR (p32 buf foff w') (\<lambda>buf. Inr (buf, True)))"

lemma bits_and [bits_simps]: "bits k w (x AND y) = bits k w x AND bits k w y"
  by (simp add: bits_def)

lemma bits_fld_within: "m \<le> k \<Longrightarrow> k + w \<le> m + n \<Longrightarrow> bits k w (fld m n x) = bits (k - m) w x"
  by (rule bit_eqI) (auto simp: bits_def fld_def bit_simps)

lemma bits_mask: "bits k w x AND (2 ^ w - 1) = bits k w x"
  by (simp add: bits_def flip: mask_eq_exp_minus_1 take_bit_eq_mask)

lemma page_base_eq: "page_base a = 4096 * (a div 4096)"
proof -
  have "page_base a = push_bit 12 (drop_bit 12 a)"
    unfolding page_base_def
  proof (rule bit_eqI)
    fix n
    have "bit (0xFFF :: int) n \<longleftrightarrow> n < 12"
    proof -
      have m: "(0xFFF :: int) = mask 12" by (simp add: mask_eq_exp_minus_1)
      show ?thesis unfolding m bit_mask_iff by simp
    qed
    then show "bit (a AND NOT 0xFFF) n = bit (push_bit 12 (drop_bit 12 a)) n"
      by (auto simp: bit_simps)
  qed
  then show ?thesis by (simp add: push_bit_eq_mult drop_bit_eq_div)
qed

lemma page_delta: "drop_bit 12 (page_base t - page_base p) = t div 4096 - p div 4096"
proof -
  have "page_base t - page_base p = push_bit 12 (t div 4096 - p div 4096)"
    by (simp add: page_base_eq push_bit_eq_mult)
  then show ?thesis by (simp add: drop_bit_eq_div push_bit_eq_mult)
qed

lemma imm_masks:
  "x AND (0x7FFFF::int) = take_bit 19 x" "x AND (0xFFF::int) = take_bit 12 x"
  "x AND (3::int) = take_bit 2 x" "x AND (1::int) = take_bit 1 x"
  by (simp_all add: take_bit_eq_mask mask_eq_exp_minus_1)

lemma set_adrp_form:
  "set_adrp w p t =
     (w AND NOT 0x60FFFFE0) OR fld 29 2 (t div 4096 - p div 4096)
       OR fld 5 19 (drop_bit 2 (t div 4096 - p div 4096))"
  by (simp add: set_adrp_def Let_def page_delta imm_masks fld_def)

lemma set_adrp_bits:
  "bits 29 2 (set_adrp w p t) = bits 0 2 (t div 4096 - p div 4096)"
  "bits 5 19 (set_adrp w p t) = bits 2 19 (t div 4096 - p div 4096)"
  "bits 0 5 (set_adrp w p t) = bits 0 5 w"
  "bits 24 5 (set_adrp w p t) = bits 24 5 w"
  "bits 31 1 (set_adrp w p t) = bits 31 1 w"
proof -
  have c: "bits 29 2 (NOT 0x60FFFFE0) = 0" "bits 5 19 (NOT 0x60FFFFE0) = 0"
    "bits 0 5 (NOT 0x60FFFFE0) = 2 ^ 5 - 1" "bits 24 5 (NOT 0x60FFFFE0) = 2 ^ 5 - 1"
    "bits 31 1 (NOT 0x60FFFFE0) = 2 ^ 1 - 1"
    by (simp_all add: bits_mod del: One_nat_def)
  show "bits 29 2 (set_adrp w p t) = bits 0 2 (t div 4096 - p div 4096)"
    and "bits 5 19 (set_adrp w p t) = bits 2 19 (t div 4096 - p div 4096)"
    and "bits 0 5 (set_adrp w p t) = bits 0 5 w"
    and "bits 24 5 (set_adrp w p t) = bits 24 5 w"
    and "bits 31 1 (set_adrp w p t) = bits 31 1 w"
    unfolding set_adrp_form bits_or bits_and c bits_mask
    by (simp_all add: bits_simps del: One_nat_def) (simp_all add: bits_def)
qed

lemma adrp_target_form:
  "adrp_target w p = page_base p +
     4096 * (let imm = push_bit 2 (bits 5 19 w) OR bits 29 2 w in if bit imm 20 then imm - 2 ^ 21 else imm)"
proof -
  have "(x AND push_bit 20 1 \<noteq> 0) = bit x 20" for x :: int
    unfolding bit_iff_and_push_bit_not_eq_0 ..
  then show ?thesis
    by (simp add: adrp_target_def Let_def bits_def imm_masks push_bit_eq_mult [of 12] push_bit_eq_mult [of 21])
qed

lemma imm21_join: "push_bit 2 (bits 2 19 x) OR bits 0 2 x = take_bit 21 x"
proof (rule bit_eqI)
  fix n
  show "bit (push_bit 2 (bits 2 19 x) OR bits 0 2 x) n = bit (take_bit 21 x) n"
  proof (cases "n < 2")
    case False
    then obtain m where "n = m + 2" by (metis le_add_diff_inverse2 not_less)
    then show ?thesis by (auto simp: bits_def bit_simps)
  qed (auto simp: bits_def bit_simps)
qed

text \<open>The signed 21-bit reading of a page distance.\<close>

definition wrap21 :: "int \<Rightarrow> int" where
  "wrap21 d = (if d mod 2 ^ 21 < 2 ^ 20 then d mod 2 ^ 21 else d mod 2 ^ 21 - 2 ^ 21)"

lemma wrap21_id: "- (2 ^ 20) \<le> d \<Longrightarrow> d < 2 ^ 20 \<Longrightarrow> wrap21 d = d"
proof (cases "0 \<le> d")
  case True
  assume "d < 2 ^ 20"
  with True have "d mod 2 ^ 21 = d" by (intro mod_pos_pos_trivial) simp_all
  with \<open>d < 2 ^ 20\<close> show ?thesis by (simp only: wrap21_def if_True)
next
  case False
  assume "- (2 ^ 20) \<le> d"
  with False have "(d + 2 ^ 21) mod 2 ^ 21 = d + 2 ^ 21" by (intro mod_pos_pos_trivial) simp_all
  then have "d mod 2 ^ 21 = d + 2 ^ 21" by (simp only: mod_add_self2)
  with \<open>- (2 ^ 20) \<le> d\<close> show ?thesis by (simp add: wrap21_def)
qed

lemma adrp_target_set: "adrp_target (set_adrp w p t) p = page_base p + 4096 * wrap21 (t div 4096 - p div 4096)"
proof -
  have odd_top: "odd (m div 2 ^ 20) \<longleftrightarrow> \<not> m < 2 ^ 20" if "0 \<le> m" "m < 2 ^ 21" for m :: int
  proof (cases "m < 2 ^ 20")
    case True
    then have "m div 2 ^ 20 = 0" using that by (intro div_pos_pos_trivial)
    then show ?thesis using True by simp
  next
    case False
    then have "m div 2 ^ 20 = 1" using that by (intro int_div_pos_eq [where r = "m - 2 ^ 20"]) auto
    then show ?thesis using False by simp
  qed
  have b: "bit (d mod 2 ^ 21) 20 \<longleftrightarrow> \<not> d mod 2 ^ 21 < 2 ^ 20" for d :: int
    unfolding bit_iff_odd by (rule odd_top) simp_all
  show ?thesis
    unfolding adrp_target_form set_adrp_bits imm21_join wrap21_def Let_def take_bit_eq_mod b
    by (cases "(t div 4096 - p div 4096) mod 2 ^ 21 < 2 ^ 20")
       (simp_all only: if_True if_False not_True_eq_False not_False_eq_True)
qed

lemma adrp_round_trip:
  assumes "- (2 ^ 32) \<le> page_base t - page_base p" "page_base t - page_base p < 2 ^ 32"
  shows "adrp_target (set_adrp w p t) p = page_base t"
proof -
  have "wrap21 (t div 4096 - p div 4096) = t div 4096 - p div 4096"
    by (rule wrap21_id) (use assms in \<open>auto simp: page_base_eq\<close>)
  then show ?thesis by (simp add: adrp_target_set page_base_eq)
qed

lemma set_adrp_u32: "0 \<le> w \<Longrightarrow> w < 2 ^ 32 \<Longrightarrow> 0 \<le> set_adrp w p t \<and> set_adrp w p t < 2 ^ 32"
proof -
  assume w: "0 \<le> w" "w < 2 ^ 32"
  then have "0 \<le> w AND NOT 0x60FFFFE0" "w AND NOT 0x60FFFFE0 < 2 ^ 32"
    using AND_upper1 [of w "NOT 0x60FFFFE0"] by auto
  then show ?thesis unfolding set_adrp_form
    by (auto intro!: or_less fld_less or_nonneg simp del: power_numeral)
qed

lemma set_add_imm_form: "set_add_imm w v = (w AND NOT 0x7FFC00) OR fld 10 12 v"
  by (simp add: set_add_imm_def Let_def imm_masks fld_def)

lemma set_add_imm_u32: "0 \<le> w \<Longrightarrow> w < 2 ^ 32 \<Longrightarrow> 0 \<le> set_add_imm w v \<and> set_add_imm w v < 2 ^ 32"
proof -
  assume w: "0 \<le> w" "w < 2 ^ 32"
  then have "0 \<le> w AND NOT 0x7FFC00" "w AND NOT 0x7FFC00 < 2 ^ 32"
    using AND_upper1 [of w "NOT 0x7FFC00"] by auto
  then show ?thesis unfolding set_add_imm_form
    by (auto intro!: or_less fld_less or_nonneg simp del: power_numeral)
qed

lemma add_imm_set: "add_imm (set_add_imm w v) = v mod 4096"
proof -
  have c: "bits 22 1 (NOT 0x7FFC00) = 0" "bits 10 12 (NOT 0x7FFC00) = 0"
    by (simp_all add: bits_mod del: One_nat_def)
  have "bits 22 1 (set_add_imm w v) = 0" "bits 10 12 (set_add_imm w v) = take_bit 12 v"
    unfolding set_add_imm_form bits_or bits_and c by (simp_all add: bits_simps del: One_nat_def)
  then show ?thesis
    by (simp add: add_imm_def bits_def imm_masks take_bit_eq_mod del: One_nat_def)
qed

end
