(* ===== verification/Auth_Stubs.thy ===== *)
theory Auth_Stubs
  imports Arm64
begin

text \<open>
  \<^verbatim>\<open>fix_auth_stubs\<close>: the shared cache empties an image's \<^verbatim>\<open>__auth_got\<close>; every 16-byte stub of
  \<^verbatim>\<open>__auth_stubs\<close> gets a slot again (its own one, or a free one when the cache pointed it out
  of the image) and its \<^verbatim>\<open>ADRP\<close>/\<^verbatim>\<open>ADD\<close> pair is pointed there. The symbol names come from the
  \<^verbatim>\<open>ipsw a2s\<close> database, the parameter \<open>syms\<close>; \<open>amap\<close> maps old addresses to new ones.
\<close>

definition find_sect_in :: "bytes \<Rightarrow> segment list \<Rightarrow> bytes \<Rightarrow> (int \<times> int \<times> int) option res" where
  "find_sect_in buf osegs sect =
     firstR (\<lambda>s. bindR (u32 buf (lc_off s + 64)) (\<lambda>ns.
       firstR (\<lambda>so. if cstr16 buf so = sect
                     then bindR (u64x2 buf (so + 32)) (\<lambda>(sa, ssz).
                          bindR (u32 buf (so + 48)) (\<lambda>fo. Inr (Some (sa, ssz, fo))))
                     else Inr None) (sect_offs (lc_off s) ns))) osegs"

definition stub_offs :: "int \<Rightarrow> int list" where
  "stub_offs ssz = map (\<lambda>k. int k * 16) [0..<nat ((ssz - 12 + 15) div 16)]"

record stub =
  st_fo :: int
  st_addr :: int
  st_got :: int

definition collect_stub :: "bytes \<Rightarrow> int \<Rightarrow> int \<Rightarrow> int \<Rightarrow> int \<Rightarrow> stub list \<Rightarrow> stub list res" where
  "collect_stub buf sfo sa text_delta o' stubs =
     bindR (u32 buf (sfo + o')) (\<lambda>adrp.
     bindR (u32 buf (sfo + o' + 4)) (\<lambda>add.
     if adrp AND 0x9F000000 \<noteq> 0x90000000 then Inr stubs
     else Inr (stubs @ [\<lparr>st_fo = sfo + o', st_addr = sa + o',
            st_got = adrp_target adrp (sa + o' - text_delta) + add_imm add\<rparr>])))"

definition stub_name :: "(int \<Rightarrow> bytes option) \<Rightarrow> int \<Rightarrow> bytes option" where
  "stub_name syms g =
     (case syms g of None \<Rightarrow> None
      | Some n \<Rightarrow> (let n = (if prefix (ascii ''_ptr.'') n then drop 5 n else n)
                  in if n = [] then None else Some n))"

definition repoint :: "bytes \<Rightarrow> int \<Rightarrow> int \<Rightarrow> int \<Rightarrow> bytes res" where
  "repoint buf fo A slot =
     bindR (u32 buf fo) (\<lambda>w.
     bindR (p32 buf fo (set_adrp w A slot)) (\<lambda>buf.
     bindR (u32 buf (fo + 4)) (\<lambda>w.
     p32 buf (fo + 4) (set_add_imm w (slot AND 0xFFF)))))"

definition fix_stub ::
    "(int \<Rightarrow> bytes option) \<Rightarrow> (int \<Rightarrow> int option) \<Rightarrow> stub \<Rightarrow> bytes \<times> int list \<times> (int \<times> bytes) list
     \<Rightarrow> (bytes \<times> int list \<times> (int \<times> bytes) list) res" where
  "fix_stub syms amap st = (\<lambda>(buf, free, binds).
     case stub_name syms (st_got st) of
       None \<Rightarrow> Inr (buf, free, binds)
     | Some name \<Rightarrow>
         (case (case amap (st_got st) of Some slot \<Rightarrow> Some (slot, free)
                | None \<Rightarrow> (case free of [] \<Rightarrow> None | slot # free \<Rightarrow> Some (slot, free))) of
            None \<Rightarrow> Inr (buf, free, binds)
          | Some (slot, free) \<Rightarrow>
              bindR (repoint buf (st_fo st) (st_addr st) slot) (\<lambda>buf.
              Inr (buf, free, binds @ [(slot, name)]))))"

definition free_slots :: "(int \<Rightarrow> int option) \<Rightarrow> stub list \<Rightarrow> int \<Rightarrow> int \<Rightarrow> int list" where
  "free_slots amap stubs ag_va ag_sz =
     filter (\<lambda>x. \<forall>st \<in> set stubs. amap (st_got st) \<noteq> Some x)
       (map (\<lambda>j. ag_va + int j * 8) [0..<nat (ag_sz div 8)])"

definition fix_auth_stubs ::
    "(int \<Rightarrow> bytes option) \<Rightarrow> (int \<Rightarrow> int option) \<Rightarrow> bytes \<Rightarrow> segment list \<Rightarrow> int
     \<Rightarrow> (bytes \<times> (int \<times> bytes) list) res" where
  "fix_auth_stubs syms amap buf osegs text_delta =
     bindR (find_sect_in buf osegs (ascii ''__auth_stubs'')) (\<lambda>st.
     bindR (find_sect_in buf osegs (ascii ''__auth_got'')) (\<lambda>ag.
     case (st, ag) of
       (Some (sa, ssz, sfo), Some (ag_va, ag_sz, _)) \<Rightarrow>
         bindR (foldR (collect_stub buf sfo sa text_delta) (stub_offs ssz) []) (\<lambda>stubs.
         if stubs = [] then Inr (buf, [])
         else bindR (foldR (fix_stub syms amap) stubs (buf, free_slots amap stubs ag_va ag_sz, []))
           (\<lambda>(buf, _, binds). Inr (buf, binds)))
     | _ \<Rightarrow> Inr (buf, [])))"

subsection \<open>The slot each stub gets\<close>

text \<open>The assignment, apart from the buffer: (stub, slot, name) in stub order.\<close>

fun stub_plan :: "(int \<Rightarrow> bytes option) \<Rightarrow> (int \<Rightarrow> int option) \<Rightarrow> int list \<Rightarrow> stub list
    \<Rightarrow> (stub \<times> int \<times> bytes) list" where
  "stub_plan syms amap free [] = []"
| "stub_plan syms amap free (st # sts) =
     (case stub_name syms (st_got st) of
        None \<Rightarrow> stub_plan syms amap free sts
      | Some name \<Rightarrow>
          (case amap (st_got st) of
             Some slot \<Rightarrow> (st, slot, name) # stub_plan syms amap free sts
           | None \<Rightarrow> (case free of
               [] \<Rightarrow> stub_plan syms amap free sts
             | slot # free \<Rightarrow> (st, slot, name) # stub_plan syms amap free sts)))"

definition apply_plan :: "(stub \<times> int \<times> bytes) list \<Rightarrow> bytes \<Rightarrow> bytes res" where
  "apply_plan = foldR (\<lambda>(st, slot, _) buf. repoint buf (st_fo st) (st_addr st) slot)"

lemma fold_fix_stub:
  "\<exists>free'. foldR (fix_stub syms amap) sts (buf, free, binds) =
     bindR (apply_plan (stub_plan syms amap free sts) buf)
       (\<lambda>buf'. Inr (buf', free', binds @ map snd (stub_plan syms amap free sts)))"
proof (induction sts arbitrary: buf free binds)
  case (Cons st sts)
  have skip: "fix_stub syms amap st (buf, free, binds) = Inr (buf, free, binds)"
      "stub_plan syms amap free (st # sts) = stub_plan syms amap free sts"
    if "stub_name syms (st_got st) = None \<or> amap (st_got st) = None \<and> free = []"
    using that by (auto simp: fix_stub_def split: option.splits)
  have take: ?case
    if f: "fix_stub syms amap st (buf, free, binds) =
        bindR (repoint buf (st_fo st) (st_addr st) slot) (\<lambda>buf. Inr (buf, fr, binds @ [(slot, name)]))"
      and p: "stub_plan syms amap free (st # sts) = (st, slot, name) # stub_plan syms amap fr sts"
    for slot name fr
  proof (cases "repoint buf (st_fo st) (st_addr st) slot")
    case (Inr b)
    then show ?thesis using Cons.IH [of b fr "binds @ [(slot, name)]"] f p
      by (simp add: apply_plan_def del: stub_plan.simps)
  qed (simp add: f p apply_plan_def del: stub_plan.simps)
  show ?case
  proof (cases "stub_name syms (st_got st)")
    case None
    then show ?thesis using Cons.IH [of buf free binds] skip by simp
  next
    case name: (Some name)
    show ?thesis
    proof (cases "amap (st_got st)")
      case (Some slot)
      then show ?thesis by (intro take [of slot free name]) (auto simp: fix_stub_def name)
    next
      case None
      show ?thesis
      proof (cases free)
        case Nil
        then show ?thesis using Cons.IH [of buf free binds] skip None by simp
      next
        case (Cons slot fr)
        then show ?thesis using None by (intro take [of slot fr name]) (auto simp: fix_stub_def name)
      qed
    qed
  qed
qed (simp add: apply_plan_def)

lemma stub_plan_in: "(st, slot, name) \<in> set (stub_plan syms amap free sts) \<Longrightarrow> st \<in> set sts"
  by (induction sts arbitrary: free) (auto split: option.splits list.splits)

lemma stub_plan_slot:
  "(st, slot, name) \<in> set (stub_plan syms amap free sts) \<Longrightarrow>
   amap (st_got st) = Some slot \<or> amap (st_got st) = None \<and> slot \<in> set free"
  by (induction sts arbitrary: free) (fastforce split: option.splits list.splits)+

lemma stub_plan_name:
  "(st, slot, name) \<in> set (stub_plan syms amap free sts) \<Longrightarrow> stub_name syms (st_got st) = Some name"
  by (induction sts arbitrary: free) (auto split: option.splits list.splits)

text \<open>Slots handed out fresh are pairwise different.\<close>

definition fresh_of :: "(int \<Rightarrow> int option) \<Rightarrow> (stub \<times> int \<times> bytes) list \<Rightarrow> int list" where
  "fresh_of amap plan = map (fst \<circ> snd) (filter (\<lambda>(st, _). amap (st_got st) = None) plan)"

lemma fresh_of_simps [simp]:
  "fresh_of amap [] = []"
  "fresh_of amap ((st, slot, name) # plan) =
     (if amap (st_got st) = None then slot # fresh_of amap plan else fresh_of amap plan)"
  by (simp_all add: fresh_of_def)

lemma fresh_of_free: "set (fresh_of amap (stub_plan syms amap free sts)) \<subseteq> set free"
  using stub_plan_slot [of _ _ _ syms amap free sts] by (fastforce simp: fresh_of_def)

lemma stub_plan_fresh_distinct:
  "distinct free \<Longrightarrow> distinct (fresh_of amap (stub_plan syms amap free sts))"
proof (induction sts arbitrary: free)
  case (Cons st sts)
  note IH = Cons.IH [OF Cons.prems]
  show ?case
  proof (cases "stub_name syms (st_got st)")
    case None
    then show ?thesis using IH by simp
  next
    case name: (Some name)
    show ?thesis
    proof (cases "amap (st_got st)")
      case (Some slot)
      then show ?thesis using IH name by simp
    next
      case None
      show ?thesis
      proof (cases free)
        case Nil
        then show ?thesis using IH name None by simp
      next
        case free: (Cons slot fr)
        then have "distinct (fresh_of amap (stub_plan syms amap fr sts))" "slot \<notin> set fr"
          using Cons by simp_all
        then show ?thesis using name None free fresh_of_free [of amap syms fr sts] by auto
      qed
    qed
  qed
qed simp

subsection \<open>Where a repointed stub leads\<close>

definition stub_leads :: "bytes \<Rightarrow> int \<Rightarrow> int \<Rightarrow> int res" where
  "stub_leads buf fo A =
     bindR (u32 buf fo) (\<lambda>adrp. bindR (u32 buf (fo + 4)) (\<lambda>add. Inr (adrp_target adrp A + add_imm add)))"

text \<open>A slot within the reach of an \<^verbatim>\<open>ADRP\<close> at \<open>A\<close>.\<close>

definition adrp_reach :: "int \<Rightarrow> int \<Rightarrow> bool" where
  "adrp_reach A slot \<longleftrightarrow>
     - (2 ^ 32) \<le> page_base slot - page_base A \<and> page_base slot - page_base A < 2 ^ 32"

lemma repoint_outside:
  assumes "repoint buf fo A slot = Inr buf'" "0 \<le> fo"
  shows "same_outside (\<lambda>k. fo \<le> int k \<and> int k < fo + 8) buf buf'"
proof -
  from assms obtain w b w' where b: "p32 buf fo (set_adrp w A slot) = Inr b"
    and b': "p32 b (fo + 4) (set_add_imm w' (slot AND 0xFFF)) = Inr buf'"
    by (auto simp: repoint_def bindR_Inr_iff)
  have "same_outside (\<lambda>k. fo \<le> int k \<and> int k < fo + 8) buf b"
    by (rule same_outside_mono [OF same_outside_pack_u [OF b assms(2)]]) auto
  moreover have "same_outside (\<lambda>k. fo \<le> int k \<and> int k < fo + 8) b buf'"
    by (rule same_outside_mono [OF same_outside_pack_u [OF b']]) (use assms(2) in auto)
  ultimately show ?thesis by (rule same_outside_trans)
qed

lemma repoint_ok:
  assumes "0 \<le> fo" "fo + 8 \<le> int (length buf)"
  shows "\<exists>buf'. repoint buf fo A slot = Inr buf'"
proof -
  have rd: "\<exists>w. u32 b fo' = Inr w \<and> 0 \<le> w \<and> w < 2 ^ 32"
    if "0 \<le> fo'" "fo' + 4 \<le> int (length b)" for b fo'
    using that unpack_u_ok_iff [of fo' 4 b] unpack_u_bounds [of 4 b fo'] by (auto simp: is_ok_iff)
  obtain w where w: "u32 buf fo = Inr w" "0 \<le> w \<and> w < 2 ^ 32" using rd [of fo buf] assms by auto
  obtain b where b: "p32 buf fo (set_adrp w A slot) = Inr b"
    using f32.wr_ok [of fo buf "set_adrp w A slot"] assms set_adrp_u32 [of w A slot] w(2) by auto
  have lb: "length b = length buf" by (rule f32.wr_len [OF b])
  obtain w' where w': "u32 b (fo + 4) = Inr w'" "0 \<le> w' \<and> w' < 2 ^ 32"
    using rd [of "fo + 4" b] assms lb by auto
  obtain b' where "p32 b (fo + 4) (set_add_imm w' (slot AND 0xFFF)) = Inr b'"
    using f32.wr_ok [of "fo + 4" b] assms set_add_imm_u32 [of w' "slot AND 0xFFF"] w'(2) lb by auto
  then show ?thesis by (simp add: repoint_def w b w')
qed

lemma repoint_leads:
  assumes r: "repoint buf fo A slot = Inr buf'" and fo: "0 \<le> fo" and reach: "adrp_reach A slot"
  shows "stub_leads buf' fo A = Inr slot"
proof -
  from r obtain w b w' where b: "p32 buf fo (set_adrp w A slot) = Inr b"
    and b': "p32 b (fo + 4) (set_add_imm w' (slot AND 0xFFF)) = Inr buf'"
    by (auto simp: repoint_def bindR_Inr_iff)
  have "u32 buf' fo = Inr (set_adrp w A slot)"
    using f32.rd_wr_same [OF b] f32.rd_wr_other [OF b', of fo 4] fo by simp
  moreover have "u32 buf' (fo + 4) = Inr (set_add_imm w' (slot AND 0xFFF))"
    by (rule f32.rd_wr_same [OF b'])
  moreover have "adrp_target (set_adrp w A slot) A = page_base slot"
    by (rule adrp_round_trip) (use reach in \<open>auto simp: adrp_reach_def\<close>)
  moreover have "page_base slot + (slot AND 0xFFF) mod 4096 = slot"
    by (simp add: page_base_eq imm_masks take_bit_eq_mod)
  ultimately show ?thesis by (simp add: stub_leads_def add_imm_set)
qed

lemma stub_leads_outside:
  assumes "same_outside R b b'" "0 \<le> fo" "\<And>k. fo \<le> int k \<Longrightarrow> int k < fo + 8 \<Longrightarrow> \<not> R k"
  shows "stub_leads b' fo A = stub_leads b fo A"
  using same_outside_unpack_u [OF assms(1), of fo 4] same_outside_unpack_u [OF assms(1), of "fo + 4" 4] assms
  by (simp add: stub_leads_def)

text \<open>Stubs 16 bytes apart, inside the buffer, whose slots are in reach.\<close>

definition plan_apart :: "int list \<Rightarrow> bool" where
  "plan_apart fos \<longleftrightarrow> sorted_wrt (\<lambda>x y. x + 8 \<le> y) fos"

lemma apply_plan_outside:
  assumes "apply_plan plan buf = Inr buf'" "\<forall>(st, _) \<in> set plan. 0 \<le> st_fo st"
  shows "same_outside (\<lambda>k. \<exists>(st, _) \<in> set plan. st_fo st \<le> int k \<and> int k < st_fo st + 8) buf buf'"
  using assms
proof (induction plan arbitrary: buf)
  case (Cons x plan)
  obtain st slot name where x: "x = (st, slot, name)" by (cases x)
  from Cons.prems(1) obtain b where b: "repoint buf (st_fo st) (st_addr st) slot = Inr b"
    and r: "apply_plan plan b = Inr buf'"
    by (auto simp: apply_plan_def x bindR_Inr_iff)
  show ?case
  proof (rule same_outside_trans)
    show "same_outside (\<lambda>k. \<exists>(st, _) \<in> set (x # plan). st_fo st \<le> int k \<and> int k < st_fo st + 8) buf b"
      by (rule same_outside_mono [OF repoint_outside [OF b]]) (use Cons.prems(2) x in auto)
    show "same_outside (\<lambda>k. \<exists>(st, _) \<in> set (x # plan). st_fo st \<le> int k \<and> int k < st_fo st + 8) b buf'"
      by (rule same_outside_mono [OF Cons.IH [OF r]]) (use Cons.prems(2) in auto)
  qed
qed (simp add: apply_plan_def)

lemma apply_plan_leads:
  assumes "apply_plan plan buf = Inr buf'" "plan_apart (map (st_fo \<circ> fst) plan)"
    "\<forall>(st, slot, name) \<in> set plan. 0 \<le> st_fo st \<and> adrp_reach (st_addr st) slot"
  shows "\<forall>(st, slot, name) \<in> set plan. stub_leads buf' (st_fo st) (st_addr st) = Inr slot"
  using assms
proof (induction plan arbitrary: buf)
  case (Cons x plan)
  obtain st slot name where x: "x = (st, slot, name)" by (cases x)
  from Cons.prems(1) obtain b where b: "repoint buf (st_fo st) (st_addr st) slot = Inr b"
    and r: "apply_plan plan b = Inr buf'"
    by (auto simp: apply_plan_def x bindR_Inr_iff)
  have fo: "0 \<le> st_fo st" "adrp_reach (st_addr st) slot" using Cons.prems(3) by (auto simp: x)
  have "stub_leads buf' (st_fo st) (st_addr st) = stub_leads b (st_fo st) (st_addr st)"
  proof (rule stub_leads_outside [OF apply_plan_outside [OF r] fo(1)])
    show "\<forall>(st, _) \<in> set plan. 0 \<le> st_fo st" using Cons.prems(3) by auto
    fix k assume k: "st_fo st \<le> int k" "int k < st_fo st + 8"
    show "\<not> (\<exists>(st, _) \<in> set plan. st_fo st \<le> int k \<and> int k < st_fo st + 8)"
      using Cons.prems(2) k by (fastforce simp: plan_apart_def x)
  qed
  moreover have "\<forall>(st, slot, name) \<in> set plan. stub_leads buf' (st_fo st) (st_addr st) = Inr slot"
    by (rule Cons.IH [OF r]) (use Cons.prems in \<open>auto simp: plan_apart_def\<close>)
  ultimately show ?case using repoint_leads [OF b fo] by (simp add: x)
qed simp


subsection \<open>The whole pass\<close>

lemma collect_stub_Inr:
  "collect_stub buf sfo sa td o' stubs = Inr stubs' \<Longrightarrow>
   stubs' = stubs \<or> (\<exists>st. stubs' = stubs @ [st] \<and> st_fo st = sfo + o' \<and> is_ok (u32 buf (sfo + o' + 4)))"
  by (auto simp: collect_stub_def bindR_Inr_iff split: if_splits)

lemma collect_stubs_fo:
  assumes "foldR (collect_stub buf sfo sa td) os stubs = Inr stubs'"
    "sorted_wrt (\<lambda>x y. x + 16 \<le> y) os" "\<forall>o' \<in> set os. 0 \<le> o'" "0 \<le> sfo"
    "plan_apart (map st_fo stubs)" "\<forall>st \<in> set stubs. \<forall>o' \<in> set os. st_fo st + 8 \<le> sfo + o'"
    "\<forall>st \<in> set stubs. 0 \<le> st_fo st \<and> st_fo st + 8 \<le> int (length buf)"
  shows "plan_apart (map st_fo stubs') \<and> (\<forall>st \<in> set stubs'. 0 \<le> st_fo st \<and> st_fo st + 8 \<le> int (length buf))"
  using assms
proof (induction os arbitrary: stubs)
  case (Cons o' os)
  from Cons.prems(1) obtain m where m: "collect_stub buf sfo sa td o' stubs = Inr m"
    and r: "foldR (collect_stub buf sfo sa td) os m = Inr stubs'"
    by (auto simp: bindR_Inr_iff)
  show ?case
  proof (rule Cons.IH [OF r])
    have o'0: "0 \<le> sfo + o' + 4" using Cons.prems(3,4) by simp
    have len: "sfo + o' + 8 \<le> int (length buf)" if "is_ok (u32 buf (sfo + o' + 4))"
      using that unpack_u_ok_iff [OF o'0, of 4 buf] by simp
    show "plan_apart (map st_fo m)"
      using collect_stub_Inr [OF m] Cons.prems(5,6) by (auto simp: plan_apart_def sorted_wrt_append)
    show "\<forall>st \<in> set m. \<forall>o' \<in> set os. st_fo st + 8 \<le> sfo + o'"
      using collect_stub_Inr [OF m] Cons.prems(2,6) by fastforce
    show "\<forall>st \<in> set m. 0 \<le> st_fo st \<and> st_fo st + 8 \<le> int (length buf)"
      using collect_stub_Inr [OF m] Cons.prems(3,4,7) len by auto
  qed (use Cons.prems in auto)
qed simp

lemma sorted_upt_scale: "sorted_wrt (\<lambda>x y. x + 16 \<le> y) (map (\<lambda>k. int k * 16) [m..<n])"
  by (auto simp: sorted_wrt_iff_nth_less)

lemma stub_plan_apart:
  "sorted_wrt P (map st_fo sts) \<Longrightarrow> sorted_wrt P (map (st_fo \<circ> fst) (stub_plan syms amap free sts))"
  by (induction sts arbitrary: free) (auto split: option.splits list.splits dest!: stub_plan_in)

lemma apply_plan_ok:
  "\<forall>(st, _) \<in> set plan. 0 \<le> st_fo st \<and> st_fo st + 8 \<le> int (length buf) \<Longrightarrow> \<exists>buf'. apply_plan plan buf = Inr buf'"
proof (induction plan arbitrary: buf)
  case (Cons x plan)
  obtain st slot name where x: "x = (st, slot, name)" by (cases x)
  have fo: "0 \<le> st_fo st" "st_fo st + 8 \<le> int (length buf)" using Cons.prems by (auto simp: x)
  obtain b where b: "repoint buf (st_fo st) (st_addr st) slot = Inr b" using repoint_ok [OF fo] by blast
  have "length b = length buf" by (rule same_outside_length [OF repoint_outside [OF b fo(1)]])
  then show ?case using Cons by (simp add: apply_plan_def x b)
qed (simp add: apply_plan_def)

lemma find_sect_in_bounds:
  assumes "find_sect_in buf osegs n = Inr (Some (sa, sz, fo))"
  shows "0 \<le> fo"
proof -
  from firstR_Some [OF assms [unfolded find_sect_in_def]] obtain s :: segment and ns where
    s: "firstR (\<lambda>so. if cstr16 buf so = n
         then bindR (u64x2 buf (so + 32)) (\<lambda>(sa, ssz). bindR (u32 buf (so + 48)) (\<lambda>fo. Inr (Some (sa, ssz, fo))))
         else Inr None) (sect_offs (lc_off s) ns) = Inr (Some (sa, sz, fo))"
    by (auto simp: bindR_Inr_iff)
  show ?thesis using firstR_Some [OF s] unpack_u_bounds
    by (auto simp: bindR_Inr_iff split: if_splits)
qed

text \<open>C2: After the pass every repointed stub, decoded from the rewritten words, leads to the slot
  it was given, under its symbol; a stub whose cache target maps into the image keeps its own
  slot, the fresh slots are pairwise different, and no fresh slot is one an in-image stub owns.
  The hypothesis is that the slots lie within reach of an \<^verbatim>\<open>ADRP\<close>.\<close>

theorem auth_stubs_resolved:
  assumes "find_sect_in buf osegs (ascii ''__auth_stubs'') = Inr (Some (sa, ssz, sfo))"
    and "find_sect_in buf osegs (ascii ''__auth_got'') = Inr (Some (ag_va, ag_sz, gfo))"
    and "foldR (collect_stub buf sfo sa td) (stub_offs ssz) [] = Inr stubs"
    and "plan = stub_plan syms amap (free_slots amap stubs ag_va ag_sz) stubs"
    and "\<forall>(st, slot, name) \<in> set plan. adrp_reach (st_addr st) slot"
  shows "\<exists>buf'. fix_auth_stubs syms amap buf osegs td = Inr (buf', map snd plan)
    \<and> (\<forall>(st, slot, name) \<in> set plan.
         stub_leads buf' (st_fo st) (st_addr st) = Inr slot
         \<and> stub_name syms (st_got st) = Some name
         \<and> (amap (st_got st) = Some slot
            \<or> amap (st_got st) = None \<and> (\<forall>st' \<in> set stubs. amap (st_got st') \<noteq> Some slot)))
    \<and> distinct (fresh_of amap plan)"
proof -
  let ?free = "free_slots amap stubs ag_va ag_sz"
  have fo: "plan_apart (map st_fo stubs) \<and> (\<forall>st \<in> set stubs. 0 \<le> st_fo st \<and> st_fo st + 8 \<le> int (length buf))"
    by (rule collect_stubs_fo [OF assms(3)])
       (auto simp: stub_offs_def sorted_upt_scale plan_apart_def find_sect_in_bounds [OF assms(1)])
  have mem: "st \<in> set stubs" if "(st, slot, name) \<in> set plan" for st slot name
    using that stub_plan_in assms(4) by blast
  have apart: "plan_apart (map (st_fo \<circ> fst) plan)"
    unfolding assms(4) plan_apart_def by (rule stub_plan_apart) (use fo in \<open>simp add: plan_apart_def\<close>)
  obtain buf' where b: "apply_plan plan buf = Inr buf'"
    using apply_plan_ok [of plan buf] fo mem by fastforce
  obtain free' where f: "foldR (fix_stub syms amap) stubs (buf, ?free, []) = Inr (buf', free', map snd plan)"
    using fold_fix_stub [of syms amap stubs buf ?free "[]"] b by (auto simp: assms(4))
  have run: "fix_auth_stubs syms amap buf osegs td = Inr (buf', map snd plan)"
  proof (cases "stubs = []")
    case True
    then have p: "plan = []" by (simp add: assms(4))
    then have e: "buf' = buf" using b by (simp add: apply_plan_def)
    show ?thesis unfolding e by (simp add: fix_auth_stubs_def assms(1-3) True p)
  next
    case False
    then show ?thesis by (simp add: fix_auth_stubs_def assms(1-3) f)
  qed
  have leads: "\<forall>(st, slot, name) \<in> set plan. stub_leads buf' (st_fo st) (st_addr st) = Inr slot"
    by (rule apply_plan_leads [OF b apart]) (use assms(5) fo mem in fastforce)
  have slots: "amap (st_got st) = Some slot
      \<or> amap (st_got st) = None \<and> (\<forall>st' \<in> set stubs. amap (st_got st') \<noteq> Some slot)"
    "stub_name syms (st_got st) = Some name"
    if "(st, slot, name) \<in> set plan" for st slot name
    using that stub_plan_slot [of st slot name syms amap ?free stubs] stub_plan_name
    by (auto simp: assms(4) free_slots_def)
  have "distinct ?free" by (auto simp: free_slots_def distinct_map inj_on_def)
  then have "distinct (fresh_of amap plan)"
    unfolding assms(4) by (rule stub_plan_fresh_distinct)
  then show ?thesis using run leads slots by blast
qed


subsection \<open>An image with two stubs\<close>

definition stub_sect :: "string \<Rightarrow> int \<Rightarrow> int \<Rightarrow> int \<Rightarrow> bytes" where
  "stub_sect nm addr sz off =
     (let n = ascii nm in n @ replicate (32 - length n) 0 @ le_bytes 8 addr @ le_bytes 8 sz
        @ le_bytes 4 off @ replicate 28 0)"

definition stub_image :: bytes where
  "stub_image = replicate 64 0 @ le_bytes 4 2 @ replicate 4 0
     @ stub_sect ''__auth_stubs'' 0x1000 32 232 @ stub_sect ''__auth_got'' 0x3000 16 0
     @ le_bytes 4 0x90000011 @ le_bytes 4 0x91010231 @ replicate 8 0
     @ le_bytes 4 0xB0000011 @ le_bytes 4 0x91020231 @ replicate 8 0"

definition stub_segs :: "segment list" where
  "stub_segs = [\<lparr>seg_name = ascii ''__TEXT'', vmaddr = 0x1000, vmsize = 0x3000, fileoff = 0,
     filesize = 264, lc_off = 0\<rparr>]"

definition stub_list :: "stub list" where
  "stub_list = [\<lparr>st_fo = 232, st_addr = 0x1000, st_got = 0x1040\<rparr>,
     \<lparr>st_fo = 248, st_addr = 0x1010, st_got = 0x2080\<rparr>]"

definition stub_syms :: "int \<Rightarrow> bytes option" where
  "stub_syms g = (if g = 0x1040 then Some (ascii ''_a'') else Some (ascii ''_ptr._b''))"

definition stub_amap :: "int \<Rightarrow> int option" where
  "stub_amap a = (if a = 0x1040 then Some 0x3000 else None)"

lemma stub_example_sects:
  "find_sect_in stub_image stub_segs (ascii ''__auth_stubs'') = Inr (Some (0x1000, 32, 232))"
  "find_sect_in stub_image stub_segs (ascii ''__auth_got'') = Inr (Some (0x3000, 16, 0))"
  by code_simp+

lemma stub_example_stubs:
  "foldR (collect_stub stub_image 232 0x1000 0) (stub_offs 32) [] = Inr stub_list"
  by code_simp

lemma stub_example_plan:
  "stub_plan stub_syms stub_amap (free_slots stub_amap stub_list 0x3000 16) stub_list =
   [(stub_list ! 0, 0x3000, ascii ''_a''), (stub_list ! 1, 0x3008, ascii ''_b'')]"
  by code_simp

lemma auth_stubs_resolved_witness:
  "\<exists>buf'. fix_auth_stubs stub_syms stub_amap stub_image stub_segs 0
       = Inr (buf', [(0x3000, ascii ''_a''), (0x3008, ascii ''_b'')])
     \<and> stub_leads buf' 232 0x1000 = Inr 0x3000 \<and> stub_leads buf' 248 0x1010 = Inr 0x3008"
proof -
  have "\<forall>(st, slot, name) \<in> set (stub_plan stub_syms stub_amap (free_slots stub_amap stub_list 0x3000 16)
      stub_list). adrp_reach (st_addr st) slot"
    unfolding stub_example_plan by (simp add: stub_list_def adrp_reach_def page_base_eq)
  from auth_stubs_resolved [OF stub_example_sects stub_example_stubs refl this]
  show ?thesis unfolding stub_example_plan by (auto simp: stub_list_def)
qed

end
