(* ===== verification/Load_Commands.thy ===== *)
theory Load_Commands
  imports MachO
begin

text \<open>
  The load-command table as a list of commands: cutting it out of a file, and putting a
  rewritten list back. \<^verbatim>\<open>reorder_segments\<close>, \<^verbatim>\<open>append_fixups_command\<close> and \<^verbatim>\<open>stamp_ios.stamp\<close> all
  collect the commands as (number, bytes), change the list, and write the concatenation at
  offset 32; the lemmas say that what is written is the table a reader sees.
\<close>

named_theorems lc_simps \<open>reading the load-command table\<close>

fun lc_blobs :: "bytes \<Rightarrow> nat \<Rightarrow> int \<Rightarrow> (int \<times> bytes) list res" where
  "lc_blobs b 0 off = Inr []"
| "lc_blobs b (Suc n) off =
     bindR (u32x2 b off) (\<lambda>(cmd, sz).
     bindR (lc_blobs b n (off + sz)) (\<lambda>cs. Inr ((cmd, py_slice b off (off + sz)) # cs)))"

text \<open>A command whose own header says its number and its length.\<close>

definition blob_ok :: "int \<times> bytes \<Rightarrow> bool" where
  "blob_ok = (\<lambda>(cmd, d). 8 \<le> length d \<and> u32x2 d 0 = Inr (cmd, int (length d)))"

definition blob_data :: "(int \<times> bytes) list \<Rightarrow> bytes" where
  "blob_data bs = concat (map snd bs)"

lemma blob_data_simps [simp]:
  "blob_data [] = []" "blob_data (x # bs) = snd x @ blob_data bs"
  "blob_data (bs @ cs) = blob_data bs @ blob_data cs"
  by (simp_all add: blob_data_def)

text \<open>A table of \<open>n\<close> commands that lies between \<open>off\<close> and \<open>e\<close>.\<close>

fun table_ok :: "bytes \<Rightarrow> nat \<Rightarrow> int \<Rightarrow> int \<Rightarrow> bool" where
  "table_ok b 0 off e = (off \<le> e \<and> e \<le> int (length b))"
| "table_ok b (Suc n) off e =
     (case u32x2 b off of Inl _ \<Rightarrow> False
      | Inr (cmd, sz) \<Rightarrow> 8 \<le> sz \<and> off + sz \<le> e \<and> table_ok b n (off + sz) e)"

lemma table_ok_bounds: "table_ok b n off e \<Longrightarrow> off \<le> e \<and> e \<le> int (length b)"
  by (induction n arbitrary: off) (auto split: sum.splits prod.splits)

lemma u32x2_drop:
  assumes "0 \<le> off" "off + 8 \<le> int (length b)"
  shows "u32x2 b off = Inr (le_int (take 4 (drop (nat off) b)), le_int (take 4 (drop (nat off + 4) b)))"
  using assms by (simp add: u32x2_def unpack_us_def at_off_nonneg add.commute)

lemma u32x2_same:
  assumes "0 \<le> off" "off + 8 \<le> int (length b)" "0 \<le> off'" "off' + 8 \<le> int (length b')"
    "take 8 (drop (nat off) b) = take 8 (drop (nat off') b')"
  shows "u32x2 b off = u32x2 b' off'"
proof -
  have t: "take 4 (drop k c) = take 4 (take 8 (drop k c))" for k and c :: bytes by simp
  have d: "take 4 (drop (k + 4) c) = drop 4 (take 8 (drop k c))" for k and c :: bytes
    by (simp add: drop_take add.commute)
  show ?thesis unfolding u32x2_drop [OF assms(1,2)] u32x2_drop [OF assms(3,4)] d
    by (subst (1 2) t) (simp only: assms(5))
qed

lemma lc_blobs_ok:
  assumes "table_ok b n off e" "0 \<le> off"
  obtains bs where "lc_blobs b n off = Inr bs" "list_all blob_ok bs" "length bs = n"
    "off + int (length (blob_data bs)) \<le> e"
    "blob_data bs = take (length (blob_data bs)) (drop (nat off) b)"
  using assms
proof (induction n arbitrary: off thesis)
  case (Suc n)
  then obtain cmd sz where h: "u32x2 b off = Inr (cmd, sz)" "8 \<le> sz" "off + sz \<le> e"
    and t: "table_ok b n (off + sz) e"
    by (auto split: sum.splits)
  have off: "0 \<le> off + sz" using Suc.prems(3) h(2) by simp
  have e: "e \<le> int (length b)" using table_ok_bounds [OF t] by simp
  obtain bs where bs: "lc_blobs b n (off + sz) = Inr bs" "list_all blob_ok bs" "length bs = n"
    "off + sz + int (length (blob_data bs)) \<le> e"
    "blob_data bs = take (length (blob_data bs)) (drop (nat (off + sz)) b)"
    using Suc.IH [OF _ t off] by blast
  let ?d = "py_slice b off (off + sz)"
  have d: "?d = take (nat sz) (drop (nat off) b)" using Suc.prems(3) h e by (simp add: py_slice_take_drop)
  have ld: "length ?d = nat sz" using Suc.prems(3) h e by (simp add: d)
  have "u32x2 ?d 0 = u32x2 b off"
    by (rule u32x2_same) (use Suc.prems(3) h e ld in \<open>auto simp: d min_def\<close>)
  then have ok: "blob_ok (cmd, ?d)" using h ld by (simp add: blob_ok_def)
  have n: "nat (off + sz) = nat off + nat sz" using Suc.prems(3) h(2) by (simp add: nat_add_distrib)
  have "take (nat sz + length (blob_data bs)) (drop (nat off) b) = ?d @ blob_data bs"
    unfolding take_add d [symmetric] using bs(5) by (simp add: n add.commute)
  then show ?case
    using Suc.prems(1) [of "(cmd, ?d) # bs"] bs(1-4) h ok ld by simp
qed simp

lemma lc_blobs_read:
  assumes "list_all blob_ok bs" "0 \<le> off"
    "take (length (blob_data bs)) (drop (nat off) b) = blob_data bs"
    "off + int (length (blob_data bs)) \<le> int (length b)"
  shows "lc_blobs b (length bs) off = Inr bs"
  using assms
proof (induction bs arbitrary: off)
  case (Cons x bs)
  obtain cmd d where x: "x = (cmd, d)" by (cases x)
  have d8: "8 \<le> length d" and dh: "u32x2 d 0 = Inr (cmd, int (length d))"
    using Cons.prems(1) by (auto simp: x blob_ok_def)
  have pre: "take (length d) (drop (nat off) b) = d"
    using arg_cong [OF Cons.prems(3), of "take (length d)"] by (simp add: x)
  have len: "off + int (length d) + int (length (blob_data bs)) \<le> int (length b)"
    using Cons.prems(4) by (simp add: x)
  have "take 8 (drop (nat off) b) = take 8 d"
    using arg_cong [OF pre, of "take 8"] d8 by (simp add: min_def)
  then have h: "u32x2 b off = Inr (cmd, int (length d))"
    using u32x2_same [of off b 0 d] Cons.prems(2) d8 len dh by simp
  have sl: "py_slice b off (off + int (length d)) = d"
    using Cons.prems(2) len pre by (simp add: py_slice_take_drop)
  have "take (length (blob_data bs)) (drop (nat (off + int (length d))) b) = blob_data bs"
    using arg_cong [OF Cons.prems(3), of "drop (length d)"] Cons.prems(2)
    by (simp add: x drop_take nat_add_distrib add.commute)
  then have "lc_blobs b (length bs) (off + int (length d)) = Inr bs"
    using Cons.IH [of "off + int (length d)"] Cons.prems(1,2) len by simp
  then show ?case by (simp add: x h sl)
qed simp

text \<open>A list of well-formed commands written at \<open>off\<close>, with padding after it.\<close>

lemma lc_blobs_written:
  assumes "list_all blob_ok bs" "0 \<le> off" "off + int (length (blob_data bs @ pad)) \<le> int (length b)"
  shows "lc_blobs (put_at b (nat off) (blob_data bs @ pad)) (length bs) off = Inr bs"
proof (rule lc_blobs_read [OF assms(1,2)])
  have n: "nat off \<le> length b" using assms(2,3) by simp
  show "take (length (blob_data bs)) (drop (nat off) (put_at b (nat off) (blob_data bs @ pad))) = blob_data bs"
    using n by (simp add: put_at_def)
  show "off + int (length (blob_data bs)) \<le> int (length (put_at b (nat off) (blob_data bs @ pad)))"
    using assms(2,3) by (simp add: put_at_def)
qed

lemma lc_blobs_cong:
  assumes "same_outside R b b'" "table_ok b n off e" "0 \<le> off"
    "\<And>k. off \<le> int k \<Longrightarrow> int k < e \<Longrightarrow> \<not> R k"
  shows "lc_blobs b' n off = lc_blobs b n off"
proof -
  obtain bs where bs: "lc_blobs b n off = Inr bs" "list_all blob_ok bs" "length bs = n"
    "off + int (length (blob_data bs)) \<le> e"
    "blob_data bs = take (length (blob_data bs)) (drop (nat off) b)"
    using lc_blobs_ok [OF assms(2,3)] by blast
  have e: "e \<le> int (length b)" using table_ok_bounds [OF assms(2)] by simp
  have l: "length b' = length b" using assms(1) by (rule same_outside_length)
  have same: "b' ! k = b ! k" if "off \<le> int k" "int k < e" for k
    using assms(1) assms(4) [OF that] that e by (simp add: same_outside_def)
  have "take (length (blob_data bs)) (drop (nat off) b') = take (length (blob_data bs)) (drop (nat off) b)"
    by (rule nth_equalityI) (use bs(4) e l assms(3) in \<open>auto intro!: same\<close>)
  then have "lc_blobs b' (length bs) off = Inr bs"
    using lc_blobs_read [OF bs(2) assms(3), of b'] bs(4,5) e l by simp
  then show ?thesis using bs by simp
qed

lemma blob_ok_header:
  assumes "blob_ok (cmd, d)" "8 \<le> length d'" "length d' = length d" "take 8 d' = take 8 d"
  shows "blob_ok (cmd, d')"
  using assms u32x2_same [of 0 d' 0 d] by (simp add: blob_ok_def)

subsection \<open>Writing the header back\<close>

text \<open>A header whose table fills exactly the command area.\<close>

definition header_ok :: "bytes \<Rightarrow> int \<Rightarrow> int \<Rightarrow> bool" where
  "header_ok buf ncmds scmds \<longleftrightarrow> u32 buf 16 = Inr ncmds \<and> u32 buf 20 = Inr scmds
     \<and> table_ok buf (nat ncmds) 32 (32 + scmds)"

lemma p32s_ok:
  "0 \<le> off \<Longrightarrow> off + 4 * int (length vs) \<le> int (length b) \<Longrightarrow> \<forall>v \<in> set vs. 0 \<le> v \<and> v < 2 ^ 32 \<Longrightarrow>
   p32s b off vs = Inr (put_at b (nat off) (le_words 4 vs))"
  by (simp add: pack_us_def at_off_nonneg list_all_iff)

lemma u32_of_put2:
  assumes "0 \<le> x" "x < 2 ^ 32" "0 \<le> y" "y < 2 ^ 32" "24 \<le> length b"
  shows "u32 (put_at b 16 (le_words 4 [x, y])) 16 = Inr x" "u32 (put_at b 16 (le_words 4 [x, y])) 20 = Inr y"
  using assms by (simp_all add: unpack_u_def at_off_nonneg put_at_def le_int_le_bytes)

lemma header_rewrite:
  assumes "list_all blob_ok bs" "32 + int (length (blob_data bs)) \<le> 32 + area" "32 + area \<le> int (length buf)"
    and "area < 2 ^ 32" and "length bs < 2 ^ 32"
    and b: "b = put_at (put_at buf 16 (le_words 4 [int (length bs), int (length (blob_data bs))])) 32
         (blob_data bs @ zeros (area - int (length (blob_data bs))))"
  shows "length b = length buf" "lc_blobs b (length bs) 32 = Inr bs"
    "u32 b 16 = Inr (int (length bs))" "u32 b 20 = Inr (int (length (blob_data bs)))"
    "same_outside (\<lambda>k. 16 \<le> k \<and> k < 24 \<or> 32 \<le> k \<and> int k < 32 + area) buf b"
proof -
  let ?c = "put_at buf 16 (le_words 4 [int (length bs), int (length (blob_data bs))])"
  let ?p = "blob_data bs @ zeros (area - int (length (blob_data bs)))"
  have lp: "int (length ?p) = area" using assms(2) by simp
  have lc: "length ?c = length buf" using assms(2,3) by (simp add: put_at_def)
  have fit: "32 + length ?p \<le> length ?c" using lp lc assms(3) by linarith
  show lb: "length b = length buf" using fit lc by (simp only: b length_put_at)
  have "lc_blobs (put_at ?c (nat 32) ?p) (length bs) 32 = Inr bs"
    by (rule lc_blobs_written) (use assms lc lp in auto)
  then show "lc_blobs b (length bs) 32 = Inr bs" by (simp add: b)
  have o: "unpack_u 4 b k = unpack_u 4 ?c k" if "0 \<le> k" "k + 4 \<le> 32" for k
    unfolding b by (rule unpack_u_put_at_other) (use that fit in auto)
  have u: "u32 ?c 16 = Inr (int (length bs))" "u32 ?c 20 = Inr (int (length (blob_data bs)))"
    by (rule u32_of_put2; use assms in simp)+
  show "u32 b 16 = Inr (int (length bs))" "u32 b 20 = Inr (int (length (blob_data bs)))"
    using o [of 16] o [of 20] u by simp_all
  have 1: "same_outside (\<lambda>k. 16 \<le> k \<and> k < 24 \<or> 32 \<le> k \<and> int k < 32 + area) buf ?c"
    by (rule same_outside_mono [OF same_outside_put_at]) (use assms(2,3) in auto)
  have 2: "same_outside (\<lambda>k. 16 \<le> k \<and> k < 24 \<or> 32 \<le> k \<and> int k < 32 + area) ?c b"
    unfolding b
  proof (rule same_outside_mono [OF same_outside_put_at [OF fit]])
    fix k assume "32 \<le> k \<and> k < 32 + length ?p"
    moreover from this have "int k < 32 + area" using lp by linarith
    ultimately show "16 \<le> k \<and> k < 24 \<or> 32 \<le> k \<and> int k < 32 + area" by simp
  qed
  show "same_outside (\<lambda>k. 16 \<le> k \<and> k < 24 \<or> 32 \<le> k \<and> int k < 32 + area) buf b"
    by (rule same_outside_trans [OF 1 2])
qed

end
