(* ===== verification/Stamp_Ios.thy ===== *)
theory Stamp_Ios
  imports Load_Commands
begin

text \<open>
  \<^verbatim>\<open>stamp_ios.stamp\<close>: one \<^verbatim>\<open>LC_BUILD_VERSION\<close> is rewritten for iOS, any further one is dropped,
  the other commands are kept, and the freed header room is zeroed.
\<close>

definition LC_BUILD_VERSION :: int where "LC_BUILD_VERSION = 0x32"
definition PLATFORM_IOS :: int where "PLATFORM_IOS = 2"

definition minos_version :: "int \<Rightarrow> int \<Rightarrow> int" where
  "minos_version maj mn = push_bit 16 maj OR push_bit 8 mn"

text \<open>The body of the loop: the commands kept so far, and whether a version was seen.\<close>

definition stamp_command :: "bytes \<Rightarrow> int \<Rightarrow> int \<Rightarrow> int \<Rightarrow> int \<Rightarrow> bytes list \<times> bool
    \<Rightarrow> (bytes list \<times> bool) res" where
  "stamp_command buf ver cmd sz off = (\<lambda>(commands, found).
     let command = py_slice buf off (off + sz) in
     if cmd = LC_BUILD_VERSION then
       if found then Inr (commands, found)
       else bindR (p32s command 8 [PLATFORM_IOS, ver, ver]) (\<lambda>command. Inr (commands @ [command], True))
     else Inr (commands @ [command], found))"

definition stamp :: "bytes \<Rightarrow> int \<Rightarrow> (bytes \<times> bool) res" where
  "stamp buf ver =
     bindR (u32 buf 16) (\<lambda>ncmds.
     bindR (u32 buf 20) (\<lambda>sizeofcmds.
     bindR (for_cmds (\<lambda>_. buf) (stamp_command buf ver) (nat ncmds) 32 ([], False)) (\<lambda>(commands, found).
     let rebuilt = concat commands in
     if int (length rebuilt) > sizeofcmds then Inl Value_Error
     else bindR (p32s buf 16 [int (length commands), int (length rebuilt)]) (\<lambda>buf.
          Inr (py_set_slice buf 32 (32 + sizeofcmds) (rebuilt @ zeros (sizeofcmds - int (length rebuilt))), found)))))"

subsection \<open>What is kept\<close>

definition stamped :: "int \<Rightarrow> bytes \<Rightarrow> bytes" where
  "stamped ver d = put_at d 8 (le_words 4 [PLATFORM_IOS, ver, ver])"

fun stamp_list :: "int \<Rightarrow> bool \<Rightarrow> (int \<times> bytes) list \<Rightarrow> (int \<times> bytes) list" where
  "stamp_list ver found [] = []"
| "stamp_list ver found ((cmd, d) # bs) =
     (if cmd = LC_BUILD_VERSION then
        if found then stamp_list ver found bs
        else (cmd, stamped ver d) # stamp_list ver True bs
      else (cmd, d) # stamp_list ver found bs)"

definition has_version :: "(int \<times> bytes) list \<Rightarrow> bool" where
  "has_version bs \<longleftrightarrow> LC_BUILD_VERSION \<in> fst ` set bs"

lemma stamp_loop:
  assumes "lc_blobs buf n off = Inr bs" "0 \<le> ver" "ver < 2 ^ 32"
    "\<forall>(cmd, d) \<in> set bs. cmd = LC_BUILD_VERSION \<longrightarrow> 20 \<le> length d"
  shows "for_cmds (\<lambda>_. buf) (stamp_command buf ver) n off (cs, found) =
    Inr (cs @ map snd (stamp_list ver found bs), found \<or> has_version bs)"
  using assms
proof (induction n arbitrary: off bs cs found)
  case (Suc n)
  from Suc.prems(1) obtain cmd sz bs' where h: "u32x2 buf off = Inr (cmd, sz)"
    and t: "lc_blobs buf n (off + sz) = Inr bs'" and bs: "bs = (cmd, py_slice buf off (off + sz)) # bs'"
    by (auto simp: bindR_Inr_iff)
  let ?d = "py_slice buf off (off + sz)"
  have p: "p32s ?d 8 [PLATFORM_IOS, ver, ver] = Inr (stamped ver ?d)" if "cmd = LC_BUILD_VERSION"
    using Suc.prems(2-4) that by (simp add: bs pack_us_def at_off_nonneg stamped_def PLATFORM_IOS_def)
  have "for_cmds (\<lambda>_. buf) (stamp_command buf ver) n (off + sz) (cs', f) =
    Inr (cs' @ map snd (stamp_list ver f bs'), f \<or> has_version bs')" for cs' f
    by (rule Suc.IH [OF t]) (use Suc.prems bs in auto)
  moreover have "stamp_command buf ver cmd sz off (cs, found) =
      (if cmd = LC_BUILD_VERSION then
         if found then Inr (cs, found) else Inr (cs @ [stamped ver ?d], True)
       else Inr (cs @ [?d], found))"
    using p by (simp add: stamp_command_def Let_def)
  ultimately show ?case by (auto simp: h bs has_version_def)
qed (simp add: has_version_def)

lemma stamp_list_ok:
  "list_all blob_ok bs \<Longrightarrow> \<forall>(cmd, d) \<in> set bs. cmd = LC_BUILD_VERSION \<longrightarrow> 20 \<le> length d \<Longrightarrow>
   list_all blob_ok (stamp_list ver found bs)"
proof (induction ver found bs rule: stamp_list.induct)
  case (2 ver found cmd d bs)
  have "blob_ok (cmd, stamped ver d)" if "cmd = LC_BUILD_VERSION"
  proof (rule blob_ok_header)
    show "blob_ok (cmd, d)" using 2 by simp
    show "8 \<le> length (stamped ver d)" "length (stamped ver d) = length d"
      using 2 that by (auto simp: stamped_def)
    show "take 8 (stamped ver d) = take 8 d" using 2 that by (auto simp: stamped_def put_at_def)
  qed
  then show ?case using 2 by auto
qed simp

lemma stamp_list_length:
  "\<forall>(cmd, d) \<in> set bs. cmd = LC_BUILD_VERSION \<longrightarrow> 20 \<le> length d \<Longrightarrow>
   length (blob_data (stamp_list ver found bs)) \<le> length (blob_data bs)"
  by (induction ver found bs rule: stamp_list.induct) (auto simp: stamped_def)

lemma stamp_list_count: "length (stamp_list ver found bs) \<le> length bs"
  by (induction ver found bs rule: stamp_list.induct) auto

lemma stamp_list_others:
  "filter (\<lambda>(cmd, d). cmd \<noteq> LC_BUILD_VERSION) (stamp_list ver found bs) =
   filter (\<lambda>(cmd, d). cmd \<noteq> LC_BUILD_VERSION) bs"
  by (induction ver found bs rule: stamp_list.induct) auto

lemma stamp_list_versions:
  "filter (\<lambda>(cmd, d). cmd = LC_BUILD_VERSION) (stamp_list ver found bs) =
   (if found then [] else map (\<lambda>(cmd, d). (cmd, stamped ver d))
      (take 1 (filter (\<lambda>(cmd, d). cmd = LC_BUILD_VERSION) bs)))"
proof (induction ver found bs rule: stamp_list.induct)
  case (2 ver found cmd d bs)
  then show ?case by (cases "cmd = LC_BUILD_VERSION"; cases found) auto
qed simp

subsection \<open>The stamped file\<close>

text \<open>C3: Stamping a file with a well-formed header succeeds and keeps its length and everything
  outside the header's counts and command area; the new table, read back, is the old one with the
  first build version rewritten to iOS and the given version and every further build version
  dropped, all other commands kept in order; the flag says whether there was one.\<close>

theorem stamp_correct:
  assumes "header_ok buf ncmds scmds" "lc_blobs buf (nat ncmds) 32 = Inr bs" "0 \<le> ver" "ver < 2 ^ 32"
    and "\<forall>(cmd, d) \<in> set bs. cmd = LC_BUILD_VERSION \<longrightarrow> 20 \<le> length d"
  shows "\<exists>buf' bs'. stamp buf ver = Inr (buf', has_version bs)
    \<and> length buf' = length buf
    \<and> same_outside (\<lambda>k. 16 \<le> k \<and> k < 24 \<or> 32 \<le> k \<and> int k < 32 + scmds) buf buf'
    \<and> u32 buf' 16 = Inr (int (length bs')) \<and> lc_blobs buf' (length bs') 32 = Inr bs'
    \<and> filter (\<lambda>(cmd, d). cmd \<noteq> LC_BUILD_VERSION) bs' = filter (\<lambda>(cmd, d). cmd \<noteq> LC_BUILD_VERSION) bs
    \<and> filter (\<lambda>(cmd, d). cmd = LC_BUILD_VERSION) bs' =
        map (\<lambda>(cmd, d). (cmd, stamped ver d)) (take 1 (filter (\<lambda>(cmd, d). cmd = LC_BUILD_VERSION) bs))"
proof -
  let ?bs' = "stamp_list ver False bs"
  have h: "u32 buf 16 = Inr ncmds" "u32 buf 20 = Inr scmds" "table_ok buf (nat ncmds) 32 (32 + scmds)"
    using assms(1) by (auto simp: header_ok_def)
  obtain bs0 where bs0: "lc_blobs buf (nat ncmds) 32 = Inr bs0" "list_all blob_ok bs0" "length bs0 = nat ncmds"
    "32 + int (length (blob_data bs0)) \<le> 32 + scmds"
    using lc_blobs_ok [OF h(3)] by auto
  then have bs: "list_all blob_ok bs" "length bs = nat ncmds" "int (length (blob_data bs)) \<le> scmds"
    using assms(2) by simp_all
  have n: "ncmds < 2 ^ 32" "scmds < 2 ^ 32" using unpack_u_bounds [OF h(1)] unpack_u_bounds [OF h(2)] by simp_all
  have area: "32 + scmds \<le> int (length buf)" using table_ok_bounds [OF h(3)] by simp
  have len: "int (length (blob_data ?bs')) \<le> scmds"
    using stamp_list_length [OF assms(5), of ver False] bs(3) by linarith
  have cnt: "length ?bs' < 2 ^ 32" using stamp_list_count [of ver False bs] bs(2) n(1) by simp
  let ?c = "put_at buf 16 (le_words 4 [int (length ?bs'), int (length (blob_data ?bs'))])"
  let ?b = "put_at ?c 32 (blob_data ?bs' @ zeros (scmds - int (length (blob_data ?bs'))))"
  have p: "p32s buf 16 [int (length ?bs'), int (length (blob_data ?bs'))] = Inr ?c"
    using p32s_ok [of 16 "[int (length ?bs'), int (length (blob_data ?bs'))]" buf] len cnt area n(2) by simp
  have lc: "length ?c = length buf" using area len by (simp add: put_at_def)
  have "py_set_slice ?c 32 (32 + scmds) (blob_data ?bs' @ zeros (scmds - int (length (blob_data ?bs')))) =
      put_at ?c (nat 32) (blob_data ?bs' @ zeros (scmds - int (length (blob_data ?bs'))))"
    by (rule py_set_slice_put_at) (use len lc area in auto)
  then have run: "stamp buf ver = Inr (?b, has_version bs)"
    using len p stamp_loop [OF assms(2-5), of "[]" False]
    by (simp add: stamp_def h(1,2) Let_def blob_data_def)
  note rw = header_rewrite [OF stamp_list_ok [OF bs(1) assms(5), of ver False] _ area n(2) cnt refl]
  have "stamp_list ver False bs = ?bs'" ..
  show ?thesis
    by (rule exI [of _ ?b], rule exI [of _ ?bs'])
       (use run rw len stamp_list_others stamp_list_versions [of ver False bs] in simp)
qed


definition stamp_example :: bytes where
  "stamp_example = replicate 16 0 @ le_words 4 [3, 64] @ replicate 8 0
     @ le_words 4 [0x32, 24, 1, 0xB0000, 0xB0300, 0] @ le_words 4 [0x1B, 16, 7, 7]
     @ le_words 4 [0x32, 24, 6, 0xB0000, 0xB0300, 0] @ replicate 8 9"

lemma stamp_correct_witness:
  "\<exists>buf' bs'. stamp stamp_example 0x100000 = Inr (buf', True) \<and> lc_blobs buf' (length bs') 32 = Inr bs'
     \<and> filter (\<lambda>(cmd, d). cmd = LC_BUILD_VERSION) bs' = [(LC_BUILD_VERSION, le_words 4 [0x32, 24, 2, 0x100000, 0x100000, 0])]
     \<and> filter (\<lambda>(cmd, d). cmd \<noteq> LC_BUILD_VERSION) bs' = [(0x1B, le_words 4 [0x1B, 16, 7, 7])]"
proof -
  let ?bs = "[(0x32, le_words 4 [0x32, 24, 1, 0xB0000, 0xB0300, 0]), (0x1B, le_words 4 [0x1B, 16, 7, 7]),
    (0x32, le_words 4 [0x32, 24, 6, 0xB0000, 0xB0300, 0])] :: (int \<times> bytes) list"
  have h: "header_ok stamp_example 3 64" by code_simp
  have t: "lc_blobs stamp_example (nat 3) 32 = Inr ?bs" by code_simp
  have l: "\<forall>(cmd, d) \<in> set ?bs. cmd = LC_BUILD_VERSION \<longrightarrow> 20 \<le> length d" by (simp add: LC_BUILD_VERSION_def)
  have v: "has_version ?bs = True" by (simp add: has_version_def LC_BUILD_VERSION_def)
  have d: "stamped 0x100000 (le_words 4 [0x32, 24, 1, 0xB0000, 0xB0300, 0]) = le_words 4 [0x32, 24, 2, 0x100000, 0x100000, 0]"
    by code_simp
  from stamp_correct [OF h t _ _ l, of "0x100000"] show ?thesis
    by (auto simp: v LC_BUILD_VERSION_def d simp del: le_words.simps)
qed

end
