(* ===== verification/Header_Rewrites.thy ===== *)
theory Header_Rewrites
  imports Load_Commands "HOL-Library.Multiset"
begin

text \<open>
  The passes of \<^verbatim>\<open>uncache.py\<close> that rewrite the command table: \<^verbatim>\<open>reorder_segments\<close>,
  \<^verbatim>\<open>rewrite_dylib_paths\<close>, \<^verbatim>\<open>weaken_absent_dylibs\<close>, \<^verbatim>\<open>append_fixups_command\<close>, and the clearing of the
  shared-cache flags.
\<close>

subsection \<open>Segment order\<close>

definition seg_vmaddr :: "bytes \<Rightarrow> int res" where
  "seg_vmaddr d = u64 d 24"

fun place_segs :: "(int \<times> bytes) list \<Rightarrow> bytes list \<Rightarrow> bytes list" where
  "place_segs [] segs = []"
| "place_segs ((c, d) # lcs) segs =
     (if c = LC_SEGMENT_64
      then (case segs of [] \<Rightarrow> place_segs lcs [] | s # segs \<Rightarrow> s # place_segs lcs segs)
      else d # place_segs lcs segs)"

definition reorder_segments :: "bytes \<Rightarrow> bytes res" where
  "reorder_segments buf =
     bindR (u32x2 buf 16) (\<lambda>(ncmds, scmds).
     bindR (lc_blobs buf (nat ncmds) 32) (\<lambda>lcs.
     let seg_blobs = map snd (filter (\<lambda>(c, b). c = LC_SEGMENT_64) lcs) in
     bindR (mapR seg_vmaddr seg_blobs) (\<lambda>keys.
     let sorted = map snd (sort_key fst (zip keys seg_blobs));
         out = concat (place_segs lcs sorted)
     in Inr (py_set_slice buf 32 (32 + int (length out)) out))))"

definition segs_of :: "(int \<times> bytes) list \<Rightarrow> bytes list" where
  "segs_of bs = map snd (filter (\<lambda>(c, b). c = LC_SEGMENT_64) bs)"

definition others_of :: "(int \<times> bytes) list \<Rightarrow> (nat \<times> int \<times> bytes) list" where
  "others_of bs = filter (\<lambda>(i, c, b). c \<noteq> LC_SEGMENT_64) (enumerate 0 bs)"

fun place_cmds :: "(int \<times> bytes) list \<Rightarrow> bytes list \<Rightarrow> (int \<times> bytes) list" where
  "place_cmds [] segs = []"
| "place_cmds ((c, d) # lcs) segs =
     (if c = LC_SEGMENT_64
      then (case segs of [] \<Rightarrow> place_cmds lcs [] | s # segs \<Rightarrow> (c, s) # place_cmds lcs segs)
      else (c, d) # place_cmds lcs segs)"

lemma segs_of_simps [simp]:
  "segs_of [] = []"
  "segs_of ((c, d) # bs) = (if c = LC_SEGMENT_64 then d # segs_of bs else segs_of bs)"
  by (simp_all add: segs_of_def)

lemma place_segs_cmds: "place_segs bs segs = map snd (place_cmds bs segs)"
  by (induction bs segs rule: place_cmds.induct) (auto split: list.splits)

lemma segs_of_place:
  "length segs = length (segs_of bs) \<Longrightarrow> segs_of (place_cmds bs segs) = segs"
  by (induction bs segs rule: place_cmds.induct) (auto split: list.splits if_splits)

lemma place_cmds_others:
  "length segs = length (segs_of bs) \<Longrightarrow>
   filter (\<lambda>(i, c, b). c \<noteq> LC_SEGMENT_64) (enumerate k (place_cmds bs segs)) =
   filter (\<lambda>(i, c, b). c \<noteq> LC_SEGMENT_64) (enumerate k bs)"
  by (induction bs segs arbitrary: k rule: place_cmds.induct) (auto split: list.splits if_splits)

lemma length_place_cmds:
  "length segs = length (segs_of bs) \<Longrightarrow> length (place_cmds bs segs) = length bs"
  by (induction bs segs rule: place_cmds.induct) (auto split: list.splits if_splits)

lemma place_cmds_ok:
  "list_all blob_ok bs \<Longrightarrow> \<forall>s \<in> set segs. blob_ok (LC_SEGMENT_64, s) \<Longrightarrow>
   list_all blob_ok (place_cmds bs segs)"
  by (induction bs segs rule: place_cmds.induct) (auto split: list.splits)

lemma blob_data_place:
  "length segs = length (segs_of bs) \<Longrightarrow>
   length (blob_data (place_cmds bs segs)) + length (concat (segs_of bs)) =
   length (blob_data bs) + length (concat segs)"
  by (induction bs segs rule: place_cmds.induct) (auto split: list.splits if_splits)

lemma length_concat_mset: "mset xs = mset ys \<Longrightarrow> length (concat xs) = length (concat ys)"
proof -
  assume "mset xs = mset ys"
  then have "mset (map length xs) = mset (map length ys)" by (metis mset_map)
  then have "sum_list (map length xs) = sum_list (map length ys)" by (metis sum_mset_sum_list)
  then show ?thesis by (simp add: length_concat)
qed


definition seg_addr :: "bytes \<Rightarrow> int" where
  "seg_addr d = le_int (take 8 (drop 24 d))"

lemma seg_vmaddr_eq: "32 \<le> length d \<Longrightarrow> seg_vmaddr d = Inr (seg_addr d)"
  by (simp add: seg_vmaddr_def unpack_u_def at_off_nonneg seg_addr_def)

text \<open>C4: Reordering a well-formed table succeeds; the new table has the same commands with the
  segment commands permuted among their own places so that their addresses ascend, every other
  command where it was, and the rest of the file untouched.\<close>

theorem reorder_segments_sorts:
  assumes "header_ok buf ncmds scmds" "lc_blobs buf (nat ncmds) 32 = Inr bs"
    and "\<forall>d \<in> set (segs_of bs). 32 \<le> length d"
  shows "\<exists>buf' bs'. reorder_segments buf = Inr buf' \<and> lc_blobs buf' (nat ncmds) 32 = Inr bs'
    \<and> sorted (map seg_addr (segs_of bs')) \<and> mset (segs_of bs') = mset (segs_of bs)
    \<and> others_of bs' = others_of bs
    \<and> same_outside (\<lambda>k. 32 \<le> k \<and> int k < 32 + scmds) buf buf'"
proof -
  have h: "u32 buf 16 = Inr ncmds" "u32 buf 20 = Inr scmds" "table_ok buf (nat ncmds) 32 (32 + scmds)"
    using assms(1) by (auto simp: header_ok_def)
  then have h2: "u32x2 buf 16 = Inr (ncmds, scmds)" by (simp add: u32x2_eq)
  obtain bs0 where "lc_blobs buf (nat ncmds) 32 = Inr bs0" "list_all blob_ok bs0" "length bs0 = nat ncmds"
    "32 + int (length (blob_data bs0)) \<le> 32 + scmds"
    using lc_blobs_ok [OF h(3)] by auto
  then have bs: "list_all blob_ok bs" "length bs = nat ncmds" "int (length (blob_data bs)) \<le> scmds"
    using assms(2) by simp_all
  have area: "32 + scmds \<le> int (length buf)" using table_ok_bounds [OF h(3)] by simp
  let ?sb = "segs_of bs"
  let ?so = "sort_key fst (zip (map seg_addr ?sb) ?sb)"
  let ?new = "place_cmds bs (map snd ?so)"
  have keys: "mapR seg_vmaddr ?sb = Inr (map seg_addr ?sb)"
    by (rule mapR_Inr_map) (use assms(3) seg_vmaddr_eq in blast)
  have "mset (map snd ?so) = mset (map snd (zip (map seg_addr ?sb) ?sb))"
    by (simp only: mset_map mset_sort)
  then have ms: "mset (map snd ?so) = mset ?sb" by simp
  have len: "length (map snd ?so) = length ?sb" by simp
  have "\<forall>s \<in> set ?sb. blob_ok (LC_SEGMENT_64, s)"
    using bs(1) by (auto simp: segs_of_def list_all_iff)
  then have ok: "list_all blob_ok ?new"
    using bs(1) mset_eq_setD [OF ms] by (intro place_cmds_ok) auto
  have dat: "length (blob_data ?new) = length (blob_data bs)"
    using blob_data_place [OF len] length_concat_mset [OF ms] by simp
  let ?b = "put_at buf 32 (blob_data ?new)"
  have "py_set_slice buf 32 (32 + int (length (blob_data ?new))) (blob_data ?new) = put_at buf (nat 32) (blob_data ?new)"
    by (rule py_set_slice_put_at) (use area bs(3) dat in auto)
  then have run: "reorder_segments buf = Inr ?b"
    using keys by (simp add: reorder_segments_def h2 assms(2) segs_of_def Let_def place_segs_cmds blob_data_def)
  have "lc_blobs (put_at buf (nat 32) (blob_data ?new @ [])) (length ?new) 32 = Inr ?new"
    by (rule lc_blobs_written [OF ok]) (use area bs(3) dat in auto)
  then have read: "lc_blobs ?b (nat ncmds) 32 = Inr ?new"
    using length_place_cmds [OF len] bs(2) by simp
  have e: "map seg_addr (map snd ?so) = map fst ?so"
    by (auto simp: set_zip)
  have so: "sorted (map seg_addr (map snd ?so))" unfolding e by (rule sorted_sort_key)
  have fit: "32 + length (blob_data ?new) \<le> length buf" using area bs(3) dat by linarith
  have "same_outside (\<lambda>k. 32 \<le> k \<and> int k < 32 + scmds) buf ?b"
    by (rule same_outside_mono [OF same_outside_put_at [OF fit]]) (use dat bs(3) in linarith)
  then show ?thesis
    using run read so ms segs_of_place [OF len] place_cmds_others [OF len, of 0]
    by (intro exI [of _ ?b] exI [of _ ?new]) (simp add: others_of_def)
qed

text \<open>A table with two segments out of order around another command.\<close>

definition reorder_seg :: "int \<Rightarrow> bytes" where
  "reorder_seg va = le_words 4 [0x19, 32] @ replicate 16 0 @ le_bytes 8 va"

definition reorder_example :: bytes where
  "reorder_example = replicate 16 0 @ le_words 4 [3, 72] @ replicate 8 0
     @ reorder_seg 0x9000 @ le_words 4 [0x1B, 8] @ reorder_seg 0x4000"

lemma reorder_segments_sorts_witness:
  "\<exists>buf' bs'. reorder_segments reorder_example = Inr buf' \<and> lc_blobs buf' 3 32 = Inr bs'
     \<and> sorted (map seg_addr (segs_of bs'))
     \<and> mset (segs_of bs') = {#reorder_seg 0x9000, reorder_seg 0x4000#}
     \<and> others_of bs' = [(1, 0x1B, le_words 4 [0x1B, 8])]"
proof -
  let ?bs = "[(0x19, reorder_seg 0x9000), (0x1B, le_words 4 [0x1B, 8]), (0x19, reorder_seg 0x4000)]"
  have h: "header_ok reorder_example 3 72" by code_simp
  have t: "lc_blobs reorder_example (nat 3) 32 = Inr ?bs" by code_simp
  have s: "segs_of ?bs = [reorder_seg 0x9000, reorder_seg 0x4000]"
    by (simp add: LC_SEGMENT_64_def del: le_words.simps)
  have o: "others_of ?bs = [(1, 0x1B, le_words 4 [0x1B, 8])]"
    by (simp add: others_of_def LC_SEGMENT_64_def del: le_words.simps)
  have l: "\<forall>d \<in> set (segs_of ?bs). 32 \<le> length d" unfolding s by (simp add: reorder_seg_def)
  have n: "nat 3 = 3" by simp
  show ?thesis using reorder_segments_sorts [OF h t l] unfolding s o n by auto
qed

end
