(* ===== verification/Command_Edit.thy ===== *)
theory Command_Edit
  imports Load_Commands
begin

text \<open>
  Passes that edit the load commands in place, one at a time: what such a pass promises when each
  edit stays inside its own command and keeps the size field. The passes of \<^verbatim>\<open>uncache.py\<close> that
  rewrite dylib paths, weaken dylibs and shift the \<^verbatim>\<open>__LINKEDIT\<close> offsets are its instances.
\<close>

definition agree_on :: "int \<Rightarrow> int \<Rightarrow> bytes \<Rightarrow> bytes \<Rightarrow> bool" where
  "agree_on off sz b c \<longleftrightarrow> length c = length b \<and>
     (\<forall>k. off \<le> int k \<longrightarrow> int k < off + sz \<longrightarrow> k < length b \<longrightarrow> c ! k = b ! k)"

lemma agree_on_refl [simp]: "agree_on off sz b b"
  by (simp add: agree_on_def)

lemma agree_on_sym: "agree_on off sz b c \<Longrightarrow> agree_on off sz c b"
  by (simp add: agree_on_def)

lemma agree_on_trans: "agree_on off sz b c \<Longrightarrow> agree_on off sz c d \<Longrightarrow> agree_on off sz b d"
  by (auto simp: agree_on_def)

lemma agree_on_outside:
  "same_outside R b c \<Longrightarrow> (\<And>k. off \<le> int k \<Longrightarrow> int k < off + sz \<Longrightarrow> \<not> R k) \<Longrightarrow> agree_on off sz b c"
  by (auto simp: same_outside_def agree_on_def)

lemma agree_on_unpack_u:
  assumes "agree_on off sz b c" "off \<le> p" "p + int w \<le> off + sz" "0 \<le> p"
  shows "unpack_u w c p = unpack_u w b p"
proof (rule same_outside_unpack_u)
  show "same_outside (\<lambda>k. \<not> (off \<le> int k \<and> int k < off + sz)) b c"
    using assms(1) by (auto simp: agree_on_def same_outside_def)
qed (use assms in auto)

lemma agree_on_slice:
  assumes "agree_on off sz b c" "off \<le> p" "q \<le> off + sz" "0 \<le> p" "0 \<le> q"
  shows "py_slice c p q = py_slice b p q"
proof -
  let ?n = "length b"
  let ?i = "slice_bound ?n p" and ?j = "slice_bound ?n q"
  have l: "length c = ?n" using assms(1) by (simp add: agree_on_def)
  have i: "?i < ?n \<Longrightarrow> p \<le> int ?i" using assms(4) by (auto simp: slice_bound_def)
  have j: "k < ?j \<Longrightarrow> k < ?n \<Longrightarrow> 0 \<le> q \<Longrightarrow> int k < q" for k by (auto simp: slice_bound_def)
  have "take (?j - ?i) (drop ?i c) = take (?j - ?i) (drop ?i b)"
  proof (rule nth_equalityI)
    fix k assume "k < length (take (?j - ?i) (drop ?i c))"
    then have k: "k < ?j - ?i" "?i + k < ?n" using l by auto
    have "off \<le> int (?i + k)" using i k(2) assms(2) by linarith
    moreover have "int (?i + k) < off + sz" using j [of "?i + k"] k assms(3,5) by linarith
    ultimately show "take (?j - ?i) (drop ?i c) ! k = take (?j - ?i) (drop ?i b) ! k"
      using assms(1) k l by (simp add: agree_on_def)
  qed (simp add: l)
  then show ?thesis by (simp add: py_slice_def Let_def l)
qed

text \<open>Two buffers that agree on a span still agree there after the same bytes are put into it.\<close>

lemma agree_on_put_at:
  assumes "agree_on off sz b c" "i + length xs \<le> length b"
  shows "agree_on off sz (put_at b i xs) (put_at c i xs)"
  unfolding agree_on_def
proof (intro conjI allI impI)
  have l: "length c = length b" using assms(1) by (simp add: agree_on_def)
  show "length (put_at c i xs) = length (put_at b i xs)" using l assms(2) by simp
  fix k assume k: "off \<le> int k" "int k < off + sz" "k < length (put_at b i xs)"
  have "c ! k = b ! k" using assms k by (simp add: agree_on_def)
  then show "put_at c i xs ! k = put_at b i xs ! k" using l k(3) assms(2) by (simp add: nth_put_at)
qed

lemma agree_on_pack_u:
  assumes "agree_on off sz b c" "pack_u w b p v = Inr b'" "0 \<le> p"
  obtains c' where "pack_u w c p v = Inr c'" "agree_on off sz b' c'"
proof -
  from assms(2) obtain i where i: "at_off b w p = Inr i" and v: "0 \<le> v" "v < 256 ^ w" "b' = put_at b i (le_bytes w v)"
    by (auto simp: pack_u_def bindR_Inr_iff split: if_splits)
  have l: "length c = length b" using assms(1) by (simp add: agree_on_def)
  have "at_off c w p = Inr i" unfolding at_off_len [OF l] by (rule i)
  moreover have "agree_on off sz b' (put_at c i (le_bytes w v))"
    unfolding v(3) by (rule agree_on_put_at [OF assms(1)]) (use at_off_Inr [OF i] in simp)
  ultimately show thesis using that [of "put_at c i (le_bytes w v)"] v(1,2) by (simp add: pack_u_def)
qed

lemma table_ok_agree:
  assumes "table_ok b n off e" "agree_on off (e - off) b c" "0 \<le> off"
  shows "table_ok c n off e"
  using assms
proof (induction n arbitrary: off)
  case 0
  then show ?case by (simp add: agree_on_def)
next
  case (Suc n)
  then obtain cmd sz where h: "u32x2 b off = Inr (cmd, sz)" "8 \<le> sz" "off + sz \<le> e"
    and t: "table_ok b n (off + sz) e"
    by (auto split: sum.splits)
  have "u32x2 c off = u32x2 b off"
    using Suc.prems(3) h(2,3) agree_on_unpack_u [OF Suc.prems(2), of off 4]
      agree_on_unpack_u [OF Suc.prems(2), of "off + 4" 4]
    by (simp add: u32x2_eq)
  moreover have "table_ok c n (off + sz) e"
    by (rule Suc.IH [OF t]) (use Suc.prems(2,3) h(2) in \<open>auto simp: agree_on_def\<close>)
  ultimately show ?case using h by simp
qed

lemma lc_table_exists: "table_ok b n off e \<Longrightarrow> \<exists>cs. lc_table b n off = Inr cs"
proof (induction n arbitrary: off)
  case (Suc n)
  then show ?case by (fastforce split: sum.splits)
qed simp

lemma lc_table_span:
  "table_ok b n off e \<Longrightarrow> lc_table b n off = Inr cs \<Longrightarrow> (cmd, sz, o') \<in> set cs \<Longrightarrow>
   off \<le> o' \<and> 8 \<le> sz \<and> o' + sz \<le> e"
proof (induction n arbitrary: off cs)
  case (Suc n)
  from Suc.prems(1) obtain c z where h: "u32x2 b off = Inr (c, z)" "8 \<le> z" "off + z \<le> e"
    and t: "table_ok b n (off + z) e"
    by (auto split: sum.splits)
  from Suc.prems(2) obtain cs' where cs': "lc_table b n (off + z) = Inr cs'" "cs = (c, z, off) # cs'"
    by (auto simp: h(1) bindR_Inr_iff)
  show ?case using Suc.IH [OF t cs'(1)] Suc.prems(3) h table_ok_bounds [OF t] by (auto simp: cs'(2))
qed auto

lemma lc_table_cmd:
  "lc_table b n off = Inr cs \<Longrightarrow> 0 \<le> off \<Longrightarrow> (cmd, sz, o') \<in> set cs \<Longrightarrow> u32 b o' = Inr cmd"
proof (induction n arbitrary: off cs)
  case (Suc n)
  from Suc.prems(1) obtain c z cs' where h: "u32x2 b off = Inr (c, z)"
    and t: "lc_table b n (off + z) = Inr cs'" and cs: "cs = (c, z, off) # cs'"
    by (auto simp: bindR_Inr_iff)
  have "0 \<le> off + z" using Suc.prems(2) u32x2_bounds [OF h] by simp
  then show ?case using Suc.IH [OF t] Suc.prems(2,3) h by (auto simp: cs u32x2_eq bindR_Inr_iff)
qed simp

text \<open>The sizes and places of the commands, without their numbers.\<close>

definition spans :: "(int \<times> int \<times> int) list \<Rightarrow> (int \<times> int) list" where
  "spans = map (\<lambda>(cmd, sz, o'). (sz, o'))"

locale command_edit =
  fixes edit :: "int \<Rightarrow> int \<Rightarrow> int \<Rightarrow> bytes \<Rightarrow> bytes res"
    and pre :: "int \<Rightarrow> int \<Rightarrow> int \<Rightarrow> bytes \<Rightarrow> bool"
  assumes edit_inside: "edit cmd sz off b = Inr b' \<Longrightarrow> pre cmd sz off b \<Longrightarrow> 8 \<le> sz \<Longrightarrow> 0 \<le> off \<Longrightarrow>
      off + sz \<le> int (length b) \<Longrightarrow>
      same_outside (\<lambda>k. off \<le> int k \<and> int k < off + sz) b b' \<and> u32 b' (off + 4) = u32 b (off + 4)"
    and edit_local: "edit cmd sz off b = Inr b' \<Longrightarrow> pre cmd sz off b \<Longrightarrow> 8 \<le> sz \<Longrightarrow> 0 \<le> off \<Longrightarrow>
      off + sz \<le> int (length b) \<Longrightarrow> agree_on off sz b c \<Longrightarrow>
      \<exists>c'. edit cmd sz off c = Inr c' \<and> agree_on off sz b' c'"
    and pre_local: "pre cmd sz off b \<Longrightarrow> 8 \<le> sz \<Longrightarrow> 0 \<le> off \<Longrightarrow> agree_on off sz b c \<Longrightarrow> pre cmd sz off c"
    and edit_ok: "pre cmd sz off b \<Longrightarrow> 8 \<le> sz \<Longrightarrow> 0 \<le> off \<Longrightarrow> off + sz \<le> int (length b) \<Longrightarrow>
      u32 b off = Inr cmd \<Longrightarrow> \<exists>b'. edit cmd sz off b = Inr b'"
begin

lemma pass_correct:
  assumes "table_ok b n off e" "lc_table b n off = Inr cs" "0 \<le> off"
    and "\<forall>(cmd, sz, o') \<in> set cs. pre cmd sz o' b"
  shows "\<exists>b' cs'. for_cmds (\<lambda>b. b) edit n off b = Inr b'
    \<and> same_outside (\<lambda>k. off \<le> int k \<and> int k < e) b b'
    \<and> table_ok b' n off e \<and> lc_table b' n off = Inr cs' \<and> spans cs' = spans cs
    \<and> (\<forall>(cmd, sz, o') \<in> set cs. \<exists>c. edit cmd sz o' b = Inr c \<and> agree_on o' sz c b')"
  using assms
proof (induction n arbitrary: b off cs)
  case (Suc n)
  from Suc.prems(1) obtain cmd sz where h: "u32x2 b off = Inr (cmd, sz)" "8 \<le> sz" "off + sz \<le> e"
    and t: "table_ok b n (off + sz) e"
    by (auto split: sum.splits)
  from Suc.prems(2) obtain cs1 where cs1: "lc_table b n (off + sz) = Inr cs1" "cs = (cmd, sz, off) # cs1"
    by (auto simp: h(1) bindR_Inr_iff)
  have e: "e \<le> int (length b)" using table_ok_bounds [OF t] by simp
  have hd: "u32 b off = Inr cmd" "u32 b (off + 4) = Inr sz"
    using h(1) Suc.prems(3) by (auto simp: u32x2_eq bindR_Inr_iff)
  have p: "pre cmd sz off b" using Suc.prems(4) by (simp add: cs1(2))
  obtain c where c: "edit cmd sz off b = Inr c" using edit_ok [OF p h(2) Suc.prems(3)] h(3) e hd(1) by auto
  have ins: "same_outside (\<lambda>k. off \<le> int k \<and> int k < off + sz) b c" "u32 c (off + 4) = Inr sz"
    using edit_inside [OF c p h(2) Suc.prems(3)] h(3) e hd(2) by auto
  have lc: "length c = length b" using ins(1) by (rule same_outside_length)
  have ag: "agree_on (off + sz) (e - (off + sz)) b c" by (rule agree_on_outside [OF ins(1)]) auto
  have off': "0 \<le> off + sz" using Suc.prems(3) h(2) by simp
  have tc: "table_ok c n (off + sz) e" by (rule table_ok_agree [OF t ag off'])
  have agm: "agree_on o' z b c" if "(cm, z, o') \<in> set cs1" for cm z o'
    using ag lc_table_span [OF t cs1(1) that] by (auto simp: agree_on_def)
  have hdc: "u32x2 c o' = u32x2 b o'" if "(cm, z, o') \<in> set cs1" for cm z o'
    using lc_table_span [OF t cs1(1) that] agree_on_unpack_u [OF agm [OF that], of o' 4]
      agree_on_unpack_u [OF agm [OF that], of "o' + 4" 4] off'
    by (simp add: u32x2_eq)
  have cs1c: "lc_table c n (off + sz) = Inr cs1"
    by (rule lc_table_cong [OF cs1(1)]) (use hdc in auto)
  have pc: "\<forall>(cm, z, o') \<in> set cs1. pre cm z o' c"
  proof clarify
    fix cm z o' assume m: "(cm, z, o') \<in> set cs1"
    show "pre cm z o' c"
      by (rule pre_local [OF _ _ _ agm [OF m]])
         (use Suc.prems(4) m lc_table_span [OF t cs1(1) m] off' in \<open>auto simp: cs1(2)\<close>)
  qed
  obtain b' cs' where r: "for_cmds (\<lambda>b. b) edit n (off + sz) c = Inr b'"
    and out: "same_outside (\<lambda>k. off + sz \<le> int k \<and> int k < e) c b'"
    and tb: "table_ok b' n (off + sz) e" and cs': "lc_table b' n (off + sz) = Inr cs'" "spans cs' = spans cs1"
    and each: "\<forall>(cm, z, o') \<in> set cs1. \<exists>d. edit cm z o' c = Inr d \<and> agree_on o' z d b'"
    using Suc.IH [OF tc cs1c off' pc] by blast
  have agh: "agree_on off sz c b'" by (rule agree_on_outside [OF out]) auto
  have sz': "u32 b' (off + 4) = Inr sz"
    using agree_on_unpack_u [OF agh, of "off + 4" 4] h(2) Suc.prems(3) ins(2) by simp
  have "off + 4 \<le> int (length b')" using same_outside_length [OF out] lc h(2,3) e by linarith
  then obtain cm' where cm': "u32 b' off = Inr cm'"
    using unpack_u_ok_iff [OF Suc.prems(3), of 4 b'] by (auto simp: is_ok_iff)
  have hb': "u32x2 b' off = Inr (cm', sz)" using cm' sz' Suc.prems(3) by (simp add: u32x2_eq)
  have "\<exists>d. edit cm z o' b = Inr d \<and> agree_on o' z d b'" if m: "(cm, z, o') \<in> set cs1" for cm z o'
  proof -
    obtain d where d: "edit cm z o' c = Inr d" "agree_on o' z d b'" using each m by blast
    note sp = lc_table_span [OF t cs1(1) m]
    have "\<exists>d'. edit cm z o' b = Inr d' \<and> agree_on o' z d d'"
      by (rule edit_local [OF d(1) _ _ _ _ agree_on_sym [OF agm [OF m]]])
         (use pc m sp off' lc e in auto)
    then show ?thesis using d(2) agree_on_sym agree_on_trans by blast
  qed
  moreover have "same_outside (\<lambda>k. off \<le> int k \<and> int k < e) b b'"
  proof (rule same_outside_trans)
    show "same_outside (\<lambda>k. off \<le> int k \<and> int k < e) b c"
      by (rule same_outside_mono [OF ins(1)]) (use h(3) in auto)
    show "same_outside (\<lambda>k. off \<le> int k \<and> int k < e) c b'"
      by (rule same_outside_mono [OF out]) (use h(2) in auto)
  qed
  ultimately show ?case
    using h c r tb cs' hb' agh by (auto simp: cs1(2) spans_def)
qed (simp add: spans_def)

end

end
