(* ===== verification/Dylib_Paths.thy ===== *)
theory Dylib_Paths
  imports Command_Edit
begin

text \<open>
  The two passes of \<^verbatim>\<open>uncache.py\<close> over the dylib commands: \<^verbatim>\<open>rewrite_dylib_paths\<close> turns macOS
  framework paths into the flat iOS form, \<^verbatim>\<open>weaken_absent_dylibs\<close> makes listed dependencies
  weak. Both are instances of \<open>command_edit\<close>.
\<close>

subsection \<open>Paths\<close>

definition DYLIB_CMDS :: "int set" where
  "DYLIB_CMDS = {0xC, 0xD, 0x80000018, 0x8000001F, 0x80000023}"

definition slash :: byte where "slash = 0x2F"

text \<open>\<^verbatim>\<open>re.sub(rb"(\.framework/)Versions/[^/]+/", rb"\1", old)\<close>: matches are taken from the left,
  and the class \<^verbatim>\<open>[^/]+\<close> runs up to the next slash.\<close>

definition versions_match :: "bytes \<Rightarrow> nat option" where
  "versions_match s =
     (let pre = ascii ''.framework/Versions/'' in
      if prefix pre s then
        (let rest = drop (length pre) s; k = length (takeWhile (\<lambda>b. b \<noteq> slash) rest) in
         if 0 < k \<and> k < length rest then Some (length pre + k + 1) else None)
      else None)"

function strip_versions :: "bytes \<Rightarrow> bytes" where
  "strip_versions [] = []"
| "strip_versions (x # xs) =
     (case versions_match (x # xs) of
        Some n \<Rightarrow> ascii ''.framework/'' @ strip_versions (drop n (x # xs))
      | None \<Rightarrow> x # strip_versions xs)"
  by pat_completeness auto
termination
  by (relation "measure length") (auto simp: versions_match_def Let_def split: if_splits)

lemma versions_match_bounds:
  "versions_match s = Some n \<Longrightarrow> 22 \<le> n \<and> n \<le> length s"
  by (auto simp: versions_match_def Let_def ascii_def Suc_le_eq split: if_splits)

lemma strip_versions_length: "length (strip_versions s) \<le> length s"
proof (induction s rule: strip_versions.induct)
  case (2 x xs)
  show ?case
  proof (cases "versions_match (x # xs)")
    case None
    then show ?thesis using 2(1) by simp
  next
    case (Some n)
    then show ?thesis using 2(2) [OF Some] versions_match_bounds [OF Some]
      by (auto simp: ascii_def simp del: drop_Suc_Cons)
  qed
qed simp

text \<open>A path that is already flat is left alone.\<close>

lemma strip_versions_flat:
  "\<not> sublist (ascii ''.framework/Versions/'') s \<Longrightarrow> strip_versions s = s"
proof (induction s rule: strip_versions.induct)
  case (2 x xs)
  have "\<not> prefix (ascii ''.framework/Versions/'') (x # xs)"
    using 2(3) prefix_imp_sublist by blast
  then have n: "versions_match (x # xs) = None" by (simp add: versions_match_def Let_def)
  have "\<not> sublist (ascii ''.framework/Versions/'') xs"
    using 2(3) by (meson sublist_Cons_right)
  then show ?case using 2(1) [OF n] by (simp add: n)
qed simp

lemma strip_versions_nonul: "0 \<notin> set s \<Longrightarrow> 0 \<notin> set (strip_versions s)"
proof (induction s rule: strip_versions.induct)
  case (2 x xs)
  show ?case
  proof (cases "versions_match (x # xs)")
    case None
    then show ?thesis using 2(1,3) by simp
  next
    case (Some n)
    have "0 \<notin> set (drop n (x # xs))" using 2(3) in_set_dropD by fastforce
    then show ?thesis using 2(2) [OF Some] Some by (simp add: ascii_def del: drop_Suc_Cons)
  qed
qed simp

lemma before_nul_bounds: "length (before_nul s) \<le> length s" "0 \<notin> set (before_nul s)"
  by (auto simp: before_nul_def length_takeWhile_le dest: set_takeWhileD)

lemma before_nul_pad: "0 \<notin> set s \<Longrightarrow> before_nul (s @ replicate n 0) = s"
proof -
  assume "0 \<notin> set s"
  then have "takeWhile (\<lambda>b. b \<noteq> 0) (s @ replicate n 0) = s @ takeWhile (\<lambda>b. b \<noteq> 0) (replicate n 0)"
    by (intro takeWhile_append2) auto
  then show ?thesis by (simp add: before_nul_def takeWhile_replicate)
qed

subsection \<open>The passes\<close>

definition dylib_path :: "bytes \<Rightarrow> int \<Rightarrow> int \<Rightarrow> int \<Rightarrow> bytes" where
  "dylib_path buf off sz noff = before_nul (py_slice buf (off + noff) (off + sz))"

definition rewrite_dylib_cmd :: "int \<Rightarrow> int \<Rightarrow> int \<Rightarrow> bytes \<Rightarrow> bytes res" where
  "rewrite_dylib_cmd cmd sz off buf =
     (if cmd \<in> DYLIB_CMDS then
        bindR (u32 buf (off + 8)) (\<lambda>noff.
        let old = dylib_path buf off sz noff; new = strip_versions old in
        if new \<noteq> old then
          (let region = sz - noff in
           Inr (py_set_slice buf (off + noff) (off + sz) (new @ zeros (region - int (length new)))))
        else Inr buf)
      else Inr buf)"

definition rewrite_dylib_paths :: "bytes \<Rightarrow> bytes res" where
  "rewrite_dylib_paths buf =
     bindR (u32 buf 16) (\<lambda>ncmds. for_cmds (\<lambda>b. b) rewrite_dylib_cmd (nat ncmds) 32 buf)"

text \<open>The paths are compared as bytes: a marker that is a well-formed string occurs in the decoded
  path exactly when its bytes occur.\<close>

definition weaken_cmd :: "bytes list \<Rightarrow> int \<Rightarrow> int \<Rightarrow> int \<Rightarrow> bytes \<Rightarrow> bytes res" where
  "weaken_cmd markers cmd sz off buf =
     (if cmd = LC_LOAD_DYLIB then
        bindR (u32 buf (off + 8)) (\<lambda>noff.
        if \<exists>m \<in> set markers. sublist m (dylib_path buf off sz noff)
        then p32 buf off LC_LOAD_WEAK_DYLIB
        else Inr buf)
      else Inr buf)"

definition weaken_absent_dylibs :: "bytes \<Rightarrow> bytes list \<Rightarrow> bytes res" where
  "weaken_absent_dylibs buf markers =
     bindR (u32 buf 16) (\<lambda>ncmds. for_cmds (\<lambda>b. b) (weaken_cmd markers) (nat ncmds) 32 buf)"

subsection \<open>Both passes as edits of one command\<close>

text \<open>A dylib command whose name lies behind its 12 header bytes and inside it.\<close>

definition dylib_cmd_ok :: "int set \<Rightarrow> int \<Rightarrow> int \<Rightarrow> int \<Rightarrow> bytes \<Rightarrow> bool" where
  "dylib_cmd_ok S cmd sz off b \<longleftrightarrow>
     (cmd \<in> S \<longrightarrow> 12 \<le> sz \<and> (case u32 b (off + 8) of Inl _ \<Rightarrow> False | Inr noff \<Rightarrow> 12 \<le> noff \<and> noff \<le> sz))"

lemma dylib_cmd_ok_local:
  "dylib_cmd_ok S cmd sz off b \<Longrightarrow> 8 \<le> sz \<Longrightarrow> 0 \<le> off \<Longrightarrow> agree_on off sz b c \<Longrightarrow> dylib_cmd_ok S cmd sz off c"
  using agree_on_unpack_u [of off sz b c "off + 8" 4] by (auto simp: dylib_cmd_ok_def)

lemma rewrite_dylib_cmd_put:
  assumes "dylib_cmd_ok DYLIB_CMDS cmd sz off b" "cmd \<in> DYLIB_CMDS" "0 \<le> off" "off + sz \<le> int (length b)"
  obtains noff xs where "u32 b (off + 8) = Inr noff" "12 \<le> noff" "noff \<le> sz"
    "rewrite_dylib_cmd cmd sz off b = Inr (put_at b (nat (off + noff)) xs)"
    "xs = [] \<and> strip_versions (dylib_path b off sz noff) = dylib_path b off sz noff
     \<or> xs = strip_versions (dylib_path b off sz noff)
         @ replicate (nat (sz - noff) - length (strip_versions (dylib_path b off sz noff))) 0
       \<and> length xs = nat (sz - noff)"
proof -
  obtain noff where n: "u32 b (off + 8) = Inr noff" "12 \<le> noff" "noff \<le> sz"
    using assms(1,2) by (auto simp: dylib_cmd_ok_def split: sum.splits)
  let ?old = "dylib_path b off sz noff"
  let ?new = "strip_versions ?old"
  have "length ?old \<le> nat (sz - noff)"
    using before_nul_bounds(1) [of "py_slice b (off + noff) (off + sz)"] n assms(3,4)
    by (simp add: dylib_path_def length_py_slice)
  then have new: "length ?new \<le> nat (sz - noff)" using strip_versions_length [of ?old] by simp
  let ?xs = "?new @ replicate (nat (sz - noff) - length ?new) 0"
  have lx: "length ?xs = nat (sz - noff)" using new by simp
  have z: "zeros (sz - noff - int (length ?new)) = replicate (nat (sz - noff) - length ?new) 0"
    unfolding zeros_def by (rule arg_cong [where f = "\<lambda>k. replicate k 0"]) arith
  have "py_set_slice b (off + noff) (off + sz) ?xs = put_at b (nat (off + noff)) ?xs"
    by (rule py_set_slice_put_at) (use n assms(3,4) lx in auto)
  then have w: "?new \<noteq> ?old \<Longrightarrow> rewrite_dylib_cmd cmd sz off b = Inr (put_at b (nat (off + noff)) ?xs)"
    using assms(2) by (simp add: rewrite_dylib_cmd_def n(1) z Let_def)
  show thesis
  proof (cases "?new = ?old")
    case True
    then show ?thesis using assms(2) by (intro that [OF n, of "[]"]) (simp_all add: rewrite_dylib_cmd_def n(1))
  next
    case False
    then show ?thesis using w lx by (intro that [OF n, of ?xs]) simp_all
  qed
qed

interpretation dylib_paths: command_edit rewrite_dylib_cmd "dylib_cmd_ok DYLIB_CMDS"
proof
  fix cmd sz off b b'
  assume e: "rewrite_dylib_cmd cmd sz off b = Inr b'" and p: "dylib_cmd_ok DYLIB_CMDS cmd sz off b"
    and r: "8 \<le> sz" "0 \<le> off" "off + sz \<le> int (length b)"
  show "same_outside (\<lambda>k. off \<le> int k \<and> int k < off + sz) b b' \<and> u32 b' (off + 4) = u32 b (off + 4)"
  proof (cases "cmd \<in> DYLIB_CMDS")
    case False
    then show ?thesis using e by (simp add: rewrite_dylib_cmd_def)
  next
    case True
    obtain noff xs where n: "12 \<le> noff" "noff \<le> sz"
      and w: "rewrite_dylib_cmd cmd sz off b = Inr (put_at b (nat (off + noff)) xs)"
      and xs: "length xs = 0 \<or> length xs = nat (sz - noff)"
      using rewrite_dylib_cmd_put [OF p True r(2,3)] by (metis list.size(3))
    have b': "b' = put_at b (nat (off + noff)) xs" using e w by simp
    have fit: "nat (off + noff) + length xs \<le> nat (off + sz)" using xs n r by auto
    then have fit': "nat (off + noff) + length xs \<le> length b" using r by linarith
    have "same_outside (\<lambda>k. off \<le> int k \<and> int k < off + sz) b b'"
      unfolding b' by (rule same_outside_mono [OF same_outside_put_at [OF fit']]) (use fit n r in linarith)
    moreover have "u32 b' (off + 4) = u32 b (off + 4)"
      unfolding b' by (rule unpack_u_put_at_other) (use fit' n r in auto)
    ultimately show ?thesis by simp
  qed
next
  fix cmd sz off b b' c
  assume e: "rewrite_dylib_cmd cmd sz off b = Inr b'" and p: "dylib_cmd_ok DYLIB_CMDS cmd sz off b"
    and r: "8 \<le> sz" "0 \<le> off" "off + sz \<le> int (length b)" and a: "agree_on off sz b c"
  show "\<exists>c'. rewrite_dylib_cmd cmd sz off c = Inr c' \<and> agree_on off sz b' c'"
  proof (cases "cmd \<in> DYLIB_CMDS")
    case False
    then show ?thesis using e a by (simp add: rewrite_dylib_cmd_def)
  next
    case True
    have lc: "off + sz \<le> int (length c)" using a r by (simp add: agree_on_def)
    obtain noff xs where n: "u32 b (off + 8) = Inr noff" "12 \<le> noff" "noff \<le> sz"
      and w: "rewrite_dylib_cmd cmd sz off b = Inr (put_at b (nat (off + noff)) xs)"
      and xs: "length xs = 0 \<or> length xs = nat (sz - noff)"
      using rewrite_dylib_cmd_put [OF p True r(2,3)] by (metis list.size(3))
    have u: "u32 c (off + 8) = Inr noff"
      using agree_on_unpack_u [OF a, of "off + 8" 4] n r by simp
    have s: "dylib_path c off sz noff = dylib_path b off sz noff"
      using agree_on_slice [OF a, of "off + noff" "off + sz"] n r by (simp add: dylib_path_def)
    let ?new = "strip_versions (dylib_path b off sz noff)"
    have fit: "nat (off + noff) + length xs \<le> length b" using xs n r by auto
    show ?thesis
    proof (cases "?new = dylib_path b off sz noff")
      case True
      then have "rewrite_dylib_cmd cmd sz off b = Inr b" "rewrite_dylib_cmd cmd sz off c = Inr c"
        using \<open>cmd \<in> DYLIB_CMDS\<close> by (simp_all add: rewrite_dylib_cmd_def n(1) u s)
      then show ?thesis using e a by simp
    next
      case False
      let ?z = "?new @ zeros (sz - noff - int (length ?new))"
      have eb: "b' = py_set_slice b (off + noff) (off + sz) ?z"
        and ec: "rewrite_dylib_cmd cmd sz off c = Inr (py_set_slice c (off + noff) (off + sz) ?z)"
        using e False True by (simp_all add: rewrite_dylib_cmd_def n(1) u s Let_def)
      have "length (dylib_path b off sz noff) \<le> nat (sz - noff)"
        using before_nul_bounds(1) [of "py_slice b (off + noff) (off + sz)"] n r
        by (simp add: dylib_path_def length_py_slice)
      then have lz: "off + sz = off + noff + int (length ?z)"
        using strip_versions_length [of "dylib_path b off sz noff"] n by simp
      have "b' = put_at b (nat (off + noff)) ?z"
        unfolding eb by (rule py_set_slice_put_at) (use n r lz in auto)
      moreover have "py_set_slice c (off + noff) (off + sz) ?z = put_at c (nat (off + noff)) ?z"
        by (rule py_set_slice_put_at) (use n r lz lc in auto)
      moreover have "agree_on off sz (put_at b (nat (off + noff)) ?z) (put_at c (nat (off + noff)) ?z)"
        by (rule agree_on_put_at [OF a]) (use lz n r in linarith)
      ultimately show ?thesis using ec by simp
    qed
  qed
next
  fix cmd sz off b
  assume "dylib_cmd_ok DYLIB_CMDS cmd sz off b" "8 \<le> sz" "0 \<le> off" "off + sz \<le> int (length b)"
  then show "\<exists>b'. rewrite_dylib_cmd cmd sz off b = Inr b'"
    by (cases "cmd \<in> DYLIB_CMDS") (auto simp: rewrite_dylib_cmd_def elim: rewrite_dylib_cmd_put)
qed (rule dylib_cmd_ok_local)


interpretation weaken: command_edit "weaken_cmd markers" "dylib_cmd_ok {LC_LOAD_DYLIB}"
proof
  fix cmd sz off b b'
  assume e: "weaken_cmd markers cmd sz off b = Inr b'" and r: "8 \<le> sz" "0 \<le> off" "off + sz \<le> int (length b)"
  show "same_outside (\<lambda>k. off \<le> int k \<and> int k < off + sz) b b' \<and> u32 b' (off + 4) = u32 b (off + 4)"
  proof (cases "b' = b")
    case False
    then have p: "p32 b off LC_LOAD_WEAK_DYLIB = Inr b'"
      using e by (auto simp: weaken_cmd_def bindR_Inr_iff split: if_splits)
    show ?thesis
      using same_outside_mono [OF f32.wr_outside [OF p r(2)], of "\<lambda>k. off \<le> int k \<and> int k < off + sz"]
        f32.rd_wr_other [OF p r(2), of "off + 4" 4] r by auto
  qed simp
next
  fix cmd sz off b b' c
  assume e: "weaken_cmd markers cmd sz off b = Inr b'" and p: "dylib_cmd_ok {LC_LOAD_DYLIB} cmd sz off b"
    and r: "8 \<le> sz" "0 \<le> off" "off + sz \<le> int (length b)" and a: "agree_on off sz b c"
  show "\<exists>c'. weaken_cmd markers cmd sz off c = Inr c' \<and> agree_on off sz b' c'"
  proof (cases "cmd = LC_LOAD_DYLIB")
    case False
    then show ?thesis using e a by (simp add: weaken_cmd_def)
  next
    case True
    obtain noff where n: "u32 b (off + 8) = Inr noff" "12 \<le> noff" "noff \<le> sz"
      using p True by (auto simp: dylib_cmd_ok_def split: sum.splits)
    have u: "u32 c (off + 8) = Inr noff" using agree_on_unpack_u [OF a, of "off + 8" 4] n r by simp
    have s: "dylib_path c off sz noff = dylib_path b off sz noff"
      using agree_on_slice [OF a, of "off + noff" "off + sz"] n r by (simp add: dylib_path_def)
    show ?thesis
    proof (cases "\<exists>m \<in> set markers. sublist m (dylib_path b off sz noff)")
      case m: True
      then have "p32 b off LC_LOAD_WEAK_DYLIB = Inr b'" using e True by (simp add: weaken_cmd_def n(1))
      from agree_on_pack_u [OF a this r(2)] show ?thesis
        using m True by (simp add: weaken_cmd_def u s) blast
    next
      case False
      then show ?thesis using e a True by (simp add: weaken_cmd_def n(1) u s)
    qed
  qed
next
  fix cmd sz off b
  assume "dylib_cmd_ok {LC_LOAD_DYLIB} cmd sz off b" "8 \<le> sz" "0 \<le> off" "off + sz \<le> int (length b)"
  then show "\<exists>b'. weaken_cmd markers cmd sz off b = Inr b'"
    using f32.wr_ok [of off b LC_LOAD_WEAK_DYLIB]
    by (auto simp: weaken_cmd_def dylib_cmd_ok_def LC_LOAD_WEAK_DYLIB_def split: sum.splits)
qed (rule dylib_cmd_ok_local)

subsection \<open>What the passes do to a file\<close>

text \<open>The path a dylib command of the file names.\<close>

definition named_path :: "bytes \<Rightarrow> int \<Rightarrow> int \<Rightarrow> bytes" where
  "named_path b sz off = (case u32 b (off + 8) of Inl _ \<Rightarrow> [] | Inr noff \<Rightarrow> dylib_path b off sz noff)"

definition dylibs_ok :: "int set \<Rightarrow> bytes \<Rightarrow> int \<Rightarrow> (int \<times> int \<times> int) list \<Rightarrow> bool" where
  "dylibs_ok S b e cs \<longleftrightarrow> (\<exists>ncmds. u32 b 16 = Inr ncmds \<and> table_ok b (nat ncmds) 32 e
     \<and> lc_table b (nat ncmds) 32 = Inr cs) \<and> (\<forall>(cmd, sz, o') \<in> set cs. dylib_cmd_ok S cmd sz o' b)"

lemma named_path_agree:
  assumes "agree_on o' sz b c" "12 \<le> sz" "0 \<le> o'" "u32 b (o' + 8) = Inr noff" "12 \<le> noff" "noff \<le> sz"
  shows "named_path c sz o' = named_path b sz o'"
  using agree_on_unpack_u [OF assms(1), of "o' + 8" 4] agree_on_slice [OF assms(1), of "o' + noff" "o' + sz"] assms
  by (simp add: named_path_def dylib_path_def)

lemma rewrite_dylib_cmd_path:
  assumes "dylib_cmd_ok DYLIB_CMDS cmd sz off b" "cmd \<in> DYLIB_CMDS" "0 \<le> off" "off + sz \<le> int (length b)"
    "rewrite_dylib_cmd cmd sz off b = Inr c"
  shows "named_path c sz off = strip_versions (named_path b sz off)" "u32 c (off + 8) = u32 b (off + 8)"
proof -
  obtain noff xs where n: "u32 b (off + 8) = Inr noff" "12 \<le> noff" "noff \<le> sz"
    and w: "rewrite_dylib_cmd cmd sz off b = Inr (put_at b (nat (off + noff)) xs)"
    and xs: "xs = [] \<and> strip_versions (dylib_path b off sz noff) = dylib_path b off sz noff
     \<or> xs = strip_versions (dylib_path b off sz noff)
         @ replicate (nat (sz - noff) - length (strip_versions (dylib_path b off sz noff))) 0
       \<and> length xs = nat (sz - noff)"
    using rewrite_dylib_cmd_put [OF assms(1-4)] by metis
  let ?new = "strip_versions (dylib_path b off sz noff)"
  have c: "c = put_at b (nat (off + noff)) xs" using w assms(5) by simp
  have fit: "nat (off + noff) + length xs \<le> length b" using xs n assms(3,4) by auto
  have "unpack_u 4 c (off + 8) = unpack_u 4 b (off + 8)"
    unfolding c by (rule unpack_u_put_at_other) (use fit n assms(3) in auto)
  then show u: "u32 c (off + 8) = u32 b (off + 8)" .
  have "dylib_path c off sz noff = ?new"
  proof (cases "xs = []")
    case True
    have "length (dylib_path b off sz noff) \<le> nat (sz - noff)"
      using before_nul_bounds(1) [of "py_slice b (off + noff) (off + sz)"] n assms(3,4)
      by (simp add: dylib_path_def length_py_slice)
    then have "dylib_path b off sz noff = [] \<or> ?new = dylib_path b off sz noff"
      using xs True by auto
    moreover have "dylib_path c off sz noff = dylib_path b off sz noff" using c True by simp
    ultimately show ?thesis by auto
  next
    case False
    have lx: "length xs = nat (sz - noff)" and xeq: "xs = ?new @ replicate (nat (sz - noff) - length ?new) 0"
      using xs False by auto
    have "py_slice c (off + noff) (off + sz) = take (nat (sz - noff)) (drop (nat (off + noff)) c)"
      using n assms(3,4) fit by (subst py_slice_take_drop) (auto simp: c)
    also have "\<dots> = xs" using take_drop_put_at_same [OF fit] lx by (simp add: c)
    finally have "dylib_path c off sz noff = before_nul (?new @ replicate (nat (sz - noff) - length ?new) 0)"
      using xeq by (simp add: dylib_path_def)
    also have "\<dots> = ?new"
      by (rule before_nul_pad, rule strip_versions_nonul) (simp add: dylib_path_def before_nul_bounds)
    finally show ?thesis .
  qed
  then show "named_path c sz off = strip_versions (named_path b sz off)"
    using u n(1) by (simp add: named_path_def)
qed


text \<open>The weakening pass keeps the whole file but for the command numbers of the dylib loads whose
  path holds a marker: exactly those become weak loads, and every path stays as it was.\<close>

theorem weaken_absent_dylibs_correct:
  assumes "dylibs_ok {LC_LOAD_DYLIB} b e cs"
  shows "\<exists>b' cs'. weaken_absent_dylibs b markers = Inr b' \<and> length b' = length b
    \<and> same_outside (\<lambda>k. 32 \<le> k \<and> int k < e) b b'
    \<and> lc_table b' (length cs) 32 = Inr cs' \<and> spans cs' = spans cs
    \<and> (\<forall>(cmd, sz, o') \<in> set cs.
         u32 b' o' = Inr (if cmd = LC_LOAD_DYLIB \<and> (\<exists>m \<in> set markers. sublist m (named_path b sz o'))
                         then LC_LOAD_WEAK_DYLIB else cmd)
         \<and> (cmd = LC_LOAD_DYLIB \<longrightarrow> named_path b' sz o' = named_path b sz o'))"
proof -
  obtain ncmds where n: "u32 b 16 = Inr ncmds" "table_ok b (nat ncmds) 32 e" "lc_table b (nat ncmds) 32 = Inr cs"
    using assms by (auto simp: dylibs_ok_def)
  have p: "\<forall>(cmd, sz, o') \<in> set cs. dylib_cmd_ok {LC_LOAD_DYLIB} cmd sz o' b"
    using assms by (simp add: dylibs_ok_def)
  obtain b' cs' where r: "for_cmds (\<lambda>b. b) (weaken_cmd markers) (nat ncmds) 32 b = Inr b'"
    and out: "same_outside (\<lambda>k. (32::int) \<le> int k \<and> int k < e) b b'"
    and t: "lc_table b' (nat ncmds) 32 = Inr cs'" "spans cs' = spans cs"
    and each: "\<forall>(cmd, sz, o') \<in> set cs. \<exists>c. weaken_cmd markers cmd sz o' b = Inr c \<and> agree_on o' sz c b'"
    using weaken.pass_correct [OF n(2,3) _ p, of markers] by auto
  have "u32 b' o' = Inr (if cmd = LC_LOAD_DYLIB \<and> (\<exists>m \<in> set markers. sublist m (named_path b sz o'))
                         then LC_LOAD_WEAK_DYLIB else cmd)
         \<and> (cmd = LC_LOAD_DYLIB \<longrightarrow> named_path b' sz o' = named_path b sz o')"
    if m: "(cmd, sz, o') \<in> set cs" for cmd sz o'
  proof -
    obtain c where c: "weaken_cmd markers cmd sz o' b = Inr c" "agree_on o' sz c b'" using each m by blast
    have ok: "dylib_cmd_ok {LC_LOAD_DYLIB} cmd sz o' b" using p m by blast
    have sp: "0 \<le> o'" "8 \<le> sz" "o' + sz \<le> int (length b)"
      using lc_table_span [OF n(2,3) m] table_ok_bounds [OF n(2)] by auto
    have cmd: "u32 b o' = Inr cmd" by (rule lc_table_cmd [OF n(3) _ m]) simp
    have b': "u32 b' o' = u32 c o'" using agree_on_unpack_u [OF c(2), of o' 4] sp by simp
    show ?thesis
    proof (cases "cmd = LC_LOAD_DYLIB")
      case False
      then show ?thesis using c(1) b' cmd by (simp add: weaken_cmd_def)
    next
      case True
      obtain noff where no: "u32 b (o' + 8) = Inr noff" "12 \<le> sz" "12 \<le> noff" "noff \<le> sz"
        using ok True by (auto simp: dylib_cmd_ok_def split: sum.splits)
      have np: "named_path b sz o' = dylib_path b o' sz noff" by (simp add: named_path_def no(1))
      show ?thesis
      proof (cases "\<exists>m \<in> set markers. sublist m (named_path b sz o')")
        case mk: True
        have pw: "p32 b o' LC_LOAD_WEAK_DYLIB = Inr c" using c(1) True mk by (simp add: weaken_cmd_def no(1) np)
        have "agree_on (o' + 4) (sz - 4) b c"
          by (rule agree_on_outside [OF f32.wr_outside [OF pw sp(1)]]) auto
        then have a: "agree_on (o' + 4) (sz - 4) b b'"
          by (rule agree_on_trans) (use c(2) in \<open>auto simp: agree_on_def\<close>)
        have "named_path b' sz o' = named_path b sz o'"
          using agree_on_unpack_u [OF a, of "o' + 8" 4] agree_on_slice [OF a, of "o' + noff" "o' + sz"] no sp
          by (simp add: named_path_def dylib_path_def)
        then show ?thesis using f32.rd_wr_same [OF pw] b' True mk by simp
      next
        case mk: False
        have "c = b" using c(1) True mk by (simp add: weaken_cmd_def no(1) np)
        then show ?thesis using b' cmd mk named_path_agree [OF c(2) no(2) sp(1), of noff] no by simp
      qed
    qed
  qed
  moreover have "length cs = nat ncmds" by (rule lc_table_length [OF n(3)])
  ultimately show ?thesis
    using r out t same_outside_length [OF out] by (auto simp: weaken_absent_dylibs_def n(1))
qed


definition dylib_example :: bytes where
  "dylib_example = replicate 16 0 @ le_words 4 [2, 72] @ replicate 8 0
     @ le_words 4 [0x1B, 16, 7, 7]
     @ le_words 4 [0xC, 56, 24, 2, 0x10000, 0x10000] @ ascii ''/S.framework/Versions/A/S'' @ replicate 7 0"

lemma dylib_example_ok:
  "dylibs_ok DYLIB_CMDS dylib_example 104 [(0x1B, 16, 32), (0xC, 56, 48)]"
  "dylibs_ok {LC_LOAD_DYLIB} dylib_example 104 [(0x1B, 16, 32), (0xC, 56, 48)]"
proof -
  have n: "u32 dylib_example 16 = Inr 2" "table_ok dylib_example (nat 2) 32 104"
    "lc_table dylib_example (nat 2) 32 = Inr [(0x1B, 16, 32), (0xC, 56, 48)]"
    by code_simp+
  have "dylib_cmd_ok S 0xC 56 48 dylib_example" for S
  proof -
    have "u32 dylib_example (48 + 8) = Inr 24" by code_simp
    then show ?thesis by (simp add: dylib_cmd_ok_def)
  qed
  then show "dylibs_ok DYLIB_CMDS dylib_example 104 [(0x1B, 16, 32), (0xC, 56, 48)]"
    "dylibs_ok {LC_LOAD_DYLIB} dylib_example 104 [(0x1B, 16, 32), (0xC, 56, 48)]"
    using n by (auto simp: dylibs_ok_def dylib_cmd_ok_def DYLIB_CMDS_def LC_LOAD_DYLIB_def)
qed

lemma dylib_example_path: "named_path dylib_example 56 48 = ascii ''/S.framework/Versions/A/S''"
  by code_simp

lemma dylib_example_strip: "strip_versions (ascii ''/S.framework/Versions/A/S'') = ascii ''/S.framework/S''"
  by code_simp


lemma weaken_absent_dylibs_correct_witness:
  "\<exists>b'. weaken_absent_dylibs dylib_example [ascii ''S.framework''] = Inr b'
     \<and> u32 b' 48 = Inr LC_LOAD_WEAK_DYLIB \<and> u32 b' 32 = Inr 0x1B"
proof -
  have "sublist (ascii ''S.framework'') (ascii ''/S.framework/Versions/A/S'')" by code_simp
  then show ?thesis
    using weaken_absent_dylibs_correct [OF dylib_example_ok(2), of "[ascii ''S.framework'']"]
    by (auto simp: dylib_example_path LC_LOAD_DYLIB_def)
qed

end
