(* ===== verification/Layout.thy ===== *)
theory Layout
  imports Command_Edit
begin

text \<open>
  The three file layouts of \<^verbatim>\<open>uncache.py\<close>: \<^verbatim>\<open>relayout\<close> packs the segments in the file,
  \<^verbatim>\<open>relayout_pad\<close> mirrors the address space, and \<^verbatim>\<open>relayout_compact\<close> moves every segment to a
  16K-aligned slot, optionally with a gap opened inside one of them. The last one also returns the
  address map the later passes use.
\<close>

subsection \<open>Segments and alignment\<close>

record lay_seg =
  l_lc :: int
  l_name :: bytes
  l_va :: int
  l_vs :: int
  l_fo :: int
  l_fs :: int
  l_ns :: int

definition align16k :: "int \<Rightarrow> int" where
  "align16k x = (x + 0x3FFF) AND NOT 0x3FFF"

definition layout_cmd :: "bytes \<Rightarrow> int \<Rightarrow> int \<Rightarrow> int \<Rightarrow> lay_seg list \<Rightarrow> lay_seg list res" where
  "layout_cmd buf cmd sz off segs =
     (if cmd = LC_SEGMENT_64 then
        bindR (py_decode (cstr16 buf (off + 8))) (\<lambda>nm.
        bindR (u64x4 buf (off + 24)) (\<lambda>(va, vs, fo, fs).
        bindR (u32 buf (off + 64)) (\<lambda>ns.
        Inr (segs @ [\<lparr>l_lc = off, l_name = nm, l_va = va, l_vs = vs, l_fo = fo, l_fs = fs, l_ns = ns\<rparr>]))))
      else Inr segs)"

definition layout_segs :: "bytes \<Rightarrow> int \<Rightarrow> lay_seg list res" where
  "layout_segs buf ncmds = for_cmds (\<lambda>_. buf) (layout_cmd buf) (nat ncmds) 32 []"

lemma align16k_eq: "align16k x = 0x4000 * ((x + 0x3FFF) div 0x4000)"
proof -
  have "(0x3FFF :: int) = mask 14" by (simp add: mask_eq_exp_minus_1)
  then have "align16k x = (x + 0x3FFF) AND NOT (mask 14)" by (simp add: align16k_def)
  also have "\<dots> = push_bit 14 (drop_bit 14 (x + 0x3FFF))"
    by (rule bit_eqI) (auto simp: bit_simps)
  finally show ?thesis by (simp add: push_bit_eq_mult drop_bit_eq_div mult.commute)
qed

lemma align16k_bounds: "x \<le> align16k x" "align16k x < x + 0x4000"
proof -
  let ?y = "x + 0x3FFF"
  have "?y = 0x4000 * (?y div 0x4000) + ?y mod 0x4000" "0 \<le> ?y mod 0x4000" "?y mod 0x4000 < 0x4000"
    by simp_all
  then show "x \<le> align16k x" "align16k x < x + 0x4000" unfolding align16k_eq by linarith+
qed

lemma align16k_dvd: "4096 dvd align16k x" "0x4000 dvd align16k x"
  by (simp_all add: align16k_eq)

subsection \<open>The file offsets of \<^verbatim>\<open>__LINKEDIT\<close> data\<close>

definition shift_field :: "int \<Rightarrow> int \<Rightarrow> bytes \<Rightarrow> bytes res" where
  "shift_field ld p buf = bindR (u32 buf p) (\<lambda>v. if v \<noteq> 0 then p32 buf p (v + ld) else Inr buf)"

definition linkedit_fields :: "int \<Rightarrow> int list" where
  "linkedit_fields cmd =
     (if cmd = LC_SYMTAB then [8, 16]
      else if cmd = LC_DYSYMTAB then [32, 40, 48, 56, 64, 72]
      else if cmd \<in> {LC_DYLD_EXPORTS_TRIE, LC_FUNCTION_STARTS, LC_DATA_IN_CODE} then [8]
      else [])"

definition shift_linkedit_cmd :: "int \<Rightarrow> int \<Rightarrow> int \<Rightarrow> int \<Rightarrow> bytes \<Rightarrow> bytes res" where
  "shift_linkedit_cmd ld cmd sz off buf = foldR (\<lambda>f buf. shift_field ld (off + f) buf) (linkedit_fields cmd) buf"

definition shift_linkedit :: "int \<Rightarrow> int \<Rightarrow> bytes \<Rightarrow> bytes res" where
  "shift_linkedit ld ncmds buf = for_cmds (\<lambda>b. b) (shift_linkedit_cmd ld) (nat ncmds) 32 buf"

subsection \<open>\<^verbatim>\<open>relayout\<close>\<close>

fun relayout_places :: "int \<Rightarrow> bool \<Rightarrow> lay_seg list \<Rightarrow> int list \<times> int" where
  "relayout_places cur first [] = ([], cur)"
| "relayout_places cur first (s # segs) =
     (let nf = (if first then 0 else align16k cur); (place, end) = relayout_places (nf + l_fs s) False segs
      in (nf # place, end))"

definition copy_range :: "bytes \<Rightarrow> int \<Rightarrow> int \<Rightarrow> bytes \<Rightarrow> int \<Rightarrow> int \<Rightarrow> bytes" where
  "copy_range new a b buf c d = py_set_slice new a b (py_slice buf c d)"

definition relayout_fix_seg :: "lay_seg \<times> int \<Rightarrow> bytes \<times> int \<Rightarrow> (bytes \<times> int) res" where
  "relayout_fix_seg = (\<lambda>(s, nf) (new, ld).
     let delta = nf - l_fo s in
     bindR (p64 new (l_lc s + 40) nf) (\<lambda>new.
     bindR (foldR (\<lambda>so new. shift_field delta (so + 48) new) (sect_offs (l_lc s) (l_ns s)) new) (\<lambda>new.
     Inr (new, if l_name s = ascii ''__LINKEDIT'' then delta else ld))))"

definition relayout_copy :: "bytes \<Rightarrow> (lay_seg \<times> int) list \<Rightarrow> bytes \<Rightarrow> bytes" where
  "relayout_copy buf = fold (\<lambda>(s, nf) new. copy_range new nf (nf + l_fs s) buf (l_fo s) (l_fo s + l_fs s))"

definition relayout :: "bytes \<Rightarrow> bytes res" where
  "relayout buf =
     bindR (u32x2 buf 16) (\<lambda>(ncmds, scmds).
     bindR (layout_segs buf ncmds) (\<lambda>segs.
     let (place, cur) = relayout_places 0 True segs;
         new = relayout_copy buf (zip segs place) (zeros cur)
     in bindR (foldR relayout_fix_seg (zip segs place) (new, 0)) (\<lambda>(new, ld). shift_linkedit ld ncmds new)))"

subsection \<open>\<^verbatim>\<open>relayout_pad\<close>\<close>

definition pad_fix_sect :: "int \<Rightarrow> int \<Rightarrow> bytes \<Rightarrow> bytes res" where
  "pad_fix_sect base so new =
     bindR (u64 new (so + 32)) (\<lambda>saddr.
     bindR (u32 new (so + 48)) (\<lambda>o'.
     if o' \<noteq> 0 then p32 new (so + 48) (saddr - base) else Inr new))"

definition pad_fix_seg :: "int \<Rightarrow> lay_seg \<Rightarrow> bytes \<times> int \<Rightarrow> (bytes \<times> int) res" where
  "pad_fix_seg base s = (\<lambda>(new, ld).
     let av = l_va s AND NOT 0x3FFF; pad = l_va s - av in
     bindR (p64 new (l_lc s + 24) av) (\<lambda>new.
     bindR (p64 new (l_lc s + 32) (l_vs s + pad)) (\<lambda>new.
     bindR (p64 new (l_lc s + 40) (av - base)) (\<lambda>new.
     bindR (p64 new (l_lc s + 48) (l_fs s + pad)) (\<lambda>new.
     bindR (foldR (pad_fix_sect base) (sect_offs (l_lc s) (l_ns s)) new) (\<lambda>new.
     Inr (new, if l_name s = ascii ''__LINKEDIT'' then (l_va s - base) - l_fo s else ld)))))))"

definition relayout_pad :: "bytes \<Rightarrow> bytes res" where
  "relayout_pad buf =
     bindR (u32x2 buf 16) (\<lambda>(ncmds, scmds).
     bindR (layout_segs buf ncmds) (\<lambda>segs.
     if segs = [] then Inl Value_Error
     else
       (let base = Min (set (map l_va segs));
            total = Max (set (map (\<lambda>s. l_va s + l_fs s) segs)) - base;
            new = fold (\<lambda>s new. copy_range new (l_va s - base) (l_va s - base + l_fs s) buf (l_fo s) (l_fo s + l_fs s))
                    segs (zeros total)
        in bindR (foldR (pad_fix_seg base) segs (new, 0)) (\<lambda>(new, ld). shift_linkedit ld ncmds new))))"

subsection \<open>\<^verbatim>\<open>relayout_compact\<close>\<close>

record insertion =
  ins_seg :: bytes
  ins_sect :: bytes
  ins_n :: int
  ins_grow :: int

type_synonym delta = "int \<times> int \<times> int"

definition gap_shift :: "insertion option \<Rightarrow> int" where
  "gap_shift ins = (case ins of None \<Rightarrow> 0 | Some i \<Rightarrow> align16k (ins_n i))"

definition is_ins :: "insertion option \<Rightarrow> lay_seg \<Rightarrow> bool" where
  "is_ins ins s = (case ins of None \<Rightarrow> False | Some i \<Rightarrow> l_name s = ins_seg i)"

definition ins_section :: "bytes \<Rightarrow> insertion option \<Rightarrow> lay_seg \<Rightarrow> (int option \<times> int \<times> int) res" where
  "ins_section buf ins s =
     (case ins of None \<Rightarrow> Inr (None, 0, 0) | Some i \<Rightarrow> find_section buf (l_lc s) (l_ns s) (ins_sect i))"

definition text_grow :: "int \<Rightarrow> lay_seg \<Rightarrow> int" where
  "text_grow text_tail s = (if l_name s = ascii ''__TEXT'' then text_tail else 0)"

record placing =
  pl_cur :: int
  pl_place :: "int list"
  pl_deltas :: "delta list"
  pl_pool :: "int option"

definition compact_place :: "bytes \<Rightarrow> insertion option \<Rightarrow> int \<Rightarrow> lay_seg \<Rightarrow> placing \<Rightarrow> placing res" where
  "compact_place buf ins text_tail s p =
     (let nf = pl_cur p; va = l_va s; sz = max (l_vs s) (l_fs s); shift = gap_shift ins;
          tail = text_grow text_tail s
      in if is_ins ins s then
           bindR (ins_section buf ins s) (\<lambda>(_, sa_sr, sz_sr).
           let split_va = sa_sr + sz_sr in
           Inr \<lparr>pl_cur = nf + align16k (sz + shift + tail), pl_place = pl_place p @ [nf],
                pl_deltas = pl_deltas p @ [(va, split_va, nf - va), (split_va, va + sz, nf - va + shift)],
                pl_pool = Some (split_va + (nf - va))\<rparr>)
         else
           Inr \<lparr>pl_cur = nf + align16k (sz + tail), pl_place = pl_place p @ [nf],
                pl_deltas = pl_deltas p @ [(va, va + sz, nf - va)], pl_pool = pl_pool p\<rparr>)"

definition compact_copy :: "bytes \<Rightarrow> int \<Rightarrow> insertion option \<Rightarrow> lay_seg \<times> int \<Rightarrow> bytes \<times> int \<Rightarrow> (bytes \<times> int) res" where
  "compact_copy buf newbase ins = (\<lambda>(s, nf) (new, sz_sr).
     let p = nf - newbase; fo = l_fo s; fs = l_fs s; shift = gap_shift ins in
     if is_ins ins s then
       bindR (ins_section buf ins s) (\<lambda>(_, sa_sr, sz_sr).
       let soff = (sa_sr + sz_sr) - l_va s;
           new = copy_range new p (p + soff) buf fo (fo + soff);
           new = copy_range new (p + soff + shift) (p + fs + shift) buf (fo + soff) (fo + fs)
       in Inr (new, sz_sr))
     else Inr (copy_range new p (p + fs) buf fo (fo + fs), sz_sr))"

definition compact_sect ::
    "bytes \<Rightarrow> int \<Rightarrow> insertion option \<Rightarrow> bool \<Rightarrow> lay_seg \<Rightarrow> int \<Rightarrow> int \<Rightarrow> int option \<Rightarrow> int \<Rightarrow> bytes \<Rightarrow> bytes res" where
  "compact_sect buf newbase ins normalize_empty s delta sz_sr split so new =
     bindR (u64 new (so + 32)) (\<lambda>sa.
     bindR (u64 new (so + 40)) (\<lambda>ssize.
     if sa = 0 then Inr new
     else
       (let sd = delta + (case split of Some v \<Rightarrow> if v \<le> sa then gap_shift ins else 0 | None \<Rightarrow> 0) in
        bindR (p64 new (so + 32) (sa + sd)) (\<lambda>new.
        bindR (if normalize_empty \<and> ssize = 0 then p32s new (so + 48) [sa + sd - newbase, 0]
               else bindR (u32 new (so + 48)) (\<lambda>o'.
                    if o' \<noteq> 0 then p32 new (so + 48) (sa + sd - newbase) else Inr new)) (\<lambda>new.
        case ins of
          None \<Rightarrow> Inr new
        | Some i \<Rightarrow>
            if l_name s = ins_seg i \<and> cstr16 buf so = ins_sect i
            then p64 new (so + 40) (sz_sr + ins_grow i) else Inr new)))))"

definition compact_split :: "bytes \<Rightarrow> insertion option \<Rightarrow> lay_seg \<Rightarrow> int option res" where
  "compact_split buf ins s =
     (if is_ins ins s then
        bindR (ins_section buf ins s) (\<lambda>(so, _, sz).
        case so of None \<Rightarrow> Inl Type_Error | Some so \<Rightarrow> bindR (u64 buf (so + 32)) (\<lambda>sa. Inr (Some (sa + sz))))
      else Inr None)"

definition compact_fix_seg ::
    "bytes \<Rightarrow> int \<Rightarrow> insertion option \<Rightarrow> bool \<Rightarrow> int \<Rightarrow> int \<Rightarrow> lay_seg \<times> int \<Rightarrow> bytes \<times> int \<Rightarrow> (bytes \<times> int) res" where
  "compact_fix_seg buf newbase ins normalize_empty text_tail sz_sr = (\<lambda>(s, nf) (new, ld).
     let delta = nf - l_va s; lc = l_lc s; nm = l_name s;
         extra = (if is_ins ins s then gap_shift ins else 0) + text_grow text_tail s in
     bindR (compact_split buf ins s) (\<lambda>split.
     bindR (p64 new (lc + 24) nf) (\<lambda>new.
     bindR (p64 new (lc + 32) (align16k (l_vs s + extra))) (\<lambda>new.
     bindR (p64 new (lc + 40) (nf - newbase)) (\<lambda>new.
     bindR (p64 new (lc + 48) (if nm = ascii ''__LINKEDIT'' then l_fs s + extra else align16k (l_fs s + extra))) (\<lambda>new.
     bindR (if normalize_empty \<and> (nm = ascii ''__DATA_CONST'' \<or> nm = ascii ''__AUTH_CONST'')
            then bindR (u32 new (lc + 68)) (\<lambda>flags. p32 new (lc + 68) (flags OR 0x10))
            else Inr new) (\<lambda>new.
     bindR (foldR (compact_sect buf newbase ins normalize_empty s delta sz_sr split) (sect_offs lc (l_ns s)) new) (\<lambda>new.
     Inr (new, if nm = ascii ''__LINKEDIT'' then (nf - newbase) - l_fo s else ld)))))))))"

definition compact_plan :: "bytes \<Rightarrow> int \<Rightarrow> insertion option \<Rightarrow> int \<Rightarrow> lay_seg list \<Rightarrow> placing res" where
  "compact_plan buf newbase ins text_tail segs =
     foldR (compact_place buf ins text_tail) segs
       \<lparr>pl_cur = newbase, pl_place = [], pl_deltas = [], pl_pool = None\<rparr>"

definition relayout_compact ::
    "bytes \<Rightarrow> int \<Rightarrow> insertion option \<Rightarrow> bool \<Rightarrow> int \<Rightarrow> (bytes \<times> delta list \<times> int option) res" where
  "relayout_compact buf newbase ins normalize_empty text_tail =
     bindR (u32x2 buf 16) (\<lambda>(ncmds, scmds).
     bindR (layout_segs buf ncmds) (\<lambda>segs.
     bindR (compact_plan buf newbase ins text_tail segs) (\<lambda>p.
     bindR (foldR (compact_copy buf newbase ins) (zip segs (pl_place p)) (zeros (pl_cur p - newbase), 0)) (\<lambda>(new, sz_sr).
     bindR (foldR (compact_fix_seg buf newbase ins normalize_empty text_tail sz_sr) (zip segs (pl_place p)) (new, 0)) (\<lambda>(new, ld).
     bindR (shift_linkedit ld ncmds new) (\<lambda>new.
     Inr (new, pl_deltas p, pl_pool p)))))))"

subsection \<open>\<^verbatim>\<open>make_amap\<close>\<close>

fun amap :: "delta list \<Rightarrow> int \<Rightarrow> int option" where
  "amap [] a = None"
| "amap ((lo, hi, d) # deltas) a = (if lo \<le> a \<and> a < hi then Some (a + d) else amap deltas a)"


subsection \<open>Address maps as an interface\<close>

text \<open>
  What the passes after the layout rely on: the map sends addresses of the old image to different
  addresses of the new one, inside its range, and keeps the offset in the 4K page, so that the
  low 12 bits an \<^verbatim>\<open>ADD\<close> or a load carries stay right and only \<^verbatim>\<open>ADRP\<close> immediates change.
\<close>

locale address_map =
  fixes am :: "int \<Rightarrow> int option" and lo hi :: int
  assumes am_inj: "am a = Some x \<Longrightarrow> am b = Some x \<Longrightarrow> a = b"
    and am_page: "am a = Some x \<Longrightarrow> x mod 4096 = a mod 4096"
    and am_range: "am a = Some x \<Longrightarrow> lo \<le> x \<and> x < hi"
begin

text \<open>A reference and its page: when both map, the \<^verbatim>\<open>ADRP\<close> page of the new address is the old page
  moved by the same amount, and the page offset is the same.\<close>

lemma page_moves:
  assumes "am a = Some x"
  shows "x - x mod 4096 = (a - a mod 4096) + (x - a)"
  using am_page [OF assms] by simp

lemma shift_page_aligned: "am a = Some x \<Longrightarrow> 4096 dvd (x - a)"
  using am_page by (metis mod_eq_dvd_iff)

lemma distinct_image: "distinct as \<Longrightarrow> \<forall>a \<in> set as. am a \<noteq> None \<Longrightarrow> distinct (map (the \<circ> am) as)"
  by (auto simp: distinct_map inj_on_def) (metis am_inj option.sel)

end

text \<open>A list of deltas whose images lie one after the other in \<open>[lo, hi)\<close>.\<close>

fun deltas_ok :: "int \<Rightarrow> int \<Rightarrow> delta list \<Rightarrow> bool" where
  "deltas_ok lo hi [] = (lo \<le> hi)"
| "deltas_ok lo hi ((a, b, d) # ds) = (lo \<le> a + d \<and> a \<le> b \<and> 4096 dvd d \<and> deltas_ok (b + d) hi ds)"

lemma deltas_ok_append:
  "deltas_ok lo hi (ds @ es) \<longleftrightarrow> (\<exists>mid. deltas_ok lo mid ds \<and> deltas_ok mid hi es)"
proof (induction ds arbitrary: lo)
  case Nil
  have "lo \<le> mid \<Longrightarrow> deltas_ok mid hi es \<Longrightarrow> deltas_ok lo hi es" for mid
    by (cases es) auto
  then show ?case by auto
next
  case (Cons x ds)
  then show ?case by (cases x) auto
qed

lemma deltas_ok_le: "deltas_ok lo hi ds \<Longrightarrow> lo \<le> hi"
  by (induction lo hi ds rule: deltas_ok.induct) auto

lemma deltas_ok_mono: "deltas_ok lo hi ds \<Longrightarrow> hi \<le> hi' \<Longrightarrow> deltas_ok lo hi' ds"
  by (induction lo hi ds rule: deltas_ok.induct) auto

lemma amap_range: "deltas_ok lo hi ds \<Longrightarrow> amap ds a = Some x \<Longrightarrow> lo \<le> x \<and> x < hi"
proof (induction lo hi ds rule: deltas_ok.induct)
  case (2 lo hi a' b' d ds)
  then show ?case using deltas_ok_le by (fastforce split: if_splits)
qed simp

lemma amap_page: "deltas_ok lo hi ds \<Longrightarrow> amap ds a = Some x \<Longrightarrow> x mod 4096 = a mod 4096"
proof (induction lo hi ds rule: deltas_ok.induct)
  case (2 lo hi a' b' d ds)
  then show ?case by (auto simp: mod_add_eq dvd_eq_mod_eq_0 mod_add_right_eq [of a d, symmetric] split: if_splits)
qed simp

lemma amap_inj: "deltas_ok lo hi ds \<Longrightarrow> amap ds a = Some x \<Longrightarrow> amap ds b = Some x \<Longrightarrow> a = b"
proof (induction lo hi ds rule: deltas_ok.induct)
  case (2 lo hi a' b' d ds)
  have tl: "b' + d \<le> y" if "amap ds z = Some y" for z y
    using amap_range [of "b' + d" hi ds z y] that 2(2) by simp
  show ?case using 2 tl [of a x] tl [of b x] by (auto split: if_splits)
qed simp

text \<open>The map of a plan, and nothing for a list that is not one: an address map whatever the list.\<close>

definition plan_map :: "int \<Rightarrow> int \<Rightarrow> delta list \<Rightarrow> int \<Rightarrow> int option" where
  "plan_map lo hi ds = (if deltas_ok lo hi ds then amap ds else Map.empty)"

lemma plan_map_eq: "deltas_ok lo hi ds \<Longrightarrow> plan_map lo hi ds = amap ds"
  by (simp add: plan_map_def)

interpretation plan: address_map "plan_map lo hi ds" lo hi
  by unfold_locales
     (auto simp: plan_map_def dest: amap_range amap_page intro: amap_inj split: if_splits)

text \<open>The slot plan: every piece of a segment gets its own stretch of the new image.\<close>

definition plannable :: "bytes \<Rightarrow> int \<Rightarrow> insertion option \<Rightarrow> int \<Rightarrow> lay_seg list \<Rightarrow> bool" where
  "plannable buf newbase ins text_tail segs \<longleftrightarrow>
     4096 dvd newbase \<and> 0 \<le> text_tail \<and> (\<forall>i. ins = Some i \<longrightarrow> 0 \<le> ins_n i)
     \<and> (\<forall>s \<in> set segs. 4096 dvd l_va s \<and> 0 \<le> l_vs s \<and> 0 \<le> l_fs s
          \<and> (is_ins ins s \<longrightarrow> (\<exists>so sa sz. ins_section buf ins s = Inr (so, sa, sz)
               \<and> l_va s \<le> sa + sz \<and> sa + sz \<le> l_va s + max (l_vs s) (l_fs s))))"

lemma compact_place_ok:
  assumes "plannable buf newbase ins text_tail (s # segs)" "4096 dvd pl_cur p" "deltas_ok newbase (pl_cur p) (pl_deltas p)"
  obtains p' where "compact_place buf ins text_tail s p = Inr p'" "4096 dvd pl_cur p'"
    "deltas_ok newbase (pl_cur p') (pl_deltas p')" "length (pl_place p') = Suc (length (pl_place p))"
proof -
  let ?sz = "max (l_vs s) (l_fs s)" and ?nf = "pl_cur p" and ?shift = "gap_shift ins"
  have s: "4096 dvd l_va s" "0 \<le> l_vs s" "0 \<le> l_fs s" "0 \<le> text_tail" "\<forall>i. ins = Some i \<longrightarrow> 0 \<le> ins_n i"
    using assms(1) by (auto simp: plannable_def)
  have tail: "0 \<le> text_grow text_tail s" using s(4) by (simp add: text_grow_def)
  have shift: "0 \<le> ?shift" "4096 dvd ?shift"
    using s(5) align16k_bounds align16k_dvd by (auto simp: gap_shift_def split: option.splits intro: order_trans)
  have d: "4096 dvd (?nf - l_va s)" using assms(2) s(1) by (rule dvd_diff)
  show thesis
  proof (cases "is_ins ins s")
    case True
    obtain so sa sz where sec: "ins_section buf ins s = Inr (so, sa, sz)" "l_va s \<le> sa + sz" "sa + sz \<le> l_va s + ?sz"
      using assms(1) True by (auto simp: plannable_def)
    let ?cur = "?nf + align16k (?sz + ?shift + text_grow text_tail s)"
    have b: "?nf + ?sz + ?shift \<le> ?cur" using align16k_bounds(1) [of "?sz + ?shift + text_grow text_tail s"] tail by linarith
    have dk: "deltas_ok newbase ?cur (pl_deltas p @ [(l_va s, sa + sz, ?nf - l_va s), (sa + sz, l_va s + ?sz, ?nf - l_va s + ?shift)])"
      unfolding deltas_ok_append
      by (intro exI [of _ ?nf]) (use assms(3) sec(2,3) shift d b in auto)
    let ?P = "\<lparr>pl_cur = ?cur, pl_place = pl_place p @ [?nf],
        pl_deltas = pl_deltas p @ [(l_va s, sa + sz, ?nf - l_va s), (sa + sz, l_va s + ?sz, ?nf - l_va s + ?shift)],
        pl_pool = Some (sa + sz + (?nf - l_va s))\<rparr>"
    have "compact_place buf ins text_tail s p = Inr ?P" using True sec(1) by (simp add: compact_place_def Let_def)
    moreover have "4096 dvd pl_cur ?P" using dvd_add [OF assms(2) align16k_dvd(1)] by (simp only: placing.simps)
    moreover have "deltas_ok newbase (pl_cur ?P) (pl_deltas ?P)" using dk by (simp only: placing.simps)
    ultimately show ?thesis by (rule that) (simp only: placing.simps length_append list.size add_0 add_Suc_right add_0_right)
  next
    case False
    let ?cur = "?nf + align16k (?sz + text_grow text_tail s)"
    have b: "?nf + ?sz \<le> ?cur" using align16k_bounds(1) [of "?sz + text_grow text_tail s"] tail by linarith
    have dk: "deltas_ok newbase ?cur (pl_deltas p @ [(l_va s, l_va s + ?sz, ?nf - l_va s)])"
      unfolding deltas_ok_append
      by (intro exI [of _ ?nf]) (use assms(3) d b s(2,3) in auto)
    let ?P = "\<lparr>pl_cur = ?cur, pl_place = pl_place p @ [?nf],
        pl_deltas = pl_deltas p @ [(l_va s, l_va s + ?sz, ?nf - l_va s)], pl_pool = pl_pool p\<rparr>"
    have "compact_place buf ins text_tail s p = Inr ?P" using False by (simp add: compact_place_def Let_def)
    moreover have "4096 dvd pl_cur ?P" using dvd_add [OF assms(2) align16k_dvd(1)] by (simp only: placing.simps)
    moreover have "deltas_ok newbase (pl_cur ?P) (pl_deltas ?P)" using dk by (simp only: placing.simps)
    ultimately show ?thesis by (rule that) (simp only: placing.simps length_append list.size add_0 add_Suc_right add_0_right)
  qed
qed

lemma compact_fold_ok:
  assumes "plannable buf newbase ins text_tail segs" "4096 dvd pl_cur p" "deltas_ok newbase (pl_cur p) (pl_deltas p)"
  obtains p' where "foldR (compact_place buf ins text_tail) segs p = Inr p'"
    "deltas_ok newbase (pl_cur p') (pl_deltas p')" "length (pl_place p') = length (pl_place p) + length segs"
  using assms
proof (induction segs arbitrary: p thesis)
  case (Cons s segs)
  obtain q where q: "compact_place buf ins text_tail s p = Inr q" "4096 dvd pl_cur q"
    "deltas_ok newbase (pl_cur q) (pl_deltas q)" "length (pl_place q) = Suc (length (pl_place p))"
    using compact_place_ok [OF Cons.prems(2-4)] by metis
  have "plannable buf newbase ins text_tail segs" using Cons.prems(2) by (simp add: plannable_def)
  from Cons.IH [OF _ this q(2,3)] obtain p' where "foldR (compact_place buf ins text_tail) segs q = Inr p'"
    "deltas_ok newbase (pl_cur p') (pl_deltas p')" "length (pl_place p') = length (pl_place q) + length segs"
    by blast
  then show ?case using Cons.prems(1) [of p'] q by simp
qed simp

text \<open>C6: The slot plan of the compact layout succeeds, and the address map it yields is one-to-one
  (no two addresses of the old image, gap or not, land on the same place), keeps every page
  offset, and stays inside the new image.\<close>

theorem compact_amap_correct:
  assumes "plannable buf newbase ins text_tail segs"
  shows "\<exists>p. compact_plan buf newbase ins text_tail segs = Inr p \<and> length (pl_place p) = length segs
    \<and> (\<forall>a b x. amap (pl_deltas p) a = Some x \<longrightarrow> amap (pl_deltas p) b = Some x \<longrightarrow> a = b)
    \<and> (\<forall>a x. amap (pl_deltas p) a = Some x \<longrightarrow>
         x mod 4096 = a mod 4096 \<and> 4096 dvd (x - a) \<and> newbase \<le> x \<and> x < pl_cur p)"
proof -
  have "4096 dvd newbase" using assms by (simp add: plannable_def)
  then obtain p where p: "compact_plan buf newbase ins text_tail segs = Inr p"
    "deltas_ok newbase (pl_cur p) (pl_deltas p)" "length (pl_place p) = length segs"
    using compact_fold_ok [OF assms, of "\<lparr>pl_cur = newbase, pl_place = [], pl_deltas = [], pl_pool = None\<rparr>"]
    by (auto simp: compact_plan_def)
  note m = plan_map_eq [OF p(2)]
  note laws = plan.am_inj [of newbase "pl_cur p" "pl_deltas p", unfolded m]
    plan.am_page [of newbase "pl_cur p" "pl_deltas p", unfolded m]
    plan.am_range [of newbase "pl_cur p" "pl_deltas p", unfolded m]
    plan.shift_page_aligned [of newbase "pl_cur p" "pl_deltas p", unfolded m]
  show ?thesis using p(1,3) laws by blast
qed


definition plan_example :: "lay_seg list" where
  "plan_example =
     [\<lparr>l_lc = 32, l_name = ascii ''__TEXT'', l_va = 0x180004000, l_vs = 0x5000, l_fo = 0, l_fs = 0x5000, l_ns = 0\<rparr>,
      \<lparr>l_lc = 104, l_name = ascii ''__DATA'', l_va = 0x1D0001000, l_vs = 0x9000, l_fo = 0x5000, l_fs = 0x8000, l_ns = 0\<rparr>]"

lemma compact_amap_correct_witness:
  "\<exists>p. compact_plan [] 0x100000000 None 0x100 plan_example = Inr p
     \<and> pl_deltas p = [(0x180004000, 0x180009000, - 0x80004000), (0x1D0001000, 0x1D000A000, - 0xCFFF9000)]
     \<and> (\<forall>a b x. amap (pl_deltas p) a = Some x \<longrightarrow> amap (pl_deltas p) b = Some x \<longrightarrow> a = b)"
proof -
  have ok: "plannable [] 0x100000000 None 0x100 plan_example"
    by (simp add: plannable_def plan_example_def is_ins_def)
  have run: "compact_plan [] 0x100000000 None 0x100 plan_example =
    Inr \<lparr>pl_cur = 0x100014000, pl_place = [0x100000000, 0x100008000],
      pl_deltas = [(0x180004000, 0x180009000, - 0x80004000), (0x1D0001000, 0x1D000A000, - 0xCFFF9000)], pl_pool = None\<rparr>"
    by code_simp
  obtain p where p: "compact_plan [] 0x100000000 None 0x100 plan_example = Inr p"
    and inj: "\<forall>a b x. amap (pl_deltas p) a = Some x \<longrightarrow> amap (pl_deltas p) b = Some x \<longrightarrow> a = b"
    using compact_amap_correct [OF ok] by blast
  have "pl_deltas p = [(0x180004000, 0x180009000, - 0x80004000), (0x1D0001000, 0x1D000A000, - 0xCFFF9000)]"
    using p unfolding run by auto
  then show ?thesis using p inj by blast
qed

subsection \<open>Where \<^verbatim>\<open>relayout\<close> puts the contents\<close>

lemma copy_range_put:
  assumes "0 \<le> d" "0 \<le> l" "d + l \<le> int (length new)" "0 \<le> s" "s + l \<le> int (length buf)"
  shows "copy_range new d (d + l) buf s (s + l) = put_at new (nat d) (py_slice buf s (s + l))"
    "length (py_slice buf s (s + l)) = nat l"
proof -
  show ll: "length (py_slice buf s (s + l)) = nat l" using assms by (simp add: length_py_slice)
  show "copy_range new d (d + l) buf s (s + l) = put_at new (nat d) (py_slice buf s (s + l))"
    unfolding copy_range_def by (rule py_set_slice_put_at) (use assms ll in auto)
qed

definition seg_fits :: "bytes \<Rightarrow> int \<Rightarrow> lay_seg \<times> int \<Rightarrow> bool" where
  "seg_fits buf n = (\<lambda>(s, nf). 0 \<le> nf \<and> 0 \<le> l_fs s \<and> nf + l_fs s \<le> n \<and> 0 \<le> l_fo s \<and> l_fo s + l_fs s \<le> int (length buf))"

lemma relayout_copy_outside:
  assumes "list_all (seg_fits buf (int (length new))) ps"
  shows "same_outside (\<lambda>k. \<exists>(s, nf) \<in> set ps. nf \<le> int k \<and> int k < nf + l_fs s) new (relayout_copy buf ps new)"
  using assms
proof (induction ps arbitrary: new)
  case Nil
  then show ?case by (simp add: relayout_copy_def)
next
  case (Cons x ps)
  obtain s nf where x: "x = (s, nf)" by (cases x)
  let ?c = "copy_range new nf (nf + l_fs s) buf (l_fo s) (l_fo s + l_fs s)"
  have f: "0 \<le> nf" "0 \<le> l_fs s" "nf + l_fs s \<le> int (length new)" "0 \<le> l_fo s" "l_fo s + l_fs s \<le> int (length buf)"
    using Cons.prems by (simp_all add: x seg_fits_def)
  note c = copy_range_put [OF f]
  have fit: "nat nf + length (py_slice buf (l_fo s) (l_fo s + l_fs s)) \<le> length new" using f c(2) by linarith
  have "same_outside (\<lambda>k. \<exists>(s, nf) \<in> set (x # ps). nf \<le> int k \<and> int k < nf + l_fs s) new ?c"
    unfolding c(1)
  proof (rule same_outside_mono [OF same_outside_put_at [OF fit]])
    fix k assume "nat nf \<le> k \<and> k < nat nf + length (py_slice buf (l_fo s) (l_fo s + l_fs s))"
    then have "nf \<le> int k \<and> int k < nf + l_fs s" using f(1,2) unfolding c(2) by linarith
    then show "\<exists>(s, nf) \<in> set (x # ps). nf \<le> int k \<and> int k < nf + l_fs s" by (auto simp: x)
  qed
  moreover have "length ?c = length new" using fit by (simp add: c(1))
  then have "same_outside (\<lambda>k. \<exists>(s, nf) \<in> set ps. nf \<le> int k \<and> int k < nf + l_fs s) ?c (relayout_copy buf ps ?c)"
    using Cons.IH [of ?c] Cons.prems by simp
  then have "same_outside (\<lambda>k. \<exists>(s, nf) \<in> set (x # ps). nf \<le> int k \<and> int k < nf + l_fs s) ?c (relayout_copy buf ps ?c)"
    by (rule same_outside_mono) auto
  ultimately show ?case by (simp add: relayout_copy_def x same_outside_trans)
qed

lemma relayout_copy_content:
  assumes "list_all (seg_fits buf (int (length new))) ps"
    and "sorted_wrt (\<lambda>(s, nf) (s', nf'). nf + l_fs s \<le> nf') ps" and "(s, nf) \<in> set ps"
  shows "py_slice (relayout_copy buf ps new) nf (nf + l_fs s) = py_slice buf (l_fo s) (l_fo s + l_fs s)"
  using assms
proof (induction ps arbitrary: new)
  case (Cons x ps)
  obtain s' nf' where x: "x = (s', nf')" by (cases x)
  let ?c = "copy_range new nf' (nf' + l_fs s') buf (l_fo s') (l_fo s' + l_fs s')"
  have f: "0 \<le> nf'" "0 \<le> l_fs s'" "nf' + l_fs s' \<le> int (length new)" "0 \<le> l_fo s'" "l_fo s' + l_fs s' \<le> int (length buf)"
    using Cons.prems by (simp_all add: x seg_fits_def)
  note c = copy_range_put [OF f]
  have fit: "nat nf' + length (py_slice buf (l_fo s') (l_fo s' + l_fs s')) \<le> length new" using f c(2) by linarith
  have lc: "length ?c = length new" using fit by (simp add: c(1))
  have step: "relayout_copy buf (x # ps) new = relayout_copy buf ps ?c" by (simp add: relayout_copy_def x)
  have fits: "list_all (seg_fits buf (int (length ?c))) ps" using Cons.prems(1) lc by simp
  show ?case
  proof (cases "(s, nf) = x")
    case False
    then have "(s, nf) \<in> set ps" using Cons.prems(3) by simp
    then show ?thesis unfolding step using Cons.IH [OF fits] Cons.prems(2) by simp
  next
    case True
    have "agree_on nf' (l_fs s') ?c (relayout_copy buf ps ?c)"
      by (rule agree_on_outside [OF relayout_copy_outside [OF fits]]) (use Cons.prems(2) x in fastforce)
    then have "py_slice (relayout_copy buf ps ?c) nf' (nf' + l_fs s') = py_slice ?c nf' (nf' + l_fs s')"
      by (rule agree_on_slice) (use f in auto)
    also have "\<dots> = take (nat (l_fs s')) (drop (nat nf') ?c)"
      using f lc by (subst py_slice_take_drop) auto
    also have "\<dots> = py_slice buf (l_fo s') (l_fo s' + l_fs s')"
      using take_drop_put_at_same [OF fit] by (simp add: c)
    finally show ?thesis unfolding step using True x by simp
  qed
qed simp

lemma relayout_places_props:
  assumes "relayout_places cur first segs = (place, fin)" "\<forall>s \<in> set segs. 0 \<le> l_fs s" "0 \<le> cur" "first \<longrightarrow> cur = 0"
  shows "length place = length segs \<and> cur \<le> fin \<and> (\<forall>p \<in> set place. 0x4000 dvd p)
    \<and> (\<forall>(s, nf) \<in> set (zip segs place). cur \<le> nf \<and> nf + l_fs s \<le> fin)
    \<and> sorted_wrt (\<lambda>(s, nf) (s', nf'). nf + l_fs s \<le> nf') (zip segs place)"
  using assms
proof (induction segs arbitrary: cur first place fin)
  case (Cons s segs)
  let ?nf = "if first then 0 else align16k cur"
  obtain pl where pl: "relayout_places (?nf + l_fs s) False segs = (pl, fin)" "place = ?nf # pl"
    using Cons.prems(1) by (auto simp: Let_def split: prod.splits)
  have nf: "cur \<le> ?nf" "0x4000 dvd ?nf" using Cons.prems(4) align16k_bounds(1) [of cur] align16k_dvd(2) by auto
  have fs: "0 \<le> l_fs s" "\<forall>s \<in> set segs. 0 \<le> l_fs s" using Cons.prems(2) by auto
  have ih: "length pl = length segs \<and> ?nf + l_fs s \<le> fin \<and> (\<forall>p \<in> set pl. 0x4000 dvd p)
    \<and> (\<forall>(s', nf) \<in> set (zip segs pl). ?nf + l_fs s \<le> nf \<and> nf + l_fs s' \<le> fin)
    \<and> sorted_wrt (\<lambda>(s, nf) (s', nf'). nf + l_fs s \<le> nf') (zip segs pl)"
    by (rule Cons.IH [OF pl(1) fs(2)]) (use nf(1) fs(1) Cons.prems(3) in auto)
  show ?case using ih nf fs(1) unfolding pl(2) by fastforce
qed simp

text \<open>C7: \<^verbatim>\<open>relayout\<close> packs the segments in table order at 16K-aligned file offsets that do not overlap,
  the first at 0, and each place receives exactly the content its segment had.\<close>

theorem relayout_packs:
  assumes "relayout_places 0 True segs = (place, fin)"
    and "\<forall>s \<in> set segs. 0 \<le> l_fs s \<and> 0 \<le> l_fo s \<and> l_fo s + l_fs s \<le> int (length buf)"
  shows "length place = length segs \<and> (\<forall>p \<in> set place. 0x4000 dvd p)
    \<and> sorted_wrt (\<lambda>(s, nf) (s', nf'). nf + l_fs s \<le> nf') (zip segs place)
    \<and> (\<forall>(s, nf) \<in> set (zip segs place). nf + l_fs s \<le> fin
         \<and> py_slice (relayout_copy buf (zip segs place) (zeros fin)) nf (nf + l_fs s)
           = py_slice buf (l_fo s) (l_fo s + l_fs s))"
proof -
  have p: "length place = length segs" "0 \<le> fin" "\<forall>p \<in> set place. 0x4000 dvd p"
    "\<forall>(s, nf) \<in> set (zip segs place). 0 \<le> nf \<and> nf + l_fs s \<le> fin"
    "sorted_wrt (\<lambda>(s, nf) (s', nf'). nf + l_fs s \<le> nf') (zip segs place)"
    using relayout_places_props [OF assms(1)] assms(2) by auto
  have "list_all (seg_fits buf (int (length (zeros fin)))) (zip segs place)"
    using p(2,4) assms(2) by (auto simp: list_all_iff seg_fits_def dest: set_zip_leftD)
  then show ?thesis using p relayout_copy_content [of buf "zeros fin" "zip segs place"] by auto
qed

lemma relayout_packs_witness:
  "relayout_places 0 True
     [\<lparr>l_lc = 32, l_name = [], l_va = 0, l_vs = 0, l_fo = 2, l_fs = 3, l_ns = 0\<rparr>,
      \<lparr>l_lc = 104, l_name = [], l_va = 0, l_vs = 0, l_fo = 0, l_fs = 2, l_ns = 0\<rparr>] = ([0, 0x4000], 0x4002)
   \<and> py_slice (relayout_copy [1, 2, 3, 4, 5]
       (zip [\<lparr>l_lc = 32, l_name = [], l_va = 0, l_vs = 0, l_fo = 2, l_fs = 3, l_ns = 0\<rparr>,
      \<lparr>l_lc = 104, l_name = [], l_va = 0, l_vs = 0, l_fo = 0, l_fs = 2, l_ns = 0\<rparr>] [0, 0x4000]) (zeros 0x4002)) 0x4000 0x4002
     = [1, 2]"
proof -
  let ?segs = "[\<lparr>l_lc = 32, l_name = [], l_va = 0, l_vs = 0, l_fo = 2, l_fs = 3, l_ns = 0\<rparr>,
      \<lparr>l_lc = 104, l_name = [], l_va = 0, l_vs = 0, l_fo = 0, l_fs = 2, l_ns = 0\<rparr>]"
  have r: "relayout_places 0 True ?segs = ([0, 0x4000], 0x4002)" by (simp add: align16k_eq)
  show ?thesis using relayout_packs [OF r, of "[1, 2, 3, 4, 5]"] r
    by (simp add: py_slice_def slice_bound_def)
qed

end
