(* ===== verification/Linkedit.thy ===== *)
theory Linkedit
  imports Layout
begin

text \<open>
  The last step of all three layouts: the file offsets that the symbol-table, exports-trie,
  function-starts and data-in-code commands hold into \<^verbatim>\<open>__LINKEDIT\<close> move with that segment.
\<close>

definition shifted :: "int \<Rightarrow> int \<Rightarrow> int" where
  "shifted ld v = (if v = 0 then 0 else v + ld)"

definition field_shiftable :: "int \<Rightarrow> int \<Rightarrow> bytes \<Rightarrow> bool" where
  "field_shiftable ld p b = (case u32 b p of Inl _ \<Rightarrow> False | Inr v \<Rightarrow> 0 \<le> shifted ld v \<and> shifted ld v < 2 ^ 32)"

definition linkedit_cmd_ok :: "int \<Rightarrow> int \<Rightarrow> int \<Rightarrow> int \<Rightarrow> bytes \<Rightarrow> bool" where
  "linkedit_cmd_ok ld cmd sz off b \<longleftrightarrow>
     (\<forall>f \<in> set (linkedit_fields cmd). f + 4 \<le> sz \<and> field_shiftable ld (off + f) b)"

lemma linkedit_fields_bounds: "f \<in> set (linkedit_fields cmd) \<Longrightarrow> 8 \<le> f"
  by (auto simp: linkedit_fields_def split: if_splits)

lemma linkedit_fields_spaced: "sorted_wrt (\<lambda>f g. f + 4 \<le> g) (linkedit_fields cmd)"
  by (simp add: linkedit_fields_def)

lemma shift_field_cases:
  assumes "field_shiftable ld p b" "0 \<le> p"
  obtains v b' where "u32 b p = Inr v" "shift_field ld p b = Inr b'" "u32 b' p = Inr (shifted ld v)"
    "same_outside (\<lambda>k. p \<le> int k \<and> int k < p + 4) b b'"
proof -
  obtain v where v: "u32 b p = Inr v" "0 \<le> shifted ld v" "shifted ld v < 2 ^ 32"
    using assms(1) by (auto simp: field_shiftable_def split: sum.splits)
  have len: "p + 4 \<le> int (length b)" using v(1) unpack_u_ok_iff [OF assms(2), of 4 b] by simp
  show thesis
  proof (cases "v = 0")
    case True
    then show ?thesis using v by (intro that [of v b]) (simp_all add: shift_field_def shifted_def)
  next
    case False
    have "0 \<le> v + ld" "v + ld < 2 ^ 32" using v(2,3) False by (simp_all add: shifted_def)
    then obtain b' where b': "p32 b p (v + ld) = Inr b'" using f32.wr_ok [OF assms(2), of b] len by auto
    show ?thesis
      by (rule that [of v b'])
         (use v(1) b' False f32.rd_wr_same [OF b'] f32.wr_outside [OF b' assms(2)]
           in \<open>simp_all add: shift_field_def shifted_def\<close>)
  qed
qed

lemma shift_fields_run:
  assumes "\<forall>f \<in> set fs. field_shiftable ld (off + f) b \<and> 0 \<le> off + f" "sorted_wrt (\<lambda>f g. f + 4 \<le> g) fs"
  shows "\<exists>b'. foldR (\<lambda>f buf. shift_field ld (off + f) buf) fs b = Inr b'
    \<and> same_outside (\<lambda>k. \<exists>f \<in> set fs. off + f \<le> int k \<and> int k < off + f + 4) b b'
    \<and> (\<forall>f \<in> set fs. \<exists>v. u32 b (off + f) = Inr v \<and> u32 b' (off + f) = Inr (shifted ld v))"
  using assms
proof (induction fs arbitrary: b)
  case (Cons f fs)
  obtain v c where v: "u32 b (off + f) = Inr v" and c: "shift_field ld (off + f) b = Inr c"
    "u32 c (off + f) = Inr (shifted ld v)" "same_outside (\<lambda>k. off + f \<le> int k \<and> int k < off + f + 4) b c"
    using shift_field_cases [of ld "off + f" b] Cons.prems(1) by auto
  have same: "u32 c (off + g) = u32 b (off + g)" if "g \<in> set fs" for g
    by (rule same_outside_unpack_u [OF c(3)]) (use Cons.prems that in auto)
  have "\<forall>g \<in> set fs. field_shiftable ld (off + g) c \<and> 0 \<le> off + g"
    using Cons.prems(1) same by (simp add: field_shiftable_def)
  then obtain b' where r: "foldR (\<lambda>f buf. shift_field ld (off + f) buf) fs c = Inr b'"
    and out: "same_outside (\<lambda>k. \<exists>f \<in> set fs. off + f \<le> int k \<and> int k < off + f + 4) c b'"
    and each: "\<forall>g \<in> set fs. \<exists>v. u32 c (off + g) = Inr v \<and> u32 b' (off + g) = Inr (shifted ld v)"
    using Cons.IH [of c] Cons.prems(2) by auto
  have hd: "u32 b' (off + f) = u32 c (off + f)"
  proof (rule same_outside_unpack_u [OF out])
    show "0 \<le> off + f" using Cons.prems(1) by simp
    fix k assume "off + f \<le> int k" "int k < off + f + int 4"
    then show "\<not> (\<exists>f \<in> set fs. off + f \<le> int k \<and> int k < off + f + 4)"
      using Cons.prems(2) by fastforce
  qed
  have "same_outside (\<lambda>k. \<exists>g \<in> set (f # fs). off + g \<le> int k \<and> int k < off + g + 4) b b'"
  proof (rule same_outside_trans)
    show "same_outside (\<lambda>k. \<exists>g \<in> set (f # fs). off + g \<le> int k \<and> int k < off + g + 4) b c"
      by (rule same_outside_mono [OF c(3)]) simp
    show "same_outside (\<lambda>k. \<exists>g \<in> set (f # fs). off + g \<le> int k \<and> int k < off + g + 4) c b'"
      by (rule same_outside_mono [OF out]) auto
  qed
  then show ?case using c r v hd each same by (intro exI [of _ b']) auto
qed simp

lemma shift_fields_local:
  assumes "foldR (\<lambda>f buf. shift_field ld (off + f) buf) fs b = Inr b'" "agree_on off sz b c" "0 \<le> off"
    and "\<forall>f \<in> set fs. 0 \<le> f \<and> f + 4 \<le> sz"
  shows "\<exists>c'. foldR (\<lambda>f buf. shift_field ld (off + f) buf) fs c = Inr c' \<and> agree_on off sz b' c'"
  using assms
proof (induction fs arbitrary: b c)
  case (Cons f fs)
  from Cons.prems(1) obtain m where m: "shift_field ld (off + f) b = Inr m"
    and r: "foldR (\<lambda>f buf. shift_field ld (off + f) buf) fs m = Inr b'"
    by (auto simp: bindR_Inr_iff)
  from m obtain v where v: "u32 b (off + f) = Inr v" by (auto simp: shift_field_def bindR_Inr_iff)
  have u: "u32 c (off + f) = Inr v" using agree_on_unpack_u [OF Cons.prems(2), of "off + f" 4] Cons.prems(3,4) v by simp
  obtain n where n: "shift_field ld (off + f) c = Inr n" "agree_on off sz m n"
  proof (cases "v = 0")
    case True
    then show ?thesis using m Cons.prems(2) that by (simp add: shift_field_def v u)
  next
    case False
    then have "p32 b (off + f) (v + ld) = Inr m" using m by (simp add: shift_field_def v)
    moreover have "0 \<le> off + f" using Cons.prems(3,4) by simp
    ultimately obtain n where "p32 c (off + f) (v + ld) = Inr n" "agree_on off sz m n"
      using agree_on_pack_u [OF Cons.prems(2)] by blast
    then show ?thesis using False that by (simp add: shift_field_def u)
  qed
  show ?case using Cons.IH [OF r n(2) Cons.prems(3)] Cons.prems(4) n(1) by simp
qed simp

interpretation linkedit: command_edit "shift_linkedit_cmd ld" "linkedit_cmd_ok ld"
proof
  fix cmd sz off b b'
  assume e: "shift_linkedit_cmd ld cmd sz off b = Inr b'" and p: "linkedit_cmd_ok ld cmd sz off b"
    and r: "8 \<le> sz" "0 \<le> off" "off + sz \<le> int (length b)"
  have f: "\<forall>f \<in> set (linkedit_fields cmd). field_shiftable ld (off + f) b \<and> 0 \<le> off + f"
    using p r(2) linkedit_fields_bounds by (fastforce simp: linkedit_cmd_ok_def)
  have out: "same_outside (\<lambda>k. \<exists>f \<in> set (linkedit_fields cmd). off + f \<le> int k \<and> int k < off + f + 4) b b'"
    using shift_fields_run [OF f linkedit_fields_spaced] e by (auto simp: shift_linkedit_cmd_def)
  have "same_outside (\<lambda>k. off \<le> int k \<and> int k < off + sz) b b'"
    by (rule same_outside_mono [OF out])
       (use p linkedit_fields_bounds in \<open>fastforce simp: linkedit_cmd_ok_def\<close>)
  moreover have "u32 b' (off + 4) = u32 b (off + 4)"
    by (rule same_outside_unpack_u [OF out]) (use r linkedit_fields_bounds in fastforce)+
  ultimately show "same_outside (\<lambda>k. off \<le> int k \<and> int k < off + sz) b b' \<and> u32 b' (off + 4) = u32 b (off + 4)"
    by simp
next
  fix cmd sz off b b' c
  assume "shift_linkedit_cmd ld cmd sz off b = Inr b'" "linkedit_cmd_ok ld cmd sz off b" "8 \<le> sz" "0 \<le> off"
    "off + sz \<le> int (length b)" "agree_on off sz b c"
  then show "\<exists>c'. shift_linkedit_cmd ld cmd sz off c = Inr c' \<and> agree_on off sz b' c'"
    unfolding shift_linkedit_cmd_def
    by (intro shift_fields_local) (auto simp: linkedit_cmd_ok_def dest: linkedit_fields_bounds)
next
  fix cmd sz off b c
  assume p: "linkedit_cmd_ok ld cmd sz off b" and r: "8 \<le> sz" "0 \<le> off" and a: "agree_on off sz b c"
  have "u32 c (off + f) = u32 b (off + f)" if "f \<in> set (linkedit_fields cmd)" for f
    using agree_on_unpack_u [OF a, of "off + f" 4] p that r linkedit_fields_bounds [OF that]
    by (simp add: linkedit_cmd_ok_def)
  then show "linkedit_cmd_ok ld cmd sz off c" using p by (simp add: linkedit_cmd_ok_def field_shiftable_def)
next
  fix cmd sz off b
  assume p: "linkedit_cmd_ok ld cmd sz off b" and r: "8 \<le> sz" "0 \<le> off"
  have f: "\<forall>f \<in> set (linkedit_fields cmd). field_shiftable ld (off + f) b \<and> 0 \<le> off + f"
    using p r(2) linkedit_fields_bounds by (fastforce simp: linkedit_cmd_ok_def)
  show "\<exists>b'. shift_linkedit_cmd ld cmd sz off b = Inr b'"
    using shift_fields_run [OF f linkedit_fields_spaced] by (auto simp: shift_linkedit_cmd_def)
qed


definition linkedit_example :: bytes where
  "linkedit_example = replicate 32 0 @ le_words 4 [2, 24, 0x5000, 7, 0, 9] @ le_words 4 [0x26, 16, 0x6000, 8]"


end
