(* ===== verification/Leb128.thy ===== *)
theory Leb128
  imports MachO Bits
begin

text \<open>
  The LEB128 readers of \<^verbatim>\<open>uncache.py\<close> (\<^verbatim>\<open>_read_uleb\<close>, \<^verbatim>\<open>_read_sleb\<close>, and \<^verbatim>\<open>ruleb\<close>, \<^verbatim>\<open>ulen\<close> of
  \<^verbatim>\<open>fix_export_trie\<close>) and \<^verbatim>\<open>wpad\<close>, which re-encodes a value in a given number of bytes. The
  loops move a position through the buffer, and \<^verbatim>\<open>buf[p]\<close> raises at the end, so they stop.
\<close>

lemma py_set_index_nonneg: "0 \<le> i \<Longrightarrow> i < int (length xs) \<Longrightarrow> py_set_index xs i v = Inr (xs[nat i := v])"
  by (simp add: py_set_index_def index_pos_def)

subsection \<open>Readers\<close>

function uleb_loop :: "bytes \<Rightarrow> int \<Rightarrow> int \<Rightarrow> nat \<Rightarrow> (int \<times> int) res" where
  "uleb_loop buf p r s =
     bindR (py_index buf p) (\<lambda>b.
     let r = r OR push_bit s (uint b AND 0x7F); p = p + 1 in
     if uint b AND 0x80 = 0 then Inr (r, p) else uleb_loop buf p r (s + 7))"
  by pat_completeness auto
termination
  by (relation "measure (\<lambda>(buf, p, r, s). nat (int (length buf) - p))") (auto dest: py_index_less)

declare uleb_loop.simps [simp del]

definition read_uleb :: "bytes \<Rightarrow> int \<Rightarrow> (int \<times> int) res" where
  "read_uleb buf p = uleb_loop buf p 0 0"

function sleb_loop :: "bytes \<Rightarrow> int \<Rightarrow> int \<Rightarrow> nat \<Rightarrow> (int \<times> int) res" where
  "sleb_loop buf p r s =
     bindR (py_index buf p) (\<lambda>b.
     let r = r OR push_bit s (uint b AND 0x7F); p = p + 1; s = s + 7 in
     if uint b AND 0x80 = 0
     then Inr (if uint b AND 0x40 \<noteq> 0 then r - push_bit s 1 else r, p)
     else sleb_loop buf p r s)"
  by pat_completeness auto
termination
  by (relation "measure (\<lambda>(buf, p, r, s). nat (int (length buf) - p))") (auto dest: py_index_less)

declare sleb_loop.simps [simp del]

definition read_sleb :: "bytes \<Rightarrow> int \<Rightarrow> (int \<times> int) res" where
  "read_sleb buf p = sleb_loop buf p 0 0"

function ulen_loop :: "bytes \<Rightarrow> int \<Rightarrow> nat \<Rightarrow> nat res" where
  "ulen_loop buf p n =
     bindR (py_index buf p) (\<lambda>b. if uint b AND 0x80 = 0 then Inr n else ulen_loop buf (p + 1) (n + 1))"
  by pat_completeness auto
termination
  by (relation "measure (\<lambda>(buf, p, n). nat (int (length buf) - p))") (auto dest: py_index_less)

declare ulen_loop.simps [simp del]

definition ulen :: "bytes \<Rightarrow> int \<Rightarrow> nat res" where
  "ulen buf p = ulen_loop buf p 1"

text \<open>\<^verbatim>\<open>wpad\<close>: \<open>val\<close> in exactly \<open>n\<close> bytes, the last one without the continuation bit.\<close>

definition wpad_byte :: "int \<Rightarrow> nat \<Rightarrow> nat \<Rightarrow> byte" where
  "wpad_byte val n i = word_of_int ((drop_bit (7 * i) val AND 0x7F) OR (if int i < int n - 1 then 0x80 else 0))"

definition wpad :: "bytes \<Rightarrow> int \<Rightarrow> int \<Rightarrow> nat \<Rightarrow> bytes res" where
  "wpad buf p val n = foldR (\<lambda>i buf. py_set_index buf (p + int i) (wpad_byte val n i)) [0..<n] buf"

text \<open>\<^verbatim>\<open>_read_eh_value\<close>.\<close>

definition read_eh_value :: "bytes \<Rightarrow> int \<Rightarrow> int \<Rightarrow> (int \<times> int) res" where
  "read_eh_value buf off encoding =
     (let form = encoding AND 0x0F in
      if form = 0x01 then read_uleb buf off
      else if form = 0x03 then bindR (u32 buf off) (\<lambda>v. Inr (v, off + 4))
      else if form = 0x04 then bindR (u64 buf off) (\<lambda>v. Inr (v, off + 8))
      else if form = 0x09 then read_sleb buf off
      else if form = 0x0B then bindR (i32 buf off) (\<lambda>v. Inr (v, off + 4))
      else if form = 0x0C then bindR (i64 buf off) (\<lambda>v. Inr (v, off + 8))
      else Inl Value_Error)"

subsection \<open>The readers move forward\<close>

lemma uleb_loop_forward: "uleb_loop buf p r s = Inr (v, q) \<Longrightarrow> p < q \<and> q \<le> int (length buf)"
proof (induction buf p r s arbitrary: v q rule: uleb_loop.induct)
  case (1 buf p r s)
  from "1.prems" obtain b where b: "py_index buf p = Inr b"
    by (subst (asm) uleb_loop.simps) (auto simp: bindR_Inr_iff)
  show ?case
    using "1.prems" "1.IH" [OF b refl refl] py_index_less [OF b]
    by (subst (asm) uleb_loop.simps) (fastforce simp: b Let_def split: if_splits)
qed

lemma sleb_loop_forward: "sleb_loop buf p r s = Inr (v, q) \<Longrightarrow> p < q \<and> q \<le> int (length buf)"
proof (induction buf p r s arbitrary: v q rule: sleb_loop.induct)
  case (1 buf p r s)
  from "1.prems" obtain b where b: "py_index buf p = Inr b"
    by (subst (asm) sleb_loop.simps) (auto simp: bindR_Inr_iff)
  show ?case
    using "1.prems" "1.IH" [OF b refl refl refl] py_index_less [OF b]
    by (subst (asm) sleb_loop.simps) (fastforce simp: b Let_def split: if_splits)
qed

lemma read_uleb_forward: "read_uleb buf p = Inr (v, q) \<Longrightarrow> p < q \<and> q \<le> int (length buf)"
  by (simp add: read_uleb_def uleb_loop_forward)

lemma read_sleb_forward: "read_sleb buf p = Inr (v, q) \<Longrightarrow> p < q \<and> q \<le> int (length buf)"
  by (simp add: read_sleb_def sleb_loop_forward)

lemma unpack_u_end: "unpack_u w buf off = Inr v \<Longrightarrow> off + int w \<le> int (length buf) \<or> off < 0"
  using unpack_u_ok_iff [of off w buf] by (cases "0 \<le> off") auto

lemma read_eh_value_forward: "read_eh_value buf p enc = Inr (v, q) \<Longrightarrow> p < q"
  by (auto simp: read_eh_value_def Let_def bindR_Inr_iff dest: read_uleb_forward read_sleb_forward
      split: if_splits)

subsection \<open>An encoding in \<open>n\<close> bytes\<close>

definition wpad_bytes :: "int \<Rightarrow> nat \<Rightarrow> bytes" where
  "wpad_bytes val n = map (wpad_byte val n) [0..<n]"

lemma length_wpad_bytes [simp]: "length (wpad_bytes val n) = n"
  by (simp add: wpad_bytes_def)

lemma wpad_steps:
  assumes "0 \<le> p" "p + int n \<le> int (length buf)" "k \<le> n"
  shows "foldR (\<lambda>i buf. py_set_index buf (p + int i) (wpad_byte val n i)) [0..<k] buf =
    Inr (put_at buf (nat p) (map (wpad_byte val n) [0..<k]))"
  using assms(3)
proof (induction k)
  case 0
  then show ?case by simp
next
  case (Suc k)
  let ?xs = "map (wpad_byte val n) [0..<k]"
  have k: "nat p + k < length buf" using Suc.prems assms by linarith
  have l: "length (put_at buf (nat p) ?xs) = length buf" by (rule length_put_at) (use k in simp)
  have "(put_at buf (nat p) ?xs)[nat (p + int k) := wpad_byte val n k] = put_at buf (nat p) (?xs @ [wpad_byte val n k])"
  proof (rule nth_equalityI)
    show "length ((put_at buf (nat p) ?xs)[nat (p + int k) := wpad_byte val n k]) =
        length (put_at buf (nat p) (?xs @ [wpad_byte val n k]))" using l k by simp
    fix j assume "j < length ((put_at buf (nat p) ?xs)[nat (p + int k) := wpad_byte val n k])"
    then have j: "j < length buf" using l by simp
    have e: "nat (p + int k) = nat p + k" using assms(1) by (simp add: nat_add_distrib)
    show "(put_at buf (nat p) ?xs)[nat (p + int k) := wpad_byte val n k] ! j =
        put_at buf (nat p) (?xs @ [wpad_byte val n k]) ! j"
      using j k l by (simp add: nth_list_update e nth_put_at nth_append) auto
  qed
  moreover have "py_set_index (put_at buf (nat p) ?xs) (p + int k) (wpad_byte val n k) =
      Inr ((put_at buf (nat p) ?xs)[nat (p + int k) := wpad_byte val n k])"
    by (rule py_set_index_nonneg) (use assms(1) k l in linarith)+
  moreover have "foldR (\<lambda>i buf. py_set_index buf (p + int i) (wpad_byte val n i)) [0..<k] buf = Inr (put_at buf (nat p) ?xs)"
    using Suc by simp
  ultimately show ?case by (simp add: foldR_append)
qed

lemma wpad_put:
  assumes "0 \<le> p" "p + int n \<le> int (length buf)"
  shows "wpad buf p val n = Inr (put_at buf (nat p) (wpad_bytes val n))"
  using wpad_steps [OF assms order_refl] by (simp add: wpad_def wpad_bytes_def)

lemma wpad_byte_uint: "uint (wpad_byte val n i) = bits (7 * i) 7 val + (if Suc i < n then 0x80 else 0)"
proof -
  let ?x = "drop_bit (7 * i) val AND 0x7F"
  have x: "?x = bits (7 * i) 7 val" using bits_and_eq [of "7 * i" val 7] by (simp add: msk_def)
  have b: "0 \<le> bits (7 * i) 7 val" "bits (7 * i) 7 val < 128" using bits_bounds [of "7 * i" 7 val] by simp_all
  have "bits (7 * i) 7 val OR 0x80 = bits (7 * i) 7 val + 0x80"
  proof (rule disjunctive_add [symmetric])
    fix k show "\<not> bit (bits (7 * i) 7 val) k \<or> \<not> bit (0x80 :: int) k"
    proof (cases "k < 7")
      case True
      have "(0x80 :: int) = push_bit 7 1" by simp
      then show ?thesis using True by (simp only: bit_push_bit_iff) simp
    qed (simp add: bits_def bit_simps)
  qed
  then show ?thesis using b by (auto simp: wpad_byte_def x uint_word_of_int)
qed

lemma seven_bits: "uint (b::byte) AND 0x7F = uint b mod 128" "uint b AND 0x80 = 0 \<longleftrightarrow> uint b < 128"
proof -
  have m: "(0x7F :: int) = mask 7" by (simp add: mask_eq_exp_minus_1)
  show "uint b AND 0x7F = uint b mod 128" unfolding m by (simp flip: take_bit_eq_mask add: take_bit_eq_mod)
  have "uint b AND 0x80 = 0 \<longleftrightarrow> \<not> bit (uint b) 7"
    using bit_iff_and_push_bit_not_eq_0 [of "uint b" 7] by simp
  also have "\<dots> \<longleftrightarrow> even (uint b div 128)" by (simp add: bit_iff_odd)
  also have "\<dots> \<longleftrightarrow> uint b < 128" using uint_byte_bounds [of b] by presburger
  finally show "uint b AND 0x80 = 0 \<longleftrightarrow> uint b < 128" .
qed

lemma wpad_byte_flags:
  "uint (wpad_byte val n i) AND 0x7F = bits (7 * i) 7 val"
  "uint (wpad_byte val n i) AND 0x80 = 0 \<longleftrightarrow> \<not> Suc i < n"
  using bits_bounds [of "7 * i" 7 val] unfolding seven_bits unfolding wpad_byte_uint by auto

text \<open>The bytes of \<open>val\<close> sit at \<open>p\<close>.\<close>

definition padded_at :: "bytes \<Rightarrow> int \<Rightarrow> int \<Rightarrow> nat \<Rightarrow> bool" where
  "padded_at buf p val n \<longleftrightarrow> 0 \<le> p \<and> (\<forall>i < n. nat p + i < length buf \<and> buf ! (nat p + i) = wpad_byte val n i)"

lemma padded_index: "padded_at buf p val n \<Longrightarrow> i < n \<Longrightarrow> py_index buf (p + int i) = Inr (wpad_byte val n i)"
proof -
  assume a: "padded_at buf p val n" "i < n"
  then have "0 \<le> p" "nat p + i < length buf" "buf ! (nat p + i) = wpad_byte val n i" by (auto simp: padded_at_def)
  moreover from this have "p + int i < int (length buf)" by linarith
  ultimately show ?thesis by (simp add: py_index_nonneg nat_add_distrib)
qed

lemma wpad_padded:
  assumes "0 \<le> p" "p + int n \<le> int (length buf)"
  shows "padded_at (put_at buf (nat p) (wpad_bytes val n)) p val n"
  using assms by (auto simp: padded_at_def nth_put_at wpad_bytes_def)

lemma uleb_loop_stop:
  "py_index buf p = Inr b \<Longrightarrow> uint b AND 0x80 = 0 \<Longrightarrow>
   uleb_loop buf p r s = Inr (r OR push_bit s (uint b AND 0x7F), p + 1)"
  by (subst uleb_loop.simps) (simp add: Let_def)

lemma uleb_loop_more:
  "py_index buf p = Inr b \<Longrightarrow> uint b AND 0x80 \<noteq> 0 \<Longrightarrow>
   uleb_loop buf p r s = uleb_loop buf (p + 1) (r OR push_bit s (uint b AND 0x7F)) (s + 7)"
  by (subst uleb_loop.simps) (simp add: Let_def)

lemma read_back_from:
  assumes "padded_at buf p val n" "i < n"
  shows "uleb_loop buf (p + int i) (take_bit (7 * i) val) (7 * i) = Inr (take_bit (7 * n) val, p + int n)"
  using assms(2)
proof (induction "n - Suc i" arbitrary: i)
  case 0
  then have n: "n = Suc i" by simp
  have b: "py_index buf (p + int i) = Inr (wpad_byte val n i)"
    by (rule padded_index [OF assms(1)]) (use n in simp)
  have "take_bit (7 * i) val OR push_bit (7 * i) (bits (7 * i) 7 val) = take_bit (7 * n) val"
    by (rule bit_eqI) (auto simp: bits_def bit_simps n)
  then show ?case using uleb_loop_stop [OF b, of "take_bit (7 * i) val" "7 * i"] n
    unfolding wpad_byte_flags by simp
next
  case (Suc m)
  then have i: "Suc i < n" by simp
  have b: "py_index buf (p + int i) = Inr (wpad_byte val n i)"
    by (rule padded_index [OF assms(1)]) (use i in simp)
  have "take_bit (7 * i) val OR push_bit (7 * i) (bits (7 * i) 7 val) = take_bit (7 * Suc i) val"
    by (rule bit_eqI) (auto simp: bits_def bit_simps)
  then have "uleb_loop buf (p + int i) (take_bit (7 * i) val) (7 * i) =
      uleb_loop buf (p + int i + 1) (take_bit (7 * Suc i) val) (7 * i + 7)"
    using uleb_loop_more [OF b, of "take_bit (7 * i) val" "7 * i"] i unfolding wpad_byte_flags by simp
  moreover have "uleb_loop buf (p + int (Suc i)) (take_bit (7 * Suc i) val) (7 * Suc i) = Inr (take_bit (7 * n) val, p + int n)"
    by (rule Suc.hyps(1)) (use Suc.hyps(2) i in auto)
  moreover have "p + int (Suc i) = p + int i + 1" "7 * Suc i = 7 * i + 7" by simp_all
  ultimately show ?case by (simp only:)
qed

lemma ulen_from:
  assumes "padded_at buf p val n" "i < n"
  shows "ulen_loop buf (p + int i) (Suc i) = Inr n"
  using assms(2)
proof (induction "n - Suc i" arbitrary: i)
  case 0
  then have n: "n = Suc i" by simp
  have b: "py_index buf (p + int i) = Inr (wpad_byte val n i)"
    by (rule padded_index [OF assms(1)]) (use n in simp)
  have "uint (wpad_byte val n i) AND 0x80 = 0"
    by (simp add: wpad_byte_flags n)
  then show ?case by (subst ulen_loop.simps) (simp add: b n)
next
  case (Suc m)
  then have i: "Suc i < n" by simp
  have b: "py_index buf (p + int i) = Inr (wpad_byte val n i)"
    by (rule padded_index [OF assms(1)]) (use i in simp)
  have "uint (wpad_byte val n i) AND 0x80 \<noteq> 0"
    using i by (simp add: wpad_byte_flags)
  moreover have "ulen_loop buf (p + int (Suc i)) (Suc (Suc i)) = Inr n"
    by (rule Suc.hyps(1)) (use Suc.hyps(2) i in auto)
  moreover have "p + int (Suc i) = p + int i + 1" by simp
  ultimately show ?case by (subst ulen_loop.simps) (simp only: b bindR_simps if_False Suc_eq_plus1)
qed


text \<open>A value re-encoded in the \<open>n\<close> bytes of an old encoding is read back, at the same length, as
  the value modulo \<open>2\<^sup>7\<^sup>n\<close>: exactly the value when it fits, and silently cut when it does not; no
  other byte changes.\<close>

theorem wpad_reads_back:
  assumes "0 \<le> p" "p + int n \<le> int (length buf)" "0 < n"
  shows "\<exists>buf'. wpad buf p val n = Inr buf' \<and> read_uleb buf' p = Inr (val mod 2 ^ (7 * n), p + int n)
    \<and> ulen buf' p = Inr n \<and> same_outside (\<lambda>k. p \<le> int k \<and> int k < p + int n) buf buf'"
proof -
  let ?b = "put_at buf (nat p) (wpad_bytes val n)"
  note pad = wpad_padded [OF assms(1,2), of val]
  have "read_uleb ?b p = Inr (val mod 2 ^ (7 * n), p + int n)"
    using read_back_from [OF pad assms(3)] by (simp add: read_uleb_def take_bit_eq_mod)
  moreover have "ulen ?b p = Inr n" using ulen_from [OF pad assms(3)] by (simp add: ulen_def)
  moreover have "same_outside (\<lambda>k. p \<le> int k \<and> int k < p + int n) buf ?b"
    by (rule same_outside_mono [OF same_outside_put_at]) (use assms in auto)
  ultimately show ?thesis using wpad_put [OF assms(1,2)] by blast
qed

lemma wpad_reads_back_witness:
  "\<exists>buf'. wpad [7, 7, 7, 7] 1 300 2 = Inr buf' \<and> read_uleb buf' 1 = Inr (300, 3)"
  using wpad_reads_back [of 1 2 "[7, 7, 7, 7]" 300] by auto

text \<open>What the old encoding's length bounds: \<open>read_uleb\<close> and \<open>ulen\<close> agree on where it ends.\<close>

lemma uleb_ulen_loop:
  "uleb_loop buf p r s = Inr (v, q) \<Longrightarrow> \<exists>k. q = p + 1 + int k \<and> (\<forall>n. ulen_loop buf p n = Inr (n + k))"
proof (induction buf p r s arbitrary: v q rule: uleb_loop.induct)
  case (1 buf p r s)
  from "1.prems" obtain b where b: "py_index buf p = Inr b"
    by (subst (asm) uleb_loop.simps) (auto simp: bindR_Inr_iff)
  show ?case
  proof (cases "uint b AND 0x80 = 0")
    case True
    then have "q = p + 1" using "1.prems" by (subst (asm) uleb_loop.simps) (auto simp: b Let_def)
    moreover have "ulen_loop buf p n = Inr n" for n using True by (subst ulen_loop.simps) (simp add: b)
    ultimately show ?thesis by (intro exI [of _ 0]) simp
  next
    case False
    then have "uleb_loop buf (p + 1) (r OR push_bit s (uint b AND 0x7F)) (s + 7) = Inr (v, q)"
      using "1.prems" by (subst (asm) uleb_loop.simps) (simp add: b Let_def)
    from "1.IH" [OF b refl refl False this] obtain k where
      k: "q = p + 1 + 1 + int k" "\<forall>n. ulen_loop buf (p + 1) n = Inr (n + k)" by blast
    have "ulen_loop buf p n = Inr (n + Suc k)" for n
      using False k(2) by (subst ulen_loop.simps) (simp add: b)
    then show ?thesis using k(1) by (intro exI [of _ "Suc k"]) simp
  qed
qed

lemma read_uleb_ulen:
  assumes "read_uleb buf p = Inr (v, q)"
  obtains n where "ulen buf p = Inr n" "0 < n" "q = p + int n"
proof -
  obtain k where "q = p + 1 + int k" "\<forall>n. ulen_loop buf p n = Inr (n + k)"
    using uleb_ulen_loop assms unfolding read_uleb_def by blast
  then show thesis by (intro that [of "1 + k"]) (simp_all add: ulen_def)
qed

end
