(* ===== verification/Export_Trie.thy ===== *)
theory Export_Trie
  imports Leb128 Layout
begin

text \<open>
  \<^verbatim>\<open>fix_export_trie\<close>: a depth-first walk over the export trie that moves every exported offset
  through the address map, re-encoding it in its old number of bytes. The stack is a list with
  its top in front; the walk ends because each step either drops a node already seen or reads a
  new one inside the buffer.
\<close>

definition fixoff :: "(int \<Rightarrow> int option) \<Rightarrow> int \<Rightarrow> int \<Rightarrow> int \<Rightarrow> bytes \<Rightarrow> (bytes \<times> int) res" where
  "fixoff am re_base nbase p buf =
     bindR (ulen buf p) (\<lambda>n.
     bindR (read_uleb buf p) (\<lambda>(old, _).
     case am (re_base + old) of
       Some na \<Rightarrow> bindR (wpad buf p (na - nbase) n) (\<lambda>buf. Inr (buf, 1))
     | None \<Rightarrow> Inr (buf, 0)))"

text \<open>The terminal payload of a node: nothing for re-exports and absolute symbols, a second offset
  for a stub and its resolver.\<close>

definition fix_terminal :: "(int \<Rightarrow> int option) \<Rightarrow> int \<Rightarrow> int \<Rightarrow> int \<Rightarrow> bytes \<Rightarrow> (bytes \<times> int) res" where
  "fix_terminal am re_base nbase p buf =
     bindR (read_uleb buf p) (\<lambda>(flags, q).
     if flags AND 0x08 = 0 \<and> flags AND 0x03 \<noteq> 0x02 then
       bindR (fixoff am re_base nbase q buf) (\<lambda>(buf, f1).
       if flags AND 0x10 \<noteq> 0 then
         bindR (ulen buf q) (\<lambda>n.
         bindR (fixoff am re_base nbase (q + int n) buf) (\<lambda>(buf, f2). Inr (buf, f1 + f2)))
       else Inr (buf, f1))
     else Inr (buf, 0))"

function skip_label :: "bytes \<Rightarrow> int \<Rightarrow> int res" where
  "skip_label buf cp = bindR (py_index buf cp) (\<lambda>b. if b \<noteq> 0 then skip_label buf (cp + 1) else Inr (cp + 1))"
  by pat_completeness auto
termination
  by (relation "measure (\<lambda>(buf, cp). nat (int (length buf) - cp))") (auto dest: py_index_less)

declare skip_label.simps [simp del]

fun trie_children :: "int \<Rightarrow> bytes \<Rightarrow> nat \<Rightarrow> int \<Rightarrow> int list res" where
  "trie_children trie_off buf 0 cp = Inr []"
| "trie_children trie_off buf (Suc n) cp =
     bindR (skip_label buf cp) (\<lambda>cp.
     bindR (read_uleb buf cp) (\<lambda>(child, cp).
     bindR (trie_children trie_off buf n cp) (\<lambda>kids. Inr ((trie_off + child) # kids))))"

definition trie_node ::
    "(int \<Rightarrow> int option) \<Rightarrow> int \<Rightarrow> int \<Rightarrow> int \<Rightarrow> int \<Rightarrow> bytes \<Rightarrow> (bytes \<times> int \<times> int list) res" where
  "trie_node am re_base nbase trie_off node buf =
     bindR (read_uleb buf node) (\<lambda>(tsize, p).
     bindR (if tsize \<noteq> 0
            then bindR (fix_terminal am re_base nbase p buf) (\<lambda>(buf, n). Inr (buf, n, p + tsize))
            else Inr (buf, 0, p)) (\<lambda>(buf, n, p).
     bindR (py_index buf p) (\<lambda>cc.
     bindR (trie_children trie_off buf (unat cc) (p + 1)) (\<lambda>kids. Inr (buf, n, kids)))))"

subsection \<open>The walk ends\<close>

lemma py_set_index_length: "py_set_index xs i v = Inr ys \<Longrightarrow> length ys = length xs"
  by (auto simp: py_set_index_def bindR_Inr_iff)

lemma wpad_length: "wpad buf p val n = Inr buf' \<Longrightarrow> length buf' = length buf"
  unfolding wpad_def by (erule foldR_invariant [where I = "\<lambda>b. length b = length buf"])
    (auto dest: py_set_index_length)

lemma fixoff_length: "fixoff am rb nb p buf = Inr (buf', k) \<Longrightarrow> length buf' = length buf"
  by (auto simp: fixoff_def bindR_Inr_iff dest: wpad_length split: option.splits)

lemma fix_terminal_length: "fix_terminal am rb nb p buf = Inr (buf', k) \<Longrightarrow> length buf' = length buf"
  by (auto simp: fix_terminal_def bindR_Inr_iff dest!: fixoff_length split: if_splits)

lemma trie_node_length: "trie_node am rb nb t node buf = Inr (buf', k, kids) \<Longrightarrow> length buf' = length buf"
  by (auto simp: trie_node_def bindR_Inr_iff dest!: fix_terminal_length split: if_splits)

lemma uleb_loop_index: "uleb_loop buf p r s = Inr x \<Longrightarrow> \<exists>b. py_index buf p = Inr b"
  by (subst (asm) uleb_loop.simps) (auto simp: bindR_Inr_iff)

lemma trie_node_range:
  "trie_node am rb nb t node buf = Inr x \<Longrightarrow> - int (length buf) \<le> node \<and> node < int (length buf)"
proof -
  assume "trie_node am rb nb t node buf = Inr x"
  then obtain y where "read_uleb buf node = Inr y" unfolding trie_node_def by (rule bindE)
  then obtain b where "py_index buf node = Inr b" unfolding read_uleb_def using uleb_loop_index by blast
  then show ?thesis by (rule py_index_less)
qed

definition unseen :: "bytes \<Rightarrow> int list \<Rightarrow> nat" where
  "unseen buf seen = card ({- int (length buf) ..< int (length buf)} - set seen)"

lemma unseen_step:
  assumes "- int (length buf) \<le> node" "node < int (length buf)" "node \<notin> set seen" "length buf' = length buf"
  shows "unseen buf' (node # seen) < unseen buf seen"
proof -
  let ?U = "{- int (length buf) ..< int (length buf)} - set seen"
  have "unseen buf' (node # seen) = card (?U - {node})"
    unfolding unseen_def assms(4) by (rule arg_cong [where f = card]) auto
  moreover have "node \<in> ?U" using assms(1-3) by simp
  then have "card (?U - {node}) < card ?U" by (intro card_Diff1_less) simp_all
  ultimately show ?thesis by (simp only: unseen_def)
qed

function trie_walk ::
    "(int \<Rightarrow> int option) \<Rightarrow> int \<Rightarrow> int \<Rightarrow> int \<Rightarrow> bytes \<Rightarrow> int list \<Rightarrow> int list \<Rightarrow> int \<Rightarrow> (bytes \<times> int) res" where
  "trie_walk am rb nb t buf [] seen fixed = Inr (buf, fixed)"
| "trie_walk am rb nb t buf (node # stack) seen fixed =
     (if node \<in> set seen then trie_walk am rb nb t buf stack seen fixed
      else bindR (trie_node am rb nb t node buf) (\<lambda>x.
           trie_walk am rb nb t (fst x) (rev (snd (snd x)) @ stack) (node # seen) (fixed + fst (snd x))))"
  by pat_completeness auto
termination
proof (relation "measures [\<lambda>(am, rb, nb, t, buf, stack, seen, fixed). unseen buf seen,
                           \<lambda>(am, rb, nb, t, buf, stack, seen, fixed). length stack]", goal_cases)
  case (3 am rb nb t buf node stack seen fixed x)
  then show ?case
    using unseen_step [of buf node seen "fst x"] trie_node_range [of am rb nb t node buf x]
      trie_node_length [of am rb nb t node buf "fst x" "fst (snd x)" "snd (snd x)"] by simp
qed auto

text \<open>The whole pass: the last exports-trie command of the table is the one that counts.\<close>

definition find_trie_cmd :: "bytes \<Rightarrow> int \<Rightarrow> int \<Rightarrow> int \<Rightarrow> int \<Rightarrow> int res" where
  "find_trie_cmd buf cmd sz off trie_off = (if cmd = LC_DYLD_EXPORTS_TRIE then u32 buf (off + 8) else Inr trie_off)"

definition old_base :: "delta list \<Rightarrow> int \<Rightarrow> int res" where
  "old_base deltas nbase =
     (case find (\<lambda>(lo, hi, d). lo + d = nbase) deltas of None \<Rightarrow> Inl Stop_Iteration | Some (lo, _, _) \<Rightarrow> Inr lo)"

definition fix_export_trie :: "(int \<Rightarrow> int option) \<Rightarrow> int \<Rightarrow> delta list \<Rightarrow> bytes \<Rightarrow> (bytes \<times> int) res" where
  "fix_export_trie am nbase deltas buf =
     bindR (old_base deltas nbase) (\<lambda>re_base.
     bindR (u32 buf 16) (\<lambda>ncmds.
     bindR (for_cmds (\<lambda>_. buf) (find_trie_cmd buf) (nat ncmds) 32 0) (\<lambda>trie_off.
     if trie_off = 0 then Inr (buf, 0)
     else trie_walk am re_base nbase trie_off buf [trie_off] [] 0)))"

subsection \<open>One offset\<close>

text \<open>An exported offset whose address maps into the new image and whose new value fits in the bytes
  of the old encoding is replaced by the new one, ends where the old one ended, and no other byte
  of the file changes; an offset that does not map is left alone.\<close>

theorem fixoff_correct:
  assumes "read_uleb buf p = Inr (old, q)" "0 \<le> p"
    and "\<And>na. am (re_base + old) = Some na \<Longrightarrow> 0 \<le> na - nbase \<and> na - nbase < 2 ^ (7 * nat (q - p))"
  shows "\<exists>buf'. fixoff am re_base nbase p buf = Inr (buf', if am (re_base + old) = None then 0 else 1)
    \<and> read_uleb buf' p = Inr (case am (re_base + old) of None \<Rightarrow> old | Some na \<Rightarrow> na - nbase, q)
    \<and> same_outside (\<lambda>k. p \<le> int k \<and> int k < q) buf buf'"
proof -
  obtain n where n: "ulen buf p = Inr n" "0 < n" "q = p + int n" by (rule read_uleb_ulen [OF assms(1)])
  have q: "p + int n \<le> int (length buf)" using read_uleb_forward [OF assms(1)] n(3) by simp
  show ?thesis
  proof (cases "am (re_base + old)")
    case None
    then show ?thesis using assms(1) n by (simp add: fixoff_def)
  next
    case (Some na)
    obtain buf' where b: "wpad buf p (na - nbase) n = Inr buf'"
      "read_uleb buf' p = Inr ((na - nbase) mod 2 ^ (7 * n), p + int n)"
      "same_outside (\<lambda>k. p \<le> int k \<and> int k < p + int n) buf buf'"
      using wpad_reads_back [OF assms(2) q n(2)] by blast
    have "(na - nbase) mod 2 ^ (7 * n) = na - nbase"
      using assms(3) [OF Some] n(3) by (intro mod_pos_pos_trivial) auto
    then show ?thesis using b n assms(1) Some by (simp add: fixoff_def)
  qed
qed

lemma fixoff_correct_witness:
  "\<exists>buf'. fixoff (\<lambda>a. if a = 0x1100 then Some 0x90 else None) 0x1000 0x10 1 [9, 0x80, 0x02, 7] = Inr (buf', 1)
     \<and> read_uleb buf' 1 = Inr (0x80, 3)"
proof -
  have r: "read_uleb [9, 0x80, 0x02, 7] 1 = Inr (0x100, 3)" by code_simp
  show ?thesis
    using fixoff_correct [OF r, of "\<lambda>a. if a = 0x1100 then Some 0x90 else None" "0x1000" "0x10"] by auto
qed

text \<open>When the new value needs more bytes than the old encoding has, the pass does not notice: a
  lookup through the trie then lands elsewhere.\<close>

text \<open>A concrete export that is silently cut: offset 0x7F in one byte, whose address moves to new
  offset 0x85, is rewritten to 5.\<close>

theorem fixoff_truncates:
  "\<exists>buf'. fixoff (\<lambda>a. Some (a + 6)) 0x1000 0x1000 0 [0x7F] = Inr (buf', 1) \<and> read_uleb buf' 0 = Inr (5, 1)"
  by (rule exI [of _ "[5]"]) code_simp

end
