(* ===== verification/Binary_Patches.thy ===== *)
theory Binary_Patches
  imports Chained Command_Edit
begin

text \<open>
  The build-time patchers of \<^verbatim>\<open>vz/patches/\<close>. Each checks what it is about to overwrite and raises
  \<^verbatim>\<open>SystemExit\<close> on anything else, before the file is written back. A patcher is the function from
  the old file content to the new one; command-line handling and the writing of the file are left
  out.
\<close>

named_theorems patch_defs \<open>the patch scripts\<close>

subsection \<open>The two guarded edits\<close>

text \<open>\<^verbatim>\<open>if data[o:o+len(expected)] != expected: raise SystemExit; data[o:o+len(new)] = new\<close>.\<close>

definition replace_at :: "int \<Rightarrow> bytes \<Rightarrow> bytes \<Rightarrow> bytes \<Rightarrow> bytes res" where
  "replace_at off expected new data =
     (if py_slice data off (off + int (length expected)) \<noteq> expected then Inl System_Exit
      else Inr (py_set_slice data off (off + int (length new)) new))"

text \<open>\<^verbatim>\<open>if data.count(old) != n: raise SystemExit; data = data.replace(old, new)\<close>.\<close>

definition replace_all :: "nat \<Rightarrow> bytes \<Rightarrow> bytes \<Rightarrow> bytes \<Rightarrow> bytes res" where
  "replace_all n old new data =
     (if py_count old data \<noteq> n then Inl System_Exit else Inr (py_replace old new data))"

text \<open>\<^verbatim>\<open>new + b"\\0" * (len(old) - len(new))\<close>.\<close>

definition nul_pad :: "bytes \<Rightarrow> bytes \<Rightarrow> bytes" where
  "nul_pad old new = new @ zeros (int (length old) - int (length new))"

lemma length_nul_pad: "length new \<le> length old \<Longrightarrow> length (nul_pad old new) = length old"
  by (simp add: nul_pad_def)

text \<open>
  What a patcher promises: it keeps the length, so every offset and chained pointer of the image
  stays valid, and it changes bytes only in the region it names.
\<close>

locale confined_patch =
  fixes patch :: "bytes \<Rightarrow> bytes res"
    and region :: "bytes \<Rightarrow> nat \<Rightarrow> bool"
  assumes confined: "patch data = Inr data' \<Longrightarrow> same_outside (region data) data data'"
begin

lemma keeps_length: "patch data = Inr data' \<Longrightarrow> length data' = length data"
  using confined same_outside_length by blast

lemma keeps_field:
  assumes "patch data = Inr data'" "0 \<le> off" "\<And>k. off \<le> int k \<Longrightarrow> int k < off + int w \<Longrightarrow> \<not> region data k"
  shows "unpack_u w data' off = unpack_u w data off"
  by (rule same_outside_unpack_u [OF confined [OF assms(1)]]) (use assms in auto)

lemma fails_or_confined: "(\<exists>e. patch data = Inl e) \<or> (\<exists>data'. patch data = Inr data' \<and> same_outside (region data) data data')"
  by (cases "patch data") (auto dest: confined)

end

definition at_region :: "int \<Rightarrow> nat \<Rightarrow> nat \<Rightarrow> bool" where
  "at_region off n k \<longleftrightarrow> off \<le> int k \<and> int k < off + int n"

lemma py_slice_length_bound:
  assumes "py_slice data off (off + int n) = xs" "length xs = n" "0 \<le> off" "0 < n"
  shows "off + int n \<le> int (length data)"
  using assms by (auto simp: py_slice_def slice_bound_def Let_def min_def split: if_splits)

lemma replace_at_confined:
  assumes "replace_at off expected new data = Inr data'" "length new = length expected" "0 \<le> off" "new \<noteq> []"
  shows "same_outside (at_region off (length new)) data data'"
proof -
  have s: "py_slice data off (off + int (length expected)) = expected"
    and d: "data' = py_set_slice data off (off + int (length new)) new"
    using assms(1) by (auto simp: replace_at_def split: if_splits)
  have b: "off + int (length new) \<le> int (length data)"
    using py_slice_length_bound [OF s refl assms(3)] assms(2,4) by (cases new; cases expected) auto
  have "data' = put_at data (nat off) new"
    unfolding d by (rule py_set_slice_put_at) (use assms(3) b in auto)
  moreover have "nat off + length new \<le> length data" using b assms(3) by linarith
  then have "same_outside (at_region off (length new)) data (put_at data (nat off) new)"
    by (rule same_outside_mono [OF same_outside_put_at]) (use assms(3) in \<open>auto simp: at_region_def\<close>)
  ultimately show ?thesis by simp
qed

interpretation at_patch: confined_patch
  "\<lambda>data. if length new = length expected \<and> 0 \<le> off \<and> new \<noteq> [] then replace_at off expected new data else Inl System_Exit"
  "\<lambda>data. at_region off (length new)"
  by unfold_locales (auto dest: replace_at_confined split: if_splits)

interpretation all_patch: confined_patch
  "\<lambda>data. if length new = length old then replace_all n old new data else Inl System_Exit"
  "\<lambda>data. in_match old data"
  by unfold_locales (auto simp: replace_all_def intro: py_replace_same_outside split: if_splits)

subsection \<open>Scripts that are a sequence of guarded edits\<close>

datatype edit =
    At_Off int bytes bytes
  | Every nat bytes bytes

fun run_edit :: "edit \<Rightarrow> bytes \<Rightarrow> bytes res" where
  "run_edit (At_Off off expected new) = replace_at off expected new"
| "run_edit (Every n old new) = replace_all n old new"

definition run_edits :: "edit list \<Rightarrow> bytes \<Rightarrow> bytes res" where
  "run_edits es = foldR run_edit es"

fun edit_fits :: "edit \<Rightarrow> bool" where
  "edit_fits (At_Off off expected new) = (length new = length expected \<and> 0 \<le> off \<and> new \<noteq> [])"
| "edit_fits (Every n old new) = (length new = length old)"

fun edit_region :: "edit \<Rightarrow> bytes \<Rightarrow> nat \<Rightarrow> bool" where
  "edit_region (At_Off off expected new) data k = at_region off (length new) k"
| "edit_region (Every n old new) data k = in_match old data k"

text \<open>The bytes a run may change: those of some edit, in the file as it is when the edit runs.\<close>

fun edits_region :: "edit list \<Rightarrow> bytes \<Rightarrow> nat \<Rightarrow> bool" where
  "edits_region [] data k = False"
| "edits_region (e # es) data k =
     (edit_region e data k \<or> (case run_edit e data of Inl _ \<Rightarrow> False | Inr d \<Rightarrow> edits_region es d k))"

lemma edit_region_eqs:
  "edit_region (At_Off off expected new) data = at_region off (length new)"
  "edit_region (Every n old new) data = in_match old data"
  by (intro ext; simp)+

lemma run_edit_confined:
  assumes "run_edit e data = Inr data'" "edit_fits e"
  shows "same_outside (edit_region e data) data data'"
proof (cases e)
  case (At_Off off expected new)
  then show ?thesis using assms replace_at_confined [of off expected new data data'] by (simp add: edit_region_eqs)
next
  case (Every n old new)
  then show ?thesis using assms py_replace_same_outside [of new old data]
    by (auto simp: edit_region_eqs replace_all_def split: if_splits)
qed

lemma run_edits_confined:
  "run_edits es data = Inr data' \<Longrightarrow> list_all edit_fits es \<Longrightarrow> same_outside (edits_region es data) data data'"
proof (induction es arbitrary: data)
  case (Cons e es)
  from Cons.prems(1) obtain d where d: "run_edit e data = Inr d" "run_edits es d = Inr data'"
    by (auto simp: run_edits_def bindR_Inr_iff)
  have "same_outside (edits_region (e # es) data) data d"
    by (rule same_outside_mono [OF run_edit_confined [OF d(1)]]) (use Cons.prems(2) in auto)
  moreover have "same_outside (edits_region (e # es) data) d data'"
    by (rule same_outside_mono [OF Cons.IH [OF d(2)]]) (use Cons.prems(2) d(1) in auto)
  ultimately show ?case by (rule same_outside_trans)
qed (simp add: run_edits_def)

interpretation edits: confined_patch "\<lambda>data. if list_all edit_fits es then run_edits es data else Inl System_Exit" "edits_region es"
  by unfold_locales (auto dest: run_edits_confined split: if_splits)

text \<open>\<^verbatim>\<open>patch_internet_sharing.py\<close>.\<close>

definition internet_sharing_edits :: "edit list" where
  "internet_sharing_edits =
     [At_Off 0x1CC54 [0x7f, 0x23, 0x03, 0xd5, 0xff, 0xc3, 0x00, 0xd1] [0x20, 0x00, 0x80, 0x52, 0xc0, 0x03, 0x5f, 0xd6],
      Every 1 (ascii ''com.apple.bootpd'') (ascii ''vzi.apple.bootpd''),
      At_Off 0x18470 [0x80, 0x01, 0x00, 0x34] [0x0c, 0x00, 0x00, 0x14],
      At_Off 0x1BCCC [0x40, 0xfe, 0xff, 0x34] [0xf2, 0xff, 0xff, 0x17],
      At_Off 0x19A0C [0x60, 0x01, 0x00, 0x34] [0x0b, 0x00, 0x00, 0x14],
      Every 1 (ascii ''/etc/bootpd.plist'') (ascii ''/tmp/bootpd.plist''),
      Every 1 (ascii ''/etc/com.apple.mis.rtadvd.conf'') (ascii ''/tmp/com.apple.mis.rtadvd.conf'')]"

definition patch_internet_sharing :: "bytes \<Rightarrow> bytes res" where
  "patch_internet_sharing = run_edits internet_sharing_edits"

text \<open>\<^verbatim>\<open>patch_ipados14_bootpd.py\<close>, \<^verbatim>\<open>patch_ipados14_mobiledevice.py\<close>,
  \<^verbatim>\<open>patch_ipados14_vmm_vmnet_import.py\<close>, \<^verbatim>\<open>patch_network_helper.py\<close>.\<close>

definition patch_ipados14_bootpd :: "bytes \<Rightarrow> bytes res" where
  "patch_ipados14_bootpd =
     (let old = ascii ''/Library/Preferences/SystemConfiguration/bootpd.plist'' @ [0];
          new = ascii ''/tmp/bootpd.plist'' @ [0]
      in run_edits [Every 1 old (nul_pad old new)])"

definition patch_ipados14_mobiledevice :: "bytes \<Rightarrow> bytes res" where
  "patch_ipados14_mobiledevice = run_edits
     [Every 1 [0x1f, 0x00, 0x00, 0x71, 0x28, 0x01, 0x88, 0x9a, 0x00, 0x01, 0x40, 0xb9]
            [0x1f, 0x00, 0x00, 0x71, 0xe8, 0x03, 0x09, 0xaa, 0x00, 0x01, 0x40, 0xb9]]"

definition patch_ipados14_vmm_vmnet_import :: "bytes \<Rightarrow> bytes res" where
  "patch_ipados14_vmm_vmnet_import =
     (let old = ascii ''_vmnet_enable_checksum_offload_key''
      in run_edits [Every 2 old (nul_pad old (ascii ''_vmnet_enable_isolation_key''))])"

definition patch_network_helper :: "bytes \<Rightarrow> bytes res" where
  "patch_network_helper =
     (let old = ascii ''_syslog$DARWIN_EXTSN''
      in run_edits [Every 1 (ascii ''/etc/bootpd.plist'') (ascii ''/tmp/bootpd.plist''),
                    Every 2 old (nul_pad old (ascii ''_syslog''))])"

text \<open>\<^verbatim>\<open>patch_macho_cstring.py\<close>: one string of the caller's choice.\<close>

definition patch_macho_cstring :: "bytes \<Rightarrow> bytes \<Rightarrow> nat \<Rightarrow> bytes \<Rightarrow> bytes res" where
  "patch_macho_cstring old_text new_text expected_count data =
     (let old = old_text @ [0]; new = new_text @ [0]
      in if length new > length old then Inl System_Exit
         else run_edits [Every expected_count old (nul_pad old new)] data)"

text \<open>\<^verbatim>\<open>patch_ipados15_objc_imports.py\<close>: any number of occurrences is accepted.\<close>

definition objc_import_replacements :: "(bytes \<times> bytes) list" where
  "objc_import_replacements =
     [(ascii ''_objc_retain_x0'' @ [0], ascii ''_objc_retain'' @ [0, 0, 0, 0]),
      (ascii ''_objc_release_x0'' @ [0], ascii ''_objc_release'' @ [0, 0, 0, 0])]"

definition patch_ipados15_objc_imports :: "bytes \<Rightarrow> bytes res" where
  "patch_ipados15_objc_imports data =
     foldR (\<lambda>(old, new) data.
       bindR (guardR (length old = length new) Assertion_Error) (\<lambda>_.
       if py_count old data \<noteq> 0 then Inr (py_replace old new data) else Inr data))
       objc_import_replacements data"

text \<open>\<^verbatim>\<open>patch_netrb_lookup.py\<close>: exactly one of the two known sites must match.\<close>

definition patch_netrb_lookup :: "bytes \<Rightarrow> bytes res" where
  "patch_netrb_lookup data =
     (let expected = [0x42, 0x00, 0x80, 0x52]; replacement = [0x02, 0x00, 0x80, 0x52];
          found = filter (\<lambda>off. py_slice data off (off + int (length expected)) = expected) [0xC3C, 0x16B4]
      in case found of
           [off] \<Rightarrow> Inr (py_set_slice data off (off + 4) replacement)
         | _ \<Rightarrow> Inl System_Exit)"

text \<open>\<^verbatim>\<open>patch_ipados14_internet_sharing.py\<close>.\<close>

definition patch_ipados14_internet_sharing :: "bytes \<Rightarrow> bytes res" where
  "patch_ipados14_internet_sharing data =
     bindR (u32 data 0xC7C4) (\<lambda>found.
     if found \<noteq> 0x54000060 then Inl System_Exit else
     bindR (p32 data 0xC7C4 0xD503201F) (\<lambda>data.
     bindR (u32 data 0x2C154) (\<lambda>natpmp_enabled.
     if natpmp_enabled \<noteq> 1 then Inl System_Exit else
     bindR (p32 data 0x2C154 0) (\<lambda>data.
     run_edits [Every 1 (ascii ''com.apple.bootpd'') (ascii ''vzi.apple.bootpd''),
                Every 1 (ascii ''/etc/bootpd.plist'') (ascii ''/tmp/bootpd.plist'')] data))))"

text \<open>\<^verbatim>\<open>patch_vmm_optional_devices.py\<close>.\<close>

definition patch_vmm_optional_devices :: "bytes \<Rightarrow> bytes res" where
  "patch_vmm_optional_devices data =
     bindR (unpack_us [4, 4, 4, 4] data (0x154F20 - 8)) (\<lambda>actual.
     if actual \<noteq> [0x9101E3E0, 0x97FB8F92, 0x3600017A, 0xA97723BA] then Inl System_Exit
     else p32 data 0x154F20 0xD503201F)"

text \<open>\<^verbatim>\<open>patch_virt_ios.py\<close>: unguarded writes of fixed words.\<close>

definition patch_virt_ios :: "bytes \<Rightarrow> bytes res" where
  "patch_virt_ios b =
     bindR (p32s b 0xed980 [0xb4000041, 0xf900003f, 0xd2800100, 0xd65f03c0]) (\<lambda>b.
     bindR (p32s b 0xee1f0 [0xd2800020, 0xd65f03c0, 0xd4200020, 0xd4200020]) (\<lambda>b.
     bindR (p32s b 0xee200 [0xd2800000, 0xd65f03c0, 0xd4200020, 0xd4200020]) (\<lambda>b.
     bindR (p32s b 0x39ab4 [0xf90297ff, 0xf9029bff]) (\<lambda>b.
     bindR (p32 b 0x39ac0 0x1400001c) (\<lambda>b.
     p32s b 0x3d3fc [0xd2800000, 0xd65f03c0])))))"


subsection \<open>What the edits leave in the file\<close>

lemma in_match_mem:
  assumes "in_match old xs k"
  shows "k < length xs \<and> xs ! k \<in> set old"
proof -
  obtain i where i: "i \<le> k" "k < i + length old" "prefix old (drop i xs)"
    using assms by (auto simp: in_match_def)
  then obtain ys where ys: "drop i xs = old @ ys" by (auto simp: prefix_def)
  have "k - i < length old" using i by simp
  then have m: "drop i xs ! (k - i) = old ! (k - i)" by (simp add: ys nth_append)
  have "length old \<le> length xs - i" using arg_cong [OF ys, of length] by simp
  then have "k < length xs" using i by simp
  then show ?thesis using m i \<open>k - i < length old\<close> by simp
qed

lemma py_slice_elem:
  "py_slice xs off (off + int (length ys)) = ys \<Longrightarrow> 0 \<le> off \<Longrightarrow> off \<le> int k \<Longrightarrow> int k < off + int (length ys) \<Longrightarrow>
   xs ! k \<in> set ys"
proof -
  assume a: "py_slice xs off (off + int (length ys)) = ys" "0 \<le> off" "off \<le> int k" "int k < off + int (length ys)"
  then have b: "off + int (length ys) \<le> int (length xs)"
    using py_slice_length_bound [OF a(1) refl a(2)] by linarith
  have k: "k - nat off < length ys" "nat off + (k - nat off) = k" using a by linarith+
  have "take (length ys) (drop (nat off) xs) = ys" using a(1,2) b by (simp add: py_slice_take_drop)
  then have "ys ! (k - nat off) = take (length ys) (drop (nat off) xs) ! (k - nat off)" by simp
  also have "\<dots> = xs ! (nat off + (k - nat off))" using k(1) a(2) b by (subst nth_take, simp, subst nth_drop) auto
  finally have "ys ! (k - nat off) = xs ! k" by (simp only: k(2))
  moreover note k(1)
  ultimately show ?thesis by (metis nth_mem)
qed

text \<open>Edits that stay off a window that holds \<open>ys\<close>.\<close>

fun edit_avoids :: "int \<Rightarrow> bytes \<Rightarrow> edit \<Rightarrow> bool" where
  "edit_avoids off ys (At_Off o' expected new) = (o' + int (length new) \<le> off \<or> off + int (length ys) \<le> o')"
| "edit_avoids off ys (Every n old new) = (set ys \<inter> set old = {})"

lemma run_edits_keeps:
  assumes "run_edits es data = Inr data'" "list_all edit_fits es" "list_all (edit_avoids off ys) es" "0 \<le> off"
    "py_slice data off (off + int (length ys)) = ys"
  shows "py_slice data' off (off + int (length ys)) = ys"
  using assms
proof (induction es arbitrary: data)
  case (Cons e es)
  from Cons.prems(1) obtain d where d: "run_edit e data = Inr d" "run_edits es d = Inr data'"
    by (auto simp: run_edits_def bindR_Inr_iff)
  have "same_outside (edit_region e data) data d" using run_edit_confined [OF d(1)] Cons.prems(2) by simp
  then have "agree_on off (int (length ys)) data d"
  proof (rule agree_on_outside)
    fix k assume k: "off \<le> int k" "int k < off + int (length ys)"
    show "\<not> edit_region e data k"
    proof (cases e)
      case (At_Off o' expected new)
      then show ?thesis using Cons.prems(3) k by (auto simp: at_region_def)
    next
      case (Every n old new)
      then show ?thesis using Cons.prems(3) py_slice_elem [OF Cons.prems(5,4) k] in_match_mem by fastforce
    qed
  qed
  then have "py_slice d off (off + int (length ys)) = ys"
    using agree_on_slice [of off "int (length ys)" data d off "off + int (length ys)"] Cons.prems(4,5) by simp
  then show ?case using Cons.IH [OF d(2)] Cons.prems(2-4) by simp
qed (simp add: run_edits_def)

lemma replace_at_written:
  assumes "replace_at off expected new data = Inr d" "length new = length expected" "0 \<le> off" "new \<noteq> []"
  shows "py_slice d off (off + int (length new)) = new"
proof -
  have s: "py_slice data off (off + int (length expected)) = expected"
    and d: "d = py_set_slice data off (off + int (length new)) new"
    using assms(1) by (auto simp: replace_at_def split: if_splits)
  have b: "off + int (length new) \<le> int (length data)"
    using py_slice_length_bound [OF s refl assms(3)] assms(2,4) by (cases new; cases expected) auto
  have "d = put_at data (nat off) new"
    unfolding d by (rule py_set_slice_put_at) (use assms(3) b in auto)
  moreover have fit: "nat off + length new \<le> length data" using b assms(3) by linarith
  ultimately show ?thesis
    using take_drop_put_at_same [OF fit] b assms(3) by (simp add: py_slice_take_drop)
qed

text \<open>A first edit whose window the others leave alone: a second run refuses the file.\<close>

lemma run_edits_once:
  assumes "run_edits all data = Inr data'" "all = At_Off off expected new # es"
    "list_all edit_fits all" "list_all (edit_avoids off new) es" "new \<noteq> expected"
  shows "py_slice data' off (off + int (length new)) = new" "run_edits all data' = Inl System_Exit"
proof -
  from assms(1,2) obtain d where d: "replace_at off expected new data = Inr d" "run_edits es d = Inr data'"
    by (auto simp: run_edits_def bindR_Inr_iff)
  show s: "py_slice data' off (off + int (length new)) = new"
    by (rule run_edits_keeps [OF d(2)]) (use assms(2-4) replace_at_written [OF d(1)] in auto)
  then show "run_edits all data' = Inl System_Exit"
    using assms(2,3,5) by (simp add: run_edits_def replace_at_def)
qed

lemma run_edits_error: "run_edits es data = Inl e \<Longrightarrow> e = System_Exit"
proof (induction es arbitrary: data)
  case (Cons x es)
  from Cons.prems consider "run_edit x data = Inl e" | d where "run_edits es d = Inl e"
    by (auto simp: run_edits_def bindR_Inl_iff)
  then show ?case
  proof cases
    case 1
    then show ?thesis by (cases x) (auto simp: replace_at_def replace_all_def split: if_splits)
  qed (rule Cons.IH)
qed (simp add: run_edits_def)

text \<open>\<^verbatim>\<open>patch_internet_sharing\<close> either refuses a binary with \<^verbatim>\<open>SystemExit\<close>, or keeps its length, changes
  bytes only at its four code sites and inside the strings it renames, leaves the new logging
  initializer in place, and produces a file that a second application refuses.\<close>

theorem patch_internet_sharing_safe:
  "patch_internet_sharing data = Inl System_Exit
   \<or> (\<exists>data'. patch_internet_sharing data = Inr data'
        \<and> same_outside (edits_region internet_sharing_edits data) data data'
        \<and> patch_internet_sharing data' = Inl System_Exit
        \<and> py_slice data' 0x1CC54 (0x1CC54 + 8) = [0x20, 0x00, 0x80, 0x52, 0xc0, 0x03, 0x5f, 0xd6])"
proof (cases "patch_internet_sharing data")
  case (Inl e)
  then show ?thesis using run_edits_error by (auto simp: patch_internet_sharing_def)
next
  case (Inr data')
  then have r: "run_edits internet_sharing_edits data = Inr data'" by (simp add: patch_internet_sharing_def)
  have f: "list_all edit_fits internet_sharing_edits" by (simp add: internet_sharing_edits_def ascii_def)
  have a: "list_all (edit_avoids 0x1CC54 [0x20, 0x00, 0x80, 0x52, 0xc0, 0x03, 0x5f, 0xd6]) (tl internet_sharing_edits)"
    by (simp add: internet_sharing_edits_def ascii_def)
  have e: "internet_sharing_edits = At_Off 0x1CC54 [0x7f, 0x23, 0x03, 0xd5, 0xff, 0xc3, 0x00, 0xd1]
      [0x20, 0x00, 0x80, 0x52, 0xc0, 0x03, 0x5f, 0xd6] # tl internet_sharing_edits"
    by (simp add: internet_sharing_edits_def)
  have ne: "[0x20, 0x00, 0x80, 0x52, 0xc0, 0x03, 0x5f, 0xd6] \<noteq> ([0x7f, 0x23, 0x03, 0xd5, 0xff, 0xc3, 0x00, 0xd1] :: bytes)"
    by simp
  note once = run_edits_once [OF r e f a ne]
  show ?thesis using run_edits_confined [OF r f] once Inr by (simp add: patch_internet_sharing_def)
qed

subsection \<open>C strings replaced in place\<close>

text \<open>The places \<^verbatim>\<open>replace\<close> replaces, from the left.\<close>

function match_places :: "'a list \<Rightarrow> 'a list \<Rightarrow> nat \<Rightarrow> nat list" where
  "match_places old [] base = []"
| "match_places old (x # xs) base =
     (if old \<noteq> [] \<and> prefix old (x # xs)
      then base # match_places old (drop (length old) (x # xs)) (base + length old)
      else match_places old xs (base + 1))"
  by pat_completeness auto
termination by (relation "measure (\<lambda>(old, xs, base). length xs)") auto

lemma length_match_places: "length (match_places old xs base) = py_count old xs"
proof (induction old xs base rule: match_places.induct)
  case (2 old x xs base)
  then show ?case by (cases "old \<noteq> [] \<and> prefix old (x # xs)") (auto simp del: drop_Suc_Cons)
qed simp

lemma match_places_replaced:
  assumes "length new = length old" "p \<in> set (match_places old xs base)"
  shows "base \<le> p \<and> take (length old) (drop (p - base) xs) = old
    \<and> take (length old) (drop (p - base) (py_replace old new xs)) = new"
  using assms
proof (induction old xs base rule: match_places.induct)
  case (2 old x xs base)
  show ?case
  proof (cases "old \<noteq> [] \<and> prefix old (x # xs)")
    case True
    let ?n = "length old" and ?ys = "drop (length old) (x # xs)"
    have eq: "x # xs = old @ ?ys" using True by (auto simp: prefix_def)
    have r: "py_replace old new (x # xs) = new @ py_replace old new ?ys" using True by (simp del: drop_Suc_Cons)
    show ?thesis
    proof (cases "p = base")
      case True
      have "take ?n (x # xs) = old" by (subst eq) simp
      then show ?thesis using True 2(3) unfolding r by simp
    next
      case False
      have "p \<in> set (match_places old ?ys (base + ?n))" using 2(4) True False by (simp del: drop_Suc_Cons)
      note ih = 2(1) [OF True 2(3) this]
      then obtain k where k: "p = base + ?n + k" using le_Suc_ex by blast
      have "drop (p - base) (x # xs) = drop k ?ys" by (subst eq) (simp add: k)
      moreover have "drop (p - base) (py_replace old new (x # xs)) = drop k (py_replace old new ?ys)"
        unfolding r using 2(3) by (simp add: k)
      ultimately show ?thesis using ih by (simp add: k del: drop_Suc_Cons)
    qed
  next
    case False
    have "p \<in> set (match_places old xs (base + 1))" using 2(4) False by auto
    note ih = 2(2) [OF False 2(3) this]
    then obtain k where k: "p = base + 1 + k" using le_Suc_ex by blast
    show ?thesis using ih False by (auto simp: k)
  qed
qed simp

lemma before_nul_nul_pad:
  "0 \<notin> set s \<Longrightarrow> before_nul (nul_pad old (s @ [0])) = s"
proof -
  assume a: "0 \<notin> set s"
  have "before_nul (s @ 0 # ys) = s" for ys
    using a by (simp add: before_nul_def takeWhile_append2 [of s] ) (metis (mono_tags, lifting) a append.right_neutral takeWhile.simps(2) takeWhile_append2)
  then show ?thesis by (simp add: nul_pad_def)
qed

text \<open>\<^verbatim>\<open>patch_macho_cstring\<close> refuses a longer replacement and an unexpected number of copies; otherwise
  it keeps the length of the file, and at each of the expected places, where the old string stood
  with its terminator, a C reader now finds the new string.\<close>

theorem patch_macho_cstring_correct:
  assumes "0 \<notin> set new_text"
  shows "patch_macho_cstring old_text new_text n data =
      (if length new_text > length old_text \<or> py_count (old_text @ [0]) data \<noteq> n then Inl System_Exit
       else Inr (py_replace (old_text @ [0]) (nul_pad (old_text @ [0]) (new_text @ [0])) data))
    \<and> (\<forall>data'. patch_macho_cstring old_text new_text n data = Inr data' \<longrightarrow>
        length data' = length data \<and> length (match_places (old_text @ [0]) data 0) = n
        \<and> (\<forall>p \<in> set (match_places (old_text @ [0]) data 0).
             take (length old_text + 1) (drop p data) = old_text @ [0]
             \<and> before_nul (take (length old_text + 1) (drop p data')) = new_text))"
proof -
  let ?old = "old_text @ [0]" and ?new = "nul_pad (old_text @ [0]) (new_text @ [0])"
  have eq: "patch_macho_cstring old_text new_text n data =
      (if length new_text > length old_text \<or> py_count ?old data \<noteq> n then Inl System_Exit
       else Inr (py_replace ?old ?new data))"
    by (simp add: patch_macho_cstring_def run_edits_def replace_all_def Let_def)
  moreover have "length data' = length data \<and> length (match_places ?old data 0) = n
        \<and> (\<forall>p \<in> set (match_places ?old data 0).
             take (length old_text + 1) (drop p data) = ?old
             \<and> before_nul (take (length old_text + 1) (drop p data')) = new_text)"
    if "patch_macho_cstring old_text new_text n data = Inr data'" for data'
  proof -
    have h: "length new_text \<le> length old_text" "py_count ?old data = n" "data' = py_replace ?old ?new data"
      using that unfolding eq by (auto split: if_splits)
    have l: "length ?new = length ?old" by (rule length_nul_pad) (use h(1) in simp)
    have "take (length old_text + 1) (drop p data) = ?old
             \<and> before_nul (take (length old_text + 1) (drop p data')) = new_text"
      if "p \<in> set (match_places ?old data 0)" for p
      using match_places_replaced [OF l that] before_nul_nul_pad [OF assms, of ?old] h(3) by simp
    then show ?thesis
      using py_replace_length [OF l, of data] length_match_places [of ?old data 0] h(2,3) by simp
  qed
  ultimately show ?thesis by blast
qed

lemma patch_macho_cstring_correct_witness:
  "patch_macho_cstring [65, 66] [67] 1 [1, 65, 66, 0, 2] = Inr [1, 67, 0, 0, 2]"
  using patch_macho_cstring_correct [of "[67]" "[65, 66]" 1 "[1, 65, 66, 0, 2]"]
  by (simp add: nul_pad_def zeros_def)

end
