(* ===== verification/Class_Data.thy ===== *)
theory Class_Data
  imports Binary_Patches
begin

text \<open>
  \<^verbatim>\<open>patch_ipados15_objc_class_data.py\<close>: the \<^verbatim>\<open>data\<close> field of every class in \<^verbatim>\<open>__objc_data\<close> is turned
  from an authenticated rebase into a plain one. The words it reads are those \<^verbatim>\<open>uncache.py\<close>
  emits, so its bit arithmetic is stated against \<open>pack_auth_rebase\<close> and \<open>pack_rebase\<close>.
\<close>

definition class_word :: "int \<Rightarrow> int res" where
  "class_word word =
     (let authenticated = drop_bit 63 word; bound = drop_bit 62 word AND 1;
          diversity = drop_bit 32 word AND 0xFFFF; key = drop_bit 49 word AND 3
      in if authenticated = 0 \<or> bound \<noteq> 0 \<or> diversity \<noteq> 0x61F8 \<or> key \<noteq> 2 then Inl System_Exit
         else (let target = word AND 0xFFFFFFFF; next_delta = drop_bit 51 word AND 0x7FF
               in Inr (target OR push_bit 51 next_delta)))"

definition class_field :: "int \<Rightarrow> bytes \<Rightarrow> bytes res" where
  "class_field off img = bindR (u64 img off) (\<lambda>word. bindR (class_word word) (p64 img off))"

text \<open>\<^verbatim>\<open>range(file_offset + 32, file_offset + size, 40)\<close>.\<close>

definition class_offs :: "int \<Rightarrow> int \<Rightarrow> int list" where
  "class_offs fo sz = map (\<lambda>k. fo + 32 + int k * 40) [0..<nat ((sz - 32 + 39) div 40)]"

definition class_section :: "int \<times> int \<Rightarrow> bytes \<times> int \<Rightarrow> (bytes \<times> int) res" where
  "class_section = (\<lambda>(fo, sz) (img, patched).
     if sz mod 40 \<noteq> 0 then Inl System_Exit
     else foldR (\<lambda>off (img, patched). bindR (class_field off img) (\<lambda>img. Inr (img, patched + 1)))
            (class_offs fo sz) (img, patched))"

definition class_sections_cmd :: "bytes \<Rightarrow> int \<Rightarrow> int \<Rightarrow> int \<Rightarrow> (int \<times> int) list \<Rightarrow> (int \<times> int) list res" where
  "class_sections_cmd img cmd sz off secs =
     (if cmd = LC_SEGMENT_64 then
        bindR (u32 img (off + 64)) (\<lambda>count.
        foldR (\<lambda>so secs.
          if cstr16 img so = ascii ''__objc_data'' then
            bindR (u64 img (so + 40)) (\<lambda>size. bindR (u32 img (so + 48)) (\<lambda>fo. Inr (secs @ [(fo, size)])))
          else Inr secs) (sect_offs off count) secs)
      else Inr secs)"

definition patch_class_data :: "bytes \<Rightarrow> (bytes \<times> int) res" where
  "patch_class_data img =
     bindR (u32 img 16) (\<lambda>ncmds.
     bindR (for_cmds (\<lambda>_. img) (class_sections_cmd img) (nat ncmds) 32 []) (\<lambda>secs.
     foldR class_section secs (img, 0)))"

subsection \<open>One word\<close>

lemma class_word_form:
  "class_word w =
     (if drop_bit 63 w = 0 \<or> bits 62 1 w \<noteq> 0 \<or> bits 32 16 w \<noteq> 0x61F8 \<or> bits 49 2 w \<noteq> 2 then Inl System_Exit
      else Inr (fld 0 43 (bits 0 32 w) OR fld 51 11 (bits 51 11 w)))"
proof -
  have "w AND 0xFFFFFFFF OR push_bit 51 (drop_bit 51 w AND 0x7FF) = fld 0 43 (bits 0 32 w) OR fld 51 11 (bits 51 11 w)"
    by (rule bit_eqI) (auto simp: masks fld_def bits_def bit_simps)
  then show ?thesis by (simp add: class_word_def Let_def masks bits_def del: One_nat_def)
qed

text \<open>The class-data fixup \<^verbatim>\<open>uncache.py\<close> would emit for a target, with the class-data diversity and
  key DA, becomes exactly the plain rebase it would emit for the same target and the same next
  field: the conversion commutes with the packers, so the chain is unchanged.\<close>

theorem class_word_converts:
  assumes "0 \<le> target" "target < 2 ^ 32"
  shows "class_word (pack_auth_rebase target 0x61F8 addr_div 2 nxt) = Inr (pack_rebase target nxt 0)"
proof -
  let ?w = "pack_auth_rebase target 0x61F8 addr_div 2 nxt"
  have top: "drop_bit 63 ?w \<noteq> 0"
  proof
    assume "drop_bit 63 ?w = 0"
    then have "bits 63 1 ?w = 0" by (simp add: bits_def)
    then show False by (simp add: pack_kind del: One_nat_def)
  qed
  have f: "bits 62 1 ?w = 0" "bits 32 16 ?w = 0x61F8" "bits 49 2 ?w = 2" "bits 0 32 ?w = target"
    "bits 51 11 ?w = take_bit 11 nxt"
    using assms by (simp_all add: pack_kind pack_auth_fields pack_next take_bit_idle del: One_nat_def)
  have "fld 0 43 target OR fld 51 11 (take_bit 11 nxt) = pack_rebase target nxt 0"
    by (simp add: pack_forms fld_def)
  then show ?thesis using top f by (simp add: class_word_form)
qed

lemma class_word_converts_witness:
  "class_word (pack_auth_rebase 0x4321 0x61F8 1 2 5) = Inr (pack_rebase 0x4321 5 0)"
  using class_word_converts [of "0x4321" 1 5] by simp

lemma class_word_next:
  assumes "class_word w = Inr v"
  shows "bits 51 11 v = bits 51 11 w \<and> bits 62 1 v = 0 \<and> bits 63 1 v = 0 \<and> bits 0 43 v = bits 0 32 w
    \<and> 0 \<le> v \<and> v < 2 ^ 64"
proof -
  have v: "v = fld 0 43 (bits 0 32 w) OR fld 51 11 (bits 51 11 w)"
    using assms by (auto simp: class_word_form split: if_splits)
  have "0 \<le> v \<and> v < 2 ^ 64"
    unfolding v by (auto intro!: or_less fld_less or_nonneg simp del: power_numeral)
  moreover have "bits 51 11 v = bits 51 11 w \<and> bits 62 1 v = 0 \<and> bits 63 1 v = 0 \<and> bits 0 43 v = bits 0 32 w"
    unfolding v by (simp add: bits_simps del: One_nat_def) (simp add: bits_def take_bit_take_bit)
  ultimately show ?thesis by blast
qed

subsection \<open>The whole pass\<close>

text \<open>What a converted field looks like, against its old content.\<close>

definition converted :: "bytes \<Rightarrow> bytes \<Rightarrow> int \<Rightarrow> bool" where
  "converted img img' off \<longleftrightarrow>
     (\<exists>w v. u64 img off = Inr w \<and> class_word w = Inr v \<and> u64 img' off = Inr v)"

lemma class_field_Inr:
  assumes "class_field off img = Inr img'" "0 \<le> off"
  shows "same_outside (\<lambda>k. off \<le> int k \<and> int k < off + 8) img img'"
    "converted img img' off"
proof -
  from assms obtain w v where "u64 img off = Inr w" "class_word w = Inr v" and p: "p64 img off v = Inr img'"
    by (auto simp: class_field_def bindR_Inr_iff)
  then show "converted img img' off" using f64.rd_wr_same [OF p] by (auto simp: converted_def)
  show "same_outside (\<lambda>k. off \<le> int k \<and> int k < off + 8) img img'"
    using f64.wr_outside [OF p assms(2)] by simp
qed

lemma class_fields_run:
  assumes "foldR (\<lambda>off (img, patched). bindR (class_field off img) (\<lambda>img. Inr (img, patched + 1))) offs (img, n) =
      Inr (img', n')"
    "\<forall>off \<in> set offs. 0 \<le> off" "sorted_wrt (\<lambda>a b. 8 \<le> \<bar>a - b\<bar>) offs"
  shows "n' = n + int (length offs) \<and> same_outside (\<lambda>k. \<exists>off \<in> set offs. off \<le> int k \<and> int k < off + 8) img img'
    \<and> (\<forall>off \<in> set offs. converted img img' off)"
  using assms
proof (induction offs arbitrary: img n)
  case (Cons off offs)
  from Cons.prems(1) obtain m where m: "class_field off img = Inr m"
    and r: "foldR (\<lambda>off (img, patched). bindR (class_field off img) (\<lambda>img. Inr (img, patched + 1))) offs (m, n + 1) =
      Inr (img', n')"
    by (auto simp: bindR_Inr_iff)
  have off: "0 \<le> off" using Cons.prems(2) by simp
  note c = class_field_Inr [OF m off]
  have ih: "n' = n + 1 + int (length offs)" "same_outside (\<lambda>k. \<exists>off \<in> set offs. off \<le> int k \<and> int k < off + 8) m img'"
    "\<forall>off \<in> set offs. converted m img' off"
    using Cons.IH [OF r] Cons.prems(2,3) by auto
  have hd: "u64 img' off = u64 m off"
    by (rule same_outside_unpack_u [OF ih(2) off]) (use Cons.prems(3) in fastforce)
  have tl: "u64 m p = u64 img p" if "p \<in> set offs" for p
    by (rule same_outside_unpack_u [OF c(1)]) (use Cons.prems(2,3) that in fastforce)+
  have "same_outside (\<lambda>k. \<exists>o' \<in> set (off # offs). o' \<le> int k \<and> int k < o' + 8) img img'"
  proof (rule same_outside_trans)
    show "same_outside (\<lambda>k. \<exists>o' \<in> set (off # offs). o' \<le> int k \<and> int k < o' + 8) img m"
      by (rule same_outside_mono [OF c(1)]) simp
    show "same_outside (\<lambda>k. \<exists>o' \<in> set (off # offs). o' \<le> int k \<and> int k < o' + 8) m img'"
      by (rule same_outside_mono [OF ih(2)]) auto
  qed
  then show ?case using ih(1,3) c(2) hd tl by (auto simp: converted_def)
qed simp

text \<open>The data fields of a list of sections, and the condition that they do not overlap.\<close>

definition class_fields :: "(int \<times> int) list \<Rightarrow> int list" where
  "class_fields secs = concat (map (\<lambda>(fo, sz). class_offs fo sz) secs)"

lemma class_sections_flat:
  assumes "foldR class_section secs (img, n) = Inr (img', n')"
  shows "foldR (\<lambda>off (img, patched). bindR (class_field off img) (\<lambda>img. Inr (img, patched + 1)))
      (class_fields secs) (img, n) = Inr (img', n')"
  using assms
proof (induction secs arbitrary: img n)
  case (Cons sec secs)
  obtain fo sz where sec: "sec = (fo, sz)" by (cases sec)
  from Cons.prems obtain m k where m: "class_section sec (img, n) = Inr (m, k)" "foldR class_section secs (m, k) = Inr (img', n')"
    by (auto simp: bindR_Inr_iff)
  have "foldR (\<lambda>off (img, patched). bindR (class_field off img) (\<lambda>img. Inr (img, patched + 1))) (class_offs fo sz) (img, n) = Inr (m, k)"
    using m(1) by (auto simp: class_section_def sec split: if_splits)
  then show ?case using Cons.IH [OF m(2)] by (simp add: class_fields_def sec foldR_append)
qed (simp add: class_fields_def)

text \<open>C9: When the pass over a file's \<^verbatim>\<open>__objc_data\<close> sections succeeds, every class's data field has been
  converted, the count is the number of classes, and every other byte of the file is as before;
  each converted word keeps its place in its fixup chain and its target, and is a plain rebase.\<close>

theorem patch_class_data_correct:
  assumes "u32 img 16 = Inr ncmds" "for_cmds (\<lambda>_. img) (class_sections_cmd img) (nat ncmds) 32 [] = Inr secs"
    and "\<forall>off \<in> set (class_fields secs). 0 \<le> off" "sorted_wrt (\<lambda>a b. 8 \<le> \<bar>a - b\<bar>) (class_fields secs)"
    and "patch_class_data img = Inr (img', n)"
  shows "n = int (length (class_fields secs))
    \<and> same_outside (\<lambda>k. \<exists>off \<in> set (class_fields secs). off \<le> int k \<and> int k < off + 8) img img'
    \<and> (\<forall>off \<in> set (class_fields secs). \<exists>w v. u64 img off = Inr w \<and> u64 img' off = Inr v
         \<and> class_word w = Inr v \<and> bits 51 11 v = bits 51 11 w \<and> bits 0 43 v = bits 0 32 w
         \<and> bits 62 1 v = 0 \<and> bits 63 1 v = 0)"
proof -
  have r: "foldR class_section secs (img, 0) = Inr (img', n)"
    using assms(5) by (simp add: patch_class_data_def assms(1,2))
  from class_fields_run [OF class_sections_flat [OF r] assms(3,4)]
  show ?thesis using class_word_next unfolding converted_def by fastforce
qed

definition class_example :: bytes where
  "class_example = replicate 16 0 @ le_words 4 [1, 152] @ replicate 8 0
     @ le_words 4 [0x19, 152] @ replicate 56 0 @ le_words 4 [1, 0]
     @ ascii ''__objc_data'' @ replicate 21 0 @ le_bytes 8 0x4000 @ le_bytes 8 40 @ le_bytes 4 184 @ replicate 28 0
     @ replicate 32 9 @ le_bytes 8 (pack_auth_rebase 0x4321 0x61F8 1 2 5)"

lemma patch_class_data_correct_witness:
  "\<exists>img' n. patch_class_data class_example = Inr (img', n) \<and> n = 1
     \<and> (\<exists>w v. u64 class_example 216 = Inr w \<and> u64 img' 216 = Inr v \<and> bits 51 11 v = bits 51 11 w \<and> bits 63 1 v = 0)"
proof -
  have r: "u32 class_example 16 = Inr 1"
    "for_cmds (\<lambda>_. class_example) (class_sections_cmd class_example) (nat 1) 32 [] = Inr [(184, 40)]"
    by code_simp+
  have f: "class_fields [(184, 40)] = [216]" by code_simp
  have ok: "is_ok (patch_class_data class_example)" by code_simp
  then obtain img' n where p: "patch_class_data class_example = Inr (img', n)" by (auto simp: is_ok_iff)
  show ?thesis using patch_class_data_correct [OF r, of img' n] p unfolding f by auto
qed

end
