(* ===== verification/Code_Patches.thy ===== *)
theory Code_Patches
  imports Binary_Patches
begin

text \<open>
  The patchers that write instructions: \<^verbatim>\<open>patch_pvg_exception_log.py\<close>,
  \<^verbatim>\<open>patch_vmm_optional_pvg_reset.py\<close> and \<^verbatim>\<open>patch_vmm_pci_address.py\<close>, with the branch
  encoders and the decoder they use.
\<close>

definition NOP :: int where "NOP = 0xD503201F"

subsection \<open>Branches\<close>

text \<open>\<^verbatim>\<open>branch_target\<close>: where a \<^verbatim>\<open>BL\<close> at \<open>off\<close> goes.\<close>

definition branch_target :: "int \<Rightarrow> int \<Rightarrow> int option" where
  "branch_target instruction off =
     (if instruction AND 0xFC000000 \<noteq> 0x94000000 then None
      else (let immediate = instruction AND 0x03FFFFFF;
                immediate = (if immediate AND 0x02000000 \<noteq> 0 then immediate - 0x04000000 else immediate)
            in Some (off + immediate * 4)))"

text \<open>\<^verbatim>\<open>branch\<close> and \<^verbatim>\<open>encode_bl\<close>.\<close>

definition branch_imm :: "int \<Rightarrow> int \<Rightarrow> int res" where
  "branch_imm source target =
     (let delta = target - source in
      if delta mod 4 \<noteq> 0 \<or> \<not> (- push_bit 27 1 \<le> delta \<and> delta < push_bit 27 1) then Inl Value_Error
      else Inr ((delta div 4) AND 0x03FFFFFF))"

definition branch :: "int \<Rightarrow> int \<Rightarrow> int res" where
  "branch source target = bindR (branch_imm source target) (\<lambda>imm. Inr (0x14000000 OR imm))"

definition encode_bl :: "int \<Rightarrow> int \<Rightarrow> int res" where
  "encode_bl source target =
     (let delta = target - source in
      if delta AND 3 \<noteq> 0 \<or> \<not> (- push_bit 27 1 \<le> delta \<and> delta < push_bit 27 1) then Inl Value_Error
      else Inr (0x94000000 OR (drop_bit 2 delta AND 0x03FFFFFF)))"

lemma masks26: "x AND (0x03FFFFFF::int) = take_bit 26 x" "x AND (3::int) = take_bit 2 x"
  by (simp_all add: take_bit_eq_mask mask_eq_exp_minus_1)

lemma encode_bl_form:
  "encode_bl s t = (if 4 dvd (t - s) \<and> - (2 ^ 27) \<le> t - s \<and> t - s < 2 ^ 27
     then Inr (fld 26 6 0x25 OR fld 0 26 ((t - s) div 4)) else Inl Value_Error)"
  by (auto simp: encode_bl_def Let_def masks26 fld_def drop_bit_eq_div take_bit_eq_mod dvd_eq_mod_eq_0)

lemma branch_form:
  "branch s t = (if 4 dvd (t - s) \<and> - (2 ^ 27) \<le> t - s \<and> t - s < 2 ^ 27
     then Inr (fld 26 6 5 OR fld 0 26 ((t - s) div 4)) else Inl Value_Error)"
  by (auto simp: branch_def branch_imm_def Let_def masks26 fld_def dvd_eq_mod_eq_0)

lemma sign26:
  assumes "- (2 ^ 25) \<le> (d::int)" "d < 2 ^ 25"
  shows "(let i = take_bit 26 d in if i AND 0x02000000 \<noteq> 0 then i - 0x04000000 else i) = d"
proof -
  have bit: "(i AND 0x02000000 \<noteq> 0) = bit i 25" for i :: int
    using bit_iff_and_push_bit_not_eq_0 [of i 25] by simp
  have s: "take_bit 26 d = (if 0 \<le> d then d else d + 2 ^ 26)"
  proof (cases "0 \<le> d")
    case True
    then show ?thesis using assms by (simp add: take_bit_int_eq_self)
  next
    case False
    then have "(d + 2 ^ 26) mod 2 ^ 26 = d + 2 ^ 26" using assms by (intro mod_pos_pos_trivial) simp_all
    then show ?thesis using False by (simp add: take_bit_eq_mod)
  qed
  have e: "bit (take_bit 26 d) 25 \<longleftrightarrow> odd (d div 2 ^ 25)"
    unfolding bit_take_bit_iff bit_iff_odd [of d] by simp
  have b: "bit (take_bit 26 d) 25 \<longleftrightarrow> d < 0"
  proof (cases "0 \<le> d")
    case True
    then have "d div 2 ^ 25 = 0" using assms by (intro div_pos_pos_trivial) simp_all
    then show ?thesis using True unfolding e by simp
  next
    case False
    then have "d div 2 ^ 25 = - 1" using assms by (intro int_div_pos_eq [where r = "d + 2 ^ 25"]) simp_all
    then show ?thesis using False unfolding e by simp
  qed
  show ?thesis unfolding Let_def bit b using s by auto
qed

lemma bl_fields:
  "bits 26 6 (fld 26 6 c OR fld 0 26 d) = take_bit 6 c" "bits 0 26 (fld 26 6 c OR fld 0 26 d) = take_bit 26 d"
  by (simp_all add: bits_simps)

lemma opcode_mask: "(w AND 0xFC000000 = 0x94000000) = (bits 26 6 w = 0x25)" if "0 \<le> w" "w < 2 ^ 32" for w :: int
proof -
  have m: "(0xFC000000 :: int) = push_bit 26 (mask 6)" by (simp add: push_bit_eq_mult mask_eq_exp_minus_1)
  have "w AND 0xFC000000 = push_bit 26 (bits 26 6 w)"
    unfolding m by (auto intro!: bit_eqI simp: bits_def bit_simps)
  then show ?thesis by (auto simp: push_bit_eq_mult)
qed

text \<open>The encoders accept exactly the aligned targets within 128 MiB, and the decoder of the log
  patcher reads a \<^verbatim>\<open>BL\<close> made by \<^verbatim>\<open>encode_bl\<close> back to its target.\<close>

theorem encode_bl_correct:
  "encode_bl source target =
     (if 4 dvd (target - source) \<and> - (2 ^ 27) \<le> target - source \<and> target - source < 2 ^ 27
      then Inr (0x94000000 OR take_bit 26 ((target - source) div 4)) else Inl Value_Error)
   \<and> (is_ok (encode_bl source target) \<longleftrightarrow> is_ok (branch source target))
   \<and> (case encode_bl source target of Inl _ \<Rightarrow> True | Inr w \<Rightarrow> branch_target w source = Some target)"
proof -
  have "branch_target (fld 26 6 0x25 OR fld 0 26 ((target - source) div 4)) source = Some target"
    if d: "4 dvd (target - source)" "- (2 ^ 27) \<le> target - source" "target - source < 2 ^ 27"
  proof -
    let ?d = "(target - source) div 4" and ?w = "fld 26 6 0x25 OR fld 0 26 ((target - source) div 4)"
    obtain k where k: "target - source = 4 * k" using d(1) by (auto simp: dvd_def)
    have r: "- (2 ^ 25) \<le> ?d" "?d < 2 ^ 25" using d(2,3) by (simp_all add: k)
    have w: "0 \<le> ?w" "?w < 2 ^ 32" by (auto intro!: or_less fld_less or_nonneg simp del: power_numeral)
    have op: "?w AND 0xFC000000 = 0x94000000" unfolding opcode_mask [OF w] bl_fields by simp
    have im: "?w AND 0x03FFFFFF = take_bit 26 ?d"
      using bl_fields(2) [of "0x25" ?d] by (simp add: masks26 bits_def)
    show ?thesis unfolding branch_target_def op im using sign26 [OF r] k by (simp add: Let_def)
  qed
  then show ?thesis by (auto simp: encode_bl_form branch_form fld_def)
qed

subsection \<open>\<^verbatim>\<open>patch_pvg_exception_log.py\<close>\<close>

definition LOG_CALL_OFFSETS :: "int list" where
  "LOG_CALL_OFFSETS =
     [0x1C7F4, 0x1C9F0, 0x1CC04, 0x1CE00, 0x1CFFC, 0x1D1FC, 0x1D438, 0x1D840, 0x1DA70, 0x1DC20,
      0x1DE40, 0x1E040, 0x1E23C, 0x1E524, 0x1E770, 0x1E9BC, 0x1EBBC, 0x1EEB0, 0x1F240, 0x1F498,
      0x1F8F4, 0x1F9C8, 0x201BC, 0x203BC, 0x20584, 0x20788, 0x20984, 0x20B30, 0x20EFC, 0x21268, 0x21570]"

definition OS_LOG_ERROR_STUB_OFFSET :: int where "OS_LOG_ERROR_STUB_OFFSET = 0x28278"

definition log_site :: "int \<Rightarrow> bytes \<times> int \<Rightarrow> (bytes \<times> int) res" where
  "log_site off = (\<lambda>(data, patched).
     bindR (u32 data off) (\<lambda>current.
     if current = NOP then Inr (data, patched)
     else if branch_target current off \<noteq> Some OS_LOG_ERROR_STUB_OFFSET then Inl System_Exit
     else bindR (p32 data off NOP) (\<lambda>data. Inr (data, patched + 1))))"

definition patch_pvg_exception_log :: "bytes \<Rightarrow> (bytes \<times> int) res" where
  "patch_pvg_exception_log data =
     (if int (length data) < Max (set LOG_CALL_OFFSETS) + 4 then Inl System_Exit
      else foldR log_site LOG_CALL_OFFSETS (data, 0))"

definition log_sites_done :: "bytes \<Rightarrow> bool" where
  "log_sites_done data \<longleftrightarrow> (\<forall>off \<in> set LOG_CALL_OFFSETS. u32 data off = Inr NOP)"

lemma log_sites_spaced: "sorted_wrt (\<lambda>a b. a + 4 \<le> b) LOG_CALL_OFFSETS" "\<forall>o' \<in> set LOG_CALL_OFFSETS. 0 \<le> o'"
  by (simp_all add: LOG_CALL_OFFSETS_def)

lemma log_run:
  assumes "foldR log_site offs (data, n) = Inr (data', n')" "sorted_wrt (\<lambda>a b. a + 4 \<le> b) offs" "\<forall>o' \<in> set offs. 0 \<le> o'"
  shows "same_outside (\<lambda>k. \<exists>o' \<in> set offs. o' \<le> int k \<and> int k < o' + 4) data data'
    \<and> (\<forall>o' \<in> set offs. u32 data' o' = Inr NOP
         \<and> (\<exists>w. u32 data o' = Inr w \<and> (w = NOP \<or> branch_target w o' = Some OS_LOG_ERROR_STUB_OFFSET)))"
  using assms
proof (induction offs arbitrary: data n)
  case (Cons off offs)
  from Cons.prems(1) obtain d k where d: "log_site off (data, n) = Inr (d, k)" and r: "foldR log_site offs (d, k) = Inr (data', n')"
    by (auto simp: bindR_Inr_iff)
  have off: "0 \<le> off" using Cons.prems(3) by simp
  obtain w where w: "u32 data off = Inr w" "w = NOP \<or> branch_target w off = Some OS_LOG_ERROR_STUB_OFFSET"
    and dn: "u32 d off = Inr NOP" and out: "same_outside (\<lambda>k. off \<le> int k \<and> int k < off + 4) data d"
  proof -
    from d obtain w where w: "u32 data off = Inr w" by (auto simp: log_site_def bindR_Inr_iff)
    show thesis
    proof (cases "w = NOP")
      case True
      then show thesis using d w by (intro that [of w]) (auto simp: log_site_def)
    next
      case False
      then have p: "p32 data off NOP = Inr d" "branch_target w off = Some OS_LOG_ERROR_STUB_OFFSET"
        using d w by (auto simp: log_site_def bindR_Inr_iff split: if_splits)
      show thesis
        by (rule that [of w]) (use w p f32.rd_wr_same [OF p(1)] f32.wr_outside [OF p(1) off] in simp_all)
    qed
  qed
  have ih: "same_outside (\<lambda>k. \<exists>o' \<in> set offs. o' \<le> int k \<and> int k < o' + 4) d data'"
    "\<forall>o' \<in> set offs. u32 data' o' = Inr NOP
         \<and> (\<exists>w. u32 d o' = Inr w \<and> (w = NOP \<or> branch_target w o' = Some OS_LOG_ERROR_STUB_OFFSET))"
    using Cons.IH [OF r] Cons.prems(2,3) by auto
  have hd: "u32 data' off = u32 d off"
    by (rule same_outside_unpack_u [OF ih(1) off]) (use Cons.prems(2) in fastforce)
  have tl: "u32 d p = u32 data p" if "p \<in> set offs" for p
    by (rule same_outside_unpack_u [OF out]) (use Cons.prems(2,3) that in fastforce)+
  have "same_outside (\<lambda>k. \<exists>o' \<in> set (off # offs). o' \<le> int k \<and> int k < o' + 4) data data'"
  proof (rule same_outside_trans)
    show "same_outside (\<lambda>k. \<exists>o' \<in> set (off # offs). o' \<le> int k \<and> int k < o' + 4) data d"
      by (rule same_outside_mono [OF out]) simp
    show "same_outside (\<lambda>k. \<exists>o' \<in> set (off # offs). o' \<le> int k \<and> int k < o' + 4) d data'"
      by (rule same_outside_mono [OF ih(1)]) auto
  qed
  then show ?case using ih(2) w dn hd tl by auto
qed simp

lemma log_again: "\<forall>o' \<in> set offs. u32 data o' = Inr NOP \<Longrightarrow> foldR log_site offs (data, n) = Inr (data, n)"
  by (induction offs) (auto simp: log_site_def)

text \<open>The log patcher refuses a file unless each of its sites holds a \<^verbatim>\<open>NOP\<close> or a call to the logging
  stub; otherwise every site is a \<^verbatim>\<open>NOP\<close> afterwards, nothing else changed, and running it on its
  own output changes nothing more.\<close>

theorem patch_pvg_exception_log_correct:
  "(\<exists>e. patch_pvg_exception_log data = Inl e)
   \<or> (\<exists>data' n. patch_pvg_exception_log data = Inr (data', n)
        \<and> same_outside (\<lambda>k. \<exists>o' \<in> set LOG_CALL_OFFSETS. o' \<le> int k \<and> int k < o' + 4) data data'
        \<and> log_sites_done data' \<and> patch_pvg_exception_log data' = Inr (data', 0))"
proof (cases "patch_pvg_exception_log data")
  case (Inr x)
  obtain data' n where x: "x = (data', n)" by (cases x)
  have len: "\<not> int (length data) < Max (set LOG_CALL_OFFSETS) + 4"
    and r: "foldR log_site LOG_CALL_OFFSETS (data, 0) = Inr (data', n)"
    using Inr by (auto simp: patch_pvg_exception_log_def x split: if_splits)
  note run = log_run [OF r log_sites_spaced]
  have "length data' = length data" using run same_outside_length by blast
  then have "patch_pvg_exception_log data' = Inr (data', 0)"
    using log_again [of LOG_CALL_OFFSETS data' 0] run len by (simp add: patch_pvg_exception_log_def)
  then show ?thesis using run Inr by (auto simp: x log_sites_done_def)
qed simp

end
