(* ===== verification/Pci_Helper.thy ===== *)
theory Pci_Helper
  imports Code_Patches
begin

text \<open>
  \<^verbatim>\<open>patch_vmm_pci_address.py\<close> plants fourteen ARM64 instructions in the VMM. The script is modelled
  as a patch, and its instruction words are decoded and run: what the planted code computes is
  a claim about those words. The decoder covers the A64 forms that occur, from the architecture's
  encodings, and refuses every other word.
\<close>

subsection \<open>The patch\<close>

definition PCI_ADDRESS_CALL_OFFSET :: int where "PCI_ADDRESS_CALL_OFFSET = 0x179DF0"
definition STRING_OFFSET :: int where "STRING_OFFSET = 0x1A5F4A"
definition HELPER_OFFSET :: int where "HELPER_OFFSET = STRING_OFFSET + 2"

definition ORIGINAL_STRING :: bytes where
  "ORIGINAL_STRING = ascii ''VirtioSocketDevice: Unexpected error sending data from guest to host: %s.'' @ [0]"

definition pci_address_helper_words :: "int list" where
  "pci_address_helper_words =
     [0xF11FFD1F, 0x54000080, 0x8B080F08, 0xF940250A, 0xB400012A, 0xAA1803E8, 0xD280200B,
      0xF940250A, 0xB40000AA, 0x91002108, 0xF100056B, 0x54FFFF81, 0xAA1803E8, 0xD65F03C0]"

definition patch_vmm_pci_address :: "bytes \<Rightarrow> bytes res" where
  "patch_vmm_pci_address data =
     (if py_slice data STRING_OFFSET (STRING_OFFSET + int (length ORIGINAL_STRING)) \<noteq> ORIGINAL_STRING
      then Inl System_Exit
      else
        (let helper = le_words 4 pci_address_helper_words;
             available = int (length ORIGINAL_STRING) - (HELPER_OFFSET - STRING_OFFSET) in
         if int (length helper) > available then Inl System_Exit
         else
           bindR (u32 data PCI_ADDRESS_CALL_OFFSET) (\<lambda>instruction.
           if instruction \<noteq> 0x8B080F08 then Inl System_Exit
           else
             (let data = py_set_slice data HELPER_OFFSET (HELPER_OFFSET + int (length helper)) helper in
              bindR (encode_bl PCI_ADDRESS_CALL_OFFSET HELPER_OFFSET) (\<lambda>w.
              p32 data PCI_ADDRESS_CALL_OFFSET w)))))"

subsection \<open>A64 instructions\<close>

datatype insn =
    Subs_Imm nat nat int
  | Add_Imm nat nat int
  | Add_Shift nat nat nat nat
  | Ldr_Imm nat nat int
  | Mov_Reg nat nat
  | Movz nat int
  | Cbz nat int
  | Cbnz nat int
  | B_Eq int
  | B_Ne int
  | Ret

definition reg_at :: "nat \<Rightarrow> int \<Rightarrow> nat" where
  "reg_at k w = nat (bits k 5 w)"

definition simm19 :: "int \<Rightarrow> int" where
  "simm19 w = (let i = bits 5 19 w in if i < 2 ^ 18 then i else i - 2 ^ 19)"

definition decode :: "int \<Rightarrow> insn option" where
  "decode w =
     (if bits 22 10 w = 0x3C4 then Some (Subs_Imm (reg_at 0 w) (reg_at 5 w) (bits 10 12 w))
      else if bits 22 10 w = 0x244 then Some (Add_Imm (reg_at 0 w) (reg_at 5 w) (bits 10 12 w))
      else if bits 21 11 w = 0x458 then Some (Add_Shift (reg_at 0 w) (reg_at 5 w) (reg_at 16 w) (nat (bits 10 6 w)))
      else if bits 22 10 w = 0x3E5 then Some (Ldr_Imm (reg_at 0 w) (reg_at 5 w) (8 * bits 10 12 w))
      else if bits 21 11 w = 0x550 \<and> bits 5 11 w = 0x1F then Some (Mov_Reg (reg_at 0 w) (reg_at 16 w))
      else if bits 21 11 w = 0x694 then Some (Movz (reg_at 0 w) (bits 5 16 w))
      else if bits 24 8 w = 0xB4 then Some (Cbz (reg_at 0 w) (simm19 w))
      else if bits 24 8 w = 0xB5 then Some (Cbnz (reg_at 0 w) (simm19 w))
      else if bits 24 8 w = 0x54 \<and> bits 0 5 w = 0 then Some (B_Eq (simm19 w))
      else if bits 24 8 w = 0x54 \<and> bits 0 5 w = 1 then Some (B_Ne (simm19 w))
      else if w = 0xD65F03C0 then Some Ret
      else None)"

text \<open>Register 31 reads as zero and ignores writes in the forms above. There are no stores.\<close>

type_synonym regs = "nat \<Rightarrow> 64 word"

record cpu =
  xs :: regs
  zf :: bool
  pc :: int

definition rd :: "regs \<Rightarrow> nat \<Rightarrow> 64 word" where
  "rd r n = (if n = 31 then 0 else r n)"

definition wr :: "regs \<Rightarrow> nat \<Rightarrow> 64 word \<Rightarrow> regs" where
  "wr r n v = (if n = 31 then r else r(n := v))"

text \<open>One instruction; a branch distance is in instructions.\<close>

fun step :: "(64 word \<Rightarrow> 64 word) \<Rightarrow> insn \<Rightarrow> cpu \<Rightarrow> cpu" where
  "step mem (Subs_Imm d n i) s =
     (let v = rd (xs s) n - word_of_int i in \<lparr>xs = wr (xs s) d v, zf = (v = 0), pc = pc s + 1\<rparr>)"
| "step mem (Add_Imm d n i) s = s\<lparr>xs := wr (xs s) d (rd (xs s) n + word_of_int i), pc := pc s + 1\<rparr>"
| "step mem (Add_Shift d n m k) s =
     s\<lparr>xs := wr (xs s) d (rd (xs s) n + push_bit k (rd (xs s) m)), pc := pc s + 1\<rparr>"
| "step mem (Ldr_Imm t n i) s = s\<lparr>xs := wr (xs s) t (mem (rd (xs s) n + word_of_int i)), pc := pc s + 1\<rparr>"
| "step mem (Mov_Reg d m) s = s\<lparr>xs := wr (xs s) d (rd (xs s) m), pc := pc s + 1\<rparr>"
| "step mem (Movz d i) s = s\<lparr>xs := wr (xs s) d (word_of_int i), pc := pc s + 1\<rparr>"
| "step mem (Cbz t k) s = s\<lparr>pc := pc s + (if rd (xs s) t = 0 then k else 1)\<rparr>"
| "step mem (Cbnz t k) s = s\<lparr>pc := pc s + (if rd (xs s) t = 0 then 1 else k)\<rparr>"
| "step mem (B_Eq k) s = s\<lparr>pc := pc s + (if zf s then k else 1)\<rparr>"
| "step mem (B_Ne k) s = s\<lparr>pc := pc s + (if zf s then 1 else k)\<rparr>"
| "step mem Ret s = s"

text \<open>Running from the program counter until \<^verbatim>\<open>RET\<close>; leaving the code, or a word that is not
  decoded, is a failure.\<close>

definition fetch :: "int list \<Rightarrow> int \<Rightarrow> insn option" where
  "fetch code p = (if 0 \<le> p \<and> nat p < length code then decode (code ! nat p) else None)"

fun run :: "int list \<Rightarrow> (64 word \<Rightarrow> 64 word) \<Rightarrow> nat \<Rightarrow> cpu \<Rightarrow> cpu option" where
  "run code mem 0 s = None"
| "run code mem (Suc n) s =
     (case fetch code (pc s) of
        None \<Rightarrow> None
      | Some Ret \<Rightarrow> Some s
      | Some i \<Rightarrow> run code mem n (step mem i s))"

lemma run_mono: "run code mem n s = Some t \<Longrightarrow> run code mem (n + k) s = Some t"
proof (induction n arbitrary: s)
  case (Suc n)
  then show ?case by (auto split: option.splits insn.splits)
qed simp

lemma run_step:
  "fetch code (pc s) = Some i \<Longrightarrow> i \<noteq> Ret \<Longrightarrow> run code mem (Suc n) s = run code mem n (step mem i s)"
  by (cases i) auto

subsection \<open>The helper\<close>

lemma helper_fetch:
  "fetch pci_address_helper_words 0 = Some (Subs_Imm 31 8 0x7FF)"
  "fetch pci_address_helper_words 1 = Some (B_Eq 4)"
  "fetch pci_address_helper_words 2 = Some (Add_Shift 8 24 8 3)"
  "fetch pci_address_helper_words 3 = Some (Ldr_Imm 10 8 0x48)"
  "fetch pci_address_helper_words 4 = Some (Cbz 10 9)"
  "fetch pci_address_helper_words 5 = Some (Mov_Reg 8 24)"
  "fetch pci_address_helper_words 6 = Some (Movz 11 0x100)"
  "fetch pci_address_helper_words 7 = Some (Ldr_Imm 10 8 0x48)"
  "fetch pci_address_helper_words 8 = Some (Cbz 10 5)"
  "fetch pci_address_helper_words 9 = Some (Add_Imm 8 8 8)"
  "fetch pci_address_helper_words 10 = Some (Subs_Imm 11 11 1)"
  "fetch pci_address_helper_words 11 = Some (B_Ne (- 4))"
  "fetch pci_address_helper_words 12 = Some (Mov_Reg 8 24)"
  "fetch pci_address_helper_words 13 = Some Ret"
  by (code_simp)+

text \<open>The bus table: 256 entries of 8 bytes, 0x48 bytes into the bus object at \<open>base\<close>; 0 is a free slot.\<close>

definition slot_addr :: "64 word \<Rightarrow> nat \<Rightarrow> 64 word" where
  "slot_addr base i = base + 8 * of_nat i"

definition slot_free :: "(64 word \<Rightarrow> 64 word) \<Rightarrow> 64 word \<Rightarrow> nat \<Rightarrow> bool" where
  "slot_free mem base i \<longleftrightarrow> mem (slot_addr base i + 0x48) = 0"

text \<open>The scan, from entry \<open>i\<close> on.\<close>

fun first_free :: "(64 word \<Rightarrow> 64 word) \<Rightarrow> 64 word \<Rightarrow> nat \<Rightarrow> nat \<Rightarrow> nat option" where
  "first_free mem base i 0 = None"
| "first_free mem base i (Suc n) = (if slot_free mem base i then Some i else first_free mem base (Suc i) n)"

definition slot_result :: "64 word \<Rightarrow> nat option \<Rightarrow> 64 word" where
  "slot_result base r = (case r of None \<Rightarrow> base | Some i \<Rightarrow> slot_addr base i)"

text \<open>Registers the helper may use.\<close>

definition kept :: "regs \<Rightarrow> regs \<Rightarrow> bool" where
  "kept r r' \<longleftrightarrow> (\<forall>n. n \<notin> {8, 10, 11} \<longrightarrow> r' n = r n)"

lemma of_nat_small: "n < 257 \<Longrightarrow> (of_nat n = (0 :: 64 word)) = (n = 0)"
  by (simp add: word_of_nat_eq_0_iff) (use dvd_imp_le in fastforce)

abbreviation helper_run :: "(64 word \<Rightarrow> 64 word) \<Rightarrow> nat \<Rightarrow> cpu \<Rightarrow> cpu option" where
  "helper_run \<equiv> run pci_address_helper_words"

lemma helper_scan:
  assumes "pc s = 7" "xs s 24 = base" "xs s 8 = slot_addr base i" "xs s 11 = of_nat n" "0 < n" "n \<le> 256"
  shows "\<exists>t. helper_run mem (5 * n + 3) s = Some t \<and> xs t 8 = slot_result base (first_free mem base i n)
    \<and> kept (xs s) (xs t)"
  using assms
proof (induction n arbitrary: i s)
  case (Suc n)
  define s1 where "s1 = step mem (Ldr_Imm 10 8 0x48) s"
  have r1: "helper_run mem (Suc m) s = helper_run mem m s1" for m
    unfolding s1_def by (rule run_step) (simp_all add: Suc.prems(1) helper_fetch)
  have s1: "pc s1 = 8" "xs s1 = (xs s)(10 := mem (slot_addr base i + 0x48))"
    using Suc.prems by (simp_all add: s1_def rd_def wr_def)
  define s2 where "s2 = step mem (Cbz 10 5) s1"
  have r2: "helper_run mem (Suc m) s1 = helper_run mem m s2" for m
    unfolding s2_def by (rule run_step) (simp_all only: s1 helper_fetch, simp)
  show ?case
  proof (cases "slot_free mem base i")
    case True
    have s2: "pc s2 = 13" "xs s2 = xs s1" using s1 True by (simp_all add: s2_def rd_def slot_free_def)
    have "helper_run mem (Suc m) s2 = Some s2" for m by (simp only: run.simps s2(1) helper_fetch) simp
    then have "helper_run mem (5 * Suc n + 3) s = Some s2" using r1 r2 by (simp add: numeral_eq_Suc)
    then show ?thesis using s2 s1 True Suc.prems(3) by (simp add: slot_result_def kept_def)
  next
    case False
    have s2: "pc s2 = 9" "xs s2 = xs s1" using s1 False by (simp_all add: s2_def rd_def slot_free_def)
    define s3 where "s3 = step mem (Add_Imm 8 8 8) s2"
    define s4 where "s4 = step mem (Subs_Imm 11 11 1) s3"
    define s5 where "s5 = step mem (B_Ne (- 4)) s4"
    have s3: "pc s3 = 10" "xs s3 = (xs s1)(8 := slot_addr base (Suc i))"
      using s2 s1 Suc.prems(3) by (simp_all add: s3_def rd_def wr_def slot_addr_def algebra_simps)
    have s4: "pc s4 = 11" "xs s4 = (xs s3)(11 := of_nat n)" "zf s4 = (n = 0)"
      using s3 s2 s1 Suc.prems(4,6) of_nat_small [of n] by (simp_all add: s4_def rd_def wr_def Let_def)
    have r3: "helper_run mem (Suc m) s2 = helper_run mem m s3" for m
      unfolding s3_def by (rule run_step) (simp_all only: s2 helper_fetch, simp)
    have r4: "helper_run mem (Suc m) s3 = helper_run mem m s4" for m
      unfolding s4_def by (rule run_step) (simp_all only: s3 helper_fetch, simp)
    have r5: "helper_run mem (Suc m) s4 = helper_run mem m s5" for m
      unfolding s5_def by (rule run_step) (simp_all only: s4 helper_fetch, simp)
    have r: "helper_run mem (Suc (Suc (Suc (Suc (Suc m))))) s = helper_run mem m s5" for m
      using r1 r2 r3 r4 r5 by simp
    have x5: "xs s5 = xs s4" by (simp add: s5_def)
    show ?thesis
    proof (cases "n = 0")
      case True
      have p5: "pc s5 = 12" using s4 True by (simp add: s5_def)
      define s6 where "s6 = step mem (Mov_Reg 8 24) s5"
      have r6: "helper_run mem (Suc m) s5 = helper_run mem m s6" for m
        unfolding s6_def by (rule run_step) (simp_all only: p5 helper_fetch, simp)
      have s6: "pc s6 = 13" "xs s6 = (xs s5)(8 := base)"
        using p5 x5 s4 s3 s1 s2 Suc.prems(2) by (simp_all add: s6_def rd_def wr_def)
      have "helper_run mem (Suc m) s6 = Some s6" for m by (simp only: run.simps s6(1) helper_fetch) simp
      then have "helper_run mem (5 * Suc n + 3) s = Some s6"
        using r r6 by (simp add: True numeral_eq_Suc)
      then show ?thesis
        using s6 x5 s4 s3 s2 s1 True \<open>\<not> slot_free mem base i\<close> by (simp add: slot_result_def kept_def)
    next
      case n: False
      have p5: "pc s5 = 7" using s4 n by (simp add: s5_def)
      have q: "xs s5 24 = base" "xs s5 8 = slot_addr base (Suc i)" "xs s5 11 = of_nat n" "0 < n" "n \<le> 256"
        using x5 s4 s3 s2 s1 Suc.prems n by simp_all
      obtain t where t: "helper_run mem (5 * n + 3) s5 = Some t"
        "xs t 8 = slot_result base (first_free mem base (Suc i) n)" "kept (xs s5) (xs t)"
        using Suc.IH [OF p5 q] by blast
      have "helper_run mem (5 * Suc n + 3) s = Some t" using r [of "5 * n + 3"] t(1) by (simp add: numeral_eq_Suc)
      moreover have "kept (xs s) (xs t)" using t(3) x5 s4 s3 s2 s1 by (simp add: kept_def)
      ultimately show ?thesis using t(2) False by auto
    qed
  qed
qed simp


text \<open>What the helper is meant to compute from the device's requested address.\<close>

definition pci_slot :: "(64 word \<Rightarrow> 64 word) \<Rightarrow> 64 word \<Rightarrow> 64 word \<Rightarrow> 64 word" where
  "pci_slot mem base idx =
     (if idx \<noteq> 0x7FF \<and> mem (base + 8 * idx + 0x48) = 0 then base + 8 * idx
      else slot_result base (first_free mem base 0 256))"

text \<open>C10: Run from its first instruction, on any memory and any requested address, the planted helper
  returns within 1300 instructions; it yields the address of the requested slot when that one
  is explicit (not 0x7ff) and free, otherwise of the first free of the bus's 256 slots, and the
  start of the table when all are taken; it changes no register but x8, x10 and x11.\<close>

theorem pci_helper_correct:
  "\<exists>t. helper_run mem 1300 \<lparr>xs = r, zf = z, pc = 0\<rparr> = Some t
     \<and> xs t 8 = pci_slot mem (r 24) (r 8) \<and> kept r (xs t)"
proof -
  let ?base = "r 24" and ?idx = "r 8"
  define s0 where "s0 = \<lparr>xs = r, zf = z, pc = 0\<rparr>"
  define s1 where "s1 = step mem (Subs_Imm 31 8 0x7FF) s0"
  define s2 where "s2 = step mem (B_Eq 4) s1"
  have p0: "pc s0 = 0" by (simp add: s0_def)
  have s1: "pc s1 = 1" "xs s1 = r" "zf s1 = (?idx = 0x7FF)" by (simp_all add: s1_def s0_def rd_def wr_def Let_def)
  have r1: "helper_run mem (Suc m) s0 = helper_run mem m s1" for m
    unfolding s1_def by (rule run_step) (simp_all only: p0 helper_fetch, simp)
  have r2: "helper_run mem (Suc m) s1 = helper_run mem m s2" for m
    unfolding s2_def by (rule run_step) (simp_all only: s1 helper_fetch, simp)
  have x2: "xs s2 = r" "pc s2 = (if ?idx = 0x7FF then 5 else 2)" using s1 by (simp_all add: s2_def)
  have scan: "\<exists>t. helper_run mem 1290 s = Some t \<and> xs t 8 = slot_result ?base (first_free mem ?base 0 256) \<and> kept r (xs t)"
    if "pc s = 5" "kept r (xs s)" for s
  proof -
    define u where "u = step mem (Mov_Reg 8 24) s"
    define v where "v = step mem (Movz 11 0x100) u"
    have u: "pc u = 6" "xs u 8 = ?base" "xs u 24 = ?base" "kept r (xs u)"
      using that by (simp_all add: u_def rd_def wr_def kept_def)
    have v: "pc v = 7" "xs v 24 = ?base" "xs v 8 = slot_addr ?base 0" "xs v 11 = of_nat 256" "kept r (xs v)"
      using u by (simp_all add: v_def wr_def kept_def slot_addr_def)
    have ru: "helper_run mem (Suc m) s = helper_run mem m u" for m
      unfolding u_def by (rule run_step) (simp_all only: that(1) helper_fetch, simp)
    have rv: "helper_run mem (Suc m) u = helper_run mem m v" for m
      unfolding v_def by (rule run_step) (simp_all only: u(1) helper_fetch, simp)
    obtain t where t: "helper_run mem (5 * 256 + 3) v = Some t"
      "xs t 8 = slot_result ?base (first_free mem ?base 0 256)" "kept (xs v) (xs t)"
      using helper_scan [OF v(1-4)] by auto
    have "helper_run mem (5 * 256 + 3 + 5) v = Some t" by (rule run_mono [OF t(1)])
    then have "helper_run mem (Suc (Suc (5 * 256 + 3 + 5))) s = Some t" by (simp only: ru rv)
    moreover have "Suc (Suc (5 * 256 + 3 + 5)) = (1290 :: nat)" by simp
    ultimately have "helper_run mem 1290 s = Some t" by (simp only:)
    moreover have "kept r (xs t)" using v(5) t(3) by (simp add: kept_def)
    ultimately show ?thesis using t(2) by blast
  qed
  have more: "helper_run mem 1300 s0 = Some t" if "helper_run mem n s2 = Some t" "n + 2 \<le> 1300" for n t
  proof -
    have "helper_run mem (n + (1298 - n)) s2 = Some t" by (rule run_mono [OF that(1)])
    moreover have "n + (1298 - n) = 1298" using that(2) by simp
    ultimately have "helper_run mem 1298 s2 = Some t" by (simp only:)
    then have "helper_run mem (Suc (Suc 1298)) s0 = Some t" by (simp only: r1 r2)
    moreover have "Suc (Suc 1298) = (1300 :: nat)" by simp
    ultimately show ?thesis by (simp only:)
  qed
  have "\<exists>t. helper_run mem 1300 s0 = Some t \<and> xs t 8 = pci_slot mem ?base ?idx \<and> kept r (xs t)"
  proof (cases "?idx = 0x7FF")
    case True
    obtain t where t: "helper_run mem 1290 s2 = Some t" "xs t 8 = slot_result ?base (first_free mem ?base 0 256)" "kept r (xs t)"
      using scan [of s2] x2 True by (auto simp: kept_def)
    show ?thesis using more [OF t(1)] t(2,3) True by (simp add: pci_slot_def)
  next
    case False
    define s3 where "s3 = step mem (Add_Shift 8 24 8 3) s2"
    define s4 where "s4 = step mem (Ldr_Imm 10 8 0x48) s3"
    define s5 where "s5 = step mem (Cbz 10 9) s4"
    have p2: "pc s2 = 2" using x2 False by simp
    have s3: "pc s3 = 3" "xs s3 = r(8 := ?base + 8 * ?idx)"
      using p2 x2 by (simp_all add: s3_def rd_def wr_def push_bit_eq_mult mult.commute)
    have s4: "pc s4 = 4" "xs s4 = (xs s3)(10 := mem (?base + 8 * ?idx + 0x48))"
      using s3 by (simp_all add: s4_def rd_def wr_def)
    have r3: "helper_run mem (Suc m) s2 = helper_run mem m s3" for m
      unfolding s3_def by (rule run_step) (simp_all only: p2 helper_fetch, simp)
    have r4: "helper_run mem (Suc m) s3 = helper_run mem m s4" for m
      unfolding s4_def by (rule run_step) (simp_all only: s3 helper_fetch, simp)
    have r5: "helper_run mem (Suc m) s4 = helper_run mem m s5" for m
      unfolding s5_def by (rule run_step) (simp_all only: s4 helper_fetch, simp)
    have x5: "xs s5 = xs s4" by (simp add: s5_def)
    have k5: "kept r (xs s5)" using x5 s4 s3 by (simp add: kept_def)
    show ?thesis
    proof (cases "mem (?base + 8 * ?idx + 0x48) = 0")
      case True
      have p5: "pc s5 = 13" using s4 True by (simp add: s5_def rd_def)
      have "helper_run mem (Suc 0) s5 = Some s5" by (simp only: run.simps p5 helper_fetch) simp
      then have "helper_run mem (Suc (Suc (Suc (Suc 0)))) s2 = Some s5" by (simp only: r3 r4 r5)
      from more [OF this] show ?thesis using k5 x5 s4 s3 True False by (simp add: pci_slot_def)
    next
      case f: False
      have p5: "pc s5 = 5" using s4 f by (simp add: s5_def rd_def)
      obtain t where t: "helper_run mem 1290 s5 = Some t" "xs t 8 = slot_result ?base (first_free mem ?base 0 256)" "kept r (xs t)"
        using scan [OF p5 k5] by blast
      have "helper_run mem (Suc (Suc (Suc 1290))) s2 = Some t" using t(1) by (simp only: r3 r4 r5)
      from more [OF this] show ?thesis using t(2,3) False f by (simp add: pci_slot_def)
    qed
  qed
  then show ?thesis by (simp only: s0_def)
qed

lemma patch_vmm_pci_address_Inr:
  assumes "patch_vmm_pci_address data = Inr data'"
  shows "u32 data PCI_ADDRESS_CALL_OFFSET = Inr 0x8B080F08
    \<and> (\<exists>w. u32 data' PCI_ADDRESS_CALL_OFFSET = Inr w \<and> branch_target w PCI_ADDRESS_CALL_OFFSET = Some HELPER_OFFSET)
    \<and> py_slice data' HELPER_OFFSET (HELPER_OFFSET + 56) = le_words 4 pci_address_helper_words
    \<and> same_outside (\<lambda>k. at_region PCI_ADDRESS_CALL_OFFSET 4 k \<or> at_region HELPER_OFFSET 56 k) data data'"
proof -
  let ?h = "le_words 4 pci_address_helper_words" and ?C = PCI_ADDRESS_CALL_OFFSET and ?H = HELPER_OFFSET
  have lh: "length ?h = 56" by (simp add: pci_address_helper_words_def)
  have offs: "0 \<le> ?C" "?C + 4 \<le> ?H" "0 \<le> ?H"
    by (simp_all add: PCI_ADDRESS_CALL_OFFSET_def HELPER_OFFSET_def STRING_OFFSET_def)
  from assms obtain w where s: "py_slice data STRING_OFFSET (STRING_OFFSET + int (length ORIGINAL_STRING)) = ORIGINAL_STRING"
    and i: "u32 data ?C = Inr 0x8B080F08" and w: "encode_bl ?C ?H = Inr w"
    and p: "p32 (py_set_slice data ?H (?H + int (length ?h)) ?h) ?C w = Inr data'"
    by (auto simp: patch_vmm_pci_address_def bindR_Inr_iff Let_def split: if_splits)
  have "STRING_OFFSET + int (length ORIGINAL_STRING) \<le> int (length data)"
    by (rule py_slice_length_bound [OF s refl]) (simp_all add: STRING_OFFSET_def ORIGINAL_STRING_def)
  then have fit: "?H + 56 \<le> int (length data)"
    by (simp add: HELPER_OFFSET_def ORIGINAL_STRING_def ascii_def)
  let ?m = "put_at data (nat ?H) ?h"
  have m: "py_set_slice data ?H (?H + int (length ?h)) ?h = ?m"
    by (rule py_set_slice_put_at) (use offs fit lh in simp_all)
  have fit': "nat ?H + length ?h \<le> length data" using fit offs lh by linarith
  have lm: "length ?m = length data" by (rule length_put_at [OF fit'])
  note p' = p [unfolded m]
  have "branch_target w ?C = Some ?H" using encode_bl_correct [of ?C ?H] w by simp
  moreover have "u32 data' ?C = Inr w" by (rule f32.rd_wr_same [OF p'])
  moreover have "py_slice data' ?H (?H + 56) = ?h"
  proof -
    have "agree_on ?H 56 ?m data'"
      by (rule agree_on_outside [OF f32.wr_outside [OF p' offs(1)]]) (use offs(2) in auto)
    then have "py_slice data' ?H (?H + 56) = py_slice ?m ?H (?H + 56)"
      by (rule agree_on_slice) (use offs in auto)
    also have "\<dots> = take 56 (drop (nat ?H) ?m)" using offs fit lm by (subst py_slice_take_drop) auto
    also have "\<dots> = ?h" using take_drop_put_at_same [OF fit'] lh by simp
    finally show ?thesis .
  qed
  moreover have "same_outside (\<lambda>k. at_region ?C 4 k \<or> at_region ?H 56 k) data data'"
  proof (rule same_outside_trans)
    show "same_outside (\<lambda>k. at_region ?C 4 k \<or> at_region ?H 56 k) data ?m"
      by (rule same_outside_mono [OF same_outside_put_at [OF fit']]) (use lh offs in \<open>auto simp: at_region_def\<close>)
    show "same_outside (\<lambda>k. at_region ?C 4 k \<or> at_region ?H 56 k) ?m data'"
      by (rule same_outside_mono [OF f32.wr_outside [OF p' offs(1)]]) (auto simp: at_region_def)
  qed
  ultimately show ?thesis using i by blast
qed


text \<open>The PCI patch either refuses the file, or the file held the original instruction, the call
  site now branches to the helper, the helper's words lie at the target of that branch, and no
  byte changed outside those two places.\<close>

theorem patch_vmm_pci_address_correct:
  "(\<exists>e. patch_vmm_pci_address data = Inl e)
   \<or> (\<exists>data' w. patch_vmm_pci_address data = Inr data' \<and> u32 data PCI_ADDRESS_CALL_OFFSET = Inr 0x8B080F08
        \<and> u32 data' PCI_ADDRESS_CALL_OFFSET = Inr w \<and> branch_target w PCI_ADDRESS_CALL_OFFSET = Some HELPER_OFFSET
        \<and> py_slice data' HELPER_OFFSET (HELPER_OFFSET + 56) = le_words 4 pci_address_helper_words
        \<and> same_outside (\<lambda>k. at_region PCI_ADDRESS_CALL_OFFSET 4 k \<or> at_region HELPER_OFFSET 56 k) data data')"
  using patch_vmm_pci_address_Inr [of data] by (cases "patch_vmm_pci_address data") auto

end
