(* ===== verification/Macho_Patches.thy ===== *)
theory Macho_Patches
  imports Code_Patches Layout
begin

text \<open>
  The passes that edit the load-command table of a finished image: \<^verbatim>\<open>add_macho_dylib.py\<close>,
  \<^verbatim>\<open>patch_ipados14_vmm_videotoolbox_import.py\<close>, the code cave of
  \<^verbatim>\<open>patch_vmm_optional_pvg_reset.py\<close>, and \<^verbatim>\<open>append_fixups_command\<close> of \<^verbatim>\<open>uncache.py\<close>.
\<close>

subsection \<open>\<^verbatim>\<open>add_macho_dylib.py\<close>\<close>

definition align :: "int \<Rightarrow> int \<Rightarrow> int" where
  "align v a = (v + a - 1) AND NOT (a - 1)"

text \<open>The name a dylib command at \<open>cur\<close> refers to, appended to the names found.\<close>

definition dylib_name :: "bytes \<Rightarrow> int \<Rightarrow> int \<Rightarrow> int \<Rightarrow> bytes list \<Rightarrow> bytes list res" where
  "dylib_name data cmd sz cur names =
     (if cmd = LC_LOAD_DYLIB then
        bindR (u32 data (cur + 8)) (\<lambda>name_offset.
        let name_start = cur + name_offset; name_end = find_nul data name_start (cur + sz) in
        if name_end \<noteq> -1
        then bindR (py_decode (py_slice data name_start name_end)) (\<lambda>nm. Inr (names @ [nm]))
        else Inr names)
      else Inr names)"

text \<open>The least file offset of a section that has one and is not empty.\<close>

definition section_first :: "bytes \<Rightarrow> int \<Rightarrow> int \<Rightarrow> int res" where
  "section_first data section first =
     bindR (u32 data (section + 48)) (\<lambda>section_offset.
     bindR (u64 data (section + 40)) (\<lambda>section_size.
     Inr (if section_offset \<noteq> 0 \<and> section_size \<noteq> 0 then min first section_offset else first)))"

definition segment_first :: "bytes \<Rightarrow> int \<Rightarrow> int \<Rightarrow> int \<Rightarrow> int \<Rightarrow> int res" where
  "segment_first data cmd sz cur first =
     (if cmd = LC_SEGMENT_64 then
        bindR (u32 data (cur + 64)) (\<lambda>section_count.
        bindR (guardR (\<not> cur + 72 + section_count * 80 > cur + sz) System_Exit) (\<lambda>_.
        foldR (section_first data) (sect_offs cur section_count) first))
      else Inr first)"

fun dylib_scan :: "bytes \<Rightarrow> int \<Rightarrow> nat \<Rightarrow> int \<Rightarrow> int \<Rightarrow> bytes list \<Rightarrow> (int \<times> int \<times> bytes list) res" where
  "dylib_scan data lim 0 cur first names = Inr (cur, first, names)"
| "dylib_scan data lim (Suc n) cur first names =
     bindR (guardR (\<not> cur + 8 > lim) System_Exit) (\<lambda>_.
     bindR (u32x2 data cur) (\<lambda>(cmd, sz).
     bindR (guardR (\<not> (sz < 8 \<or> cur + sz > lim)) System_Exit) (\<lambda>_.
     bindR (dylib_name data cmd sz cur names) (\<lambda>names.
     bindR (segment_first data cmd sz cur first) (\<lambda>first.
     dylib_scan data lim n (cur + sz) first names)))))"

text \<open>The new \<^verbatim>\<open>LC_LOAD_DYLIB\<close> command: a 24-byte header, the name and padding.\<close>

definition dylib_command :: "bytes \<Rightarrow> bytes res" where
  "dylib_command name =
     (let encoded = name @ [0]; command_size = align (24 + int (length encoded)) 8 in
      bindR (p32s (zeros command_size) 0 [LC_LOAD_DYLIB, command_size, 24, 2, 0x10000, 0x10000]) (\<lambda>c.
      Inr (py_set_slice c 24 (24 + int (length encoded)) encoded)))"

text \<open>\<^verbatim>\<open>main\<close>; \<open>None\<close> is the early return that leaves the file alone.\<close>

definition add_macho_dylib :: "bytes \<Rightarrow> bytes \<Rightarrow> bytes option res" where
  "add_macho_dylib install_name data =
     bindR (guardR (\<not> int (length data) < 32) System_Exit) (\<lambda>_.
     bindR (unpack_us [4, 4, 4, 4, 4, 4, 4, 4] data 0) (\<lambda>h.
     bindR (guardR (h ! 0 = MH_MAGIC_64) System_Exit) (\<lambda>_.
     let command_count = h ! 4; command_bytes = h ! 5 in
     bindR (dylib_scan data (32 + command_bytes) (nat command_count) 32 (int (length data)) [])
       (\<lambda>(cur, first_section_offset, existing_names).
     bindR (guardR (cur = 32 + command_bytes) System_Exit) (\<lambda>_.
     if install_name \<in> set existing_names then Inr None
     else
       (let command_size = align (24 + int (length (install_name @ [0]))) 8;
            new_end = cur + command_size in
        bindR (guardR (\<not> new_end > first_section_offset) System_Exit) (\<lambda>_.
        bindR (guardR (\<not> list_ex (\<lambda>b. b \<noteq> 0) (py_slice data cur new_end)) System_Exit) (\<lambda>_.
        bindR (dylib_command install_name) (\<lambda>command.
        let data = py_set_slice data cur new_end command in
        bindR (p32 data 16 (command_count + 1)) (\<lambda>data.
        bindR (p32 data 20 (command_bytes + command_size)) (\<lambda>data.
        Inr (Some data))))))))))))"

lemma align8: "align v 8 = 8 * ((v + 7) div 8)"
proof -
  have "(v + 7) AND NOT (mask 3) = push_bit 3 (drop_bit 3 (v + 7))"
    by (rule bit_eqI) (auto simp: bit_simps)
  then show ?thesis by (simp add: align_def mask_eq_exp_minus_1 push_bit_eq_mult drop_bit_eq_div mult.commute add.commute [of v])
qed

lemma align8_bounds: "v \<le> align v 8" "align v 8 < v + 8"
  unfolding align8 by simp_all

lemma agree_on_narrow:
  "agree_on off sz b c \<Longrightarrow> off \<le> off' \<Longrightarrow> off' + sz' \<le> off + sz \<Longrightarrow> agree_on off' sz' b c"
  by (auto simp: agree_on_def)

lemma dylib_scan_snoc:
  "dylib_scan data lim (Suc n) cur f ns =
     bindR (dylib_scan data lim n cur f ns) (\<lambda>(cur, f, ns). dylib_scan data lim 1 cur f ns)"
proof (induction n arbitrary: cur f ns)
  case (Suc n)
  show ?case
    by (subst dylib_scan.simps(2), subst Suc.IH) (simp add: bindR_assoc case_prod_unfold)
qed simp

lemma dylib_scanE:
  assumes "dylib_scan data lim (Suc n) cur f ns = Inr r"
  obtains cmd sz f1 ns1 where "u32x2 data cur = Inr (cmd, sz)" "8 \<le> sz" "cur + sz \<le> lim"
    "dylib_name data cmd sz cur ns = Inr ns1" "segment_first data cmd sz cur f = Inr f1"
    "dylib_scan data lim n (cur + sz) f1 ns1 = Inr r"
  using assms by (auto simp: bindR_Inr_iff)

lemma dylib_scan_cur: "dylib_scan data lim n cur f ns = Inr (cur', f', ns') \<Longrightarrow> cur \<le> cur' \<and> (cur' \<le> lim \<or> cur' = cur)"
proof (induction n arbitrary: cur f ns)
  case (Suc n)
  from Suc.prems obtain cmd sz f1 ns1 where "8 \<le> sz" "cur + sz \<le> lim" and r: "dylib_scan data lim n (cur + sz) f1 ns1 = Inr (cur', f', ns')"
    by (rule dylib_scanE)
  with Suc.IH [OF r] show ?case by auto
qed simp

text \<open>The scan sees the table, and its bound lies below every section it met.\<close>

definition section_above :: "bytes \<Rightarrow> int \<Rightarrow> int \<Rightarrow> bool" where
  "section_above data low so =
     (case (u32 data (so + 48), u64 data (so + 40)) of
        (Inr off, Inr sz) \<Rightarrow> off = 0 \<or> sz = 0 \<or> low \<le> off | _ \<Rightarrow> False)"

definition sections_above :: "bytes \<Rightarrow> int \<Rightarrow> int \<Rightarrow> int \<Rightarrow> bool" where
  "sections_above data low cmd lc =
     (cmd \<noteq> LC_SEGMENT_64 \<or>
        (case u32 data (lc + 64) of Inl _ \<Rightarrow> False | Inr ns \<Rightarrow>
           list_all (section_above data low) (sect_offs lc ns)))"

lemma section_first_above: "section_first data so f = Inr f' \<Longrightarrow> f' \<le> f \<and> section_above data f' so"
  by (auto simp: section_first_def section_above_def bindR_Inr_iff split: if_splits)

lemma section_above_mono: "section_above data f so \<Longrightarrow> g \<le> f \<Longrightarrow> section_above data g so"
  by (auto simp: section_above_def split: sum.splits)

lemma sections_above_mono: "sections_above data f cmd lc \<Longrightarrow> g \<le> f \<Longrightarrow> sections_above data g cmd lc"
  by (auto simp: sections_above_def list_all_iff intro: section_above_mono split: sum.splits)

lemma sections_first:
  "foldR (section_first data) sos f = Inr f' \<Longrightarrow> f' \<le> f \<and> list_all (section_above data f') sos"
proof (induction sos arbitrary: f)
  case (Cons so sos)
  from Cons.prems obtain g where g: "section_first data so f = Inr g" and r: "foldR (section_first data) sos g = Inr f'"
    by (auto simp: bindR_Inr_iff)
  show ?case using Cons.IH [OF r] section_first_above [OF g] section_above_mono [of data g so f'] by auto
qed simp

lemma segment_first_above:
  "segment_first data cmd sz cur f = Inr f' \<Longrightarrow> f' \<le> f \<and> sections_above data f' cmd cur"
  using sections_first [of data _ f f']
  by (auto simp: segment_first_def sections_above_def bindR_Inr_iff split: if_splits)

lemma dylib_scan_table:
  assumes "dylib_scan data lim n cur f ns = Inr (cur', f', ns')"
  obtains cs where "lc_table data n cur = Inr cs" "f' \<le> f" "list_all (\<lambda>(c, z, o'). sections_above data f' c o') cs"
  using assms
proof (induction n arbitrary: cur f ns thesis)
  case (Suc n)
  from Suc.prems(2) obtain cmd sz f1 ns1 where h: "u32x2 data cur = Inr (cmd, sz)"
    and s: "segment_first data cmd sz cur f = Inr f1" and r: "dylib_scan data lim n (cur + sz) f1 ns1 = Inr (cur', f', ns')"
    by (rule dylib_scanE)
  obtain cs where cs: "lc_table data n (cur + sz) = Inr cs" "f' \<le> f1" "list_all (\<lambda>(c, z, o'). sections_above data f' c o') cs"
    using Suc.IH [OF _ r] by blast
  have "f1 \<le> f" "sections_above data f' cmd cur"
    using segment_first_above [OF s] sections_above_mono cs(2) by blast+
  then show ?case using Suc.prems(1) [of "(cmd, sz, cur) # cs"] h cs by simp
qed simp

text \<open>Reads inside a command see a buffer that agrees on the command.\<close>

lemma find_nul_range:
  assumes "0 \<le> s" "0 \<le> e" "find_nul b s e \<noteq> -1"
  shows "0 \<le> find_nul b s e \<and> find_nul b s e \<le> e"
proof -
  let ?i = "slice_bound (length b) s" and ?j = "slice_bound (length b) e" and ?k = "length (before_nul (py_slice b s e))"
  have k: "?k < length (py_slice b s e)" "find_nul b s e = int (?i + ?k)"
    using assms(3) by (auto simp: find_nul_def Let_def split: if_splits)
  have "length (py_slice b s e) \<le> ?j - ?i" by (simp add: py_slice_def Let_def)
  moreover have "int ?j \<le> e" using assms(2) by (simp add: slice_bound_def)
  ultimately show ?thesis using k by linarith
qed

lemma dylib_name_agree:
  assumes "agree_on cur sz data data'" "0 \<le> cur" "0 \<le> sz" "cmd = LC_LOAD_DYLIB \<longrightarrow> 12 \<le> sz"
  shows "dylib_name data' cmd sz cur ns = dylib_name data cmd sz cur ns"
proof (cases "cmd = LC_LOAD_DYLIB")
  case True
  have l: "length data' = length data" using assms(1) by (simp add: agree_on_def)
  have u: "u32 data' (cur + 8) = u32 data (cur + 8)"
    by (rule agree_on_unpack_u [OF assms(1)]) (use True assms in auto)
  have s: "py_slice data' (cur + o') (cur + sz) = py_slice data (cur + o') (cur + sz)" if "0 \<le> o'" for o'
    by (rule agree_on_slice [OF assms(1)]) (use assms that in auto)
  have f: "find_nul data' (cur + o') (cur + sz) = find_nul data (cur + o') (cur + sz)" if "0 \<le> o'" for o'
    unfolding find_nul_def s [OF that] l ..
  have n: "py_slice data' (cur + o') e = py_slice data (cur + o') e"
    if o': "0 \<le> o'" and e: "e = find_nul data (cur + o') (cur + sz)" "e \<noteq> -1" for o' e
  proof -
    have "0 \<le> e \<and> e \<le> cur + sz"
      using find_nul_range [of "cur + o'" "cur + sz" data] e o' assms(2,3) by simp
    then show ?thesis using agree_on_slice [OF assms(1)] o' assms(2) by simp
  qed
  show ?thesis
  proof (cases "u32 data (cur + 8)")
    case (Inr o')
    have "0 \<le> o'" using unpack_u_bounds [OF Inr] by simp
    then show ?thesis using f n True by (simp add: dylib_name_def u Inr Let_def)
  qed (simp add: dylib_name_def u)
qed (simp add: dylib_name_def)

lemma segment_first_agree:
  assumes "segment_first data cmd sz cur f = Inr f'" "agree_on cur sz data data'" "0 \<le> cur"
  shows "segment_first data' cmd sz cur f = Inr f'"
proof (cases "cmd = LC_SEGMENT_64")
  case True
  from assms(1) True obtain ns where ns: "u32 data (cur + 64) = Inr ns" "cur + 72 + ns * 80 \<le> cur + sz"
    and r: "foldR (section_first data) (sect_offs cur ns) f = Inr f'"
    by (auto simp: segment_first_def bindR_Inr_iff)
  have "0 \<le> ns" using unpack_u_bounds [OF ns(1)] by simp
  have u: "u32 data' (cur + 64) = u32 data (cur + 64)"
    by (rule agree_on_unpack_u [OF assms(2)]) (use ns \<open>0 \<le> ns\<close> assms(3) in auto)
  have "section_first data' so g = section_first data so g" if so: "so \<in> set (sect_offs cur ns)" for so g
  proof -
    obtain k where k: "k < nat ns" "so = cur + 72 + int k * 80" using so by (auto simp: sect_offs_def)
    have "int k + 1 \<le> ns" using k(1) by linarith
    then have "so + 80 \<le> cur + sz" using ns(2) k(2) by linarith
    then show ?thesis
      using agree_on_unpack_u [OF assms(2), of "so + 48" 4] agree_on_unpack_u [OF assms(2), of "so + 40" 8] k assms(3)
      by (simp add: section_first_def)
  qed
  then have "foldR (section_first data') (sect_offs cur ns) f = foldR (section_first data) (sect_offs cur ns) f"
    by (rule foldR_cong)
  then show ?thesis using True ns r u by (simp add: segment_first_def)
qed (use assms(1) in \<open>simp add: segment_first_def\<close>)

definition dylibs_whole :: "(int \<times> int \<times> int) list \<Rightarrow> bool" where
  "dylibs_whole cs = list_all (\<lambda>(c, z, o'). c \<noteq> LC_LOAD_DYLIB \<or> 12 \<le> z) cs"

lemma dylib_scan_agree:
  assumes "dylib_scan data lim n cur f ns = Inr (cur', f', ns')" "lc_table data n cur = Inr cs"
    "dylibs_whole cs" "agree_on cur (cur' - cur) data data'" "lim \<le> lim'" "0 \<le> cur"
  shows "dylib_scan data' lim' n cur f ns = Inr (cur', f', ns') \<and> lc_table data' n cur = Inr cs"
  using assms
proof (induction n arbitrary: cur f ns cs)
  case (Suc n)
  from Suc.prems(1) obtain cmd sz f1 ns1 where h: "u32x2 data cur = Inr (cmd, sz)" "8 \<le> sz" "cur + sz \<le> lim"
    and nm: "dylib_name data cmd sz cur ns = Inr ns1" and s: "segment_first data cmd sz cur f = Inr f1"
    and r: "dylib_scan data lim n (cur + sz) f1 ns1 = Inr (cur', f', ns')"
    by (rule dylib_scanE)
  from Suc.prems(2) h obtain cs' where cs: "cs = (cmd, sz, cur) # cs'" "lc_table data n (cur + sz) = Inr cs'"
    by (auto simp: bindR_Inr_iff)
  have e: "cur + sz \<le> cur'" using dylib_scan_cur [OF r] by simp
  have a: "agree_on cur sz data data'" "agree_on (cur + sz) (cur' - (cur + sz)) data data'"
    by (rule agree_on_narrow [OF Suc.prems(4)]; use e h(2) in simp)+
  have w: "cmd \<noteq> LC_LOAD_DYLIB \<or> 12 \<le> sz" "dylibs_whole cs'"
    using Suc.prems(3) by (auto simp: cs dylibs_whole_def)
  have hd: "u32x2 data' cur = Inr (cmd, sz)"
    using h agree_on_unpack_u [OF a(1), of cur 4] agree_on_unpack_u [OF a(1), of "cur + 4" 4] Suc.prems(6)
    by (simp add: u32x2_eq)
  have "dylib_name data' cmd sz cur ns = Inr ns1"
    using dylib_name_agree [OF a(1) Suc.prems(6)] h(2) w(1) nm by auto
  moreover have "segment_first data' cmd sz cur f = Inr f1"
    by (rule segment_first_agree [OF s a(1) Suc.prems(6)])
  moreover have "dylib_scan data' lim' n (cur + sz) f1 ns1 = Inr (cur', f', ns') \<and> lc_table data' n (cur + sz) = Inr cs'"
    by (rule Suc.IH [OF r cs(2) w(2) a(2) Suc.prems(5)]) (use h(2) Suc.prems(6) in simp)
  ultimately show ?case using hd h Suc.prems(5) by (simp add: cs(1))
qed simp

text \<open>The new command's bytes, and what the scan makes of them.\<close>

lemma dylib_command_bytes:
  assumes "dylib_command name = Inr c" "sz = align (24 + int (length (name @ [0]))) 8"
  shows "c = le_words 4 [LC_LOAD_DYLIB, sz, 24, 2, 0x10000, 0x10000] @ name @ [0] @ zeros (sz - 25 - int (length name))"
    and "int (length c) = sz" and "sz < 2 ^ 32" and "25 + int (length name) \<le> sz"
proof -
  have b: "25 + int (length name) \<le> sz" using align8_bounds(1) [of "24 + int (length (name @ [0]))"] assms(2) by simp
  show "25 + int (length name) \<le> sz" by (rule b)
  from assms obtain d where d: "p32s (zeros sz) 0 [LC_LOAD_DYLIB, sz, 24, 2, 0x10000, 0x10000] = Inr d"
    and c: "c = py_set_slice d 24 (24 + int (length (name @ [0]))) (name @ [0])"
    by (auto simp: dylib_command_def Let_def bindR_Inr_iff)
  let ?w = "le_words 4 [LC_LOAD_DYLIB, sz, 24, 2, 0x10000, 0x10000]"
  have lw: "length ?w = 24" by simp
  from d show "sz < 2 ^ 32" by (auto simp: pack_us_def bindR_Inr_iff split: if_splits)
  have "d = put_at (zeros sz) 0 ?w"
    using d b by (auto simp: pack_us_def bindR_Inr_iff at_off_nonneg simp del: le_words.simps split: if_splits)
  then have d': "d = ?w @ zeros (sz - 24)"
    using b by (simp add: put_at_def zeros_def nat_diff_distrib del: le_words.simps)
  have "c = put_at d 24 (name @ [0])"
    unfolding c by (rule py_set_slice_put_at [of 24, simplified]) (use b d' lw in \<open>simp_all del: le_words.simps\<close>)
  also have "\<dots> = ?w @ (name @ [0]) @ drop (length (name @ [0])) (zeros (sz - 24))"
    unfolding d' put_at_def using lw by (simp del: le_words.simps)
  also have "drop (length (name @ [0])) (zeros (sz - 24)) = zeros (sz - 25 - int (length name))"
    by (simp add: zeros_def nat_diff_distrib algebra_simps)
  finally show cc: "c = ?w @ name @ [0] @ zeros (sz - 25 - int (length name))" by simp
  show "int (length c) = sz" unfolding cc using b by (simp del: le_words.simps)
qed

text \<open>A block of bytes inside a buffer.\<close>

definition holds_at :: "bytes \<Rightarrow> int \<Rightarrow> bytes \<Rightarrow> bool" where
  "holds_at b cur c \<longleftrightarrow> 0 \<le> cur \<and> cur + int (length c) \<le> int (length b) \<and> take (length c) (drop (nat cur) b) = c"

lemma take_drop_block:
  "take k (drop i b) = c \<Longrightarrow> n + m \<le> k \<Longrightarrow> take m (drop n c) = take m (drop (i + n) b)"
  by (auto simp: drop_take min_def add.commute)

lemma holds_at_unpack_u:
  assumes "holds_at b cur c" "0 \<le> off" "off + int w \<le> int (length c)"
  shows "unpack_u w b (cur + off) = unpack_u w c off"
proof -
  have "take w (drop (nat off) c) = take w (drop (nat cur + nat off) b)"
    by (rule take_drop_block) (use assms in \<open>auto simp: holds_at_def\<close>)
  then show ?thesis using assms by (simp add: unpack_u_def at_off_nonneg holds_at_def nat_add_distrib)
qed

lemma holds_at_slice:
  assumes "holds_at b cur c" "0 \<le> p" "p \<le> q" "q \<le> int (length c)"
  shows "py_slice b (cur + p) (cur + q) = py_slice c p q"
proof -
  have "take (nat (q - p)) (drop (nat p) c) = take (nat (q - p)) (drop (nat cur + nat p) b)"
    by (rule take_drop_block) (use assms in \<open>auto simp: holds_at_def\<close>)
  then show ?thesis using assms by (simp add: holds_at_def py_slice_take_drop nat_add_distrib)
qed

lemma holds_at_sub:
  assumes "holds_at b cur c" "holds_at c off d"
  shows "holds_at b (cur + off) d"
proof -
  have "take (length d) (drop (nat off) c) = take (length d) (drop (nat cur + nat off) b)"
    by (rule take_drop_block) (use assms in \<open>auto simp: holds_at_def\<close>)
  then show ?thesis using assms by (auto simp: holds_at_def nat_add_distrib)
qed

lemma holds_at_put: "0 \<le> cur \<Longrightarrow> cur + int (length c) \<le> int (length b) \<Longrightarrow> holds_at (put_at b (nat cur) c) cur c"
  by (simp add: holds_at_def put_at_def)

lemma holds_at_agree: "holds_at b cur c \<Longrightarrow> agree_on cur (int (length c)) b b' \<Longrightarrow> holds_at b' cur c"
  using agree_on_slice [of cur "int (length c)" b b' cur "cur + int (length c)"]
  by (simp add: holds_at_def agree_on_def py_slice_take_drop)

lemma dylib_command_scan:
  assumes "dylib_command name = Inr c" "sz = align (24 + int (length (name @ [0]))) 8"
    and h: "holds_at b cur c" and nul: "0 \<notin> set name" and u: "utf8_ok name"
  shows "dylib_scan b (cur + sz) 1 cur f ns = Inr (cur + sz, f, ns @ [name])"
    and "u32x2 b cur = Inr (LC_LOAD_DYLIB, sz)"
proof -
  let ?w = "le_words 4 [LC_LOAD_DYLIB, sz, 24, 2, 0x10000, 0x10000]"
  note cb = dylib_command_bytes [OF assms(1,2)]
  have lw: "length ?w = 24" by simp
  have len: "int (length c) = sz" by (rule cb(2))
  have c24: "drop 24 c = name @ [0] @ zeros (sz - 25 - int (length name))"
    unfolding cb(1) using lw by (simp del: le_words.simps)
  have rd: "u32 c 0 = Inr LC_LOAD_DYLIB" "u32 c 4 = Inr sz" "u32 c 8 = Inr 24"
    unfolding cb(1) unpack_u_def at_off_nonneg [OF order_refl] using cb(3,4)
    by (simp_all add: at_off_nonneg LC_LOAD_DYLIB_def le_int_le_bytes)
  have cur: "0 \<le> cur" using h by (simp add: holds_at_def)
  have rb: "u32 b (cur + o') = u32 c o'" if "o' \<in> {0, 4, 8}" for o'
    by (rule holds_at_unpack_u [OF h]) (use that cb(4) len in auto)
  show hd: "u32x2 b cur = Inr (LC_LOAD_DYLIB, sz)"
    using rb [of 0] rb [of 4] rd by (simp add: u32x2_eq [OF cur])
  have "py_slice b (cur + 24) (cur + sz) = py_slice c 24 sz"
    by (rule holds_at_slice [OF h]) (use cb(4) len in auto)
  also have "\<dots> = name @ [0] @ zeros (sz - 25 - int (length name))"
    unfolding c24 [symmetric] using cb(4) len
    by (subst py_slice_take_drop) simp_all
  finally have s: "py_slice b (cur + 24) (cur + sz) = name @ [0] @ zeros (sz - 25 - int (length name))" .
  have bn: "before_nul (name @ [0] @ zs) = name" for zs
    using nul by (simp add: before_nul_def takeWhile_append2 in_set_conv_nth [symmetric])
       (metis (mono_tags, lifting) append.right_neutral takeWhile.simps(2) takeWhile_append2)
  have sb: "slice_bound (length b) (cur + 24) = nat (cur + 24)"
    using h cur cb(4) len by (auto simp: holds_at_def slice_bound_def)
  have e: "find_nul b (cur + 24) (cur + sz) = cur + 24 + int (length name)"
    unfolding find_nul_def Let_def s bn sb using cur by simp
  have "py_slice b (cur + 24) (cur + (24 + int (length name))) = py_slice c 24 (24 + int (length name))"
    by (rule holds_at_slice [OF h]) (use cb(4) len in auto)
  also have "\<dots> = take (length name) (drop 24 c)"
    by (subst py_slice_take_drop) (use cb(4) len in simp_all)
  finally have nm: "py_slice b (cur + 24) (cur + 24 + int (length name)) = name"
    unfolding c24 by (simp add: add.assoc)
  have "dylib_name b LC_LOAD_DYLIB sz cur ns = Inr (ns @ [name])"
    using rb [of 8] rd(3) e nm u cur by (simp add: dylib_name_def py_decode_def)
  moreover have "segment_first b LC_LOAD_DYLIB sz cur f = Inr f"
    by (simp add: segment_first_def macho_consts)
  ultimately show "dylib_scan b (cur + sz) 1 cur f ns = Inr (cur + sz, f, ns @ [name])"
    using hd cb(4) by simp
qed

lemma lc_table_snoc:
  assumes "lc_table b n off = Inr cs" "cur = off + sum_list (map (\<lambda>(c, z, o'). z) cs)" "u32x2 b cur = Inr (c, z)"
  shows "lc_table b (Suc n) off = Inr (cs @ [(c, z, cur)])"
  using assms
proof (induction n arbitrary: off cs)
  case (Suc n)
  from Suc.prems(1) obtain c' z' cs' where h: "u32x2 b off = Inr (c', z')" and t: "lc_table b n (off + z') = Inr cs'"
    and cs: "cs = (c', z', off) # cs'"
    by (auto simp: bindR_Inr_iff)
  have "lc_table b (Suc n) (off + z') = Inr (cs' @ [(c, z, cur)])"
    by (rule Suc.IH [OF t _ Suc.prems(3)]) (use Suc.prems(2) in \<open>simp add: cs\<close>)
  then show ?case unfolding lc_table.simps(2) [of b "Suc n"] h cs by (simp del: lc_table.simps)
qed simp

lemma dylib_scan_end:
  "dylib_scan data lim n cur f ns = Inr (cur', f', ns') \<Longrightarrow> lc_table data n cur = Inr cs \<Longrightarrow>
   cur' = cur + sum_list (map (\<lambda>(c, z, o'). z) cs)"
proof (induction n arbitrary: cur f ns cs)
  case (Suc n)
  from Suc.prems(1) obtain cmd sz f1 ns1 where h: "u32x2 data cur = Inr (cmd, sz)"
    and r: "dylib_scan data lim n (cur + sz) f1 ns1 = Inr (cur', f', ns')"
    by (rule dylib_scanE)
  then obtain cs' where "cs = (cmd, sz, cur) # cs'" "lc_table data n (cur + sz) = Inr cs'"
    using Suc.prems(2) by (auto simp: bindR_Inr_iff)
  then show ?case using Suc.IH [OF r] by simp
qed simp

lemma sections_above_all:
  "list_all (\<lambda>(c, z, lc). sections_above data f c lc) cs \<Longrightarrow> g \<le> f \<Longrightarrow>
   list_all (\<lambda>(c, z, lc). sections_above data g c lc) cs"
  by (auto simp: list_all_iff intro: sections_above_mono)

text \<open>What a run that writes the file does, step by step.\<close>

lemma add_macho_dylibE:
  assumes "add_macho_dylib name data = Inr (Some data')" "sz = align (24 + int (length (name @ [0]))) 8"
  obtains n area first ns c d1 d2 where "32 \<le> length data" "u32 data 0 = Inr MH_MAGIC_64"
    "u32 data 16 = Inr n" "u32 data 20 = Inr area"
    "dylib_scan data (32 + area) (nat n) 32 (int (length data)) [] = Inr (32 + area, first, ns)"
    "name \<notin> set ns" "32 + area + sz \<le> first" "\<forall>b \<in> set (py_slice data (32 + area) (32 + area + sz)). b = 0"
    "dylib_command name = Inr c" "d1 = py_set_slice data (32 + area) (32 + area + sz) c"
    "p32 d1 16 (n + 1) = Inr d2" "p32 d2 20 (area + sz) = Inr data'"
proof -
  from assms(1) obtain h where l: "32 \<le> length data" and h: "unpack_us [4, 4, 4, 4, 4, 4, 4, 4] data 0 = Inr h"
    by (auto simp: add_macho_dylib_def bindR_Inr_iff)
  have f: "u32 data 0 = Inr (h ! 0)" "u32 data 16 = Inr (h ! 4)" "u32 data 20 = Inr (h ! 5)"
    using h l by (auto simp: unpack_us_def unpack_u_def at_off_nonneg)
  show thesis
    using assms(1) l h f
    by (auto simp: add_macho_dylib_def assms(2) Let_def bindR_Inr_iff list_ex_iff simp del: length_append
      intro!: that split: if_splits)
qed

lemma add_macho_dylib_loaded:
  assumes "32 \<le> length d" "u32 d 0 = Inr MH_MAGIC_64" "u32 d 16 = Inr n" "u32 d 20 = Inr area"
    "dylib_scan d (32 + area) (nat n) 32 (int (length d)) [] = Inr (32 + area, first, ns)" "name \<in> set ns"
  shows "add_macho_dylib name d = Inr None"
proof -
  obtain h where h: "unpack_us [4, 4, 4, 4, 4, 4, 4, 4] d 0 = Inr h" "h ! 0 = MH_MAGIC_64" "h ! 4 = n" "h ! 5 = area"
    using assms(1-4) by (auto simp: unpack_us_def unpack_u_def at_off_nonneg)
  show ?thesis using assms(1,5,6) by (simp add: add_macho_dylib_def h Let_def)
qed

lemma add_macho_dylib_result:
  assumes run: "add_macho_dylib name data = Inr (Some data')"
    and name: "utf8_ok name" "0 \<notin> set name"
    and whole: "\<forall>n cs. u32 data 16 = Inr n \<longrightarrow> lc_table data (nat n) 32 = Inr cs \<longrightarrow> dylibs_whole cs"
    and sz: "sz = align (24 + int (length (name @ [0]))) 8"
  shows "\<exists>n area cs.
     u32 data 16 = Inr n \<and> u32 data 20 = Inr area \<and> lc_table data (nat n) 32 = Inr cs
   \<and> u32 data' 16 = Inr (n + 1) \<and> u32 data' 20 = Inr (area + sz)
   \<and> lc_table data' (Suc (nat n)) 32 = Inr (cs @ [(LC_LOAD_DYLIB, sz, 32 + area)])
   \<and> same_outside (\<lambda>k. 16 \<le> k \<and> k < 24 \<or> 32 + area \<le> int k \<and> int k < 32 + area + sz) data data'
   \<and> (\<forall>b \<in> set (py_slice data (32 + area) (32 + area + sz)). b = 0)
   \<and> list_all (\<lambda>(c, z, lc). sections_above data (32 + area + sz) c lc) cs
   \<and> add_macho_dylib name data' = Inr None
   \<and> u32 data 0 = Inr MH_MAGIC_64
   \<and> (\<exists>c. dylib_command name = Inr c \<and> holds_at data' (32 + area) c)"
proof -
  obtain n area first ns c d1 d2 where r: "32 \<le> length data" "u32 data 0 = Inr MH_MAGIC_64"
    "u32 data 16 = Inr n" "u32 data 20 = Inr area"
    "dylib_scan data (32 + area) (nat n) 32 (int (length data)) [] = Inr (32 + area, first, ns)"
    "name \<notin> set ns" "32 + area + sz \<le> first" "\<forall>b \<in> set (py_slice data (32 + area) (32 + area + sz)). b = 0"
    "dylib_command name = Inr c" "d1 = py_set_slice data (32 + area) (32 + area + sz) c"
    "p32 d1 16 (n + 1) = Inr d2" "p32 d2 20 (area + sz) = Inr data'"
    by (rule add_macho_dylibE [OF run sz])
  let ?cur = "32 + area" and ?S = "\<lambda>k. 16 \<le> k \<and> k < 24 \<or> 32 + area \<le> int k \<and> int k < 32 + area + sz"
  have area: "0 \<le> area" "0 \<le> n" using unpack_u_bounds [OF r(4)] unpack_u_bounds [OF r(3)] by simp_all
  obtain cs where cs: "lc_table data (nat n) 32 = Inr cs" "first \<le> int (length data)"
    "list_all (\<lambda>(c, z, lc). sections_above data first c lc) cs"
    by (rule dylib_scan_table [OF r(5)])
  have lc: "int (length c) = sz" by (rule dylib_command_bytes(2) [OF r(9) sz])
  have fit: "?cur + sz \<le> int (length data)" using r(7) cs(2) by simp
  have d1: "d1 = put_at data (nat ?cur) c"
    unfolding r(10) by (rule py_set_slice_put_at) (use area lc fit in auto)
  have h1: "holds_at d1 ?cur c" unfolding d1 by (rule holds_at_put) (use area lc fit in auto)
  have o1: "same_outside ?S data d1"
    unfolding d1 by (rule same_outside_mono [OF same_outside_put_at]) (use area lc fit in auto)
  have o2: "same_outside (\<lambda>k. 16 \<le> k \<and> k < 24) d1 data'"
    by (rule same_outside_trans [of _ d1 d2];
        rule same_outside_mono [OF f32.wr_outside [OF r(11)]] same_outside_mono [OF f32.wr_outside [OF r(12)]]) auto
  have o3: "same_outside ?S data data'"
    by (rule same_outside_trans [OF o1 same_outside_mono [OF o2]]) simp
  have hd: "u32 data' 16 = Inr (n + 1)" "u32 data' 20 = Inr (area + sz)"
    using f32.rd_wr_same [OF r(12)] f32.rd_wr_other [OF r(12), of 16 4] f32.rd_wr_same [OF r(11)] by simp_all
  have h3: "holds_at data' ?cur c"
    by (rule holds_at_agree [OF h1 agree_on_outside [OF o2]]) (use area in auto)
  have ag: "agree_on 32 (?cur - 32) data data'"
    by (rule agree_on_outside [OF o3]) (use area in auto)
  have old: "dylib_scan data' (?cur + sz) (nat n) 32 (int (length data)) [] = Inr (?cur, first, ns)"
    "lc_table data' (nat n) 32 = Inr cs"
    using dylib_scan_agree [OF r(5) cs(1) whole [rule_format, OF r(3) cs(1)] ag, of "?cur + sz"] dylib_command_bytes(4) [OF r(9) sz] by simp_all
  have new: "dylib_scan data' (?cur + sz) 1 ?cur first ns = Inr (?cur + sz, first, ns @ [name])"
    "u32x2 data' ?cur = Inr (LC_LOAD_DYLIB, sz)"
    by (rule dylib_command_scan [OF r(9) sz h3 name(2,1)])+
  have len: "length data' = length data" using o3 by (rule same_outside_length)
  have n1: "nat (n + 1) = Suc (nat n)" and e: "32 + (area + sz) = ?cur + sz" using area by simp_all
  have scan: "dylib_scan data' (32 + (area + sz)) (nat (n + 1)) 32 (int (length data')) []
      = Inr (32 + (area + sz), first, ns @ [name])"
    unfolding len n1 e dylib_scan_snoc old(1) using new(1) by simp
  have "u32 data' 0 = Inr MH_MAGIC_64"
    using same_outside_unpack_u [OF o3, of 0 4] r(2) area by simp
  then have again: "add_macho_dylib name data' = Inr None"
    using add_macho_dylib_loaded [OF _ _ hd scan] r(1) len by simp
  have tab: "lc_table data' (Suc (nat n)) 32 = Inr (cs @ [(LC_LOAD_DYLIB, sz, ?cur)])"
    by (rule lc_table_snoc [OF old(2) dylib_scan_end [OF r(5) cs(1)] new(2)])
  show ?thesis
    using r(2,3,4,8,9) cs(1) hd tab o3 again h3 sections_above_all [OF cs(3) r(7)] by blast
qed

text \<open>C11: Adding a dylib with \<^verbatim>\<open>add_macho_dylib.py\<close> appends exactly one load command to the table the
  file has, in slack that was zero and lies below every section; every other byte outside the two
  header counts is kept, and a second run finds the dylib already loaded and leaves the file alone.\<close>

theorem add_macho_dylib_correct:
  assumes run: "add_macho_dylib name data = Inr (Some data')"
    and name: "utf8_ok name" "0 \<notin> set name"
    and whole: "\<And>n cs. u32 data 16 = Inr n \<Longrightarrow> lc_table data (nat n) 32 = Inr cs \<Longrightarrow> dylibs_whole cs"
    and sz: "sz = align (24 + int (length (name @ [0]))) 8"
  shows "\<exists>n area cs.
     u32 data 16 = Inr n \<and> u32 data 20 = Inr area \<and> lc_table data (nat n) 32 = Inr cs
   \<and> u32 data' 16 = Inr (n + 1) \<and> u32 data' 20 = Inr (area + sz)
   \<and> lc_table data' (Suc (nat n)) 32 = Inr (cs @ [(LC_LOAD_DYLIB, sz, 32 + area)])
   \<and> same_outside (\<lambda>k. 16 \<le> k \<and> k < 24 \<or> 32 + area \<le> int k \<and> int k < 32 + area + sz) data data'
   \<and> (\<forall>b \<in> set (py_slice data (32 + area) (32 + area + sz)). b = 0)
   \<and> list_all (\<lambda>(c, z, lc). sections_above data (32 + area + sz) c lc) cs
   \<and> add_macho_dylib name data' = Inr None"
  using add_macho_dylib_result [OF run name _ sz] whole by blast

definition demo_header :: bytes where
  "demo_header = le_words 4 [MH_MAGIC_64, 0, 0, 0, 0, 0, 0, 0] @ zeros 32"

lemma add_macho_dylib_demo:
  "add_macho_dylib (ascii ''a'') demo_header
     = Inr (Some (le_words 4 [MH_MAGIC_64, 0, 0, 0, 1, 32, 0, 0, LC_LOAD_DYLIB, 32, 24, 2, 0x10000, 0x10000, 97, 0]))"
  by code_simp

lemma add_macho_dylib_correct_witness:
  "\<exists>data'. add_macho_dylib (ascii ''a'') demo_header = Inr (Some data')
     \<and> u32 data' 16 = Inr 1 \<and> add_macho_dylib (ascii ''a'') data' = Inr None"
proof -
  let ?d = "le_words 4 [MH_MAGIC_64, 0, 0, 0, 1, 32, 0, 0, LC_LOAD_DYLIB, 32, 24, 2, 0x10000, 0x10000, 97, 0]"
  have n: "u32 demo_header 16 = Inr 0" "lc_table demo_header 0 32 = Inr []" by code_simp+
  have "\<exists>n area cs. u32 demo_header 16 = Inr n \<and> u32 demo_header 20 = Inr area \<and> lc_table demo_header (nat n) 32 = Inr cs
      \<and> u32 ?d 16 = Inr (n + 1) \<and> u32 ?d 20 = Inr (area + 32)
      \<and> lc_table ?d (Suc (nat n)) 32 = Inr (cs @ [(LC_LOAD_DYLIB, 32, 32 + area)])
      \<and> same_outside (\<lambda>k. 16 \<le> k \<and> k < 24 \<or> 32 + area \<le> int k \<and> int k < 32 + area + 32) demo_header ?d
      \<and> (\<forall>b \<in> set (py_slice demo_header (32 + area) (32 + area + 32)). b = 0)
      \<and> list_all (\<lambda>(c, z, lc). sections_above demo_header (32 + area + 32) c lc) cs
      \<and> add_macho_dylib (ascii ''a'') ?d = Inr None"
    by (rule add_macho_dylib_correct [OF add_macho_dylib_demo])
       (use n in \<open>auto simp: ascii_def align8 dylibs_whole_def\<close>)
  then show ?thesis using add_macho_dylib_demo n(1) by auto
qed

subsection \<open>\<^verbatim>\<open>patch_vmm_optional_pvg_reset.py\<close>\<close>

definition SITE :: int where "SITE = 0x11D58C"
definition CAVE :: int where "CAVE = 0x3D00"
definition SKIP_CLEANUP :: int where "SKIP_CLEANUP = 0x11D5B0"
definition CONTINUE_CLEANUP :: int where "CONTINUE_CLEANUP = 0x11D594"
definition LOAD_RETAIN_LIST :: int where "LOAD_RETAIN_LIST = 0xF9405694"

lemmas pvg_reset_consts = SITE_def CAVE_def SKIP_CLEANUP_def CONTINUE_CLEANUP_def LOAD_RETAIN_LIST_def

definition pvg_reset_words :: "int list res" where
  "pvg_reset_words =
     bindR (branch (CAVE + 8) SKIP_CLEANUP) (\<lambda>skip.
     bindR (branch (CAVE + 16) CONTINUE_CLEANUP) (\<lambda>cont.
     Inr [LOAD_RETAIN_LIST, 0xB5000054, skip, 0xA9405A95, cont]))"

definition patch_vmm_optional_pvg_reset :: "bytes \<Rightarrow> bytes res" where
  "patch_vmm_optional_pvg_reset img =
     bindR (u32 img SITE) (\<lambda>old.
     bindR (branch SITE CAVE) (\<lambda>site_branch.
     bindR (guardR (old \<in> {LOAD_RETAIN_LIST, site_branch}) System_Exit) (\<lambda>_.
     bindR pvg_reset_words (\<lambda>words.
     bindR (pack_new 4 words) (\<lambda>cave_bytes.
     bindR (guardR (\<not> (old = LOAD_RETAIN_LIST
                       \<and> list_ex (\<lambda>b. b \<noteq> 0) (py_slice img CAVE (CAVE + int (length cave_bytes))))) System_Exit) (\<lambda>_.
     p32 (py_set_slice img CAVE (CAVE + int (length cave_bytes)) cave_bytes) SITE site_branch))))))"

lemma pvg_reset_values:
  "branch SITE CAVE = Inr 0x17FB99DD"
  "pvg_reset_words = Inr [0xF9405694, 0xB5000054, 0x1404662A, 0xA9405A95, 0x14046621]"
  by (simp_all add: pvg_reset_words_def branch_def branch_imm_def pvg_reset_consts)

lemma patch_vmm_optional_pvg_reset_form:
  "patch_vmm_optional_pvg_reset img =
     bindR (u32 img 0x11D58C) (\<lambda>old.
     bindR (guardR (old \<in> {0xF9405694, 0x17FB99DD} \<and>
        (old = 0xF9405694 \<longrightarrow> (\<forall>b \<in> set (py_slice img 0x3D00 0x3D14). b = 0))) System_Exit) (\<lambda>_.
     p32 (py_set_slice img 0x3D00 0x3D14 (le_words 4 [0xF9405694, 0xB5000054, 0x1404662A, 0xA9405A95, 0x14046621]))
       0x11D58C 0x17FB99DD))"
  unfolding patch_vmm_optional_pvg_reset_def pvg_reset_values
  unfolding pvg_reset_consts
  by (cases "u32 img 0x11D58C") (auto simp: pack_new_def guardR_def list_ex_iff simp del: le_words.simps)

subsection \<open>\<^verbatim>\<open>patch_ipados14_vmm_videotoolbox_import.py\<close>\<close>

definition VIDEOTOOLBOX :: bytes where
  "VIDEOTOOLBOX = ascii ''@loader_path/../../../Frameworks/VideoToolbox.framework/VideoToolbox''"

definition names_target :: "bytes \<Rightarrow> int \<Rightarrow> int \<Rightarrow> bytes \<Rightarrow> bool res" where
  "names_target img sz off target =
     bindR (u32 img (off + 8)) (\<lambda>name_offset.
     let name_start = off + name_offset; name_end = find_nul img name_start (off + sz) in
     Inr (name_end \<ge> 0 \<and> py_slice img name_start name_end = target))"

definition vt_match :: "bytes \<Rightarrow> int \<Rightarrow> int \<Rightarrow> int \<Rightarrow> (int \<times> int) list \<Rightarrow> (int \<times> int) list res" where
  "vt_match img cmd sz off ms =
     bindR (guardR (\<not> (sz < 8 \<or> off + sz > int (length img))) System_Exit) (\<lambda>_.
     if cmd = LC_LOAD_DYLIB \<or> cmd = LC_LOAD_WEAK_DYLIB then
       bindR (names_target img sz off VIDEOTOOLBOX) (\<lambda>t.
       Inr (if t then ms @ [(off, cmd)] else ms))
     else Inr ms)"

definition patch_vmm_videotoolbox :: "bytes \<Rightarrow> bytes res" where
  "patch_vmm_videotoolbox img =
     bindR (if int (length img) < 32 then Inl System_Exit else u32 img 0) (\<lambda>magic.
     bindR (guardR (magic = 0xFEEDFACF) System_Exit) (\<lambda>_.
     bindR (u32 img 16) (\<lambda>command_count.
     bindR (for_cmds (\<lambda>_. img) (vt_match img) (nat command_count) 32 []) (\<lambda>ms.
     case ms of
       [(command_offset, command)] \<Rightarrow>
         bindR (guardR (command = LC_LOAD_WEAK_DYLIB) System_Exit) (\<lambda>_.
         p32 img command_offset LC_LOAD_DYLIB)
     | _ \<Rightarrow> Inl System_Exit))))"

subsection \<open>\<^verbatim>\<open>append_fixups_command\<close>\<close>

definition LC_CODE_SIGNATURE :: int where "LC_CODE_SIGNATURE = 0x1D"

text \<open>The file offsets of the sections that have content, over all segments in order.\<close>

definition used_section :: "bytes \<Rightarrow> int \<Rightarrow> int list \<Rightarrow> int list res" where
  "used_section buf so offs =
     bindR (u64 buf (so + 40)) (\<lambda>sz.
     bindR (u32 buf (so + 48)) (\<lambda>file_offset.
     Inr (if sz \<noteq> 0 \<and> file_offset \<noteq> 0 then offs @ [file_offset] else offs)))"

definition section_offsets :: "bytes \<Rightarrow> segment list \<Rightarrow> int list res" where
  "section_offsets buf segs =
     foldR (\<lambda>s offs. bindR (u32 buf (lc_off s + 64)) (\<lambda>ns.
        foldR (used_section buf) (sect_offs (lc_off s) ns) offs)) segs []"

definition fixups_commands :: "(int \<times> bytes) list \<Rightarrow> int \<Rightarrow> int \<Rightarrow> (int \<times> bytes) list res" where
  "fixups_commands commands scmds first_section =
     (let signing_room = (if list_ex (\<lambda>(cmd, _). cmd = LC_CODE_SIGNATURE) commands then 0 else 16);
          commands = (if 32 + scmds + 16 + signing_room > first_section
                      then filter (\<lambda>(cmd, _). cmd \<noteq> LC_FUNCTION_STARTS \<and> cmd \<noteq> LC_DATA_IN_CODE) commands
                      else commands)
      in if 32 + int (length (blob_data commands)) + 16 + signing_room > first_section then Inl System_Exit
         else Inr commands)"

definition append_fixups_command :: "bytes \<Rightarrow> int \<Rightarrow> int \<Rightarrow> bytes res" where
  "append_fixups_command buf dataoff datasize =
     bindR (parse_segments buf) (\<lambda>(segments, ncmds, scmds).
     bindR (lc_blobs buf (nat ncmds) 32) (\<lambda>commands.
     bindR (section_offsets buf segments) (\<lambda>offs.
     let first_section = (if offs = [] then 0x4000 else Min (set offs)) in
     bindR (fixups_commands commands scmds first_section) (\<lambda>commands.
     bindR (pack_new 4 [LC_DYLD_CHAINED_FIXUPS, 16, dataoff, datasize]) (\<lambda>fixups.
     let header = blob_data commands @ fixups;
         buf = py_set_slice buf 32 (32 + max scmds (int (length header)))
                 (header @ zeros (max 0 (scmds - int (length header))))
     in p32s buf 16 [int (length commands) + 1, int (length header)])))))"

lemma holds_at_idle: "holds_at b cur c \<Longrightarrow> put_at b (nat cur) c = b"
proof -
  assume h: "holds_at b cur c"
  have "put_at b (nat cur) c = put_at b (nat cur) (take (length c) (drop (nat cur) b))" using h by (simp add: holds_at_def)
  also have "\<dots> = b" using h by (simp add: put_at_def holds_at_def take_add [symmetric] drop_drop add.commute)
       (metis append_take_drop_id drop_drop add.commute)
  finally show ?thesis .
qed

lemma p32_idle: "u32 b off = Inr v \<Longrightarrow> 0 \<le> off \<Longrightarrow> p32 b off v = Inr b"
proof -
  assume u: "u32 b off = Inr v" and off: "0 \<le> off"
  then have l: "off + 4 \<le> int (length b)" and v: "v = le_int (take 4 (drop (nat off) b))"
    by (auto simp: unpack_u_def at_off_nonneg bindR_Inr_iff split: if_splits)
  have "le_bytes 4 v = take 4 (drop (nat off) b)"
  proof -
    have "length (take 4 (drop (nat off) b)) = 4" using l off by simp
    then show ?thesis using le_bytes_le_int [of "take 4 (drop (nat off) b)"] by (simp only: v)
  qed
  then have "holds_at b off (le_bytes 4 v)" using l off by (simp add: holds_at_def)
  then have "put_at b (nat off) (le_bytes 4 v) = b" by (rule holds_at_idle)
  then show ?thesis using unpack_u_bounds [OF u] l off by (simp add: pack_u_def at_off_nonneg)
qed

text \<open>The PVG reset patcher refuses a file, or makes the reset site branch to the cave and fills the
  cave with its five words (a non-empty cave is accepted only when the site already branches there);
  nothing else changes, and a second run writes the same bytes again.\<close>

theorem patch_vmm_optional_pvg_reset_correct:
  "(\<exists>e. patch_vmm_optional_pvg_reset img = Inl e)
   \<or> (\<exists>img' site words. patch_vmm_optional_pvg_reset img = Inr img'
        \<and> branch SITE CAVE = Inr site \<and> pvg_reset_words = Inr words
        \<and> u32 img' SITE = Inr site \<and> holds_at img' CAVE (le_words 4 words)
        \<and> (u32 img SITE = Inr LOAD_RETAIN_LIST \<and> list_all (\<lambda>b. b = 0) (py_slice img CAVE (CAVE + 20)) \<or> u32 img SITE = Inr site)
        \<and> same_outside (\<lambda>k. SITE \<le> int k \<and> int k < SITE + 4 \<or> CAVE \<le> int k \<and> int k < CAVE + 20) img img'
        \<and> patch_vmm_optional_pvg_reset img' = Inr img')"
proof (cases "patch_vmm_optional_pvg_reset img")
  case (Inr img')
  let ?w = "le_words 4 [0xF9405694, 0xB5000054, 0x1404662A, 0xA9405A95, 0x14046621]"
  let ?c = "py_set_slice img 0x3D00 0x3D14 ?w"
  let ?R = "\<lambda>k. SITE \<le> int k \<and> int k < SITE + 4 \<or> CAVE \<le> int k \<and> int k < CAVE + 20"
  have lw: "length ?w = 20" by simp
  from Inr obtain old where old: "u32 img 0x11D58C = Inr old" "old \<in> {0xF9405694, 0x17FB99DD}"
    "old = 0xF9405694 \<longrightarrow> (\<forall>b \<in> set (py_slice img 0x3D00 0x3D14). b = 0)" and p: "p32 ?c 0x11D58C 0x17FB99DD = Inr img'"
    unfolding patch_vmm_optional_pvg_reset_form by (auto simp: bindR_Inr_iff simp del: le_words.simps)
  have len: "0x11D590 \<le> length img"
    using old(1) by (auto simp: unpack_u_def bindR_Inr_iff at_off_nonneg split: if_splits)
  have c: "?c = put_at img (nat 0x3D00) ?w"
    by (rule py_set_slice_put_at) (use lw len in simp_all)
  have fit: "nat 0x3D00 + length ?w \<le> length img" using lw len by (simp del: le_words.simps)
  have h: "holds_at ?c 0x3D00 ?w" unfolding c by (rule holds_at_put) (use lw len in simp_all)
  have o1: "same_outside ?R img ?c" unfolding c
    by (rule same_outside_mono [OF same_outside_put_at [OF fit]]) (use lw in \<open>auto simp: pvg_reset_consts simp del: le_words.simps\<close>)
  have o2: "same_outside (\<lambda>k. 0x11D58C \<le> int k \<and> int k < 0x11D58C + 4) ?c img'"
    using f32.wr_outside [OF p] by (simp del: le_words.simps)
  have h': "holds_at img' 0x3D00 ?w"
    by (rule holds_at_agree [OF h agree_on_outside [OF o2]]) (use lw in \<open>simp del: le_words.simps\<close>)
  have o3: "same_outside ?R img img'"
    by (rule same_outside_trans [OF o1 same_outside_mono [OF o2]]) (simp add: pvg_reset_consts)
  have site: "u32 img' 0x11D58C = Inr 0x17FB99DD" by (rule f32.rd_wr_same [OF p])
  have len': "length img' = length img" by (rule same_outside_length [OF o3])
  have "py_set_slice img' 0x3D00 0x3D14 ?w = put_at img' (nat 0x3D00) ?w"
    by (rule py_set_slice_put_at) (use lw len len' in simp_all)
  also have "\<dots> = img'" by (rule holds_at_idle [OF h'])
  finally have same: "py_set_slice img' 0x3D00 0x3D14 ?w = img'" .
  have again: "patch_vmm_optional_pvg_reset img' = Inr img'"
    unfolding patch_vmm_optional_pvg_reset_form site same
    using p32_idle [OF site] by simp
  show ?thesis
    using Inr old site h' o3 again pvg_reset_values by (auto simp: pvg_reset_consts list_all_iff simp del: le_words.simps)
qed simp

subsection \<open>The new fixups command\<close>

lemma put_at_commute:
  assumes "i + length xs \<le> j" "j + length ys \<le> length b"
  shows "put_at (put_at b j ys) i xs = put_at (put_at b i xs) j ys"
  by (rule nth_equalityI) (use assms in \<open>auto simp: nth_put_at\<close>)

lemma fixups_commands_cases:
  assumes "fixups_commands bs scmds first = Inr bs'" "room = (if list_ex (\<lambda>(cmd, _). cmd = LC_CODE_SIGNATURE) bs then 0 else 16)"
  shows "32 + int (length (blob_data bs')) + 16 + room \<le> first"
    and "bs' = (if 32 + scmds + 16 + room \<le> first then bs
                else filter (\<lambda>(cmd, _). cmd \<noteq> LC_FUNCTION_STARTS \<and> cmd \<noteq> LC_DATA_IN_CODE) bs)"
  using assms by (auto simp: fixups_commands_def Let_def split: if_splits)

text \<open>\<^verbatim>\<open>append_fixups_command\<close> keeps every load command in order, dropping only function starts and
  data-in-code and only when there is no room otherwise, appends the chained-fixups command, leaves
  room for a signature command below the first section, and writes outside the header only zeros
  over the old table.\<close>

lemma append_fixups_command_correct:
  assumes run: "append_fixups_command buf dataoff datasize = Inr buf'"
    and hdr: "header_ok buf n area" and bs: "lc_blobs buf (nat n) 32 = Inr bs"
    and offs: "parse_segments buf = Inr (segs, n, area)" "section_offsets buf segs = Inr offs"
    and first: "first = (if offs = [] then 0x4000 else Min (set offs))" "first \<le> int (length buf)"
    and room: "room = (if list_ex (\<lambda>(cmd, _). cmd = LC_CODE_SIGNATURE) bs then 0 else 16)"
  shows "\<exists>bs' size. bs' = (if 32 + area + 16 + room \<le> first then bs
                 else filter (\<lambda>(cmd, _). cmd \<noteq> LC_FUNCTION_STARTS \<and> cmd \<noteq> LC_DATA_IN_CODE) bs)
       \<and> lc_blobs buf' (Suc (length bs')) 32
           = Inr (bs' @ [(LC_DYLD_CHAINED_FIXUPS, le_words 4 [LC_DYLD_CHAINED_FIXUPS, 16, dataoff, datasize])])
       \<and> size = int (length (blob_data bs')) + 16 \<and> 32 + size + room \<le> first
       \<and> u32 buf' 16 = Inr (int (length bs') + 1) \<and> u32 buf' 20 = Inr size
       \<and> same_outside (\<lambda>k. 16 \<le> k \<and> k < 24 \<or> 32 \<le> k \<and> int k < 32 + max area size) buf buf'"
proof -
  let ?f = "le_words 4 [LC_DYLD_CHAINED_FIXUPS, 16, dataoff, datasize]"
  have lf: "length ?f = 16" by simp
  obtain bs' fx where b': "fixups_commands bs area first = Inr bs'"
    and fx: "pack_new 4 [LC_DYLD_CHAINED_FIXUPS, 16, dataoff, datasize] = Inr fx"
    and w: "p32s (py_set_slice buf 32 (32 + max area (int (length (blob_data bs' @ fx))))
          ((blob_data bs' @ fx) @ zeros (max 0 (area - int (length (blob_data bs' @ fx))))))
        16 [int (length bs') + 1, int (length (blob_data bs' @ fx))] = Inr buf'"
    using run offs bs first(1) by (auto simp: append_fixups_command_def Let_def bindR_Inr_iff)
  have fx': "fx = ?f" "\<forall>v \<in> set [dataoff, datasize]. 0 \<le> v \<and> v < 2 ^ 32"
    using fx by (auto simp: pack_new_def simp del: le_words.simps split: if_splits)
  let ?bs = "bs' @ [(LC_DYLD_CHAINED_FIXUPS, ?f)]"
  let ?size = "int (length (blob_data ?bs))" and ?area = "max area (int (length (blob_data ?bs)))"
  have size: "?size = int (length (blob_data bs')) + 16" using lf by (simp del: le_words.simps)
  note fc = fixups_commands_cases [OF b' room]
  have tab: "table_ok buf (nat n) 32 (32 + area)" "u32 buf 20 = Inr area" using hdr by (auto simp: header_ok_def)
  have "list_all blob_ok bs" using lc_blobs_ok [OF tab(1)] bs by auto
  then have "list_all blob_ok bs'" unfolding fc(2) by (simp add: list_all_iff)
  moreover have "blob_ok (LC_DYLD_CHAINED_FIXUPS, ?f)"
    by (simp add: blob_ok_def u32x2_def unpack_us_def at_off_nonneg le_int_le_bytes LC_DYLD_CHAINED_FIXUPS_def)
  ultimately have ok: "list_all blob_ok ?bs" by simp
  have area: "32 + ?area \<le> int (length buf)" 
  proof -
    have "0 \<le> room" by (simp add: room)
    then show ?thesis using table_ok_bounds [OF tab(1)] fc(1) first(2) size by (simp add: max_def)
  qed
  have ar: "0 \<le> area" "area < 2 ^ 32" using unpack_u_bounds [OF tab(2)] by simp_all
  let ?p = "blob_data ?bs @ zeros (?area - ?size)" and ?h = "le_words 4 [int (length ?bs), ?size]"
  have lp: "length ?p = nat ?area" using ar by (simp del: le_words.simps)
  have e: "(blob_data bs' @ fx) @ zeros (max 0 (area - int (length (blob_data bs' @ fx)))) = ?p"
    "max area (int (length (blob_data bs' @ fx))) = ?area"
    by (simp_all add: fx'(1) max_def zeros_def del: le_words.simps)
  have bounds: "int (length ?bs) < 2 ^ 32" "?size < 2 ^ 32"
    using w by (auto simp: pack_us_def bindR_Inr_iff fx'(1) simp del: le_words.simps split: if_splits)
  have s: "py_set_slice buf 32 (32 + ?area) ?p = put_at buf (nat 32) ?p"
    by (rule py_set_slice_put_at) (use lp area ar in auto)
  have "buf' = put_at (put_at buf 32 ?p) 16 ?h"
    using w unfolding e s
    by (auto simp: pack_us_def bindR_Inr_iff at_off_nonneg fx'(1) add.commute [of 1 "int (length bs')"] simp del: le_words.simps split: if_splits)
  also have "\<dots> = put_at (put_at buf 16 ?h) 32 ?p"
    by (rule put_at_commute) (use lp area in auto)
  finally have b: "buf' = put_at (put_at buf 16 ?h) 32 ?p" .
  note hr = header_rewrite [OF ok _ area _ _ b]
  have hr': "lc_blobs buf' (length ?bs) 32 = Inr ?bs" "u32 buf' 16 = Inr (int (length ?bs))" "u32 buf' 20 = Inr ?size"
    "same_outside (\<lambda>k. 16 \<le> k \<and> k < 24 \<or> 32 \<le> k \<and> int k < 32 + ?area) buf buf'"
    by (rule hr; use bounds ar in simp)+
  show ?thesis
    using hr' fc size by (intro exI [of _ bs'] exI [of _ ?size]) (auto simp del: le_words.simps lc_blobs.simps)
qed

definition demo_segment :: bytes where
  "demo_segment = le_words 4 [0x19, 152] @ zeros 56 @ le_words 4 [1, 0] @ zeros 40 @ le_words 8 [1] @ le_words 4 [216] @ zeros 28"

definition demo_image :: bytes where
  "demo_image = le_words 4 [MH_MAGIC_64, 0, 0, 0, 1, 152, 0, 0] @ demo_segment @ zeros 32"

lemma demo_image_facts:
  "is_ok (append_fixups_command demo_image 0x1000 0x20)"
  "header_ok demo_image 1 152"
  "lc_blobs demo_image 1 32 = Inr [(0x19, demo_segment)]"
  "parse_segments demo_image = Inr ([\<lparr>seg_name = [], vmaddr = 0, vmsize = 0, fileoff = 0, filesize = 0, lc_off = 32\<rparr>], 1, 152)"
  "section_offsets demo_image [\<lparr>seg_name = [], vmaddr = 0, vmsize = 0, fileoff = 0, filesize = 0, lc_off = 32\<rparr>] = Inr [216]"
  "length demo_image = 216"
  by code_simp+

lemma append_fixups_command_example:
  "\<exists>buf'. append_fixups_command demo_image 0x1000 0x20 = Inr buf'
     \<and> lc_blobs buf' 2 32 = Inr [(0x19, demo_segment), (LC_DYLD_CHAINED_FIXUPS, le_words 4 [LC_DYLD_CHAINED_FIXUPS, 16, 0x1000, 0x20])]"
proof -
  obtain buf' where run: "append_fixups_command demo_image 0x1000 0x20 = Inr buf'"
    using demo_image_facts(1) by (auto simp: is_ok_iff)
  show ?thesis
    using append_fixups_command_correct [OF run demo_image_facts(2) _ demo_image_facts(4,5), of "[(0x19, demo_segment)]" 216 16]
      demo_image_facts(3,6) run
    by (auto simp: LC_CODE_SIGNATURE_def numeral_2_eq_2 simp del: le_words.simps lc_blobs.simps)
qed

end
