(* ===== verification/Branch_Islands.thy ===== *)
theory Branch_Islands
  imports Macho_Patches Arm64 "HOL-Library.AList" "HOL-Library.List_Lexorder"
begin

text \<open>
  Calls that leave the extracted image through the cache's branch islands:
  \<^verbatim>\<open>collect_external_branches\<close> finds them and asks the cache tool for the symbol behind each island,
  \<^verbatim>\<open>rebuild_external_branches\<close> writes one local authenticated stub per symbol into the padding after
  \<^verbatim>\<open>__auth_stubs\<close> and redirects the calls. The symbol lookup (the external tool \<^verbatim>\<open>a2s_batch\<close> runs)
  is the parameter \<open>a2s\<close>: from a set of addresses to the names it knows. A dict filled in a loop is an
  association list, since its order decides which error is met first.
\<close>

subsection \<open>Collecting\<close>

definition branch_disp :: "int \<Rightarrow> int" where
  "branch_disp word =
     (let displacement = word AND 0x3FFFFFF
      in if displacement AND 0x2000000 \<noteq> 0 then displacement - 0x4000000 else displacement)"

definition in_segments :: "segment list \<Rightarrow> int \<Rightarrow> bool" where
  "in_segments segs a = list_ex (\<lambda>s. vmaddr s \<le> a \<and> a < vmaddr s + vmsize s) segs"

definition external_branch ::
    "bytes \<Rightarrow> segment list \<Rightarrow> int \<Rightarrow> int \<Rightarrow> int \<Rightarrow> (int \<times> int) list \<Rightarrow> (int \<times> int) list res" where
  "external_branch buf segs address off delta calls =
     bindR (u32 buf (off + delta)) (\<lambda>word.
     if word AND 0x7C000000 \<noteq> 0x14000000 then Inr calls
     else (let pc = address + delta; target = pc + branch_disp word * 4
           in Inr (if in_segments segs target then calls else AList.update pc target calls)))"

definition steps4 :: "int \<Rightarrow> int list" where
  "steps4 n = map (\<lambda>k. 4 * int k) [0..<nat ((n + 3) div 4)]"

definition section_branches ::
    "bytes \<Rightarrow> segment list \<Rightarrow> int \<Rightarrow> (int \<times> int) list \<Rightarrow> (int \<times> int) list res" where
  "section_branches buf segs so calls =
     (if cstr16 buf so \<noteq> ascii ''__text'' then Inr calls
      else bindR (u64x2 buf (so + 32)) (\<lambda>(address, sz).
           bindR (u32 buf (so + 48)) (\<lambda>off.
           foldR (external_branch buf segs address off) (steps4 sz) calls)))"

definition segment_branches ::
    "bytes \<Rightarrow> segment list \<Rightarrow> segment \<Rightarrow> (int \<times> int) list \<Rightarrow> (int \<times> int) list res" where
  "segment_branches buf segs s calls =
     (if seg_name s \<noteq> ascii ''__TEXT'' then Inr calls
      else bindR (u32 buf (lc_off s + 64)) (\<lambda>ns.
           foldR (section_branches buf segs) (sect_offs (lc_off s) ns) calls))"

definition resolve_branch ::
    "(int \<Rightarrow> bytes option) \<Rightarrow> int \<times> int \<Rightarrow> (int \<times> bytes) list \<Rightarrow> (int \<times> bytes) list res" where
  "resolve_branch symbols = (\<lambda>(pc, target) result.
     case symbols target of
       None \<Rightarrow> Inl System_Exit
     | Some name \<Rightarrow> if name = [] \<or> name = ascii ''?'' then Inl System_Exit
                    else Inr (AList.update pc name result))"

definition collect_external_branches ::
    "(int set \<Rightarrow> int \<Rightarrow> bytes option) \<Rightarrow> bytes \<Rightarrow> (int \<times> bytes) list res" where
  "collect_external_branches a2s buf =
     bindR (parse_segments buf) (\<lambda>(segments, _, _).
     bindR (foldR (segment_branches buf segments) segments []) (\<lambda>calls.
     foldR (resolve_branch (a2s (snd ` set calls))) calls []))"

subsection \<open>Rebuilding\<close>

definition lookup_key :: "('k \<Rightarrow> 'v option) \<Rightarrow> 'k \<Rightarrow> 'v res" where
  "lookup_key m k = (case m k of None \<Rightarrow> Inl Key_Error | Some v \<Rightarrow> Inr v)"

text \<open>\<^verbatim>\<open>name.split("$", 1)[1]\<close> of a name that has a dollar.\<close>

definition after_dollar :: "bytes \<Rightarrow> bytes" where
  "after_dollar name = tl (dropWhile (\<lambda>b. b \<noteq> 0x24) name)"

text \<open>The words of one stub: an optional selector load, the slot's address in \<^verbatim>\<open>x16\<close>, the load of the
  signed pointer and the authenticated branch, padded with \<^verbatim>\<open>NOP\<close>s to 32 bytes.\<close>

definition selector_words :: "(bytes \<Rightarrow> int option) \<Rightarrow> bytes \<Rightarrow> int \<Rightarrow> int list res" where
  "selector_words selector_slots name address =
     (if prefix (ascii ''_objc_msgSend$'') name then
        bindR (lookup_key selector_slots (after_dollar name)) (\<lambda>selector.
        Inr [set_adrp 0x90000001 address selector,
             0xF9400021 OR push_bit 10 ((selector AND 0xFFF) div 8)])
      else Inr [])"

definition island_words ::
    "(bytes \<Rightarrow> int option) \<Rightarrow> (bytes \<Rightarrow> int option) \<Rightarrow> bytes \<Rightarrow> int \<Rightarrow> int list res" where
  "island_words got_slots selector_slots name address =
     bindR (lookup_key got_slots (ascii ''__branch.'' @ name)) (\<lambda>slot.
     bindR (selector_words selector_slots name address) (\<lambda>pre.
     let pc = address + int (length pre) * 4;
         words = pre @ [set_adrp 0x90000010 pc slot, set_add_imm 0x91000210 (slot AND 0xFFF), 0xF9400211, 0xD71F0A30]
     in Inr (words @ replicate (8 - length words) 0xD503201F)))"

definition put_island ::
    "(bytes \<Rightarrow> int option) \<Rightarrow> (bytes \<Rightarrow> int option) \<Rightarrow> int \<Rightarrow> bytes \<times> int \<Rightarrow> bytes \<Rightarrow> bytes res" where
  "put_island got_slots selector_slots nbase = (\<lambda>(name, address) buf.
     bindR (island_words got_slots selector_slots name address) (\<lambda>words.
     p32s buf (address - nbase) words))"

definition retarget ::
    "(int \<Rightarrow> int option) \<Rightarrow> (bytes \<Rightarrow> int option) \<Rightarrow> int \<Rightarrow> int \<times> bytes \<Rightarrow> bytes \<Rightarrow> bytes res" where
  "retarget am stubs nbase = (\<lambda>(original, name) buf.
     bindR (lookup_key stubs name) (\<lambda>stub.
     bindR (case am original of None \<Rightarrow> Inl Type_Error | Some pc \<Rightarrow> Inr pc) (\<lambda>pc.
     let displacement = (stub - pc) div 4 in
     if \<not> (- push_bit 25 1 \<le> displacement \<and> displacement < push_bit 25 1) then Inl System_Exit
     else bindR (u32 buf (pc - nbase)) (\<lambda>word.
          p32 buf (pc - nbase) ((word AND 0xFC000000) OR (displacement AND 0x3FFFFFF))))))"

text \<open>Empty sections behind \<^verbatim>\<open>__auth_stubs\<close> move past the islands.\<close>

definition move_section :: "int \<Rightarrow> int \<Rightarrow> int \<Rightarrow> int \<Rightarrow> bytes \<Rightarrow> bytes res" where
  "move_section section stop nbase so buf =
     bindR (u64x2 buf (so + 32)) (\<lambda>(address, sz).
     if so > section \<and> address < stop then
       if sz \<noteq> 0 then Inl System_Exit
       else bindR (p64 buf (so + 32) stop) (\<lambda>buf. p32s buf (so + 48) [stop - nbase, 0])
     else Inr buf)"

definition rebuild_external_branches ::
    "bytes \<Rightarrow> segment list \<Rightarrow> (int \<times> bytes) list \<Rightarrow> (int \<Rightarrow> int option) \<Rightarrow> (bytes \<Rightarrow> int option) \<Rightarrow> int
     \<Rightarrow> (bytes \<Rightarrow> int option) \<Rightarrow> bytes res" where
  "rebuild_external_branches buf segments branches am got_slots nbase selector_slots =
     (if branches = [] then Inr buf else
      let names = sort (remdups (map snd branches)) in
      case filter (\<lambda>s. seg_name s = ascii ''__TEXT'') segments of
        [] \<Rightarrow> Inl Stop_Iteration
      | text # _ \<Rightarrow>
        bindR (u32 buf (lc_off text + 64)) (\<lambda>ns.
        bindR (find_section buf (lc_off text) ns (ascii ''__auth_stubs'')) (\<lambda>(sect, start, sz).
        case sect of
          None \<Rightarrow> Inl System_Exit
        | Some section \<Rightarrow>
          if sz \<noteq> 0 then Inl System_Exit else
          let start = (start + 15) AND NOT 15; stop = start + int (length names) * 32 in
          if stop > vmaddr text + filesize text then Inl System_Exit else
          let stubs = map (\<lambda>(index, name). (name, start + int index * 32)) (enumerate 0 names) in
          bindR (foldR (put_island got_slots selector_slots nbase) stubs buf) (\<lambda>buf.
          bindR (foldR (retarget am (map_of stubs) nbase) branches buf) (\<lambda>buf.
          bindR (p64 buf (section + 32) start) (\<lambda>buf.
          bindR (p64 buf (section + 40) (int (length names) * 32)) (\<lambda>buf.
          bindR (p32s buf (section + 48) [start - nbase, 4]) (\<lambda>buf.
          bindR (u32 buf (lc_off text + 64)) (\<lambda>ns.
          bindR (foldR (move_section section stop nbase) (sect_offs (lc_off text) ns) buf) (\<lambda>buf.
          bindR (u32 buf (section + 64)) (\<lambda>flags.
          p32s buf (section + 64) [flags AND NOT 0xFF, 0, 0])))))))))))"

subsection \<open>Sequences of confined edits\<close>

text \<open>
  A loop whose steps change bytes in regions that do not meet: each step finds its region as the
  loop found it, and what the step makes of it is still there at the end.
\<close>

definition confined_step :: "('a \<Rightarrow> bytes \<Rightarrow> bytes res) \<Rightarrow> ('a \<Rightarrow> nat \<Rightarrow> bool) \<Rightarrow> 'a \<Rightarrow> bool" where
  "confined_step f R x \<longleftrightarrow> (\<forall>b c. f x b = Inr c \<longrightarrow> same_outside (R x) b c)"

definition apart_regions :: "('a \<Rightarrow> nat \<Rightarrow> bool) \<Rightarrow> 'a list \<Rightarrow> bool" where
  "apart_regions R xs \<longleftrightarrow> sorted_wrt (\<lambda>x y. \<forall>k. \<not> (R x k \<and> R y k)) xs"

lemma foldR_confined:
  assumes "foldR f xs b = Inr b'" "\<forall>x \<in> set xs. confined_step f R x"
  shows "same_outside (\<lambda>k. \<exists>x \<in> set xs. R x k) b b'"
  using assms
proof (induction xs arbitrary: b)
  case (Cons x xs)
  from Cons.prems(1) obtain c where c: "f x b = Inr c" and r: "foldR f xs c = Inr b'"
    by (auto simp: bindR_Inr_iff)
  have "same_outside (R x) b c" using Cons.prems(2) c by (simp add: confined_step_def)
  then have 1: "same_outside (\<lambda>k. \<exists>x \<in> set (x # xs). R x k) b c" by (rule same_outside_mono) simp
  have "same_outside (\<lambda>k. \<exists>x \<in> set xs. R x k) c b'" using Cons.IH [OF r] Cons.prems(2) by simp
  then have 2: "same_outside (\<lambda>k. \<exists>x \<in> set (x # xs). R x k) c b'" by (rule same_outside_mono) auto
  show ?case by (rule same_outside_trans [OF 1 2])
qed simp

lemma foldR_step:
  assumes "foldR f xs b = Inr b'" "x \<in> set xs" "\<forall>x \<in> set xs. confined_step f R x" "apart_regions R xs"
  obtains c d where "f x c = Inr d" "same_outside (\<lambda>k. \<not> R x k) b c" "same_outside (\<lambda>k. \<not> R x k) d b'"
proof -
  from assms(2) obtain us vs where xs: "xs = us @ x # vs" by (auto simp: in_set_conv_decomp)
  from assms(1) obtain c d where c: "foldR f us b = Inr c" and d: "f x c = Inr d" and r: "foldR f vs d = Inr b'"
    by (auto simp: xs foldR_append bindR_Inr_iff)
  have "same_outside (\<lambda>k. \<not> R x k) b c"
    by (rule same_outside_mono [OF foldR_confined [OF c]])
       (use assms(3,4) in \<open>auto simp: xs apart_regions_def sorted_wrt_append\<close>)
  moreover have "same_outside (\<lambda>k. \<not> R x k) d b'"
    by (rule same_outside_mono [OF foldR_confined [OF r]])
       (use assms(3,4) in \<open>auto simp: xs apart_regions_def sorted_wrt_append\<close>)
  ultimately show thesis using that d by blast
qed

definition field_region :: "int \<Rightarrow> int \<Rightarrow> nat \<Rightarrow> bool" where
  "field_region off w k \<longleftrightarrow> off \<le> int k \<and> int k < off + w"

lemma p32s_holds:
  assumes "p32s b off vs = Inr b'" "0 \<le> off"
  shows "holds_at b' off (le_words 4 vs)" "same_outside (field_region off (4 * int (length vs))) b b'"
proof -
  have fit: "off + 4 * int (length vs) \<le> int (length b)" and b': "b' = put_at b (nat off) (le_words 4 vs)"
    using assms by (auto simp: pack_us_def bindR_Inr_iff at_off_nonneg split: if_splits)
  show "holds_at b' off (le_words 4 vs)" unfolding b' by (rule holds_at_put) (use assms(2) fit in simp_all)
  have "nat off + length (le_words 4 vs) \<le> length b" using assms(2) fit by simp
  then show "same_outside (field_region off (4 * int (length vs))) b b'"
    unfolding b' by (rule same_outside_mono [OF same_outside_put_at]) (use assms(2) in \<open>auto simp: field_region_def\<close>)
qed

subsection \<open>What the rebuilding does\<close>

lemma length_island_words: "island_words got sel name A = Inr ws \<Longrightarrow> length ws = 8"
  by (auto simp: island_words_def selector_words_def bindR_Inr_iff Let_def split: if_splits)

definition adrp_near :: "int \<Rightarrow> int \<Rightarrow> bool" where
  "adrp_near pc slot \<longleftrightarrow>
     - (2 ^ 32) \<le> page_base slot - page_base pc \<and> page_base slot - page_base pc < 2 ^ 32"

definition island_region :: "int \<Rightarrow> bytes \<times> int \<Rightarrow> nat \<Rightarrow> bool" where
  "island_region nbase = (\<lambda>(name, A). field_region (A - nbase) 32)"

definition call_region :: "(int \<Rightarrow> int option) \<Rightarrow> int \<Rightarrow> int \<times> bytes \<Rightarrow> nat \<Rightarrow> bool" where
  "call_region am nbase = (\<lambda>(original, name) k. case am original of None \<Rightarrow> False | Some pc \<Rightarrow> field_region (pc - nbase) 4 k)"

lemma put_island_step:
  assumes "nbase \<le> A"
  shows "confined_step (put_island got sel nbase) (island_region nbase) (name, A)"
    and "put_island got sel nbase (name, A) b = Inr c \<Longrightarrow>
      \<exists>ws. island_words got sel name A = Inr ws \<and> holds_at c (A - nbase) (le_words 4 ws)"
proof -
  have 1: "\<exists>ws. island_words got sel name A = Inr ws \<and> holds_at c (A - nbase) (le_words 4 ws)
      \<and> same_outside (field_region (A - nbase) 32) b c"
    if "put_island got sel nbase (name, A) b = Inr c" for b c
  proof -
    from that obtain ws where w: "island_words got sel name A = Inr ws" and p: "p32s b (A - nbase) ws = Inr c"
      by (auto simp: put_island_def bindR_Inr_iff)
    show ?thesis using p32s_holds [OF p] assms w length_island_words [OF w] by simp
  qed
  then show "confined_step (put_island got sel nbase) (island_region nbase) (name, A)"
    unfolding confined_step_def island_region_def by auto
  show "put_island got sel nbase (name, A) b = Inr c \<Longrightarrow>
      \<exists>ws. island_words got sel name A = Inr ws \<and> holds_at c (A - nbase) (le_words 4 ws)"
    using 1 by blast
qed

lemma retarget_step:
  assumes "retarget am stubs nbase (original, name) b = Inr c"
  obtains stub pc word where "stubs name = Some stub" "am original = Some pc"
    "- (2 ^ 25) \<le> (stub - pc) div 4" "(stub - pc) div 4 < 2 ^ 25" "u32 b (pc - nbase) = Inr word"
    "p32 b (pc - nbase) ((word AND 0xFC000000) OR (((stub - pc) div 4) AND 0x3FFFFFF)) = Inr c"
  using assms
  by (auto simp: retarget_def lookup_key_def bindR_Inr_iff Let_def push_bit_eq_mult split: option.splits if_splits)

lemma retarget_confined:
  assumes "\<And>pc. am original = Some pc \<Longrightarrow> nbase \<le> pc"
  shows "confined_step (retarget am stubs nbase) (call_region am nbase) (original, name)"
  unfolding confined_step_def
proof (intro allI impI)
  fix b c assume "retarget am stubs nbase (original, name) b = Inr c"
  then obtain stub pc word where "am original = Some pc"
    and p: "p32 b (pc - nbase) ((word AND 0xFC000000) OR (((stub - pc) div 4) AND 0x3FFFFFF)) = Inr c"
    by (rule retarget_step)
  then show "same_outside (call_region am nbase (original, name)) b c"
    using f32.wr_outside [OF p] assms by (auto simp: call_region_def field_region_def)
qed

lemma branch_word_fields:
  assumes "0 \<le> word" "word < 2 ^ 32" "- (2 ^ 25) \<le> d" "d < 2 ^ 25"
    and w: "w = (word AND 0xFC000000) OR (d AND 0x3FFFFFF)"
  shows "branch_disp w = d" "w AND 0xFC000000 = word AND 0xFC000000"
proof -
  have m: "(0xFC000000 :: int) = push_bit 26 (mask 6)" by (simp add: push_bit_eq_mult mask_eq_exp_minus_1)
  have m26: "(0x3FFFFFF :: int) = mask 26" by (simp add: mask_eq_exp_minus_1)
  have "w AND 0x3FFFFFF = take_bit 26 d"
    unfolding w m m26 by (rule bit_eqI) (auto simp: bit_simps)
  then show "branch_disp w = d" using sign26 [OF assms(3,4)] by (simp add: branch_disp_def Let_def)
  show "w AND 0xFC000000 = word AND 0xFC000000"
    unfolding w m m26 by (rule bit_eqI) (auto simp: bit_simps)
qed

lemma align16_dvd: "4 dvd ((x + 15) AND NOT (15 :: int))"
proof -
  have m: "(15 :: int) = mask 4" by (simp add: mask_eq_exp_minus_1)
  have "(x + 15) AND NOT 15 = push_bit 4 (drop_bit 4 (x + 15))"
    unfolding m by (rule bit_eqI) (auto simp: bit_simps)
  then show ?thesis by (simp add: push_bit_eq_mult)
qed

lemma find_section_in:
  "find_section b lc ns nm = Inr (Some so, a, z) \<Longrightarrow> so \<in> set (sect_offs lc ns)"
  by (auto simp: find_section_def bindR_Inr_iff split: option.splits if_splits dest!: firstR_Some)

lemma sect_offs_bounds: "so \<in> set (sect_offs lc ns) \<Longrightarrow> lc + 72 \<le> so \<and> so + 80 \<le> lc + 72 + ns * 80"
proof -
  assume "so \<in> set (sect_offs lc ns)"
  then obtain k where k: "k < nat ns" "so = lc + 72 + int k * 80" by (auto simp: sect_offs_def)
  have "int k + 1 \<le> ns" using k(1) by linarith
  then show ?thesis using k(2) by simp
qed

lemma move_section_confined:
  assumes "so \<in> set (sect_offs lc ns)" "0 \<le> lc"
  shows "confined_step (move_section section stop nbase) (\<lambda>_ k. lc + 72 \<le> int k \<and> int k < lc + 72 + ns * 80) so"
  unfolding confined_step_def
proof (intro allI impI)
  fix b c assume m: "move_section section stop nbase so b = Inr c"
  have so: "lc + 72 \<le> so" "so + 80 \<le> lc + 72 + ns * 80" using sect_offs_bounds [OF assms(1)] by simp_all
  let ?R = "\<lambda>k. lc + 72 \<le> int k \<and> int k < lc + 72 + ns * 80"
  show "same_outside ?R b c"
  proof (cases "c = b")
    case False
    then obtain d where d: "p64 b (so + 32) stop = Inr d" and c: "p32s d (so + 48) [stop - nbase, 0] = Inr c"
      using m by (auto simp: move_section_def bindR_Inr_iff split: if_splits)
    have "same_outside ?R b d"
      by (rule same_outside_mono [OF f64.wr_outside [OF d]]) (use so assms(2) in auto)
    moreover have "same_outside ?R d c"
      by (rule same_outside_mono [OF p32s_holds(2) [OF c]]) (use so assms(2) in \<open>auto simp: field_region_def\<close>)
    ultimately show ?thesis by (rule same_outside_trans)
  qed simp
qed

text \<open>The run in three phases: islands, calls, section headers.\<close>

lemma rebuild_phases:
  assumes run: "rebuild_external_branches buf segments branches am got nbase sel = Inr buf'" and ne: "branches \<noteq> []"
    and tseg: "filter (\<lambda>s. seg_name s = ascii ''__TEXT'') segments = text # rest" "0 \<le> lc_off text"
    and ns: "u32 buf (lc_off text + 64) = Inr ns"
    and sect: "find_section buf (lc_off text) ns (ascii ''__auth_stubs'') = Inr (Some section, s0, sz)"
    and names: "names = sort (remdups (map snd branches))"
    and start: "start = (s0 + 15) AND NOT 15"
    and stubs: "stubs = map (\<lambda>(index, name). (name, start + int index * 32)) (enumerate 0 names)"
    and base: "lc_off text + 72 + ns * 80 \<le> start - nbase"
    and calls: "\<forall>(original, name) \<in> set branches. \<forall>pc. am original = Some pc \<longrightarrow> lc_off text + 72 + ns * 80 \<le> pc - nbase"
  obtains b1 b2 where "foldR (put_island got sel nbase) stubs buf = Inr b1"
    "foldR (retarget am (map_of stubs) nbase) branches b1 = Inr b2"
    "same_outside (\<lambda>k. lc_off text + 72 \<le> int k \<and> int k < lc_off text + 72 + ns * 80) b2 buf'" "sz = 0"
proof -
  let ?lc = "lc_off text"
  let ?R = "\<lambda>k. ?lc + 72 \<le> int k \<and> int k < ?lc + 72 + ns * 80"
  let ?stop = "start + int (length names) * 32"
  have so: "section \<in> set (sect_offs ?lc ns)" by (rule find_section_in [OF sect])
  note sb = sect_offs_bounds [OF so]
  have n0: "0 \<le> ns" using unpack_u_bounds [OF ns] by simp
  obtain b1 b2 c1 c2 c3 ns' c4 flags where b1: "foldR (put_island got sel nbase) stubs buf = Inr b1"
    and b2: "foldR (retarget am (map_of stubs) nbase) branches b1 = Inr b2" and z: "sz = 0"
    and c1: "p64 b2 (section + 32) start = Inr c1" and c2: "p64 c1 (section + 40) (int (length names) * 32) = Inr c2"
    and c3: "p32s c2 (section + 48) [start - nbase, 4] = Inr c3" and ns': "u32 c3 (?lc + 64) = Inr ns'"
    and c4: "foldR (move_section section ?stop nbase) (sect_offs ?lc ns') c3 = Inr c4"
    and c5: "p32s c4 (section + 64) [flags AND NOT 0xFF, 0, 0] = Inr buf'"
    using run ne unfolding stubs start names
    by (auto simp: rebuild_external_branches_def tseg ns sect Let_def bindR_Inr_iff split: if_splits)
  have in_stub: "A \<ge> start" if "(nm, A) \<in> set stubs" for nm A
    using that by (auto simp: stubs)
  have o1: "same_outside (\<lambda>k. \<exists>x \<in> set stubs. island_region nbase x k) buf b1"
    by (rule foldR_confined [OF b1]) (use put_island_step(1) in_stub base n0 tseg(2) in fastforce)
  have o2: "same_outside (\<lambda>k. \<exists>x \<in> set branches. call_region am nbase x k) b1 b2"
    by (rule foldR_confined [OF b2]) (use calls n0 tseg(2) in \<open>fastforce intro: retarget_confined\<close>)
  have lo1: "?lc + 72 + ns * 80 \<le> int k" if "x \<in> set stubs" "island_region nbase x k" for x k
  proof -
    obtain nm A where x: "x = (nm, A)" by (cases x)
    show ?thesis using in_stub [of nm A] that base by (auto simp: x island_region_def field_region_def)
  qed
  have lo2: "?lc + 72 + ns * 80 \<le> int k" if "x \<in> set branches" "call_region am nbase x k" for x k
    using that calls by (fastforce simp: call_region_def field_region_def split: option.splits)
  have d1: "same_outside ?R b2 c1" by (rule same_outside_mono [OF f64.wr_outside [OF c1]]) (use sb tseg(2) in auto)
  have d2: "same_outside ?R c1 c2" by (rule same_outside_mono [OF f64.wr_outside [OF c2]]) (use sb tseg(2) in auto)
  have d3: "same_outside ?R c2 c3"
    by (rule same_outside_mono [OF p32s_holds(2) [OF c3]]) (use sb tseg(2) in \<open>auto simp: field_region_def\<close>)
  have d13: "same_outside ?R b2 c3" by (rule same_outside_trans [OF same_outside_trans [OF d1 d2] d3])
  have "u32 c3 (?lc + 64) = u32 b2 (?lc + 64)"
    by (rule same_outside_unpack_u [OF d13]) (use tseg(2) in auto)
  also have "\<dots> = u32 b1 (?lc + 64)"
    by (rule same_outside_unpack_u [OF o2]) (use tseg(2) lo2 n0 in fastforce)+
  also have "\<dots> = Inr ns"
    using same_outside_unpack_u [OF o1, of "?lc + 64" 4] tseg(2) lo1 n0 ns by fastforce
  finally have e: "ns' = ns" using ns' by simp
  have d4: "same_outside ?R c3 c4"
    by (rule same_outside_mono [OF foldR_confined [OF c4, of "\<lambda>_. ?R"]]) (use move_section_confined [OF _ tseg(2)] e in auto)
  have d5: "same_outside ?R c4 buf'"
    by (rule same_outside_mono [OF p32s_holds(2) [OF c5]]) (use sb tseg(2) in \<open>auto simp: field_region_def\<close>)
  show thesis
    by (rule that [OF b1 b2 _ z]) (rule same_outside_trans [OF same_outside_trans [OF d13 d4] d5])
qed

lemma retarget_result:
  assumes "retarget am stubs nbase (original, name) c = Inr d" "stubs name = Some stub" "am original = Some pc"
    "4 dvd stub - pc" "nbase \<le> pc"
  obtains word word' where "u32 c (pc - nbase) = Inr word" "u32 d (pc - nbase) = Inr word'"
    "pc + branch_disp word' * 4 = stub" "word' AND 0xFC000000 = word AND 0xFC000000"
proof -
  from assms(1) obtain s p word where "stubs name = Some s" "am original = Some p"
    and r: "- (2 ^ 25) \<le> (s - p) div 4" "(s - p) div 4 < 2 ^ 25" and w: "u32 c (p - nbase) = Inr word"
    and d: "p32 c (p - nbase) ((word AND 0xFC000000) OR (((s - p) div 4) AND 0x3FFFFFF)) = Inr d"
    by (rule retarget_step)
  with assms(2,3) have e: "s = stub" "p = pc" by simp_all
  note f = branch_word_fields [OF _ _ r refl, of word] 
  have "pc + branch_disp ((word AND 0xFC000000) OR (((s - p) div 4) AND 0x3FFFFFF)) * 4 = stub"
    using f(1) unpack_u_bounds [OF w] assms(4) by (simp add: e)
  then show thesis
    using that [OF _ _ _ f(2)] w f32.rd_wr_same [OF d] unpack_u_bounds [OF w] by (simp add: e)
qed

lemma u32_inside: "same_outside (\<lambda>k. \<not> field_region off 4 k) b c \<Longrightarrow> 0 \<le> off \<Longrightarrow> u32 c off = u32 b off"
  by (rule same_outside_unpack_u) (auto simp: field_region_def)

lemma island_stub_of:
  assumes "stubs = map (\<lambda>(index, name). (name, start + int index * 32)) (enumerate 0 names)" "name \<in> set names" "distinct names"
  obtains index where "index < length names" "names ! index = name" "map_of stubs name = Some (start + int index * 32)"
    "(name, start + int index * 32) \<in> set stubs"
proof -
  obtain i where i: "i < length names" "names ! i = name" using assms(2) by (auto simp: in_set_conv_nth)
  have m: "(name, start + int i * 32) \<in> set stubs"
    unfolding assms(1) using i by (auto simp: in_set_enumerate_eq image_iff intro!: bexI [of _ "(i, name)"])
  have "map fst stubs = names"
    by (rule nth_equalityI) (simp_all add: assms(1) nth_enumerate_eq)
  then have "map_of stubs name = Some (start + int i * 32)" using m assms(3) by (simp add: map_of_eq_Some_iff)
  then show thesis using that i m by blast
qed

lemma islands_apart:
  assumes "stubs = map (\<lambda>(index, name). (name, start + int index * 32)) (enumerate 0 names)"
  shows "apart_regions (island_region nbase) stubs"
  unfolding apart_regions_def assms sorted_wrt_map
  by (auto simp: sorted_wrt_iff_nth_less nth_enumerate_eq island_region_def field_region_def)

lemma rebuilt_call:
  assumes "foldR (retarget am stubs nbase) branches b1 = Inr b2"
    "\<forall>x \<in> set branches. confined_step (retarget am stubs nbase) (call_region am nbase) x"
    "apart_regions (call_region am nbase) branches" "(original, name) \<in> set branches" "stubs name = Some A"
    "\<And>pc. am original = Some pc \<Longrightarrow> 4 dvd A - pc \<and> nbase \<le> pc"
  obtains pc word word' where "am original = Some pc" "u32 b1 (pc - nbase) = Inr word" "u32 b2 (pc - nbase) = Inr word'"
    "pc + branch_disp word' * 4 = A" "word' AND 0xFC000000 = word AND 0xFC000000"
proof -
  obtain c d where cd: "retarget am stubs nbase (original, name) c = Inr d"
    "same_outside (\<lambda>k. \<not> call_region am nbase (original, name) k) b1 c"
    "same_outside (\<lambda>k. \<not> call_region am nbase (original, name) k) d b2"
    by (rule foldR_step [OF assms(1,4,2,3)])
  from cd(1) obtain pc where pc: "am original = Some pc" by (rule retarget_step)
  note ok = assms(6) [OF pc]
  have reg: "call_region am nbase (original, name) = field_region (pc - nbase) 4"
    by (auto simp: call_region_def pc)
  obtain word word' where "u32 c (pc - nbase) = Inr word" "u32 d (pc - nbase) = Inr word'"
    "pc + branch_disp word' * 4 = A" "word' AND 0xFC000000 = word AND 0xFC000000"
    using retarget_result [OF cd(1) assms(5) pc] ok by auto
  then show thesis
    using that [OF pc] u32_inside [OF cd(2) [unfolded reg]] u32_inside [OF cd(3) [unfolded reg]] ok by simp
qed

lemma rebuilt_island:
  assumes "foldR (put_island got sel nbase) stubs buf = Inr b1"
    "\<forall>x \<in> set stubs. confined_step (put_island got sel nbase) (island_region nbase) x"
    "apart_regions (island_region nbase) stubs" "(name, A) \<in> set stubs" "nbase \<le> A"
  obtains ws where "island_words got sel name A = Inr ws" "holds_at b1 (A - nbase) (le_words 4 ws)"
proof -
  obtain e f where ef: "put_island got sel nbase (name, A) e = Inr f"
    "same_outside (\<lambda>k. \<not> island_region nbase (name, A) k) f b1"
    by (rule foldR_step [OF assms(1,4,2,3)])
  obtain ws where ws: "island_words got sel name A = Inr ws" and h: "holds_at f (A - nbase) (le_words 4 ws)"
    using put_island_step(2) [OF assms(5) ef(1)] by blast
  have "holds_at b1 (A - nbase) (le_words 4 ws)"
    by (rule holds_at_agree [OF h agree_on_outside [OF ef(2)]])
       (use length_island_words [OF ws] in \<open>auto simp: island_region_def field_region_def\<close>)
  then show thesis using that ws by blast
qed

text \<open>
  C0: After \<^verbatim>\<open>rebuild_external_branches\<close> every recorded call, at its new place, keeps its opcode and
  branches exactly to the island of its symbol, the island holds that symbol's stub words, and nothing
  but the call words, the islands and the section headers of \<^verbatim>\<open>__TEXT\<close> has changed. The hypotheses say
  that the calls lie at different 4-byte places between the headers and the islands or behind them.
\<close>

theorem rebuild_external_branches_correct:
  assumes run: "rebuild_external_branches buf segments branches am got nbase sel = Inr buf'" and ne: "branches \<noteq> []"
    and tseg: "filter (\<lambda>s. seg_name s = ascii ''__TEXT'') segments = tx # rest" "0 \<le> lc_off tx"
    and ns: "u32 buf (lc_off tx + 64) = Inr ns"
    and sect: "find_section buf (lc_off tx) ns (ascii ''__auth_stubs'') = Inr (Some so, s0, sz)"
    and names: "names = sort (remdups (map snd branches))"
    and start: "start = (s0 + 15) AND NOT 15"
    and base: "hdr = lc_off tx + 72 + ns * 80" "hdr \<le> start - nbase"
    and sites: "apart_regions (call_region am nbase) branches"
      "\<forall>(original, name) \<in> set branches. \<forall>pc. am original = Some pc \<longrightarrow>
         4 dvd pc \<and> hdr \<le> pc - nbase \<and> (pc + 4 \<le> start \<or> start + int (length names) * 32 \<le> pc)"
  shows "(\<forall>(original, name) \<in> set branches. \<exists>pc index word word' words.
       am original = Some pc \<and> index < length names \<and> names ! index = name
     \<and> u32 buf (pc - nbase) = Inr word \<and> u32 buf' (pc - nbase) = Inr word'
     \<and> word' AND 0xFC000000 = word AND 0xFC000000
     \<and> pc + branch_disp word' * 4 = start + int index * 32
     \<and> island_words got sel name (start + int index * 32) = Inr words
     \<and> holds_at buf' (start + int index * 32 - nbase) (le_words 4 words))
   \<and> same_outside (\<lambda>k. lc_off tx + 72 \<le> int k \<and> int k < hdr
        \<or> field_region (start - nbase) (int (length names) * 32) k
        \<or> (\<exists>x \<in> set branches. call_region am nbase x k)) buf buf'"
proof -
  define stubs where "stubs = map (\<lambda>(index, name). (name, start + int index * 32)) (enumerate 0 names)"
  have n0: "0 \<le> ns" using unpack_u_bounds [OF ns] by simp
  have h0: "0 \<le> hdr" using base(1) n0 tseg(2) by simp
  have far: "\<forall>(original, name) \<in> set branches. \<forall>pc. am original = Some pc \<longrightarrow> lc_off tx + 72 + ns * 80 \<le> pc - nbase"
    using sites(2) unfolding base(1) by fastforce
  obtain b1 b2 where b1: "foldR (put_island got sel nbase) stubs buf = Inr b1"
    and b2: "foldR (retarget am (map_of stubs) nbase) branches b1 = Inr b2"
    and b3: "same_outside (\<lambda>k. lc_off tx + 72 \<le> int k \<and> int k < hdr) b2 buf'"
    unfolding base(1)
    by (rule rebuild_phases [OF run ne tseg ns sect names start stubs_def base(2) [unfolded base(1)] far])
  have conf1: "\<forall>x \<in> set stubs. confined_step (put_island got sel nbase) (island_region nbase) x"
    using base h0 by (auto simp: stubs_def intro!: put_island_step(1))
  have conf2: "\<forall>x \<in> set branches. confined_step (retarget am (map_of stubs) nbase) (call_region am nbase) x"
    using sites(2) h0 by (fastforce intro!: retarget_confined)
  have is1: "field_region (start - nbase) (int (length names) * 32) k" if "x \<in> set stubs" "island_region nbase x k" for x k
    using that by (auto simp: stubs_def in_set_enumerate_eq island_region_def field_region_def)
  have o1: "same_outside (field_region (start - nbase) (int (length names) * 32)) buf b1"
    by (rule same_outside_mono [OF foldR_confined [OF b1 conf1]]) (use is1 in blast)
  have o2: "same_outside (\<lambda>k. \<exists>x \<in> set branches. call_region am nbase x k) b1 b2"
    by (rule foldR_confined [OF b2 conf2])
  have each: "\<exists>pc index word word' words.
       am original = Some pc \<and> index < length names \<and> names ! index = name
     \<and> u32 buf (pc - nbase) = Inr word \<and> u32 buf' (pc - nbase) = Inr word'
     \<and> word' AND 0xFC000000 = word AND 0xFC000000
     \<and> pc + branch_disp word' * 4 = start + int index * 32
     \<and> island_words got sel name (start + int index * 32) = Inr words
     \<and> holds_at buf' (start + int index * 32 - nbase) (le_words 4 words)"
    if m: "(original, name) \<in> set branches" for original name
  proof -
    have "name \<in> set names" "distinct names" using m by (auto simp: names image_iff intro: bexI [of _ "(original, name)"])
    then obtain index where ix: "index < length names" "names ! index = name"
      and st: "map_of stubs name = Some (start + int index * 32)" and ms: "(name, start + int index * 32) \<in> set stubs"
      using island_stub_of [OF stubs_def] by blast
    let ?A = "start + int index * 32"
    have "4 dvd start" unfolding start by (rule align16_dvd)
    then have ok: "am original = Some pc \<Longrightarrow> 4 dvd ?A - pc \<and> nbase \<le> pc" for pc using sites(2) m h0 by fastforce
    obtain pc word word' where pc: "am original = Some pc" and w: "u32 b1 (pc - nbase) = Inr word"
      "u32 b2 (pc - nbase) = Inr word'" "pc + branch_disp word' * 4 = ?A" "word' AND 0xFC000000 = word AND 0xFC000000"
      by (rule rebuilt_call [OF b2 conf2 sites(1) m st ok])
    have site: "hdr \<le> pc - nbase" "pc + 4 \<le> start \<or> start + int (length names) * 32 \<le> pc"
      using sites(2) m pc by auto
    have w1: "u32 buf (pc - nbase) = Inr word"
      using same_outside_unpack_u [OF o1, of "pc - nbase" 4] site h0 w(1) by (auto simp: field_region_def)
    have w2: "u32 buf' (pc - nbase) = Inr word'"
      using same_outside_unpack_u [OF b3, of "pc - nbase" 4] site h0 w(2) by auto
    have A: "nbase \<le> ?A" using base h0 by simp
    obtain ws where ws: "island_words got sel name ?A = Inr ws" and h1: "holds_at b1 (?A - nbase) (le_words 4 ws)"
      by (rule rebuilt_island [OF b1 conf1 islands_apart [OF stubs_def] ms A])
    have lw: "length (le_words 4 ws) = 32" using length_island_words [OF ws] by simp
    have inn: "int (length names) * 32 \<ge> int index * 32 + 32" using ix(1) by linarith
    have h2: "holds_at b2 (?A - nbase) (le_words 4 ws)"
      by (rule holds_at_agree [OF h1 agree_on_outside [OF o2]])
         (use sites(2) lw inn in \<open>fastforce simp: call_region_def field_region_def split: option.splits\<close>)
    have h3: "holds_at buf' (?A - nbase) (le_words 4 ws)"
      by (rule holds_at_agree [OF h2 agree_on_outside [OF b3]]) (use base in auto)
    show ?thesis using pc ix w1 w2 w(3,4) ws h3 by blast
  qed
  let ?S = "\<lambda>k. lc_off tx + 72 \<le> int k \<and> int k < hdr \<or> field_region (start - nbase) (int (length names) * 32) k
        \<or> (\<exists>x \<in> set branches. call_region am nbase x k)"
  have "same_outside ?S buf buf'"
    by (rule same_outside_trans [OF same_outside_mono [OF o1] same_outside_trans [OF same_outside_mono [OF o2] same_outside_mono [OF b3]]]) auto
  then show ?thesis using each by auto
qed

text \<open>An island's \<^verbatim>\<open>ADRP\<close>/\<^verbatim>\<open>ADD\<close> pair computes the address of its slot.\<close>

lemma island_words_lead:
  assumes "island_words got sel name A = Inr ws" "got (ascii ''__branch.'' @ name) = Some slot"
    "adrp_near (A + 4 * int i) slot" "i = (if prefix (ascii ''_objc_msgSend$'') name then 2 else 0)"
  shows "adrp_target (ws ! i) (A + 4 * int i) + add_imm (ws ! (i + 1)) = slot"
    "ws ! (i + 2) = 0xF9400211" "ws ! (i + 3) = 0xD71F0A30"
proof -
  obtain pre where pre: "selector_words sel name A = Inr pre" "length pre = i"
    and ws: "ws = (pre @ [set_adrp 0x90000010 (A + int (length pre) * 4) slot, set_add_imm 0x91000210 (slot AND 0xFFF),
        0xF9400211, 0xD71F0A30]) @ replicate (8 - (length pre + 4)) 0xD503201F"
    using assms(1,2,4) by (auto simp: island_words_def selector_words_def lookup_key_def bindR_Inr_iff Let_def split: if_splits)
  have r: "- (2 ^ 32) \<le> page_base slot - page_base (A + 4 * int i)" "page_base slot - page_base (A + 4 * int i) < 2 ^ 32"
    using assms(3) by (auto simp: adrp_near_def)
  have l: "(slot AND 0xFFF) mod 4096 = slot mod 4096" by (simp add: imm_masks take_bit_eq_mod)
  have "page_base slot + slot mod 4096 = slot" by (simp add: page_base_eq)
  then show "adrp_target (ws ! i) (A + 4 * int i) + add_imm (ws ! (i + 1)) = slot"
    unfolding ws using pre(2) adrp_round_trip [OF r, of "0x90000010"] add_imm_set [of "0x91000210" "slot AND 0xFFF"]
    by (simp add: nth_append l mult.commute)
  show "ws ! (i + 2) = 0xF9400211" "ws ! (i + 3) = 0xD71F0A30"
    unfolding ws using pre(2) by (simp_all add: nth_append)
qed

subsection \<open>An image with one call\<close>

definition island_image :: bytes where
  "island_image = replicate 64 0 @ le_bytes 4 1 @ replicate 4 0
     @ ascii ''__auth_stubs'' @ replicate 20 0 @ le_bytes 8 0x10A0 @ replicate 40 0
     @ le_bytes 4 0x94000000 @ replicate 36 0"

definition island_segs :: "segment list" where
  "island_segs = [\<lparr>seg_name = ascii ''__TEXT'', vmaddr = 0x1000, vmsize = 0x4000, fileoff = 0, filesize = 192, lc_off = 0\<rparr>]"

definition island_am :: "int \<Rightarrow> int option" where
  "island_am a = (if a = 0x5000 then Some 0x1098 else None)"

lemma island_example:
  "is_ok (rebuild_external_branches island_image island_segs [(0x5000, ascii ''_f'')] island_am (\<lambda>_. Some 0x3000) 0x1000 (\<lambda>_. None))"
  "u32 island_image 64 = Inr 1"
  "find_section island_image 0 1 (ascii ''__auth_stubs'') = Inr (Some 72, 0x10A0, 0)"
  "filter (\<lambda>s. seg_name s = ascii ''__TEXT'') island_segs = [island_segs ! 0]"
  "lc_off (island_segs ! 0) = 0"
  "sort (remdups (map snd [(0x5000 :: int, ascii ''_f'')])) = [ascii ''_f'']"
  by code_simp+

lemma rebuild_external_branches_correct_witness:
  "\<exists>buf' word'. rebuild_external_branches island_image island_segs [(0x5000, ascii ''_f'')] island_am (\<lambda>_. Some 0x3000) 0x1000 (\<lambda>_. None) = Inr buf'
     \<and> u32 buf' 152 = Inr word' \<and> 0x1098 + branch_disp word' * 4 = 0x10A0"
proof -
  obtain buf' where run: "rebuild_external_branches island_image island_segs [(0x5000, ascii ''_f'')] island_am (\<lambda>_. Some 0x3000) 0x1000 (\<lambda>_. None) = Inr buf'"
    using island_example(1) by (auto simp: is_ok_iff)
  have s: "(0x10A0 + 15) AND NOT (15 :: int) = 0x10A0" by simp
  show ?thesis
    using rebuild_external_branches_correct [OF run _ island_example(4) _ _ _ island_example(6) [symmetric] s [symmetric], of 1 72 0 152]
      island_example(2,3,5) run
    by (auto simp: island_am_def apart_regions_def)
qed

end
