(* ===== verification/Eh_Tables.thy ===== *)
theory Eh_Tables
  imports Auth_Stubs Export_Trie Branch_Islands
begin

text \<open>
  The exception tables of \<^verbatim>\<open>uncache.py\<close>: the personality routines of \<^verbatim>\<open>__unwind_info\<close>
  (\<^verbatim>\<open>collect_unwind_personalities\<close>, \<^verbatim>\<open>rewrite_unwind_personalities\<close>) and the catch-type references of
  the LSDA tables (\<^verbatim>\<open>collect_lsda_type_refs\<close>, \<^verbatim>\<open>rewrite_lsda_type_refs\<close>). The symbol lookup is the
  parameter \<open>a2s\<close>, as for the branch islands.
\<close>

subsection \<open>Personalities\<close>

definition text_base :: "segment list \<Rightarrow> int res" where
  "text_base osegs =
     (case filter (\<lambda>s. seg_name s = ascii ''__TEXT'') osegs of [] \<Rightarrow> Inl Stop_Iteration | s # _ \<Rightarrow> Inr (vmaddr s))"

definition collect_unwind_personalities ::
    "(int list \<Rightarrow> int \<Rightarrow> bytes option) \<Rightarrow> bytes \<Rightarrow> bytes option list res" where
  "collect_unwind_personalities a2s buf =
     bindR (parse_segments buf) (\<lambda>(osegs, _, _).
     bindR (text_base osegs) (\<lambda>base.
     bindR (find_sect buf (ascii ''__unwind_info'')) (\<lambda>s.
     case s of None \<Rightarrow> Inr []
     | Some (_, _, fo) \<Rightarrow>
         bindR (u32x2 buf (fo + 12)) (\<lambda>(pao, pac).
         bindR (mapR (\<lambda>i. bindR (u32 buf (fo + pao + int i * 4)) (\<lambda>v. Inr (base + v))) [0..<nat pac]) (\<lambda>targets.
         Inr (map (stub_name (a2s targets)) targets))))))"

definition put_personality ::
    "(bytes \<Rightarrow> int option) \<Rightarrow> int \<Rightarrow> int \<Rightarrow> int \<Rightarrow> nat \<times> bytes option \<Rightarrow> bytes \<times> int \<Rightarrow> (bytes \<times> int) res" where
  "put_personality got_slot nbase base pac = (\<lambda>(i, symbol) (buf, n).
     case (if int i < pac then Option.bind symbol got_slot else None) of
       None \<Rightarrow> Inr (buf, n)
     | Some slot \<Rightarrow> bindR (p32 buf (base + int i * 4) (slot - nbase)) (\<lambda>buf. Inr (buf, n + 1)))"

definition rewrite_unwind_personalities ::
    "bytes \<Rightarrow> bytes option list \<Rightarrow> (bytes \<Rightarrow> int option) \<Rightarrow> int \<Rightarrow> (bytes \<times> int) res" where
  "rewrite_unwind_personalities buf syms got_slot nbase =
     bindR (find_sect buf (ascii ''__unwind_info'')) (\<lambda>s.
     case s of None \<Rightarrow> Inr (buf, 0)
     | Some (_, _, fo) \<Rightarrow>
         bindR (u32x2 buf (fo + 12)) (\<lambda>(pao, pac).
         foldR (put_personality got_slot nbase (fo + pao) pac) (enumerate 0 syms) (buf, 0)))"

subsection \<open>The LSDA tables\<close>

definition va_to_off :: "segment list \<Rightarrow> int \<Rightarrow> int res" where
  "va_to_off osegs a =
     (case find (\<lambda>s. vmaddr s \<le> a \<and> a < vmaddr s + filesize s) osegs of
        None \<Rightarrow> Inl Value_Error | Some s \<Rightarrow> Inr (fileoff s + a - vmaddr s))"

definition off_to_va :: "segment list \<Rightarrow> int \<Rightarrow> int res" where
  "off_to_va osegs off =
     (case find (\<lambda>s. fileoff s \<le> off \<and> off < fileoff s + filesize s) osegs of
        None \<Rightarrow> Inl Value_Error | Some s \<Rightarrow> Inr (vmaddr s + off - fileoff s))"

text \<open>The second-level LSDA index: pairs of function and LSDA offset between two index entries.\<close>

definition lsda_entry :: "bytes \<Rightarrow> int \<Rightarrow> int list \<Rightarrow> int list res" where
  "lsda_entry buf entry offs = bindR (u32x2 buf entry) (\<lambda>(_, lsda_offset). Inr (if lsda_offset \<noteq> 0 then offs @ [lsda_offset] else offs))"

fun lsda_pages :: "bytes \<Rightarrow> int \<Rightarrow> int list \<Rightarrow> int list \<Rightarrow> int list res" where
  "lsda_pages buf unwind_off (first # limit # rest) offs =
     bindR (if first = 0 \<or> limit < first then Inr offs
            else foldR (\<lambda>k. lsda_entry buf (unwind_off + first + 8 * int k)) [0..<nat ((limit - first + 7) div 8)] offs)
       (lsda_pages buf unwind_off (limit # rest))"
| "lsda_pages buf unwind_off _ offs = Inr offs"

definition lsda_offsets :: "bytes \<Rightarrow> int \<Rightarrow> int list res" where
  "lsda_offsets buf unwind_off =
     bindR (unpack_us [4, 4, 4, 4, 4, 4, 4] buf unwind_off) (\<lambda>h.
     bindR (mapR (\<lambda>i. bindR (unpack_us [4, 4, 4] buf (unwind_off + h ! 5 + int i * 12)) (\<lambda>e. Inr (e ! 2)))
       [0..<nat (h ! 6)]) (\<lambda>indices.
     lsda_pages buf unwind_off indices []))"

definition read_byte :: "bytes \<Rightarrow> int \<Rightarrow> int res" where
  "read_byte buf off = bindR (py_index buf off) (\<lambda>b. Inr (uint b))"

text \<open>The header of one LSDA: where its type table ends (\<open>None\<close> without one), the encoding and the end of
  its call-site table, and where that table starts.\<close>

definition lsda_header :: "bytes \<Rightarrow> int \<Rightarrow> (int \<times> int option \<times> int \<times> int \<times> int) res" where
  "lsda_header buf off =
     bindR (read_byte buf off) (\<lambda>lpstart_encoding.
     let off = off + 1 in
     bindR (if lpstart_encoding \<noteq> 0xFF then bindR (read_eh_value buf off lpstart_encoding) (\<lambda>(_, off). Inr off)
            else Inr off) (\<lambda>off.
     bindR (read_byte buf off) (\<lambda>type_encoding.
     let off = off + 1 in
     bindR (if type_encoding = 0xFF then Inr (None, off)
            else bindR (read_uleb buf off) (\<lambda>(delta, off). Inr (Some (off + delta), off))) (\<lambda>(type_table_end, off).
     bindR (read_byte buf off) (\<lambda>call_site_encoding.
     bindR (read_uleb buf (off + 1)) (\<lambda>(call_site_length, off).
     Inr (type_encoding, type_table_end, call_site_encoding, off + call_site_length, off)))))))"

definition call_site :: "bytes \<Rightarrow> int \<Rightarrow> int \<Rightarrow> (int \<times> int) res" where
  "call_site buf enc off =
     bindR (read_eh_value buf off enc) (\<lambda>(_, off).
     bindR (read_eh_value buf off enc) (\<lambda>(_, off).
     bindR (read_eh_value buf off enc) (\<lambda>(_, off).
     read_uleb buf off)))"

lemma call_site_forward: "call_site buf enc off = Inr (a, off') \<Longrightarrow> off < off'"
  by (auto simp: call_site_def bindR_Inr_iff dest!: read_eh_value_forward read_uleb_forward)

function call_sites :: "bytes \<Rightarrow> int \<Rightarrow> int \<Rightarrow> int \<Rightarrow> int list \<Rightarrow> (int list \<times> int) res" where
  "call_sites buf enc stop off actions =
     (if off < stop
      then bindR (call_site buf enc off) (\<lambda>x.
           call_sites buf enc stop (snd x) (if fst x \<noteq> 0 then actions @ [fst x] else actions))
      else Inr (actions, off))"
  by pat_completeness auto
termination
proof (relation "measure (\<lambda>(buf, enc, stop, off, actions). nat (stop - off))", goal_cases)
  case (2 buf enc stop off actions x)
  then show ?case using call_site_forward [of buf enc off "fst x" "snd x"] by simp
qed simp

declare call_sites.simps [simp del]

text \<open>One action record: its type filter and the record it chains to.\<close>

definition action_entry :: "bytes \<Rightarrow> int \<Rightarrow> (int \<times> int option) res" where
  "action_entry buf entry =
     bindR (read_sleb buf entry) (\<lambda>(type_filter, next_field).
     bindR (read_sleb buf next_field) (\<lambda>(next_offset, _).
     Inr (type_filter, if next_offset \<noteq> 0 then Some (next_field + next_offset) else None)))"

lemma action_entry_range: "action_entry buf e = Inr x \<Longrightarrow> - int (length buf) \<le> e \<and> e < int (length buf)"
proof -
  assume "action_entry buf e = Inr x"
  then obtain y where "sleb_loop buf e 0 0 = Inr y" unfolding action_entry_def read_sleb_def by (rule bindE)
  then obtain b where "py_index buf e = Inr b" by (subst (asm) sleb_loop.simps) (auto simp: bindR_Inr_iff)
  then show ?thesis by (rule py_index_less)
qed

text \<open>The walk over the records: \<open>pending\<close> is the code's list with its end first.\<close>

function walk_actions :: "bytes \<Rightarrow> int list \<Rightarrow> int list \<Rightarrow> int \<Rightarrow> int res" where
  "walk_actions buf [] visited m = Inr m"
| "walk_actions buf (e # pending) visited m =
     (if e \<in> set visited then walk_actions buf pending visited m
      else bindR (action_entry buf e) (\<lambda>x.
           walk_actions buf ((case snd x of None \<Rightarrow> [] | Some e' \<Rightarrow> [e']) @ pending) (e # visited)
             (if fst x > m then fst x else m)))"
  by pat_completeness auto
termination
proof (relation "measures [\<lambda>(buf, pending, visited, m). unseen buf visited, \<lambda>(buf, pending, visited, m). length pending]", goal_cases)
  case (3 buf e pending visited m x)
  then show ?case using unseen_step [of buf e visited buf] action_entry_range [of buf e x] by simp
qed auto

definition type_width :: "int \<Rightarrow> int option" where
  "type_width type_encoding =
     (let form = type_encoding AND 0x0F in
      if form \<in> {0x03, 0x0B} then Some 4 else if form \<in> {0x04, 0x0C} then Some 8 else None)"

definition type_ref :: "bytes \<Rightarrow> segment list \<Rightarrow> int \<Rightarrow> int \<Rightarrow> int \<Rightarrow> (int \<times> int \<times> int) res" where
  "type_ref buf osegs type_table_end width type_index =
     (let field_off = type_table_end - type_index * width in
      bindR (if width = 4 then i32 buf field_off else i64 buf field_off) (\<lambda>relative.
      bindR (off_to_va osegs field_off) (\<lambda>field_va.
      Inr (field_va, field_va + relative, width))))"

definition lsda_refs :: "bytes \<Rightarrow> segment list \<Rightarrow> int \<Rightarrow> int \<Rightarrow> (int \<times> int \<times> int) list res" where
  "lsda_refs buf osegs image_base lsda_offset =
     bindR (va_to_off osegs (image_base + lsda_offset)) (\<lambda>off.
     bindR (lsda_header buf off) (\<lambda>(type_encoding, type_table_end, call_site_encoding, call_site_end, off).
     bindR (call_sites buf call_site_encoding call_site_end off []) (\<lambda>(actions, off).
     case (if off \<noteq> call_site_end then None else type_table_end) of
       None \<Rightarrow> Inr []
     | Some table_end \<Rightarrow>
         bindR (walk_actions buf (rev (map (\<lambda>a. call_site_end + a - 1) actions)) [] 0) (\<lambda>max_type_index.
         case type_width type_encoding of
           None \<Rightarrow> if max_type_index \<noteq> 0 then Inl Value_Error else Inr []
         | Some width \<Rightarrow>
             if max_type_index \<noteq> 0 \<and> type_encoding AND 0x70 \<noteq> 0x10 then Inl Value_Error
             else mapR (\<lambda>i. type_ref buf osegs table_end width (int i)) [1..<nat max_type_index + 1]))))"

definition lsda_ref_symbol ::
    "(int \<Rightarrow> bytes option) \<Rightarrow> int list \<Rightarrow> int \<times> int \<times> int \<Rightarrow> (int \<times> int \<times> bytes option \<times> int) res" where
  "lsda_ref_symbol symbols external = (\<lambda>(field, target, width).
     let symbol = stub_name symbols target in
     if target \<in> set external \<and> symbol = None then Inl Value_Error else Inr (field, target, symbol, width))"

definition collect_lsda_type_refs ::
    "(int list \<Rightarrow> int \<Rightarrow> bytes option) \<Rightarrow> bytes \<Rightarrow> (int \<times> int \<times> bytes option \<times> int) list res" where
  "collect_lsda_type_refs a2s buf =
     bindR (find_sect buf (ascii ''__unwind_info'')) (\<lambda>unwind.
     case unwind of None \<Rightarrow> Inr []
     | Some (_, unwind_size, unwind_off) \<Rightarrow>
         if unwind_size < 28 then Inr [] else
         bindR (parse_segments buf) (\<lambda>(osegs, _, _).
         let image_base = Min (set (map vmaddr osegs)) in
         bindR (lsda_offsets buf unwind_off) (\<lambda>offs.
         bindR (mapR (lsda_refs buf osegs image_base) (sort (remdups offs))) (\<lambda>refss.
         let raw = concat refss;
             external = sort (remdups (filter (\<lambda>t. \<not> in_segments osegs t) (map (\<lambda>(_, t, _). t) raw)))
         in mapR (lsda_ref_symbol (a2s external) external) raw))))"

definition put_lsda_ref ::
    "(int \<Rightarrow> int option) \<Rightarrow> (bytes \<Rightarrow> int option) \<Rightarrow> int \<Rightarrow> int \<times> int \<times> bytes option \<times> int \<Rightarrow> bytes \<Rightarrow> bytes res" where
  "put_lsda_ref am got_slot nbase = (\<lambda>(old_field, old_target, symbol, width) buf.
     case (am old_field, case symbol of Some s \<Rightarrow> got_slot s | None \<Rightarrow> am old_target) of
       (Some new_field, Some new_target) \<Rightarrow>
         (let relative = new_target - new_field in
          if width = 4 \<and> \<not> (- push_bit 31 1 \<le> relative \<and> relative < push_bit 31 1) then Inl Value_Error
          else if width = 4 then pi32 buf (new_field - nbase) relative
          else pi64 buf (new_field - nbase) relative)
     | _ \<Rightarrow> Inl Value_Error)"

definition rewrite_lsda_type_refs ::
    "bytes \<Rightarrow> (int \<times> int \<times> bytes option \<times> int) list \<Rightarrow> (int \<Rightarrow> int option) \<Rightarrow> (bytes \<Rightarrow> int option) \<Rightarrow> int
     \<Rightarrow> (bytes \<times> int) res" where
  "rewrite_lsda_type_refs buf refs am got_slot nbase =
     bindR (foldR (put_lsda_ref am got_slot nbase) refs buf) (\<lambda>buf. Inr (buf, int (length refs)))"

subsection \<open>The walk computes the greatest reachable filter\<close>

text \<open>The records an exception may reach from the actions of the call sites.\<close>

inductive action_reach :: "bytes \<Rightarrow> int list \<Rightarrow> int \<Rightarrow> bool" for buf starts where
  start: "e \<in> set starts \<Longrightarrow> action_reach buf starts e"
| chain: "action_reach buf starts e \<Longrightarrow> action_entry buf e = Inr (f, Some e') \<Longrightarrow> action_reach buf starts e'"

lemma action_reach_mono: "action_reach buf xs e \<Longrightarrow> (\<And>x. x \<in> set xs \<Longrightarrow> action_reach buf ys x) \<Longrightarrow> action_reach buf ys e"
  by (induction rule: action_reach.induct) (auto intro: action_reach.chain)

text \<open>A set of records that is closed under chaining and whose filters are at most \<open>m\<close>.\<close>

definition records_below :: "bytes \<Rightarrow> int set \<Rightarrow> int set \<Rightarrow> int \<Rightarrow> bool" where
  "records_below buf V W m \<longleftrightarrow>
     (\<forall>v \<in> V. \<exists>f n. action_entry buf v = Inr (f, n) \<and> f \<le> m \<and> (\<forall>e'. n = Some e' \<longrightarrow> e' \<in> W))"

lemma records_below_mono: "records_below buf V W m \<Longrightarrow> m \<le> m' \<Longrightarrow> W \<subseteq> W' \<Longrightarrow> records_below buf V W' m'"
  unfolding records_below_def by (meson order_trans subsetD)

lemma records_below_insert:
  "records_below buf (insert v V) W m \<longleftrightarrow>
     (\<exists>f n. action_entry buf v = Inr (f, n) \<and> f \<le> m \<and> (\<forall>e'. n = Some e' \<longrightarrow> e' \<in> W)) \<and> records_below buf V W m"
  by (simp add: records_below_def)

definition walked :: "bytes \<Rightarrow> int list \<Rightarrow> int list \<Rightarrow> int \<Rightarrow> int \<Rightarrow> int set \<Rightarrow> bool" where
  "walked buf pending visited m m' V \<longleftrightarrow>
     set visited \<union> set pending \<subseteq> V \<and> records_below buf V V m' \<and> m \<le> m'
     \<and> (\<forall>v \<in> V. v \<in> set visited \<or> action_reach buf pending v)
     \<and> (m' = m \<or> (\<exists>v n. action_reach buf pending v \<and> action_entry buf v = Inr (m', n)))"

lemma walk_actions_walked:
  "walk_actions buf pending visited m = Inr m' \<Longrightarrow> records_below buf (set visited) (set visited \<union> set pending) m \<Longrightarrow>
   \<exists>V. walked buf pending visited m m' V"
proof (induction buf pending visited m arbitrary: m' rule: walk_actions.induct)
  case (1 buf visited m)
  then show ?case by (intro exI [of _ "set visited"]) (simp add: walked_def)
next
  case (2 buf e pending visited m)
  show ?case
  proof (cases "e \<in> set visited")
    case True
    then have "records_below buf (set visited) (set visited \<union> set pending) m"
      using "2.prems"(2) by (simp add: insert_absorb)
    then obtain V where V: "walked buf pending visited m m' V" using "2.IH"(1) [OF True] "2.prems"(1) True by auto
    have "action_reach buf (e # pending) v" if "action_reach buf pending v" for v
      using action_reach_mono [OF that] by (simp add: action_reach.start)
    then have "walked buf (e # pending) visited m m' V" using V True unfolding walked_def by auto
    then show ?thesis by blast
  next
    case False
    then obtain f n where a: "action_entry buf e = Inr (f, n)"
      and r: "walk_actions buf ((case n of None \<Rightarrow> [] | Some e' \<Rightarrow> [e']) @ pending) (e # visited) (if f > m then f else m) = Inr m'"
      using "2.prems"(1) False by (auto simp: bindR_Inr_iff cong: if_cong)
    let ?p = "(case n of None \<Rightarrow> [] | Some e' \<Rightarrow> [e']) @ pending" and ?m = "if f > m then f else m"
    have "records_below buf (set (e # visited)) (set (e # visited) \<union> set ?p) ?m"
    proof -
      have "records_below buf (set visited) (set (e # visited) \<union> set ?p) ?m"
        by (rule records_below_mono [OF "2.prems"(2)]) auto
      moreover have "\<forall>e'. n = Some e' \<longrightarrow> e' \<in> set (e # visited) \<union> set ?p" by auto
      ultimately show ?thesis using a unfolding list.set(2) [of e visited] records_below_insert by auto
    qed
    then obtain V where V: "walked buf ?p (e # visited) ?m m' V" using "2.IH"(2) [OF False a, unfolded fst_conv snd_conv, OF r] by blast
    have s: "action_reach buf (e # pending) e" by (simp add: action_reach.start)
    have rr: "action_reach buf (e # pending) v" if "action_reach buf ?p v" for v
      using that by (rule action_reach_mono)
        (use a s in \<open>auto intro: action_reach.start action_reach.chain split: option.splits\<close>)
    have "m' = m \<or> (\<exists>v n. action_reach buf (e # pending) v \<and> action_entry buf v = Inr (m', n))"
      using V a s rr unfolding walked_def by (cases "m' = ?m") (auto split: if_splits)
    then have "walked buf (e # pending) visited m m' V"
      using V s rr unfolding walked_def by (auto split: if_splits)
    then show ?thesis by blast
  qed
qed

text \<open>C13: The walk over the action records, which always ends, returns the greatest positive type filter among
  the records that can be reached from the call sites' actions, or 0 when there is none.\<close>

theorem walk_actions_max:
  assumes "walk_actions buf starts [] 0 = Inr m"
  shows "(\<forall>e. action_reach buf starts e \<longrightarrow> (\<exists>f n. action_entry buf e = Inr (f, n) \<and> f \<le> m))
    \<and> 0 \<le> m \<and> (m = 0 \<or> (\<exists>e n. action_reach buf starts e \<and> action_entry buf e = Inr (m, n)))"
proof -
  obtain V where V: "walked buf starts [] 0 m V"
    using walk_actions_walked [OF assms] by (auto simp: records_below_def)
  have "e \<in> V" if "action_reach buf starts e" for e
    using that
  proof (induction rule: action_reach.induct)
    case (start e)
    then show ?case using V by (auto simp: walked_def)
  next
    case (chain e f e')
    then show ?case using V by (fastforce simp: walked_def records_below_def)
  qed
  then have "\<forall>e. action_reach buf starts e \<longrightarrow> (\<exists>f n. action_entry buf e = Inr (f, n) \<and> f \<le> m)"
    using V by (fastforce simp: walked_def records_below_def)
  then show ?thesis using V by (auto simp: walked_def)
qed

text \<open>Two records that chain to each other, with filters 1 and 2.\<close>

definition loop_records :: bytes where
  "loop_records = [0x01, 0x01, 0x02, 0x7D]"

lemma walk_actions_max_witness:
  "walk_actions loop_records [0] [] 0 = Inr 2
   \<and> (\<exists>f n. action_entry loop_records 2 = Inr (f, n) \<and> f \<le> 2)"
proof -
  have w: "walk_actions loop_records [0] [] 0 = Inr 2" and e: "action_entry loop_records 0 = Inr (1, Some 2)" by code_simp+
  have "action_reach loop_records [0] 0" by (rule action_reach.start) simp
  then have "action_reach loop_records [0] 2" using e by (rule action_reach.chain)
  then show ?thesis using w walk_actions_max [OF w] by blast
qed

subsection \<open>The rewritten references\<close>

definition ref_size :: "int \<Rightarrow> nat" where
  "ref_size width = (if width = 4 then 4 else 8)"

definition ref_region :: "(int \<Rightarrow> int option) \<Rightarrow> int \<Rightarrow> int \<times> int \<times> bytes option \<times> int \<Rightarrow> nat \<Rightarrow> bool" where
  "ref_region am nbase = (\<lambda>(field, target, symbol, width) k.
     case am field of None \<Rightarrow> False | Some nf \<Rightarrow> field_region (nf - nbase) (int (ref_size width)) k)"

definition ref_target :: "(int \<Rightarrow> int option) \<Rightarrow> (bytes \<Rightarrow> int option) \<Rightarrow> int \<Rightarrow> bytes option \<Rightarrow> int option" where
  "ref_target am got target symbol = (case symbol of Some s \<Rightarrow> got s | None \<Rightarrow> am target)"

lemma put_lsda_ref_cases:
  assumes "put_lsda_ref am got nbase (field, target, symbol, width) b = Inr c"
  obtains nf nt where "am field = Some nf" "ref_target am got target symbol = Some nt"
    "pack_s (ref_size width) b (nf - nbase) (nt - nf) = Inr c"
  using assms
  by (auto simp: put_lsda_ref_def ref_target_def ref_size_def Let_def split: option.splits if_splits)

lemma put_lsda_ref_confined:
  assumes "\<And>nf. am field = Some nf \<Longrightarrow> nbase \<le> nf"
  shows "confined_step (put_lsda_ref am got nbase) (ref_region am nbase) (field, target, symbol, width)"
  unfolding confined_step_def
proof (intro allI impI)
  fix b c assume "put_lsda_ref am got nbase (field, target, symbol, width) b = Inr c"
  then obtain nf nt where nf: "am field = Some nf" and p: "pack_s (ref_size width) b (nf - nbase) (nt - nf) = Inr c"
    by (rule put_lsda_ref_cases)
  then show "same_outside (ref_region am nbase (field, target, symbol, width)) b c"
    using same_outside_pack_s [OF p] assms [OF nf] by (simp add: ref_region_def field_region_def nf)
qed

text \<open>C14: After \<^verbatim>\<open>rewrite_lsda_type_refs\<close> every catch-type field, read back as the signed distance the unwinder
  adds to the field's own address, leads to the rebuilt slot of its symbol or to the moved target, and
  no byte outside the fields has changed. The fields are assumed not to overlap.\<close>

theorem rewrite_lsda_type_refs_correct:
  assumes run: "rewrite_lsda_type_refs buf refs am got nbase = Inr (buf', n)"
    and apart: "apart_regions (ref_region am nbase) refs"
    and above: "\<forall>(field, target, symbol, width) \<in> set refs. \<forall>nf. am field = Some nf \<longrightarrow> nbase \<le> nf"
  shows "(\<forall>(field, target, symbol, width) \<in> set refs. \<exists>nf nt r. am field = Some nf
            \<and> ref_target am got target symbol = Some nt
            \<and> unpack_s (ref_size width) buf' (nf - nbase) = Inr r \<and> nf + r = nt)
       \<and> n = int (length refs)
       \<and> same_outside (\<lambda>k. \<exists>ref \<in> set refs. ref_region am nbase ref k) buf buf'"
proof -
  from run have f: "foldR (put_lsda_ref am got nbase) refs buf = Inr buf'" and n: "n = int (length refs)"
    by (auto simp: rewrite_lsda_type_refs_def bindR_Inr_iff)
  have conf: "\<forall>x \<in> set refs. confined_step (put_lsda_ref am got nbase) (ref_region am nbase) x"
    using above by (fastforce intro: put_lsda_ref_confined)
  have "\<exists>nf nt r. am field = Some nf \<and> ref_target am got target symbol = Some nt
            \<and> unpack_s (ref_size width) buf' (nf - nbase) = Inr r \<and> nf + r = nt"
    if m: "(field, target, symbol, width) \<in> set refs" for field target symbol width
  proof -
    obtain c d where cd: "put_lsda_ref am got nbase (field, target, symbol, width) c = Inr d"
      "same_outside (\<lambda>k. \<not> ref_region am nbase (field, target, symbol, width) k) d buf'"
      by (rule foldR_step [OF f m conf apart])
    from cd(1) obtain nf nt where nf: "am field = Some nf" "ref_target am got target symbol = Some nt"
      and p: "pack_s (ref_size width) c (nf - nbase) (nt - nf) = Inr d"
      by (rule put_lsda_ref_cases)
    have "0 \<le> nf - nbase" using above m nf(1) by auto
    then have "unpack_u (ref_size width) buf' (nf - nbase) = unpack_u (ref_size width) d (nf - nbase)"
      by (intro same_outside_unpack_u [OF cd(2)]) (auto simp: ref_region_def field_region_def nf(1))
    then have "unpack_s (ref_size width) buf' (nf - nbase) = unpack_s (ref_size width) d (nf - nbase)"
      by (simp add: unpack_s_def)
    also have "\<dots> = Inr (nt - nf)" by (rule unpack_s_pack_s_same [OF p]) (simp add: ref_size_def)
    finally show ?thesis using nf by auto
  qed
  then show ?thesis using foldR_confined [OF f conf] n by auto
qed

lemma rewrite_lsda_type_refs_correct_witness:
  "\<exists>buf' r. rewrite_lsda_type_refs (zeros 24) [(0x100, 0x9000, Some (ascii ''_E''), 4), (0x108, 0x110, None, 8)] Some
       (\<lambda>_. Some 0x80) 0x100 = Inr (buf', 2)
     \<and> i32 buf' 0 = Inr r \<and> 0x100 + r = 0x80"
proof -
  let ?refs = "[(0x100, 0x9000, Some (ascii ''_E''), 4), (0x108, 0x110, None, 8)]"
  have "is_ok (rewrite_lsda_type_refs (zeros 24) ?refs Some (\<lambda>_. Some 0x80) 0x100)" by code_simp
  then obtain buf' n where run: "rewrite_lsda_type_refs (zeros 24) ?refs Some (\<lambda>_. Some 0x80) 0x100 = Inr (buf', n)"
    by (auto simp: is_ok_iff)
  show ?thesis
    using rewrite_lsda_type_refs_correct [OF run] run
    by (auto simp: apart_regions_def ref_region_def field_region_def ref_size_def ref_target_def)
qed

end
