(* ===== verification/Adrp_Flow.thy ===== *)
theory Adrp_Flow
  imports Arm64 Layout "HOL-Library.AList" "HOL-Library.Product_Lexorder" "HOL-Library.While_Combinator"
begin

text \<open>
  \<^verbatim>\<open>rewrite_adrp\<close> of \<^verbatim>\<open>uncache.py\<close>: a worklist data-flow analysis over the code of \<^verbatim>\<open>__TEXT\<close> that tracks
  which \<^verbatim>\<open>ADRP\<close> every register comes from, and rewrites page immediates and low offsets whose targets
  moved by another distance than the code itself. The disassembler (capstone) is a parameter: \<open>disasm\<close>
  gives the instruction at an address, if it decodes, and \<open>reg_name\<close> the name of a register. The debug
  traces of the source, which only print, are left out.
\<close>

subsection \<open>Instructions as capstone reports them\<close>

datatype operand = OReg int | OImm int | OMem int int | OOther

record insn =
  ins_address :: int
  mnemonic :: string
  operands :: "operand list"
  regs_written :: "int list"

text \<open>\<^verbatim>\<open>_is_caller_saved\<close>: \<^verbatim>\<open>x0\<close> to \<^verbatim>\<open>x18\<close>.\<close>

definition digit_val :: "char \<Rightarrow> int" where
  "digit_val c = int (of_char c :: nat) - 48"

definition is_digits :: "string \<Rightarrow> bool" where
  "is_digits s \<longleftrightarrow> s \<noteq> [] \<and> list_all (\<lambda>c. 0 \<le> digit_val c \<and> digit_val c \<le> 9) s"

definition dec_int :: "string \<Rightarrow> int" where
  "dec_int s = foldl (\<lambda>n c. 10 * n + digit_val c) 0 s"

fun dec_string :: "nat \<Rightarrow> string" where
  "dec_string n = (if n < 10 then [char_of (48 + n)] else dec_string (n div 10) @ [char_of (48 + n mod 10)])"

declare dec_string.simps [simp del]

definition is_caller_saved :: "(int \<Rightarrow> string) \<Rightarrow> int \<Rightarrow> bool" where
  "is_caller_saved reg_name rid =
     (case reg_name rid of [] \<Rightarrow> False | c # rest \<Rightarrow> c = CHR ''x'' \<and> is_digits rest \<and> dec_int rest \<le> 18)"

subsection \<open>Register states\<close>

text \<open>Per register, the page of its \<^verbatim>\<open>ADRP\<close>s and their (address, file offset) pairs, sorted.\<close>

type_synonym adrp_defs = "(int \<times> int) list"
type_synonym regs = "(int \<times> (int \<times> adrp_defs)) list"

definition merge_defs :: "adrp_defs \<Rightarrow> adrp_defs \<Rightarrow> adrp_defs" where
  "merge_defs ds ds' = sort (remdups (ds @ ds'))"

definition merge_entry :: "regs \<Rightarrow> int \<times> (int \<times> adrp_defs) \<Rightarrow> regs" where
  "merge_entry state = (\<lambda>(reg, previous_page, previous_defs).
     case map_of state reg of
       None \<Rightarrow> []
     | Some (current_page, current_defs) \<Rightarrow>
         if previous_page \<noteq> current_page then []
         else [(reg, previous_page, merge_defs previous_defs current_defs)])"

definition merge_regs :: "regs \<Rightarrow> regs \<Rightarrow> regs" where
  "merge_regs previous state = concat (map (merge_entry state) previous)"

definition same_regs :: "regs \<Rightarrow> regs \<Rightarrow> bool" where
  "same_regs a b \<longleftrightarrow> (\<forall>r \<in> set (map fst (a @ b)). map_of a r = map_of b r)"

definition drop_regs :: "(int \<Rightarrow> bool) \<Rightarrow> regs \<Rightarrow> regs" where
  "drop_regs P state = filter (\<lambda>(r, _). \<not> P r) state"

text \<open>\<^verbatim>\<open>merge_state\<close>: \<open>n\<close> is the number of instructions of the section; positions are multiples of 4.\<close>

definition in_section :: "nat \<Rightarrow> int \<Rightarrow> bool" where
  "in_section n pos \<longleftrightarrow> 0 \<le> pos \<and> pos mod 4 = 0 \<and> pos div 4 < int n"

type_synonym flow = "(int \<Rightarrow> regs option) \<times> int list"

definition merge_state :: "nat \<Rightarrow> regs \<Rightarrow> int \<Rightarrow> flow \<Rightarrow> flow" where
  "merge_state n state pos = (\<lambda>(incoming, work).
     if \<not> in_section n pos then (incoming, work)
     else case incoming pos of
       None \<Rightarrow> (incoming(pos \<mapsto> state), pos # work)
     | Some previous \<Rightarrow>
         (let merged = merge_regs previous state in
          if same_regs merged previous then (incoming, work) else (incoming(pos \<mapsto> merged), pos # work)))"

subsection \<open>What an instruction does to the registers\<close>

definition starts_with :: "string \<Rightarrow> string \<Rightarrow> bool" where
  "starts_with s pre = (take (length pre) s = pre)"

fun first_mem :: "operand list \<Rightarrow> (int \<times> int) option" where
  "first_mem [] = None"
| "first_mem (OMem b d # _) = Some (b, d)"
| "first_mem (_ # os) = first_mem os"

definition consumer_operand :: "insn \<Rightarrow> (int \<times> int) option" where
  "consumer_operand ins =
     (case (mnemonic ins = ''add'', operands ins) of
        (True, [_, OReg b, OImm d]) \<Rightarrow> Some (b, d)
      | _ \<Rightarrow> first_mem (operands ins))"

definition is_call :: "string \<Rightarrow> bool" where
  "is_call m \<longleftrightarrow> m \<in> {''bl'', ''blr''} \<or> starts_with m ''blra''"

definition written_regs :: "insn \<Rightarrow> int list" where
  "written_regs ins =
     regs_written ins @
     (let m = mnemonic ins in
      case operands ins of
        OReg r # _ \<Rightarrow> if m = ''add'' \<or> starts_with m ''ld'' \<or> starts_with m ''mov'' then [r] else []
      | _ \<Rightarrow> [])"

definition is_adrp :: "insn \<Rightarrow> bool" where
  "is_adrp ins \<longleftrightarrow> mnemonic ins = ''adrp'' \<and> length (operands ins) = 2"

text \<open>The register and the page of an \<^verbatim>\<open>ADRP\<close>.\<close>

definition adrp_operands :: "insn \<Rightarrow> (int \<times> int) res" where
  "adrp_operands ins =
     (case operands ins of [OReg r, OImm page] \<Rightarrow> Inr (r, page) | _ \<Rightarrow> Inl Type_Error)"

definition branch_imms :: "insn \<Rightarrow> int \<Rightarrow> int list" where
  "branch_imms ins old_sa = concat (map (\<lambda>x. case x of OImm v \<Rightarrow> [v - old_sa] | _ \<Rightarrow> []) (operands ins))"

definition successors :: "insn \<Rightarrow> int \<Rightarrow> int \<Rightarrow> int list" where
  "successors ins old_sa pos =
     (let m = mnemonic ins; imms = branch_imms ins old_sa;
          target = (if imms = [] then [] else [last imms]) in
      if m = ''b'' then target
      else if starts_with m ''b.'' \<or> m \<in> {''cbz'', ''cbnz'', ''tbz'', ''tbnz''} then (pos + 4) # target
      else if m \<in> {''ret'', ''br''} \<or> starts_with m ''bra'' then []
      else [pos + 4])"

text \<open>The registers after the instruction at \<open>pos\<close> (\<open>None\<close>: it did not decode) and where it goes.\<close>

definition undecoded_flow :: "(int \<Rightarrow> string) \<Rightarrow> int \<Rightarrow> int \<Rightarrow> regs \<Rightarrow> regs \<times> int list" where
  "undecoded_flow reg_name word pos state =
     (if word \<in> {0xD65F0BFF, 0xD65F0FFF} then (state, [])
      else if word AND 0xFF000000 = 0xD7000000 then (drop_regs (is_caller_saved reg_name) state, [pos + 4])
      else if word AND 0xFFFF0000 = 0xDAC10000 then
        (drop_regs (\<lambda>r. reg_name r = CHR ''x'' # dec_string (nat (word AND 0x1F))) state, [pos + 4])
      else (state, [pos + 4]))"

definition decoded_regs :: "(int \<Rightarrow> string) \<Rightarrow> insn \<Rightarrow> int \<Rightarrow> regs \<Rightarrow> regs res" where
  "decoded_regs reg_name ins foff state =
     (if is_adrp ins then
        bindR (adrp_operands ins) (\<lambda>(r, page). Inr (AList.update r (page, [(ins_address ins, foff)]) state))
      else if is_call (mnemonic ins) then Inr (drop_regs (is_caller_saved reg_name) state)
      else Inr (drop_regs (\<lambda>r. r \<in> set (written_regs ins)) state))"

subsection \<open>What it does to the code\<close>

text \<open>Where an address moves: \<^verbatim>\<open>seg_delta_old\<close>.\<close>

definition seg_delta :: "delta list \<Rightarrow> int \<Rightarrow> int option" where
  "seg_delta deltas a = map_option (\<lambda>(lo, hi, d). d) (find (\<lambda>(lo, hi, d). lo \<le> a \<and> a < hi) deltas)"

text \<open>The buffer and \<^verbatim>\<open>adrp_pages\<close>, the page every rewritten \<^verbatim>\<open>ADRP\<close> now has.\<close>

type_synonym code = "bytes \<times> (int \<rightharpoonup> int)"

definition put_adrp :: "int \<Rightarrow> int \<Rightarrow> int \<Rightarrow> code \<Rightarrow> code res" where
  "put_adrp foff new_pc new_page = (\<lambda>(buf, pages).
     bindR (u32 buf foff) (\<lambda>adrp_word.
     bindR (p32 buf foff (set_adrp adrp_word new_pc new_page)) (\<lambda>buf.
     Inr (buf, pages(foff \<mapsto> new_page)))))"

definition eager_adrp :: "delta list \<Rightarrow> int \<Rightarrow> insn \<Rightarrow> int \<Rightarrow> code \<Rightarrow> code res" where
  "eager_adrp deltas text_delta ins foff code =
     bindR (adrp_operands ins) (\<lambda>(_, old_page).
     case seg_delta deltas old_page of
       Some page_delta \<Rightarrow>
         if page_delta \<noteq> text_delta \<and> page_delta AND 0xFFF = 0
         then put_adrp foff (ins_address ins + text_delta) (old_page + page_delta) code
         else Inr code
     | None \<Rightarrow> Inr code)"

definition fix_def :: "int \<Rightarrow> int \<Rightarrow> int \<times> int \<Rightarrow> code \<Rightarrow> code res" where
  "fix_def text_delta desired_page = (\<lambda>(aaddr, foff) code.
     case snd code foff of
       None \<Rightarrow> put_adrp foff (aaddr + text_delta) desired_page code
     | Some new_page \<Rightarrow> if new_page \<noteq> desired_page then Inl Runtime_Error else Inr code)"

text \<open>Where the target of a consumer goes, \<open>None\<close> if it need not change: the new address and the distance of
  a moved segment.\<close>

definition consumer_target ::
    "delta list \<Rightarrow> int \<Rightarrow> (int \<Rightarrow> int option) \<Rightarrow> int \<Rightarrow> (int \<times> int option) option" where
  "consumer_target deltas text_delta got old_t =
     (case seg_delta deltas old_t of
        Some dt \<Rightarrow> if dt \<noteq> text_delta then Some (old_t + dt, Some dt) else None
      | None \<Rightarrow> map_option (\<lambda>t. (t, None)) (got old_t))"

definition fix_consumer ::
    "delta list \<Rightarrow> int \<Rightarrow> (int \<Rightarrow> int option) \<Rightarrow> insn \<Rightarrow> int \<Rightarrow> regs \<Rightarrow> code \<Rightarrow> code res" where
  "fix_consumer deltas text_delta got ins foff state code =
     (case Option.bind (consumer_operand ins) (\<lambda>(base, disp). map_option (Pair disp) (map_of state base)) of
        None \<Rightarrow> Inr code
      | Some (disp, page, definitions) \<Rightarrow>
        (case consumer_target deltas text_delta got (page + disp) of
           None \<Rightarrow> Inr code
         | Some (new_target, dt) \<Rightarrow>
           (let page_aligned = (case dt of Some d \<Rightarrow> d AND 0xFFF = 0 | None \<Rightarrow> False);
                desired_page = (if page_aligned then page + the dt else page_base new_target);
                new_disp = new_target - desired_page in
            bindR (foldR (fix_def text_delta desired_page) definitions code) (\<lambda>(buf, pages).
            if \<not> (0 \<le> new_disp \<and> new_disp < 0x1000) then Inl Runtime_Error
            else if \<not> page_aligned \<or> new_disp \<noteq> disp then
              bindR (set_consumer_disp buf foff new_disp) (\<lambda>(buf, ok).
              if ok then Inr (buf, pages) else Inl Runtime_Error)
            else Inr (buf, pages)))))"

subsection \<open>One section\<close>

text \<open>What stays fixed while a section is scanned.\<close>

record adrp_env =
  e_reg_name :: "int \<Rightarrow> string"
  e_deltas :: "delta list"
  e_text_delta :: int
  e_got :: "int \<Rightarrow> int option"
  e_insns :: "insn option list"
  e_soff :: int
  e_old_sa :: int

text \<open>The instruction at \<open>pos\<close> and the registers and successors after it.\<close>

definition insn_at :: "adrp_env \<Rightarrow> int \<Rightarrow> insn option" where
  "insn_at E pos = e_insns E ! nat (pos div 4)"

definition flow_out :: "adrp_env \<Rightarrow> int \<Rightarrow> int \<Rightarrow> regs \<Rightarrow> (regs \<times> int list) res" where
  "flow_out E word pos state =
     (case insn_at E pos of
        None \<Rightarrow> Inr (undecoded_flow (e_reg_name E) word pos state)
      | Some ins \<Rightarrow>
          bindR (decoded_regs (e_reg_name E) ins (e_soff E + pos) state) (\<lambda>out.
          Inr (out, successors ins (e_old_sa E) pos)))"

definition code_out :: "adrp_env \<Rightarrow> int \<Rightarrow> regs \<Rightarrow> code \<Rightarrow> code res" where
  "code_out E pos state code =
     (case insn_at E pos of
        None \<Rightarrow> Inr code
      | Some ins \<Rightarrow>
          if is_adrp ins then eager_adrp (e_deltas E) (e_text_delta E) ins (e_soff E + pos) code
          else fix_consumer (e_deltas E) (e_text_delta E) (e_got E) ins (e_soff E + pos) state code)"

text \<open>One turn of \<^verbatim>\<open>while True\<close>: process a position of the work list, or seed an unreached \<^verbatim>\<open>ADRP\<close>.\<close>

type_synonym scan = "code \<times> flow"

definition unreached_adrp :: "adrp_env \<Rightarrow> (int \<Rightarrow> regs option) \<Rightarrow> int option" where
  "unreached_adrp E incoming =
     find (\<lambda>pos. incoming pos = None \<and> (case insn_at E pos of None \<Rightarrow> False | Some ins \<Rightarrow> mnemonic ins = ''adrp''))
       (map (\<lambda>k. 4 * int k) [0..<length (e_insns E)])"

definition scan_step :: "adrp_env \<Rightarrow> scan \<Rightarrow> scan res" where
  "scan_step E = (\<lambda>(code, incoming, work).
     let n = length (e_insns E) in
     case work of
       [] \<Rightarrow> (case unreached_adrp E incoming of
                None \<Rightarrow> Inr (code, incoming, work)
              | Some seed \<Rightarrow> Inr (code, merge_state n [] seed (incoming, work)))
     | pos # work \<Rightarrow>
         bindR (case incoming pos of None \<Rightarrow> Inl Key_Error | Some state \<Rightarrow> Inr state) (\<lambda>state.
         bindR (u32 (fst code) (e_soff E + pos)) (\<lambda>word.
         bindR (code_out E pos state code) (\<lambda>code.
         bindR (flow_out E word pos state) (\<lambda>(out, succs).
         Inr (code, fold (merge_state n out) succs (incoming, work)))))))"

definition scan_more :: "adrp_env \<Rightarrow> scan res \<Rightarrow> bool" where
  "scan_more E r =
     (case r of Inl _ \<Rightarrow> False
      | Inr (code, incoming, work) \<Rightarrow> work \<noteq> [] \<or> unreached_adrp E incoming \<noteq> None)"

text \<open>\<open>None\<close> would be a loop that never ends.\<close>

definition scan_loop :: "adrp_env \<Rightarrow> scan \<Rightarrow> scan res option" where
  "scan_loop E s = while_option (scan_more E) (\<lambda>r. bindR r (scan_step E)) (Inr s)"

definition scan_start :: "adrp_env \<Rightarrow> int list \<Rightarrow> bytes \<Rightarrow> scan" where
  "scan_start E seeds buf =
     ((buf, Map.empty), fold (merge_state (length (e_insns E)) []) seeds (Map.empty, []))"

subsection \<open>The whole pass\<close>

text \<open>\<^verbatim>\<open>function_starts\<close>: a ULEB128 list of distances, cut off at the end of the table.\<close>

function start_delta :: "bytes \<Rightarrow> int \<Rightarrow> int \<Rightarrow> int \<Rightarrow> nat \<Rightarrow> (int \<times> int) res" where
  "start_delta buf stop p delta shift =
     (if p < stop then
        bindR (py_index buf p) (\<lambda>byte.
        let delta = delta OR push_bit shift (uint byte AND 0x7F) in
        if uint byte AND 0x80 = 0 then Inr (delta, p + 1) else start_delta buf stop (p + 1) delta (shift + 7))
      else Inr (delta, p))"
  by pat_completeness auto
termination by (relation "measure (\<lambda>(buf, stop, p, delta, shift). nat (stop - p))") auto

declare start_delta.simps [simp del]

lemma start_delta_forward: "start_delta buf stop p d s = Inr (d', p') \<Longrightarrow> p \<le> p' \<and> (p < stop \<longrightarrow> p < p')"
proof (induction buf stop p d s rule: start_delta.induct)
  case (1 buf stop p d s)
  show ?case
  proof (cases "p < stop")
    case True
    then obtain b where b: "py_index buf p = Inr b"
      using "1.prems" by (subst (asm) start_delta.simps) (auto simp: bindR_Inr_iff)
    show ?thesis
      using "1.prems" "1.IH" [OF True b refl] True
      by (subst (asm) start_delta.simps) (fastforce simp: b Let_def split: if_splits)
  next
    case False
    then show ?thesis using "1.prems" by (subst (asm) start_delta.simps) simp
  qed
qed

function start_list :: "bytes \<Rightarrow> int \<Rightarrow> int \<Rightarrow> int \<Rightarrow> int list res" where
  "start_list buf stop p value =
     (if p < stop then
        bindR (start_delta buf stop p 0 0) (\<lambda>x.
        if fst x = 0 then Inr []
        else bindR (start_list buf stop (snd x) (value + fst x)) (\<lambda>starts. Inr ((value + fst x) # starts)))
      else Inr [])"
  by pat_completeness auto
termination
proof (relation "measure (\<lambda>(buf, stop, p, value). nat (stop - p))", goal_cases)
  case (2 buf stop p v x)
  then show ?case using start_delta_forward [of buf stop p 0 0 "fst x" "snd x"] by simp
qed simp

declare start_list.simps [simp del]

definition function_starts :: "bytes \<Rightarrow> int \<Rightarrow> int list res" where
  "function_starts buf tva =
     bindR (u32 buf 16) (\<lambda>ncmds.
     bindR (first_cmd buf (\<lambda>cmd sz off. if cmd = LC_FUNCTION_STARTS
                 then bindR (u32x2 buf (off + 8)) (\<lambda>d. Inr (Some d)) else Inr None) (nat ncmds) 32) (\<lambda>r.
     case r of None \<Rightarrow> Inr []
     | Some (dataoff, datasize) \<Rightarrow>
         if dataoff = 0 \<or> datasize = 0 then Inr []
         else bindR (start_list buf (dataoff + datasize) dataoff 0) (\<lambda>starts. Inr (map ((+) tva) starts))))"

definition code_flags :: "int \<Rightarrow> bytes \<Rightarrow> bool" where
  "code_flags sflags sname \<longleftrightarrow>
     sflags AND 0x80000000 \<noteq> 0 \<or> sflags AND 0x400 \<noteq> 0 \<or> sname \<in> {ascii ''__text'', ascii ''__stubs''}"

definition section_seeds :: "int list \<Rightarrow> int \<Rightarrow> int \<Rightarrow> int list" where
  "section_seeds starts saddr ssize =
     (let seeds = map (\<lambda>a. a - saddr) (filter (\<lambda>a. saddr \<le> a \<and> a < saddr + ssize) starts)
      in if seeds = [] then [0] else seeds)"

definition section_insns :: "(bytes \<Rightarrow> int \<Rightarrow> insn option) \<Rightarrow> bytes \<Rightarrow> int \<Rightarrow> int \<Rightarrow> int \<Rightarrow> insn option list" where
  "section_insns disasm buf soff ssize old_sa =
     map (\<lambda>k. disasm (py_slice buf (soff + 4 * int k) (soff + 4 * int k + 4)) (old_sa + 4 * int k)) [0..<nat (ssize div 4)]"

text \<open>The disassembler and the tables the pass is called with.\<close>

record adrp_params =
  p_disasm :: "bytes \<Rightarrow> int \<Rightarrow> insn option"
  p_reg_name :: "int \<Rightarrow> string"
  p_deltas :: "delta list"
  p_text_delta :: int
  p_got :: "int \<Rightarrow> int option"
  p_starts :: "int list"

definition section_env :: "adrp_params \<Rightarrow> bytes \<Rightarrow> int \<Rightarrow> int \<Rightarrow> int \<Rightarrow> adrp_env" where
  "section_env P buf soff ssize saddr =
     \<lparr>e_reg_name = p_reg_name P, e_deltas = p_deltas P, e_text_delta = p_text_delta P, e_got = p_got P,
      e_insns = section_insns (p_disasm P) buf soff ssize (saddr - p_text_delta P),
      e_soff = soff, e_old_sa = saddr - p_text_delta P\<rparr>"

definition rewrite_section :: "adrp_params \<Rightarrow> bytes \<Rightarrow> int \<Rightarrow> int \<Rightarrow> int \<Rightarrow> bytes res option" where
  "rewrite_section P buf soff ssize saddr =
     (let E = section_env P buf soff ssize saddr in
      map_option (\<lambda>r. bindR r (\<lambda>((buf, _), _). Inr buf))
        (scan_loop E (scan_start E (section_seeds (p_starts P) saddr ssize) buf)))"

definition adrp_section :: "adrp_params \<Rightarrow> int \<Rightarrow> bytes \<Rightarrow> bytes res option" where
  "adrp_section P so buf =
     (case bindR (py_decode (cstr16 buf so)) (\<lambda>sname.
           bindR (u64x2 buf (so + 32)) (\<lambda>(saddr, ssize).
           bindR (u32 buf (so + 48)) (\<lambda>soff.
           bindR (u32 buf (so + 64)) (\<lambda>sflags. Inr (sname, saddr, ssize, soff, sflags))))) of
        Inl e \<Rightarrow> Some (Inl e)
      | Inr (sname, saddr, ssize, soff, sflags) \<Rightarrow>
          if sname = ascii ''__auth_stubs'' \<or> \<not> (code_flags sflags sname \<and> soff \<noteq> 0 \<and> ssize \<noteq> 0) then Some (Inr buf)
          else rewrite_section P buf soff ssize saddr)"

fun adrp_sections :: "adrp_params \<Rightarrow> int list \<Rightarrow> bytes \<Rightarrow> bytes res option" where
  "adrp_sections P [] buf = Some (Inr buf)"
| "adrp_sections P (so # sos) buf =
     (case adrp_section P so buf of
        Some (Inr buf) \<Rightarrow> adrp_sections P sos buf
      | r \<Rightarrow> r)"

definition rewrite_adrp ::
    "(bytes \<Rightarrow> int \<Rightarrow> insn option) \<Rightarrow> (int \<Rightarrow> string) \<Rightarrow> (int \<Rightarrow> int option) \<Rightarrow> bytes \<Rightarrow> segment list \<Rightarrow> delta list
     \<Rightarrow> bytes res option" where
  "rewrite_adrp disasm reg_name got buf osegs deltas =
     (case filter (\<lambda>s. seg_name s = ascii ''__TEXT'') osegs of
        [] \<Rightarrow> Some (Inl Stop_Iteration)
      | t # _ \<Rightarrow>
        (case find (\<lambda>(lo, hi, d). lo + d = vmaddr t) deltas of
           None \<Rightarrow> Some (Inl Stop_Iteration)
         | Some (_, _, text_delta) \<Rightarrow>
           (case bindR (function_starts buf (vmaddr t)) (\<lambda>starts.
                 bindR (u32 buf (lc_off t + 64)) (\<lambda>nsects. Inr (starts, nsects))) of
              Inl e \<Rightarrow> Some (Inl e)
            | Inr (starts, nsects) \<Rightarrow>
              adrp_sections \<lparr>p_disasm = disasm, p_reg_name = reg_name, p_deltas = deltas,
                  p_text_delta = text_delta, p_got = got, p_starts = starts\<rparr>
                (sect_offs (lc_off t) nsects) buf)))"

end
