(* ===== verification/Adrp_Sound.thy ===== *)
theory Adrp_Sound
  imports Adrp_Flow Branch_Islands
begin

text \<open>
  The scan of \<^verbatim>\<open>rewrite_adrp\<close> ends, and what it knows about a register is true on every path: register
  states are ordered by the information they carry, merging only loses information, and each
  position can lose it only finitely often.
\<close>

named_theorems flow_intros \<open>well-formedness of register states and flows\<close>

subsection \<open>The order of register states\<close>

definition regs_le :: "regs \<Rightarrow> regs \<Rightarrow> bool" where
  "regs_le a b \<longleftrightarrow> (\<forall>r p ds. map_of a r = Some (p, ds) \<longrightarrow> (\<exists>ds'. map_of b r = Some (p, ds') \<and> set ds' \<subseteq> set ds))"

lemma regs_leE:
  assumes "regs_le a b" "r \<in> dom (map_of a)"
  obtains p ds ds' where "map_of a r = Some (p, ds)" "map_of b r = Some (p, ds')" "set ds' \<subseteq> set ds"
proof -
  obtain x where x: "map_of a r = Some x" using assms(2) by blast
  obtain p ds where "x = (p, ds)" by (cases x)
  then show thesis using that assms(1) x unfolding regs_le_def by blast
qed

lemma regs_le_refl [simp]: "regs_le a a"
  by (auto simp: regs_le_def)

lemma regs_le_trans: "regs_le a b \<Longrightarrow> regs_le b c \<Longrightarrow> regs_le a c"
  unfolding regs_le_def by (meson subset_trans)

lemma regs_le_empty: "regs_le a [] \<longleftrightarrow> a = []"
  by (cases a) (auto simp: regs_le_def split: if_splits)

lemma same_regs_eq: "same_regs a b \<longleftrightarrow> map_of a = map_of b"
proof
  assume s: "same_regs a b"
  show "map_of a = map_of b"
  proof
    fix r
    show "map_of a r = map_of b r"
    proof (cases "r \<in> set (map fst (a @ b))")
      case True
      then show ?thesis using s by (auto simp: same_regs_def)
    next
      case False
      then have "map_of a r = None" "map_of b r = None" by (auto simp: map_of_eq_None_iff)
      then show ?thesis by simp
    qed
  qed
qed (simp add: same_regs_def)

lemma set_merge_defs [simp]: "set (merge_defs a b) = set a \<union> set b"
  by (simp add: merge_defs_def)

lemma merge_regs_Nil [simp]: "merge_regs [] st = []"
  by (simp add: merge_regs_def)

lemma merge_regs_Cons: "merge_regs (e # prev) st = merge_entry st e @ merge_regs prev st"
  by (simp add: merge_regs_def)

lemma merge_entry_fst: "set (map fst (merge_entry st e)) \<subseteq> {fst e}"
  by (auto simp: merge_entry_def split: option.splits prod.splits if_splits)

lemma merge_regs_fst: "set (map fst (merge_regs prev st)) \<subseteq> set (map fst prev)"
proof (induction prev)
  case (Cons e prev)
  then show ?case using merge_entry_fst [of st e] by (auto simp: merge_regs_Cons)
qed simp

lemma merge_entry_distinct: "distinct (map fst (merge_entry st e))"
  by (auto simp: merge_entry_def split: option.splits prod.splits)

lemma merge_regs_distinct: "distinct (map fst prev) \<Longrightarrow> distinct (map fst (merge_regs prev st))"
proof (induction prev)
  case (Cons e prev)
  have "set (map fst (merge_entry st e)) \<inter> set (map fst (merge_regs prev st)) = {}"
    using merge_entry_fst [of st e] merge_regs_fst [of prev st] Cons.prems unfolding list.map distinct.simps by blast
  then show ?case
    using merge_entry_distinct [of st e] Cons by (simp add: merge_regs_Cons)
qed simp

lemma map_of_merge_regs:
  assumes "distinct (map fst prev)"
  shows "map_of (merge_regs prev st) r =
     (case map_of prev r of None \<Rightarrow> None
      | Some (p, ds) \<Rightarrow> (case map_of st r of None \<Rightarrow> None
           | Some (p', ds') \<Rightarrow> if p = p' then Some (p, merge_defs ds ds') else None))"
  using assms
proof (induction prev)
  case (Cons e prev)
  obtain r0 p ds where e: "e = (r0, p, ds)" by (cases e)
  show ?case
  proof (cases "r = r0")
    case True
    have "r \<notin> set (map fst prev)" using Cons.prems by (simp add: e True)
    then have n: "map_of prev r = None" by (simp add: map_of_eq_None_iff)
    then have m: "map_of (merge_regs prev st) r = None" using Cons by simp
    then show ?thesis
      by (auto simp: merge_regs_Cons e True merge_entry_def map_add_def split: option.splits prod.splits)
  next
    case False
    have "r \<notin> set (map fst (merge_entry st e))" using merge_entry_fst [of st e] False by (auto simp: e)
    then have "map_of (merge_entry st e) r = None" by (simp add: map_of_eq_None_iff)
    then show ?thesis using Cons False by (auto simp: merge_regs_Cons e map_add_def split: option.splits)
  qed
qed simp

lemma merge_regs_le: "distinct (map fst prev) \<Longrightarrow> regs_le (merge_regs prev st) prev \<and> regs_le (merge_regs prev st) st"
  unfolding regs_le_def by (auto simp: map_of_merge_regs split: option.splits if_splits)

subsection \<open>Well-formed states and their measure\<close>

definition regs_ok :: "int set \<Rightarrow> (int \<times> int) set \<Rightarrow> regs \<Rightarrow> bool" where
  "regs_ok R U st \<longleftrightarrow> distinct (map fst st) \<and> fst ` set st \<subseteq> R
     \<and> (\<forall>(r, p, ds) \<in> set st. set ds \<subseteq> U \<and> sorted ds \<and> distinct ds)"

lemma regs_ok_Nil [flow_intros]: "regs_ok R U []"
  by (simp add: regs_ok_def)

lemma regs_ok_lookup: "regs_ok R U st \<Longrightarrow> map_of st r = Some (p, ds) \<Longrightarrow> r \<in> R \<and> set ds \<subseteq> U \<and> sorted ds \<and> distinct ds"
  unfolding regs_ok_def by (force dest: map_of_SomeD)

lemma regs_okI:
  assumes "distinct (map fst st)"
    "\<And>r p ds. map_of st r = Some (p, ds) \<Longrightarrow> r \<in> R \<and> set ds \<subseteq> U \<and> sorted ds \<and> distinct ds"
  shows "regs_ok R U st"
  unfolding regs_ok_def
proof (intro conjI)
  have m: "map_of st r = Some x" if "(r, x) \<in> set st" for r x
    using that assms(1) by simp
  show "fst ` set st \<subseteq> R"
  proof
    fix r assume "r \<in> fst ` set st"
    then obtain p ds where "(r, p, ds) \<in> set st" by force
    from assms(2) [OF m [OF this]] show "r \<in> R" by simp
  qed
  show "\<forall>(r, p, ds) \<in> set st. set ds \<subseteq> U \<and> sorted ds \<and> distinct ds"
    using m assms(2) by blast
qed (rule assms(1))

lemma regs_ok_merge [flow_intros]:
  assumes "regs_ok R U prev" "regs_ok R U st"
  shows "regs_ok R U (merge_regs prev st)"
proof (rule regs_okI)
  have d: "distinct (map fst prev)" using assms(1) by (simp add: regs_ok_def)
  then show "distinct (map fst (merge_regs prev st))" by (rule merge_regs_distinct)
  fix r p ds assume "map_of (merge_regs prev st) r = Some (p, ds)"
  then obtain d1 d2 where "map_of prev r = Some (p, d1)" "map_of st r = Some (p, d2)" "ds = merge_defs d1 d2"
    by (auto simp: map_of_merge_regs [OF d] split: option.splits if_splits)
  then show "r \<in> R \<and> set ds \<subseteq> U \<and> sorted ds \<and> distinct ds"
    using regs_ok_lookup [OF assms(1)] regs_ok_lookup [OF assms(2)] by (simp add: merge_defs_def)
qed

lemma map_of_drop_regs: "map_of (drop_regs P st) r = (if P r then None else map_of st r)"
  by (induction st) (auto simp: drop_regs_def)

lemma regs_ok_drop [flow_intros]: "regs_ok R U st \<Longrightarrow> regs_ok R U (drop_regs P st)"
  unfolding regs_ok_def drop_regs_def by (auto intro: distinct_map_filter)

lemma regs_ok_update [flow_intros]:
  assumes "regs_ok R U st" "r \<in> R" "d \<in> U"
  shows "regs_ok R U (AList.update r (p, [d]) st)"
proof (rule regs_okI)
  show "distinct (map fst (AList.update r (p, [d]) st))"
    using assms(1) by (auto simp: regs_ok_def intro: distinct_update)
  fix r' p' ds assume "map_of (AList.update r (p, [d]) st) r' = Some (p', ds)"
  then show "r' \<in> R \<and> set ds \<subseteq> U \<and> sorted ds \<and> distinct ds"
    using assms(2,3) regs_ok_lookup [OF assms(1)] by (auto simp: update_conv' split: if_splits)
qed

definition regs_size :: "(int \<times> int) set \<Rightarrow> regs \<Rightarrow> nat" where
  "regs_size U st = (\<Sum>r \<in> dom (map_of st). 1 + card (U - set (snd (the (map_of st r)))))"

lemma regs_size_bound:
  assumes "regs_ok R U st" "finite R" "finite U"
  shows "regs_size U st \<le> card R * (1 + card U)"
proof -
  have sub: "dom (map_of st) \<subseteq> R" using assms(1) by (auto dest: regs_ok_lookup)
  have "regs_size U st \<le> (\<Sum>r \<in> dom (map_of st). 1 + card U)"
    unfolding regs_size_def by (intro sum_mono add_left_mono card_mono assms(3)) auto
  also have "\<dots> = card (dom (map_of st)) * (1 + card U)" by simp
  also have "\<dots> \<le> card R * (1 + card U)" by (intro mult_right_mono card_mono assms(2) sub) simp
  finally show ?thesis .
qed

lemma regs_size_less:
  assumes "regs_ok R U a" "regs_ok R U b" "regs_le a b" "map_of a \<noteq> map_of b" "finite R" "finite U"
  shows "regs_size U a < regs_size U b"
proof -
  let ?w = "\<lambda>st r. 1 + card (U - set (snd (the (map_of st r))))"
  have fin: "finite (dom (map_of b))" by (rule finite_dom_map_of)
  have dom: "dom (map_of a) \<subseteq> dom (map_of b)"
    using regs_leE [OF assms(3)] by blast
  have le: "?w a r \<le> ?w b r" if rd: "r \<in> dom (map_of a)" for r
  proof -
    obtain p ds ds' where "map_of a r = Some (p, ds)" "map_of b r = Some (p, ds')" "set ds' \<subseteq> set ds"
      by (rule regs_leE [OF assms(3) rd])
    then show ?thesis using assms(6) by (auto intro!: card_mono)
  qed
  show ?thesis
  proof (cases "dom (map_of a) = dom (map_of b)")
    case True
    obtain r where r: "map_of a r \<noteq> map_of b r" using assms(4) by auto
    then have rd: "r \<in> dom (map_of a)" using True by (metis domIff)
    obtain p ds ds' where d: "map_of a r = Some (p, ds)" "map_of b r = Some (p, ds')" "set ds' \<subseteq> set ds"
      by (rule regs_leE [OF assms(3) rd])
    have "set ds' \<noteq> set ds"
      using d r regs_ok_lookup [OF assms(1) d(1)] regs_ok_lookup [OF assms(2) d(2)] sorted_distinct_set_unique by metis
    then have "set ds' \<subset> set ds" "set ds \<subseteq> U" using d(3) regs_ok_lookup [OF assms(1) d(1)] by auto
    then have "U - set ds \<subset> U - set ds'" by auto
    then have "?w a r < ?w b r" using psubset_card_mono [of "U - set ds'" "U - set ds"] assms(6) by (simp add: d)
    then have "(\<Sum>r \<in> dom (map_of a). ?w a r) < (\<Sum>r \<in> dom (map_of a). ?w b r)"
      using le rd fin True by (intro sum_strict_mono_ex1) auto
    then show ?thesis unfolding regs_size_def True .
  next
    case False
    then obtain r where r: "r \<in> dom (map_of b) - dom (map_of a)" using dom by blast
    have "regs_size U a \<le> (\<Sum>r \<in> dom (map_of a). ?w b r)" unfolding regs_size_def by (rule sum_mono) (rule le)
    also have "\<dots> < (\<Sum>r \<in> dom (map_of b). ?w b r)" by (rule sum_strict_mono2 [OF fin dom r]) simp_all
    finally show ?thesis by (simp add: regs_size_def)
  qed
qed


subsection \<open>Merging into the flow\<close>

definition flow_ok :: "nat \<Rightarrow> int set \<Rightarrow> (int \<times> int) set \<Rightarrow> flow \<Rightarrow> bool" where
  "flow_ok n R U = (\<lambda>(incoming, work).
     (\<forall>pos st. incoming pos = Some st \<longrightarrow> in_section n pos \<and> regs_ok R U st)
     \<and> (\<forall>pos \<in> set work. incoming pos \<noteq> None))"

definition flow_size :: "nat \<Rightarrow> int set \<Rightarrow> (int \<times> int) set \<Rightarrow> (int \<Rightarrow> regs option) \<Rightarrow> nat" where
  "flow_size n R U incoming =
     (\<Sum>k<n. case incoming (4 * int k) of None \<Rightarrow> card R * (1 + card U) + 1 | Some st \<Rightarrow> regs_size U st)"

text \<open>What a merge may do to the incoming states: lower them, and put what it changes on the work list.\<close>

definition flow_step :: "flow \<Rightarrow> flow \<Rightarrow> bool" where
  "flow_step = (\<lambda>(inc, work) (inc', work').
     (\<forall>p st. inc p = Some st \<longrightarrow> (\<exists>st'. inc' p = Some st' \<and> regs_le st' st))
     \<and> set work \<subseteq> set work' \<and> (\<forall>p. p \<notin> set work' \<longrightarrow> inc' p = inc p))"

lemma flow_step_refl: "flow_step f f"
  by (auto simp: flow_step_def split: prod.splits)

lemma flow_step_trans:
  assumes "flow_step f g" "flow_step g h"
  shows "flow_step f h"
proof -
  obtain a u b v c w where f: "f = (a, u)" "g = (b, v)" "h = (c, w)" by (cases f; cases g; cases h) auto
  show ?thesis
    unfolding flow_step_def f prod.case
  proof (intro conjI allI impI)
    fix p st assume "a p = Some st"
    then obtain s1 where "b p = Some s1" "regs_le s1 st" using assms(1) unfolding flow_step_def f prod.case by blast
    moreover from this obtain s2 where "c p = Some s2" "regs_le s2 s1"
      using assms(2) unfolding flow_step_def f prod.case by blast
    ultimately show "\<exists>st'. c p = Some st' \<and> regs_le st' st" using regs_le_trans by blast
  qed (use assms in \<open>auto simp: flow_step_def f\<close>)
qed

lemma merge_state_cases:
  obtains "merge_state n state pos (inc, work) = (inc, work)" "\<not> in_section n pos"
  | "merge_state n state pos (inc, work) = (inc(pos \<mapsto> state), pos # work)" "in_section n pos" "inc pos = None"
  | prev where "merge_state n state pos (inc, work) = (inc, work)" "in_section n pos" "inc pos = Some prev"
      "map_of (merge_regs prev state) = map_of prev"
  | prev where "merge_state n state pos (inc, work) = (inc(pos \<mapsto> merge_regs prev state), pos # work)"
      "in_section n pos" "inc pos = Some prev" "map_of (merge_regs prev state) \<noteq> map_of prev"
  by (cases "in_section n pos"; cases "inc pos") (auto simp: merge_state_def Let_def same_regs_eq split: if_splits)

lemma merge_state_ok [flow_intros]:
  assumes "flow_ok n R U f" "regs_ok R U state"
  shows "flow_ok n R U (merge_state n state pos f)"
proof -
  obtain inc work where f: "f = (inc, work)" by (cases f)
  show ?thesis
    unfolding f
    by (rule merge_state_cases [of n state pos inc work])
       (use assms regs_ok_merge in \<open>auto simp: f flow_ok_def split: if_splits\<close>)
qed

lemma flow_ok_distinct: "flow_ok n R U (inc, work) \<Longrightarrow> inc p = Some st \<Longrightarrow> distinct (map fst st)"
  by (auto simp: flow_ok_def regs_ok_def)

lemma merge_state_step:
  assumes "flow_ok n R U f"
  shows "flow_step f (merge_state n state pos f)"
proof -
  obtain inc work where f: "f = (inc, work)" by (cases f)
  show ?thesis
    unfolding f
    by (rule merge_state_cases [of n state pos inc work])
       (use merge_regs_le flow_ok_distinct [OF assms [unfolded f]] in \<open>auto simp: flow_step_def\<close>)
qed

text \<open>After the merge the position knows no more than what was merged in.\<close>

lemma merge_state_at:
  assumes "flow_ok n R U f" "in_section n pos"
  shows "\<exists>st. fst (merge_state n state pos f) pos = Some st \<and> regs_le st state"
proof -
  obtain inc work where f: "f = (inc, work)" by (cases f)
  note d = flow_ok_distinct [OF assms(1) [unfolded f]]
  show ?thesis
  proof (rule merge_state_cases [of n state pos inc work])
    fix prev assume h: "merge_state n state pos (inc, work) = (inc, work)" "inc pos = Some prev"
      "map_of (merge_regs prev state) = map_of prev"
    have "regs_le prev state" using merge_regs_le [OF d [OF h(2)], of state] h(3) by (simp add: regs_le_def)
    then show ?thesis using h by (simp add: f)
  qed (use assms(2) merge_regs_le d in \<open>auto simp: f\<close>)
qed

lemma flow_size_update:
  assumes "in_section n pos" "\<And>old. inc pos = Some old \<Longrightarrow> regs_size U st < regs_size U old"
    "inc pos = None \<Longrightarrow> regs_size U st \<le> card R * (1 + card U)"
  shows "flow_size n R U (inc(pos \<mapsto> st)) < flow_size n R U inc"
proof -
  let ?m = "\<lambda>inc k. case inc (4 * int k) of None \<Rightarrow> card R * (1 + card U) + 1 | Some st \<Rightarrow> regs_size U st"
  obtain k where k: "k < n" "pos = 4 * int k"
  proof
    show "nat (pos div 4) < n" "pos = 4 * int (nat (pos div 4))" using assms(1) by (auto simp: in_section_def)
  qed
  have "(\<Sum>i<n. ?m (inc(pos \<mapsto> st)) i) < (\<Sum>i<n. ?m inc i)"
  proof (rule sum_strict_mono_ex1)
    show "\<forall>i \<in> {..<n}. ?m (inc(pos \<mapsto> st)) i \<le> ?m inc i"
      using assms(2,3) by (fastforce simp: k(2) split: option.splits)
    show "\<exists>i \<in> {..<n}. ?m (inc(pos \<mapsto> st)) i < ?m inc i"
      using k(1) assms(2,3) by (intro bexI [of _ k]) (auto simp: k(2) split: option.splits)
  qed simp
  then show ?thesis by (simp add: flow_size_def)
qed

lemma merge_state_size:
  assumes "flow_ok n R U f" "regs_ok R U state" "finite R" "finite U"
  shows "merge_state n state pos f = f \<or> flow_size n R U (fst (merge_state n state pos f)) < flow_size n R U (fst f)"
proof -
  obtain inc work where f: "f = (inc, work)" by (cases f)
  note d = flow_ok_distinct [OF assms(1) [unfolded f]]
  show ?thesis
  proof (rule merge_state_cases [of n state pos inc work])
    assume h: "merge_state n state pos (inc, work) = (inc(pos \<mapsto> state), pos # work)" "in_section n pos" "inc pos = None"
    have "flow_size n R U (inc(pos \<mapsto> state)) < flow_size n R U inc"
      by (rule flow_size_update [OF h(2)]) (use h(3) regs_size_bound [OF assms(2-4)] in auto)
    then show ?thesis by (simp add: h f)
  next
    fix prev assume h: "merge_state n state pos (inc, work) = (inc(pos \<mapsto> merge_regs prev state), pos # work)"
      "in_section n pos" "inc pos = Some prev" "map_of (merge_regs prev state) \<noteq> map_of prev"
    have ok: "regs_ok R U prev" using assms(1) h(3) by (auto simp: f flow_ok_def)
    have "regs_size U (merge_regs prev state) < regs_size U prev"
      by (rule regs_size_less [OF regs_ok_merge [OF ok assms(2)] ok _ h(4) assms(3,4)]) (simp add: merge_regs_le d [OF h(3)])
    then have "flow_size n R U (inc(pos \<mapsto> merge_regs prev state)) < flow_size n R U inc"
      by (intro flow_size_update [OF h(2)]) (auto simp: h(3))
    then show ?thesis by (simp add: h f)
  qed (simp_all add: f)
qed

text \<open>The same for the merges into all successors.\<close>

lemma fold_merge_ok [flow_intros]:
  "flow_ok n R U f \<Longrightarrow> regs_ok R U state \<Longrightarrow> flow_ok n R U (fold (merge_state n state) ps f)"
proof (induction ps arbitrary: f)
  case (Cons p ps)
  then show ?case using Cons.IH [OF merge_state_ok [OF Cons.prems]] by simp
qed simp

lemma fold_merge_step:
  "flow_ok n R U f \<Longrightarrow> regs_ok R U state \<Longrightarrow> flow_step f (fold (merge_state n state) ps f)"
proof (induction ps arbitrary: f)
  case (Cons p ps)
  show ?case
    using flow_step_trans [OF merge_state_step [OF Cons.prems(1)] Cons.IH [OF merge_state_ok [OF Cons.prems] Cons.prems(2)]]
    by simp
qed (simp add: flow_step_refl)

lemma fold_merge_size:
  "flow_ok n R U f \<Longrightarrow> regs_ok R U state \<Longrightarrow> finite R \<Longrightarrow> finite U \<Longrightarrow>
   fold (merge_state n state) ps f = f \<or> flow_size n R U (fst (fold (merge_state n state) ps f)) < flow_size n R U (fst f)"
proof (induction ps arbitrary: f)
  case (Cons p ps)
  let ?g = "merge_state n state p f"
  have 1: "?g = f \<or> flow_size n R U (fst ?g) < flow_size n R U (fst f)" by (rule merge_state_size [OF Cons.prems])
  have 2: "fold (merge_state n state) ps ?g = ?g
      \<or> flow_size n R U (fst (fold (merge_state n state) ps ?g)) < flow_size n R U (fst ?g)"
    by (rule Cons.IH [OF merge_state_ok [OF Cons.prems(1,2)] Cons.prems(2-4)])
  show ?case using 1 2 unfolding fold_simps by (elim disjE) simp_all
qed simp

lemma fold_merge_at:
  assumes "flow_ok n R U f" "regs_ok R U state" "p \<in> set ps" "in_section n p"
  shows "\<exists>st. fst (fold (merge_state n state) ps f) p = Some st \<and> regs_le st state"
  using assms
proof (induction ps arbitrary: f)
  case (Cons q ps)
  let ?g = "merge_state n state q f"
  have ok: "flow_ok n R U ?g" by (rule merge_state_ok [OF Cons.prems(1,2)])
  show ?case
  proof (cases "p \<in> set ps")
    case True
    then show ?thesis using Cons.IH [OF ok Cons.prems(2) True Cons.prems(4)] by simp
  next
    case False
    then have "p = q" using Cons.prems(3) by simp
    then obtain st where st: "fst ?g p = Some st" "regs_le st state"
      using merge_state_at [OF Cons.prems(1,4)] by blast
    have "flow_step ?g (fold (merge_state n state) ps ?g)" by (rule fold_merge_step [OF ok Cons.prems(2)])
    then obtain st' where "fst (fold (merge_state n state) ps ?g) p = Some st'" "regs_le st' st"
      using st(1) unfolding flow_step_def case_prod_beta by blast
    then show ?thesis using st(2) regs_le_trans by fastforce
  qed
qed simp


subsection \<open>The loop ends\<close>

text \<open>The registers and definitions that the \<^verbatim>\<open>ADRP\<close>s of the section can give.\<close>

definition decoded_positions :: "adrp_env \<Rightarrow> int set" where
  "decoded_positions E = (\<lambda>k. 4 * int k) ` {k. k < length (e_insns E) \<and> e_insns E ! k \<noteq> None}"

definition env_regs :: "adrp_env \<Rightarrow> int set" where
  "env_regs E = {r. \<exists>pos page ins. pos \<in> decoded_positions E \<and> insn_at E pos = Some ins \<and> adrp_operands ins = Inr (r, page)}"

definition env_defs :: "adrp_env \<Rightarrow> (int \<times> int) set" where
  "env_defs E = {d. \<exists>pos ins. pos \<in> decoded_positions E \<and> insn_at E pos = Some ins \<and> d = (ins_address ins, e_soff E + pos)}"

lemma decoded_positions_at: "in_section (length (e_insns E)) pos \<Longrightarrow> insn_at E pos = Some ins \<Longrightarrow> pos \<in> decoded_positions E"
  unfolding decoded_positions_def insn_at_def in_section_def
  by (intro image_eqI [of _ _ "nat (pos div 4)"]) auto

lemma finite_decoded_positions [simp]: "finite (decoded_positions E)"
  by (simp add: decoded_positions_def)

lemma finite_env: "finite (env_regs E)" "finite (env_defs E)"
proof -
  have "env_regs E \<subseteq> (\<lambda>pos. case adrp_operands (the (insn_at E pos)) of Inl _ \<Rightarrow> 0 | Inr x \<Rightarrow> fst x) ` decoded_positions E"
    unfolding env_regs_def by (force intro!: image_eqI)
  then show "finite (env_regs E)" by (rule finite_subset) simp
  have "env_defs E \<subseteq> (\<lambda>pos. (ins_address (the (insn_at E pos)), e_soff E + pos)) ` decoded_positions E"
    unfolding env_defs_def by (force intro!: image_eqI)
  then show "finite (env_defs E)" by (rule finite_subset) simp
qed

abbreviation env_ok :: "adrp_env \<Rightarrow> regs \<Rightarrow> bool" where
  "env_ok E \<equiv> regs_ok (env_regs E) (env_defs E)"

lemma flow_out_ok:
  assumes "flow_out E word pos state = Inr (out, succs)" "env_ok E state" "in_section (length (e_insns E)) pos"
  shows "env_ok E out"
proof (cases "insn_at E pos")
  case None
  then show ?thesis
    using assms(1,2) by (auto simp: flow_out_def undecoded_flow_def intro: regs_ok_drop split: if_splits)
next
  case (Some ins)
  have pos: "pos \<in> decoded_positions E" by (rule decoded_positions_at [OF assms(3) Some])
  have d: "decoded_regs (e_reg_name E) ins (e_soff E + pos) state = Inr out"
    using assms(1) by (auto simp: flow_out_def Some bindR_Inr_iff)
  show ?thesis
  proof (cases "is_adrp ins")
    case True
    then obtain r page where o: "adrp_operands ins = Inr (r, page)"
      and out: "out = AList.update r (page, [(ins_address ins, e_soff E + pos)]) state"
      using d by (auto simp: decoded_regs_def bindR_Inr_iff)
    have "r \<in> env_regs E" "(ins_address ins, e_soff E + pos) \<in> env_defs E"
      using pos Some o by (auto simp: env_regs_def env_defs_def)
    then show ?thesis unfolding out by (rule regs_ok_update [OF assms(2)])
  next
    case False
    then show ?thesis using d assms(2) by (auto simp: decoded_regs_def intro: regs_ok_drop split: if_splits)
  qed
qed

definition scan_ok :: "adrp_env \<Rightarrow> scan res \<Rightarrow> bool" where
  "scan_ok E r = (case r of Inl _ \<Rightarrow> True | Inr (code, f) \<Rightarrow> flow_ok (length (e_insns E)) (env_regs E) (env_defs E) f)"

text \<open>The two cases of a turn.\<close>

lemma scan_stepE:
  assumes "scan_step E (code, inc, work) = Inr (code', f')"
  obtains (seed) seed where "work = []" "unreached_adrp E inc = Some seed" "code' = code"
      "f' = merge_state (length (e_insns E)) [] seed (inc, [])"
  | (idle) "work = []" "unreached_adrp E inc = None" "code' = code" "f' = (inc, [])"
  | (turn) pos rest state word out succs where "work = pos # rest" "inc pos = Some state"
      "u32 (fst code) (e_soff E + pos) = Inr word" "code_out E pos state code = Inr code'"
      "flow_out E word pos state = Inr (out, succs)"
      "f' = fold (merge_state (length (e_insns E)) out) succs (inc, rest)"
proof (cases work)
  case Nil
  then show thesis using assms seed idle by (auto simp: scan_step_def Let_def split: option.splits)
next
  case (Cons pos rest)
  then show thesis using assms turn by (auto simp: scan_step_def Let_def bindR_Inr_iff split: option.splits)
qed

lemma flow_ok_tl: "flow_ok n R U (inc, pos # rest) \<Longrightarrow> flow_ok n R U (inc, rest)"
  by (auto simp: flow_ok_def)

lemma scan_step_ok:
  assumes "scan_ok E (Inr (code, inc, work))" "scan_step E (code, inc, work) = Inr (code', f')"
  shows "scan_ok E (Inr (code', f'))"
  using assms(2)
proof (cases rule: scan_stepE)
  case (seed s)
  then show ?thesis using assms(1) merge_state_ok [OF _ regs_ok_Nil] by (auto simp: scan_ok_def)
next
  case idle
  then show ?thesis using assms(1) by (simp add: scan_ok_def)
next
  case (turn pos rest state word out succs)
  have f: "flow_ok (length (e_insns E)) (env_regs E) (env_defs E) (inc, rest)"
    using assms(1) turn(1) by (auto simp: scan_ok_def intro: flow_ok_tl)
  have "env_ok E state" "in_section (length (e_insns E)) pos" using f turn(2) by (auto simp: flow_ok_def)
  then show ?thesis
    using fold_merge_ok [OF f flow_out_ok [OF turn(5)]] turn(6) by (simp add: scan_ok_def)
qed

text \<open>Every turn lowers the flow, or shortens the work list and leaves the flow.\<close>

definition scan_measure :: "adrp_env \<Rightarrow> scan res \<Rightarrow> nat \<times> nat" where
  "scan_measure E r = (case r of Inl _ \<Rightarrow> (0, 0)
     | Inr (code, inc, work) \<Rightarrow> (Suc (flow_size (length (e_insns E)) (env_regs E) (env_defs E) inc), length work))"

lemma unreached_adrp_in: "unreached_adrp E inc = Some p \<Longrightarrow> in_section (length (e_insns E)) p \<and> inc p = None"
  by (auto simp: unreached_adrp_def find_Some_iff in_section_def)

lemma scan_step_measure:
  assumes "scan_ok E r" "scan_more E r"
  shows "(scan_measure E (bindR r (scan_step E)), scan_measure E r) \<in> less_than <*lex*> less_than"
proof -
  obtain code inc work where r: "r = Inr (code, inc, work)" using assms(2) by (auto simp: scan_more_def split: sum.splits)
  let ?n = "length (e_insns E)" and ?R = "env_regs E" and ?U = "env_defs E"
  have f: "flow_ok ?n ?R ?U (inc, work)" using assms(1) by (simp add: scan_ok_def r)
  show ?thesis
  proof (cases "scan_step E (code, inc, work)")
    case (Inl e)
    then show ?thesis by (simp add: r scan_measure_def)
  next
    case (Inr s)
    obtain code' f' where s: "s = (code', f')" by (cases s)
    have "scan_step E (code, inc, work) = Inr (code', f')" using Inr by (simp add: s)
    then show ?thesis
    proof (cases rule: scan_stepE)
      case (seed p)
      note u = unreached_adrp_in [OF seed(2)]
      have "f' \<noteq> (inc, [])" using seed(4) u by (simp add: merge_state_def)
      then have "flow_size ?n ?R ?U (fst f') < flow_size ?n ?R ?U inc"
        using merge_state_size [OF f [unfolded seed(1)] regs_ok_Nil finite_env, of p] seed(4) by auto
      then show ?thesis using Inr by (cases f') (simp add: r s scan_measure_def)
    next
      case idle
      then show ?thesis using assms(2) by (simp add: r scan_more_def)
    next
      case (turn pos rest state word out succs)
      have fr: "flow_ok ?n ?R ?U (inc, rest)" using f turn(1) by (auto intro: flow_ok_tl)
      have "env_ok E state" "in_section ?n pos" using fr turn(2) by (auto simp: flow_ok_def)
      then have ok: "env_ok E out" by (rule flow_out_ok [OF turn(5)])
      have "f' = (inc, rest) \<or> flow_size ?n ?R ?U (fst f') < flow_size ?n ?R ?U inc"
        using fold_merge_size [OF fr ok finite_env, of succs] turn(6) by simp
      then show ?thesis using Inr turn(1) by (cases f') (auto simp: r s scan_measure_def)
    qed
  qed
qed

lemma scan_start_ok: "scan_ok E (Inr (scan_start E seeds buf))"
  unfolding scan_ok_def scan_start_def sum.case prod.case
  by (rule fold_merge_ok [OF _ regs_ok_Nil]) (simp add: flow_ok_def)

lemma scan_loop_ends: "\<exists>r. scan_loop E (scan_start E seeds buf) = Some r"
  unfolding scan_loop_def
proof (rule wf_rel_while_option_Some [where P = "scan_ok E"])
  show "wf (inv_image (less_than <*lex*> less_than) (scan_measure E))" by (intro wf_inv_image wf_lex_prod wf_less_than)
  show "(bindR s (scan_step E), s) \<in> inv_image (less_than <*lex*> less_than) (scan_measure E)"
    if "scan_ok E s \<and> scan_more E s" for s
    using scan_step_measure that by (simp add: inv_image_def)
  show "scan_ok E (bindR s (scan_step E))" if "scan_ok E s \<and> scan_more E s" for s
  proof (cases "bindR s (scan_step E)")
    case (Inl e)
    then show ?thesis by (simp add: scan_ok_def)
  next
    case (Inr t)
    then show ?thesis using that scan_step_ok by (cases s; cases t) auto
  qed
  show "scan_ok E (Inr (scan_start E seeds buf))" by (rule scan_start_ok)
qed

text \<open>C15: \<^verbatim>\<open>rewrite_adrp\<close> always returns: whatever code the disassembler reports, the work list of every section
  runs empty, and the pass ends with a buffer or an error.\<close>

theorem rewrite_adrp_terminates: "\<exists>r. rewrite_adrp disasm reg_name got buf osegs deltas = Some r"
proof -
  have sec: "\<exists>r. adrp_section P so b = Some r" for P so b
    using scan_loop_ends by (fastforce simp: adrp_section_def rewrite_section_def Let_def split: sum.splits prod.splits)
  have "\<exists>r. adrp_sections P sos b = Some r" for P sos b
  proof (induction sos arbitrary: b)
    case (Cons so sos)
    obtain r where "adrp_section P so b = Some r" using sec by blast
    then show ?case using Cons.IH by (cases r) simp_all
  qed simp
  then show ?thesis by (auto simp: rewrite_adrp_def split: list.splits option.splits sum.splits prod.splits)
qed

subsection \<open>What the scan knows is true on every path\<close>

definition decoded_region :: "adrp_env \<Rightarrow> nat \<Rightarrow> bool" where
  "decoded_region E k \<longleftrightarrow> (\<exists>pos \<in> decoded_positions E. field_region (e_soff E + pos) 4 k)"

lemma put_adrp_outside:
  assumes "put_adrp foff pc pg (b, pages) = Inr (c, pages')" "0 \<le> foff"
  shows "same_outside (field_region foff 4) b c"
proof -
  from assms(1) obtain w where w: "p32 b foff w = Inr c" by (auto simp: put_adrp_def bindR_Inr_iff)
  show ?thesis by (rule same_outside_mono [OF f32.wr_outside [OF w assms(2)]]) (simp add: field_region_def)
qed

lemma set_consumer_disp_outside:
  assumes "set_consumer_disp b foff v = Inr (c, ok)" "0 \<le> foff"
  shows "same_outside (field_region foff 4) b c"
proof (cases "c = b")
  case False
  then obtain w where w: "p32 b foff w = Inr c"
    using assms(1) by (auto simp: set_consumer_disp_def bindR_Inr_iff split: option.splits)
  show ?thesis by (rule same_outside_mono [OF f32.wr_outside [OF w assms(2)]]) (simp add: field_region_def)
qed simp

lemma fix_defs_outside:
  assumes "foldR (fix_def td pg) defs code = Inr code'" "\<forall>(a, foff) \<in> set defs. 0 \<le> foff"
  shows "same_outside (\<lambda>k. \<exists>(a, foff) \<in> set defs. field_region foff 4 k) (fst code) (fst code')"
  using assms
proof (induction defs arbitrary: code)
  case (Cons d defs)
  obtain a foff where d: "d = (a, foff)" by (cases d)
  obtain b pages where code: "code = (b, pages)" by (cases code)
  from Cons.prems(1) obtain c where c: "fix_def td pg d code = Inr c" and r: "foldR (fix_def td pg) defs c = Inr code'"
    by (auto simp: bindR_Inr_iff)
  have "same_outside (field_region foff 4) (fst code) (fst c)"
  proof (cases "c = code")
    case False
    then have "put_adrp foff (a + td) pg (b, pages) = Inr (fst c, snd c)"
      using c by (auto simp: fix_def_def d code split: option.splits if_splits)
    then show ?thesis using put_adrp_outside Cons.prems(2) by (fastforce simp: d code)
  qed simp
  then have 1: "same_outside (\<lambda>k. \<exists>(a, foff) \<in> set (d # defs). field_region foff 4 k) (fst code) (fst c)"
    by (rule same_outside_mono) (auto simp: d)
  have "same_outside (\<lambda>k. \<exists>(a, foff) \<in> set defs. field_region foff 4 k) (fst c) (fst code')"
    using Cons.IH [OF r] Cons.prems(2) by simp
  then have 2: "same_outside (\<lambda>k. \<exists>(a, foff) \<in> set (d # defs). field_region foff 4 k) (fst c) (fst code')"
    by (rule same_outside_mono) auto
  show ?case by (rule same_outside_trans [OF 1 2])
qed simp

lemma env_defs_region: "(a, foff) \<in> env_defs E \<Longrightarrow> field_region foff 4 k \<Longrightarrow> decoded_region E k"
  by (auto simp: env_defs_def decoded_region_def)

lemma env_defs_nonneg: "(a, foff) \<in> env_defs E \<Longrightarrow> 0 \<le> e_soff E \<Longrightarrow> 0 \<le> foff"
  by (auto simp: env_defs_def decoded_positions_def)

lemma fix_consumer_outside:
  assumes "fix_consumer deltas td got ins foff state code = Inr code'" "env_ok E state" "0 \<le> e_soff E"
    "foff = e_soff E + pos" "pos \<in> decoded_positions E"
  shows "same_outside (decoded_region E) (fst code) (fst code')"
proof (cases "code' = code")
  case False
  then obtain base disp page defs nt dt pg b pages where st: "map_of state base = Some (page, defs)"
    and f: "foldR (fix_def td pg) defs code = Inr (b, pages)"
    and r: "code' = (b, pages) \<or> (\<exists>v c. set_consumer_disp b foff v = Inr (c, True) \<and> code' = (c, pages))"
    using assms(1)
    by (auto simp: fix_consumer_def Let_def bindR_Inr_iff bind_eq_Some_conv split: option.splits if_splits; blast)
  have ds: "set defs \<subseteq> env_defs E" using regs_ok_lookup [OF assms(2) st] by simp
  have pos: "0 \<le> pos" using assms(5) by (auto simp: decoded_positions_def)
  have nn: "\<forall>(a, foff) \<in> set defs. 0 \<le> foff" using ds env_defs_nonneg [OF _ assms(3)] by blast
  have in_region: "decoded_region E k" if "\<exists>(a, foff) \<in> set defs. field_region foff 4 k" for k
    using that ds env_defs_region by blast
  have "same_outside (\<lambda>k. \<exists>(a, foff) \<in> set defs. field_region foff 4 k) (fst code) b"
    using fix_defs_outside [OF f nn] by simp
  then have 1: "same_outside (decoded_region E) (fst code) b"
    by (rule same_outside_mono) (rule in_region)
  have "same_outside (decoded_region E) b c" if "set_consumer_disp b foff v = Inr (c, True)" for v c
    by (rule same_outside_mono [OF set_consumer_disp_outside [OF that]])
       (use assms(3-5) pos in \<open>auto simp: decoded_region_def\<close>)
  then show ?thesis using r 1 same_outside_trans [OF 1] by fastforce
qed simp

lemma code_out_outside:
  assumes "code_out E pos state code = Inr code'" "env_ok E state" "0 \<le> e_soff E" "in_section (length (e_insns E)) pos"
  shows "same_outside (decoded_region E) (fst code) (fst code')"
proof (cases "insn_at E pos")
  case (Some ins)
  have p: "pos \<in> decoded_positions E" by (rule decoded_positions_at [OF assms(4) Some])
  show ?thesis
  proof (cases "is_adrp ins \<and> code' \<noteq> code")
    case True
    then obtain pc pg where "put_adrp (e_soff E + pos) pc pg code = Inr code'"
      using assms(1) by (auto simp: code_out_def Some eager_adrp_def bindR_Inr_iff split: option.splits if_splits)
    then have "same_outside (field_region (e_soff E + pos) 4) (fst code) (fst code')"
      using put_adrp_outside [of "e_soff E + pos" pc pg "fst code" "snd code" "fst code'" "snd code'"] assms(3,4)
      by (simp add: in_section_def)
    then show ?thesis by (rule same_outside_mono) (use p in \<open>auto simp: decoded_region_def\<close>)
  next
    case False
    then show ?thesis
      using assms(1) fix_consumer_outside [OF _ assms(2,3) refl p] by (auto simp: code_out_def Some split: if_splits)
  qed
qed (use assms(1) in \<open>simp add: code_out_def\<close>)


text \<open>The registers after the instruction at \<open>pos\<close>, by the code as it was before the pass.\<close>

definition flow_at :: "adrp_env \<Rightarrow> bytes \<Rightarrow> int \<Rightarrow> regs \<Rightarrow> (regs \<times> int list) res" where
  "flow_at E buf pos state = bindR (u32 buf (e_soff E + pos)) (\<lambda>word. flow_out E word pos state)"

text \<open>Following one path from \<open>s\<close>, where nothing is known, without merging.\<close>

inductive path_regs :: "adrp_env \<Rightarrow> bytes \<Rightarrow> int \<Rightarrow> int \<Rightarrow> regs \<Rightarrow> bool" for E buf s where
  start: "path_regs E buf s s []"
| follow: "path_regs E buf s p c \<Longrightarrow> flow_at E buf p c = Inr (out, succs) \<Longrightarrow> q \<in> set succs \<Longrightarrow>
    in_section (length (e_insns E)) q \<Longrightarrow> path_regs E buf s q out"

lemma regs_le_drop: "regs_le a b \<Longrightarrow> regs_le (drop_regs P a) (drop_regs P b)"
  by (auto simp: regs_le_def map_of_drop_regs)

lemma regs_le_update: "regs_le a b \<Longrightarrow> regs_le (AList.update r x a) (AList.update r x b)"
  by (cases x) (auto simp: regs_le_def update_conv')

lemma decoded_regs_mono:
  assumes "decoded_regs rn ins foff a = Inr oa" "decoded_regs rn ins foff b = Inr ob" "regs_le a b"
  shows "regs_le oa ob"
  using assms
  by (auto simp: decoded_regs_def bindR_Inr_iff intro: regs_le_drop regs_le_update split: if_splits)

lemma flow_out_mono:
  assumes "flow_out E w pos a = Inr (oa, sa)" "flow_out E w pos b = Inr (ob, sb)" "regs_le a b"
  shows "sa = sb \<and> regs_le oa ob"
proof (cases "insn_at E pos")
  case None
  then show ?thesis
    using assms by (auto simp: flow_out_def undecoded_flow_def intro: regs_le_drop split: if_splits)
next
  case (Some ins)
  then show ?thesis
    using assms by (auto simp: flow_out_def bindR_Inr_iff dest: decoded_regs_mono)
qed

text \<open>On a path every register has exactly one definition.\<close>

lemma flow_out_single:
  assumes "flow_out E w pos c = Inr (out, succs)" "\<forall>r page ds. map_of c r = Some (page, ds) \<longrightarrow> (\<exists>d. ds = [d])"
    "map_of out r = Some (page, ds)"
  shows "\<exists>d. ds = [d]"
proof -
  have dr: "\<exists>d. ds = [d]" if "map_of (drop_regs P c) r = Some (page, ds)" for P
    using that assms(2) by (auto simp: map_of_drop_regs split: if_splits)
  show ?thesis
  proof (cases "insn_at E pos")
    case None
    then show ?thesis
      using assms dr by (auto simp: flow_out_def undecoded_flow_def split: if_splits)
  next
    case (Some ins)
    then show ?thesis
      using assms dr by (auto simp: flow_out_def decoded_regs_def bindR_Inr_iff update_conv' split: if_splits)
  qed
qed

text \<open>A position whose last processing agrees with its state.\<close>

definition closed_at :: "adrp_env \<Rightarrow> bytes \<Rightarrow> (int \<Rightarrow> regs option) \<Rightarrow> int \<Rightarrow> bool" where
  "closed_at E buf inc pos \<longleftrightarrow>
     (\<forall>st. inc pos = Some st \<longrightarrow> (\<exists>out succs. flow_at E buf pos st = Inr (out, succs)
        \<and> (\<forall>q \<in> set succs. in_section (length (e_insns E)) q \<longrightarrow> (\<exists>st'. inc q = Some st' \<and> regs_le st' out))))"

lemma closed_at_step:
  assumes "closed_at E buf inc pos" "flow_step (inc, work) (inc', work')" "inc' pos = inc pos"
  shows "closed_at E buf inc' pos"
proof (unfold closed_at_def, intro allI impI)
  fix st assume "inc' pos = Some st"
  then obtain out succs where o: "flow_at E buf pos st = Inr (out, succs)"
    "\<forall>q \<in> set succs. in_section (length (e_insns E)) q \<longrightarrow> (\<exists>st'. inc q = Some st' \<and> regs_le st' out)"
    using assms(1,3) by (auto simp: closed_at_def)
  have "\<exists>st'. inc' q = Some st' \<and> regs_le st' out" if q: "q \<in> set succs" "in_section (length (e_insns E)) q" for q
  proof -
    obtain s1 where "inc q = Some s1" "regs_le s1 out" using o(2) q by blast
    moreover from this obtain s2 where "inc' q = Some s2" "regs_le s2 s1"
      using assms(2) unfolding flow_step_def prod.case by blast
    ultimately show ?thesis using regs_le_trans by blast
  qed
  then show "\<exists>out succs. flow_at E buf pos st = Inr (out, succs)
        \<and> (\<forall>q \<in> set succs. in_section (length (e_insns E)) q \<longrightarrow> (\<exists>st'. inc' q = Some st' \<and> regs_le st' out))"
    using o(1) by blast
qed

definition scan_inv :: "adrp_env \<Rightarrow> bytes \<Rightarrow> int list \<Rightarrow> scan \<Rightarrow> bool" where
  "scan_inv E buf seeds = (\<lambda>(code, inc, work).
     scan_ok E (Inr (code, inc, work))
     \<and> same_outside (decoded_region E) buf (fst code)
     \<and> (\<forall>pos. pos \<notin> set work \<longrightarrow> closed_at E buf inc pos)
     \<and> (\<forall>s \<in> set seeds. in_section (length (e_insns E)) s \<longrightarrow> inc s = Some []))"

lemma seeds_stay:
  assumes "inc s = Some []" "flow_step (inc, work) (inc', work')"
  shows "inc' s = Some []"
  using assms regs_le_empty unfolding flow_step_def prod.case by metis

lemma closed_after:
  assumes "\<forall>p. p \<notin> set work \<longrightarrow> closed_at E buf inc p" "flow_step (inc, rest) (inc', work')" "set work \<subseteq> insert pos (set rest)"
    "pos \<notin> set work' \<Longrightarrow> closed_at E buf inc' pos"
  shows "\<forall>p. p \<notin> set work' \<longrightarrow> closed_at E buf inc' p"
proof (intro allI impI)
  fix p assume p: "p \<notin> set work'"
  show "closed_at E buf inc' p"
  proof (cases "p = pos")
    case False
    then have "p \<notin> set work" "inc' p = inc p"
      using p assms(2,3) by (auto simp: flow_step_def)
    then show ?thesis using assms(1) closed_at_step [OF _ assms(2)] by blast
  qed (use p assms(4) in simp)
qed

lemma undecoded_word:
  assumes "same_outside (decoded_region E) buf b" "insn_at E pos = None" "in_section (length (e_insns E)) pos" "0 \<le> e_soff E"
  shows "u32 b (e_soff E + pos) = u32 buf (e_soff E + pos)"
proof (rule same_outside_unpack_u [OF assms(1)])
  have nd: "pos \<notin> decoded_positions E"
    using assms(2,3) by (auto simp: decoded_positions_def insn_at_def in_section_def)
  show "0 \<le> e_soff E + pos" using assms(3,4) by (simp add: in_section_def)
  fix k assume k: "e_soff E + pos \<le> int k" "int k < e_soff E + pos + int 4"
  show "\<not> decoded_region E k"
  proof
    assume "decoded_region E k"
    then obtain i where i: "4 * int i \<in> decoded_positions E" "e_soff E + 4 * int i \<le> int k" "int k < e_soff E + 4 * int i + 4"
      by (auto simp: decoded_region_def decoded_positions_def field_region_def)
    have "4 * int i = pos" using i(2,3) k assms(3) unfolding in_section_def by presburger
    then show False using nd i(1) by simp
  qed
qed

lemma flow_at_word:
  assumes "flow_out E word pos st = Inr x" "u32 b (e_soff E + pos) = Inr word"
    "same_outside (decoded_region E) buf b" "in_section (length (e_insns E)) pos" "0 \<le> e_soff E"
  shows "flow_at E buf pos st = Inr x"
proof (cases "insn_at E pos")
  case None
  have "u32 buf (e_soff E + pos) = Inr word" using undecoded_word [OF assms(3) None assms(4,5)] assms(2) by simp
  then show ?thesis using assms(1) by (simp add: flow_at_def)
next
  case (Some ins)
  have "0 \<le> e_soff E + pos" using assms(4,5) by (simp add: in_section_def)
  then have "is_ok (u32 buf (e_soff E + pos)) = is_ok (u32 b (e_soff E + pos))"
    using same_outside_length [OF assms(3)] by (simp add: unpack_u_ok_iff)
  then obtain w where "u32 buf (e_soff E + pos) = Inr w" using assms(2) by (auto simp: is_ok_iff)
  then show ?thesis using assms(1) by (simp add: flow_at_def flow_out_def Some)
qed

lemma scan_step_inv:
  assumes "scan_inv E buf seeds (code, inc, work)" "scan_step E (code, inc, work) = Inr (code', f')" "0 \<le> e_soff E"
  shows "scan_inv E buf seeds (code', f')"
proof -
  let ?n = "length (e_insns E)"
  obtain inc' work' where f': "f' = (inc', work')" by (cases f')
  have ok: "scan_ok E (Inr (code, inc, work))" and out: "same_outside (decoded_region E) buf (fst code)"
    and cl: "\<forall>pos. pos \<notin> set work \<longrightarrow> closed_at E buf inc pos" and sd: "\<forall>s \<in> set seeds. in_section ?n s \<longrightarrow> inc s = Some []"
    using assms(1) by (auto simp: scan_inv_def)
  have ok': "scan_ok E (Inr (code', inc', work'))" using scan_step_ok [OF ok assms(2)] by (simp add: f')
  have fl: "flow_ok ?n (env_regs E) (env_defs E) (inc, work)" using ok by (simp add: scan_ok_def)
  show ?thesis
    using assms(2)
  proof (cases rule: scan_stepE)
    case (seed s)
    have st: "flow_step (inc, []) (inc', work')"
      using merge_state_step [OF fl [unfolded seed(1)], of "[]" s] seed(4) f' by simp
    have "s \<in> set work'" using seed(4) f' unreached_adrp_in [OF seed(2)] by (auto simp: merge_state_def)
    then have "\<forall>p. p \<notin> set work' \<longrightarrow> closed_at E buf inc' p"
      by (intro closed_after [OF cl st, of s]) (use seed(1) in auto)
    then show ?thesis using ok' out sd seeds_stay [OF _ st] seed(3) by (simp add: scan_inv_def f')
  next
    case idle
    then show ?thesis using assms(1) by (simp add: scan_inv_def)
  next
    case (turn pos rest state word ou succs)
    have fr: "flow_ok ?n (env_regs E) (env_defs E) (inc, rest)" using fl turn(1) by (auto intro: flow_ok_tl)
    have st: "env_ok E state" "in_section ?n pos" using fr turn(2) by (auto simp: flow_ok_def)
    have oo: "env_ok E ou" by (rule flow_out_ok [OF turn(5) st])
    have step: "flow_step (inc, rest) (inc', work')" using fold_merge_step [OF fr oo, of succs] turn(6) f' by simp
    have at: "\<exists>s'. inc' q = Some s' \<and> regs_le s' ou" if "q \<in> set succs" "in_section ?n q" for q
      using fold_merge_at [OF fr oo that] turn(6) f' by (metis fst_conv)
    have fa: "flow_at E buf pos state = Inr (ou, succs)" by (rule flow_at_word [OF turn(5,3) out st(2) assms(3)])
    have "closed_at E buf inc' pos" if "pos \<notin> set work'"
    proof -
      have "inc' pos = Some state" using that step turn(2) by (auto simp: flow_step_def)
      then show ?thesis using fa at by (auto simp: closed_at_def)
    qed
    then have "\<forall>p. p \<notin> set work' \<longrightarrow> closed_at E buf inc' p"
      by (intro closed_after [OF cl step, of pos]) (use turn(1) in auto)
    moreover have "same_outside (decoded_region E) buf (fst code')"
      by (rule same_outside_trans [OF out code_out_outside [OF turn(4) st(1) assms(3) st(2)]])
    ultimately show ?thesis using ok' sd seeds_stay [OF _ step] by (simp add: scan_inv_def f')
  qed
qed

lemma seed_states:
  "flow_ok n R U f \<Longrightarrow> s \<in> set seeds \<Longrightarrow> in_section n s \<Longrightarrow> fst (fold (merge_state n []) seeds f) s = Some []"
  using fold_merge_at [OF _ regs_ok_Nil] regs_le_empty by metis

lemma scan_start_inv: "scan_inv E buf seeds (scan_start E seeds buf)"
proof -
  let ?n = "length (e_insns E)" and ?f = "fold (merge_state (length (e_insns E)) []) seeds (Map.empty, [])"
  have e: "flow_ok ?n (env_regs E) (env_defs E) (Map.empty, [])" by (simp add: flow_ok_def)
  have st: "flow_step (Map.empty, []) ?f" by (rule fold_merge_step [OF e regs_ok_Nil])
  obtain inc work where f: "?f = (inc, work)" by (cases ?f)
  have "\<forall>pos. pos \<notin> set work \<longrightarrow> closed_at E buf inc pos"
    using st unfolding f by (auto simp: flow_step_def closed_at_def)
  moreover have "\<forall>s \<in> set seeds. in_section ?n s \<longrightarrow> inc s = Some []"
  proof (intro ballI impI)
    fix s assume "s \<in> set seeds" "in_section ?n s"
    then have "fst ?f s = Some []" by (rule seed_states [OF e])
    then show "inc s = Some []" by (simp only: f fst_conv)
  qed
  ultimately show ?thesis
    using scan_start_ok [of E seeds buf] by (simp add: scan_inv_def scan_start_def f)
qed

lemma scan_loop_inv:
  assumes "scan_loop E (scan_start E seeds buf) = Some (Inr s)" "0 \<le> e_soff E"
  shows "scan_inv E buf seeds s"
proof -
  let ?P = "\<lambda>r :: scan res. case r of Inl _ \<Rightarrow> True | Inr s \<Rightarrow> scan_inv E buf seeds s"
  have "?P (Inr s)"
  proof (rule while_option_rule [where P = ?P, OF _ assms(1) [unfolded scan_loop_def]])
    fix r assume i: "?P r" "scan_more E r"
    then obtain code inc work where r: "r = Inr (code, inc, work)" by (auto simp: scan_more_def split: sum.splits)
    show "?P (bindR r (scan_step E))"
    proof (cases "scan_step E (code, inc, work)")
      case (Inr t)
      then show ?thesis using i(1) scan_step_inv [OF _ _ assms(2)] by (cases t) (auto simp: r)
    qed (simp add: r)
  qed (simp add: scan_start_inv)
  then show ?thesis by simp
qed

text \<open>C16: When the scan of a section ends without an error, the registers it has recorded for a position are right
  on every control-flow path from a function start to that position: a register with a page and a
  set of \<^verbatim>\<open>ADRP\<close>s holds, on the path, that page from one of them. Only decoded instructions of the
  section have been rewritten.\<close>

theorem adrp_paths_sound:
  assumes scan: "scan_loop E (scan_start E seeds buf) = Some (Inr ((buf', pages), incoming, work))" and soff: "0 \<le> e_soff E"
    and entry: "s \<in> set seeds" "in_section (length (e_insns E)) s" and path: "path_regs E buf s pos c"
  shows "(\<exists>st. incoming pos = Some st
      \<and> (\<forall>r page ds. map_of st r = Some (page, ds) \<longrightarrow> (\<exists>d \<in> set ds. map_of c r = Some (page, [d]))))
    \<and> same_outside (decoded_region E) buf buf'"
proof -
  note inv = scan_loop_inv [OF scan soff]
  have "work = []" using while_option_stop [OF scan [unfolded scan_loop_def]] by (simp add: scan_more_def)
  then have cl: "closed_at E buf incoming p" for p using inv by (simp add: scan_inv_def)
  have in0: "incoming s = Some []" using inv entry by (simp add: scan_inv_def)
  have ok: "env_ok E st" if "incoming p = Some st" for p st using inv that by (auto simp: scan_inv_def scan_ok_def flow_ok_def)
  have "(\<exists>st. incoming pos = Some st \<and> regs_le st c) \<and> (\<forall>r page ds. map_of c r = Some (page, ds) \<longrightarrow> (\<exists>d. ds = [d]))"
    using path
  proof (induction rule: path_regs.induct)
    case start
    then show ?case using in0 by simp
  next
    case (follow p c out succs q)
    obtain st where st: "incoming p = Some st" "regs_le st c" using follow.IH by blast
    obtain o' succs' where o': "flow_at E buf p st = Inr (o', succs')"
      "\<forall>q \<in> set succs'. in_section (length (e_insns E)) q \<longrightarrow> (\<exists>st'. incoming q = Some st' \<and> regs_le st' o')"
      using cl [of p] st(1) by (auto simp: closed_at_def)
    have m: "succs' = succs \<and> regs_le o' out"
      using o'(1) follow.hyps(2) flow_out_mono [OF _ _ st(2)] by (auto simp: flow_at_def bindR_Inr_iff)
    then obtain st' where "incoming q = Some st'" "regs_le st' o'" using o'(2) follow.hyps(3,4) by blast
    moreover have "\<forall>r page ds. map_of out r = Some (page, ds) \<longrightarrow> (\<exists>d. ds = [d])"
      using follow.IH follow.hyps(2) flow_out_single by (auto simp: flow_at_def bindR_Inr_iff)
    ultimately show ?case using m regs_le_trans by blast
  qed
  then have "\<exists>st. incoming pos = Some st
      \<and> (\<forall>r page ds. map_of st r = Some (page, ds) \<longrightarrow> (\<exists>d \<in> set ds. map_of c r = Some (page, [d])))"
    unfolding regs_le_def by fastforce
  then show ?thesis using inv by (simp add: scan_inv_def)
qed

text \<open>An \<^verbatim>\<open>ADRP\<close>, a conditional branch back to it, and a return.\<close>

definition demo_env :: adrp_env where
  "demo_env = \<lparr>e_reg_name = (\<lambda>_. ''x19''), e_deltas = [(0, 0x2000, 0x1000), (0x4000, 0x8000, 0x3000)], e_text_delta = 0x1000,
     e_got = (\<lambda>_. None),
     e_insns = [Some \<lparr>ins_address = 0x1000, mnemonic = ''adrp'', operands = [OReg 8, OImm 0x4000], regs_written = []\<rparr>,
       Some \<lparr>ins_address = 0x1004, mnemonic = ''cbz'', operands = [OReg 9, OImm 0x1000], regs_written = []\<rparr>,
       Some \<lparr>ins_address = 0x1008, mnemonic = ''ret'', operands = [], regs_written = []\<rparr>],
     e_soff = 0, e_old_sa = 0x1000\<rparr>"

definition demo_code :: bytes where
  "demo_code = le_words 4 [0x90000008, 0xB4FFFFE9, 0xD65F03C0]"

lemma demo_scan:
  "(case scan_loop demo_env (scan_start demo_env [0] demo_code) of Some (Inr _) \<Rightarrow> True | _ \<Rightarrow> False)"
  "flow_at demo_env demo_code 0 [] = Inr ([(8, 0x4000, [(0x1000, 0)])], [4])"
  "in_section (length (e_insns demo_env)) 0" "in_section (length (e_insns demo_env)) 4" "e_soff demo_env = 0"
  by code_simp+

lemma adrp_paths_sound_witness:
  "\<exists>buf' pages incoming work st. scan_loop demo_env (scan_start demo_env [0] demo_code) = Some (Inr ((buf', pages), incoming, work))
     \<and> incoming 4 = Some st
     \<and> (\<forall>r page ds. map_of st r = Some (page, ds) \<longrightarrow> (\<exists>d \<in> set ds. map_of [(8, 0x4000, [(0x1000, 0)])] r = Some (page, [d])))"
proof -
  obtain buf' pages incoming work where s: "scan_loop demo_env (scan_start demo_env [0] demo_code) = Some (Inr ((buf', pages), incoming, work))"
    using demo_scan(1) by (auto split: option.splits sum.splits)
  have p: "path_regs demo_env demo_code 0 4 [(8, 0x4000, [(0x1000, 0)])]"
    by (rule path_regs.follow [OF path_regs.start demo_scan(2) _ demo_scan(4)]) simp
  show ?thesis
    using adrp_paths_sound [OF s _ _ demo_scan(3) p] demo_scan(5) s by simp
qed

end
