(* ===== verification/Fixup_Blob.thy ===== *)
theory Fixup_Blob
  imports Weave Branch_Islands
begin

text \<open>
  The \<^verbatim>\<open>LC_DYLD_CHAINED_FIXUPS\<close> payload that \<^verbatim>\<open>main\<close> of \<^verbatim>\<open>uncache.py\<close> appends to the image: the symbol
  pool, the import words, the page starts of each segment and the header that ties them together,
  with the reader's side of the same format and the splicing into \<^verbatim>\<open>__LINKEDIT\<close>. Symbol names are
  the bytes of their encoding.
\<close>

definition PF_ARM64E_USERLAND :: int where "PF_ARM64E_USERLAND = 9"

type_synonym import_key = "int \<times> bytes"

subsection \<open>The symbol pool and the import words\<close>

definition pad_to :: "bytes \<Rightarrow> int \<Rightarrow> bytes" where
  "pad_to b n = b @ zeros ((- int (length b)) mod n)"

fun sym_pool :: "import_key list \<Rightarrow> bytes \<Rightarrow> (bytes \<Rightarrow> int option) \<Rightarrow> bytes \<times> (bytes \<Rightarrow> int option)" where
  "sym_pool [] pool symoff = (pool, symoff)"
| "sym_pool ((lo, n) # ks) pool symoff =
     sym_pool ks (pool @ n @ [0]) (symoff(n \<mapsto> int (length pool)))"

definition import_word :: "int \<Rightarrow> int \<Rightarrow> int \<Rightarrow> int" where
  "import_word weak lo off = (lo AND 0xFF) OR push_bit 8 weak OR push_bit 9 (off AND 0x7FFFFF)"

definition import_words :: "int \<Rightarrow> (bytes \<Rightarrow> int option) \<Rightarrow> import_key list \<Rightarrow> bytes res" where
  "import_words weak symoff ks =
     bindR (mapR (\<lambda>(lo, n). bindR (lookup_key symoff n) (\<lambda>off. pack_new 4 [import_word weak lo off])) ks)
       (\<lambda>ws. Inr (concat ws))"

subsection \<open>The page starts\<close>

definition starts_segment :: "int \<Rightarrow> segment \<Rightarrow> int list \<Rightarrow> bytes res" where
  "starts_segment nbase s ps =
     bindR (pack_new 4 [0]) (\<lambda>f0. bindR (pack_new 2 [PAGE, PF_ARM64E_USERLAND]) (\<lambda>f1.
     bindR (pack_new 8 [vmaddr s - nbase]) (\<lambda>f2. bindR (pack_new 4 [0]) (\<lambda>f3.
     bindR (pack_new 2 [int (length ps)]) (\<lambda>f4. bindR (pack_new 2 ps) (\<lambda>f5.
     let b = f0 @ f1 @ f2 @ f3 @ f4 @ f5 in p32 b 0 (int (length b))))))))"

definition put_starts :: "nat \<times> bytes \<Rightarrow> bytes \<Rightarrow> bytes res" where
  "put_starts = (\<lambda>(i, b) sii.
     let sii = pad_to sii 4; cur = int (length sii) in
     bindR (p32 sii (4 + int i * 4) cur) (\<lambda>sii. Inr (sii @ b)))"

definition starts_in_image :: "int \<Rightarrow> segment list \<Rightarrow> (nat \<times> int list) list \<Rightarrow> bytes res" where
  "starts_in_image nbase segs starts =
     bindR (pack_new 4 [int (length segs)]) (\<lambda>head.
     bindR (mapR (\<lambda>(i, ps). bindR (starts_segment nbase (segs ! i) ps) (\<lambda>b. Inr (i, b))) starts) (\<lambda>blobs.
     foldR put_starts (sort_key fst blobs) (head @ zeros (4 * int (length segs)))))"

subsection \<open>The payload\<close>

definition fixups_blob :: "int \<Rightarrow> int \<Rightarrow> segment list \<Rightarrow> (nat \<times> int list) list \<Rightarrow> import_key list \<Rightarrow> bytes res" where
  "fixups_blob weak nbase segs starts imports =
     (case sym_pool imports [] Map.empty of (sympool, symoff) \<Rightarrow>
     bindR (import_words weak symoff imports) (\<lambda>imp_blob.
     bindR (starts_in_image nbase segs starts) (\<lambda>sii.
     bindR (pack_new 4 [0, 0, 0, 0, int (length imports), 1, 0]) (\<lambda>blob.
     let blob = pad_to blob 4; starts_off = int (length blob); blob = blob @ sii;
         blob = pad_to blob 4; imports_off = int (length blob); blob = blob @ imp_blob;
         symbols_off = int (length blob); blob = blob @ sympool in
     bindR (p32s blob 0 [0, starts_off, imports_off, symbols_off, int (length imports), 1, 0]) (\<lambda>blob.
     Inr (pad_to blob 8))))))"

subsection \<open>The reader's side\<close>

text \<open>What a loader finds behind the header: the imports by index, and for each segment its page
  starts or nothing.\<close>

definition read_import :: "bytes \<Rightarrow> int \<Rightarrow> (int \<times> int \<times> bytes) res" where
  "read_import blob k =
     bindR (u32 blob 8) (\<lambda>imports_off. bindR (u32 blob 12) (\<lambda>symbols_off.
     bindR (u32 blob (imports_off + 4 * k)) (\<lambda>w.
     Inr (bits 0 8 w, bits 8 1 w, before_nul (drop (nat (symbols_off + bits 9 23 w)) blob)))))"

record page_starts =
  ps_page_size :: int
  ps_format :: int
  ps_segment_offset :: int
  ps_starts :: "int list"

definition read_starts :: "bytes \<Rightarrow> nat \<Rightarrow> page_starts option res" where
  "read_starts blob i =
     bindR (u32 blob 4) (\<lambda>starts_off.
     bindR (u32 blob (starts_off + 4 + int i * 4)) (\<lambda>rel.
     if rel = 0 then Inr None
     else let o' = starts_off + rel in
       bindR (unpack_us [4, 2, 2, 8, 4, 2] blob o') (\<lambda>h.
       bindR (mapR (\<lambda>k. u16 blob (o' + 22 + 2 * int k)) [0..<nat (h ! 5)]) (\<lambda>ps.
       Inr (Some \<lparr>ps_page_size = h ! 1, ps_format = h ! 2, ps_segment_offset = h ! 3, ps_starts = ps\<rparr>)))))"

subsection \<open>Growing buffers\<close>

lemma holds_at_append: "holds_at b cur c \<Longrightarrow> holds_at (b @ ys) cur c"
  by (auto simp: holds_at_def)

lemma holds_at_end: "holds_at (b @ c @ ys) (int (length b)) c"
  by (simp add: holds_at_def)

lemma unpack_u_append: "0 \<le> off \<Longrightarrow> off + int w \<le> int (length b) \<Longrightarrow> unpack_u w (b @ ys) off = unpack_u w b off"
  by (simp add: unpack_u_def at_off_nonneg)

lemma length_pad_to: "0 < n \<Longrightarrow> int (length (pad_to b n)) = int (length b) + (- int (length b)) mod n"
  by (simp add: pad_to_def)

lemma pad_to_dvd: "0 < n \<Longrightarrow> n dvd int (length (pad_to b n))"
proof -
  assume "0 < n"
  moreover have "(int (length b) + (- int (length b)) mod n) mod n = 0"
    by (simp add: mod_add_right_eq)
  ultimately show ?thesis by (simp add: length_pad_to dvd_eq_mod_eq_0)
qed

lemma unpack_us_split:
  assumes "holds_at b cur c" "length c = sum_list ws" "0 \<le> cur"
  shows "unpack_us ws b cur = Inr (split_fields ws c)"
proof -
  have "split_fields ws (take (sum_list ws) x) = split_fields ws x" for x
  proof (induction ws arbitrary: x)
    case (Cons w ws)
    have "drop w (take (w + sum_list ws) x) = take (sum_list ws) (drop w x)" by (simp add: drop_take)
    moreover have "take w (take (w + sum_list ws) x) = take w x" by (simp add: min_def)
    ultimately show ?case using Cons.IH by simp
  qed simp
  then show ?thesis using assms by (simp add: unpack_us_def at_off_nonneg holds_at_def) metis
qed

subsection \<open>The symbol pool\<close>

lemma sym_pool_grows: "length pool \<le> length (fst (sym_pool ks pool off))"
proof (induction ks arbitrary: pool off)
  case (Cons k ks)
  obtain lo n where k: "k = (lo, n)" by (cases k)
  show ?case using Cons.IH [of "pool @ n @ [0]"] unfolding k sym_pool.simps
    by (rule order_trans [rotated]) simp
qed simp

definition pool_inv :: "bytes \<times> (bytes \<Rightarrow> int option) \<Rightarrow> bool" where
  "pool_inv = (\<lambda>(pool, symoff). \<forall>n off. symoff n = Some off \<longrightarrow> holds_at pool off (n @ [0]))"

lemma sym_pool_inv: "pool_inv (pool, off) \<Longrightarrow> pool_inv (sym_pool ks pool off)"
proof (induction ks arbitrary: pool off)
  case (Cons k ks)
  obtain lo n where k: "k = (lo, n)" by (cases k)
  have "pool_inv (pool @ n @ [0], off(n \<mapsto> int (length pool)))"
    using Cons.prems holds_at_end [of pool "n @ [0]" "[]"] holds_at_append [of pool _ _ "n @ [0]"]
    by (auto simp: pool_inv_def split: if_splits)
  then show ?case using Cons.IH unfolding k sym_pool.simps by blast
qed simp

lemma sym_pool_dom: "dom (snd (sym_pool ks pool off)) = dom off \<union> snd ` set ks"
proof (induction ks arbitrary: pool off)
  case (Cons k ks)
  obtain lo n where k: "k = (lo, n)" by (cases k)
  show ?case unfolding k sym_pool.simps Cons.IH by auto
qed simp

lemma pool_name:
  assumes "sym_pool ks [] Map.empty = (pool, symoff)" "(lo, n) \<in> set ks"
  obtains off where "symoff n = Some off" "holds_at pool off (n @ [0])"
proof -
  have "pool_inv (pool, symoff)"
    using sym_pool_inv [of "[]" Map.empty ks] by (simp add: assms(1) pool_inv_def)
  moreover have "n \<in> dom symoff" using sym_pool_dom [of ks "[]" Map.empty] assms by force
  ultimately show thesis using that by (auto simp: pool_inv_def)
qed

lemma before_nul_block: "holds_at b cur (n @ [0]) \<Longrightarrow> 0 \<notin> set n \<Longrightarrow> before_nul (drop (nat cur) b) = n"
proof -
  assume h: "holds_at b cur (n @ [0])" and n: "0 \<notin> set n"
  have "drop (nat cur) b = take (length (n @ [0])) (drop (nat cur) b) @ drop (length (n @ [0])) (drop (nat cur) b)"
    by (rule append_take_drop_id [symmetric])
  then have "drop (nat cur) b = (n @ [0]) @ drop (length (n @ [0])) (drop (nat cur) b)"
    using h by (simp add: holds_at_def)
  then show ?thesis using n by (simp add: before_nul_def takeWhile_append)
qed

subsection \<open>One segment's starts\<close>

definition seg_info :: "int \<Rightarrow> segment \<Rightarrow> int list \<Rightarrow> page_starts" where
  "seg_info nbase s ps = \<lparr>ps_page_size = PAGE, ps_format = PF_ARM64E_USERLAND,
     ps_segment_offset = vmaddr s - nbase, ps_starts = ps\<rparr>"

abbreviation seg_header :: "int \<Rightarrow> segment \<Rightarrow> int list \<Rightarrow> bytes" where
  "seg_header nbase s ps \<equiv> le_bytes 4 (22 + 2 * int (length ps)) @ le_bytes 2 PAGE @ le_bytes 2 PF_ARM64E_USERLAND
     @ le_bytes 8 (vmaddr s - nbase) @ le_bytes 4 0 @ le_bytes 2 (int (length ps))"

lemma le_words_nth:
  "k < length vs \<Longrightarrow> take w (drop (w * k) (le_words w vs)) = le_bytes w (vs ! k)"
proof (induction vs arbitrary: k)
  case (Cons v vs)
  show ?case
  proof (cases k)
    case (Suc j)
    then have "drop (w * k) (le_words w (v # vs)) = drop (w * j) (le_words w vs)" by (simp add: drop_append)
    then show ?thesis using Cons Suc by simp
  qed simp
qed simp

lemma starts_segment_form:
  assumes "starts_segment nbase s ps = Inr b"
  shows "b = seg_header nbase s ps @ le_words 2 ps"
    and "int (length ps) < 2 ^ 16" "0 \<le> vmaddr s - nbase" "vmaddr s - nbase < 2 ^ 64"
    and "\<forall>v \<in> set ps. 0 \<le> v \<and> v < 2 ^ 16"
proof -
  let ?b0 = "le_bytes 4 0 @ le_bytes 2 PAGE @ le_bytes 2 PF_ARM64E_USERLAND @ le_bytes 8 (vmaddr s - nbase)
      @ le_bytes 4 0 @ le_bytes 2 (int (length ps)) @ le_words 2 ps"
  have l: "length ?b0 = 22 + 2 * length ps" by simp
  have fits: "int (length ps) < 2 ^ 16" "0 \<le> vmaddr s - nbase" "vmaddr s - nbase < 2 ^ 64"
      "\<forall>v \<in> set ps. 0 \<le> v \<and> v < 2 ^ 16" and b: "p32 ?b0 0 (int (length ?b0)) = Inr b"
    using assms by (auto simp: starts_segment_def pack_new_def bindR_Inr_iff Let_def list_all_iff
      simp del: le_bytes.simps split: if_splits)
  then show "int (length ps) < 2 ^ 16" "0 \<le> vmaddr s - nbase" "vmaddr s - nbase < 2 ^ 64"
      "\<forall>v \<in> set ps. 0 \<le> v \<and> v < 2 ^ 16" by blast+
  have "b = put_at ?b0 0 (le_bytes 4 (int (length ?b0)))"
    using b by (simp add: pack_u_def at_off_nonneg bindR_Inr_iff del: le_bytes.simps split: if_splits)
  also have "\<dots> = le_bytes 4 (int (length ?b0)) @ drop 4 ?b0" by (simp add: put_at_def del: le_bytes.simps)
  also have "drop 4 ?b0 = drop 4 (le_bytes 4 0) @ drop 0 (le_bytes 2 PAGE @ le_bytes 2 PF_ARM64E_USERLAND @ le_bytes 8 (vmaddr s - nbase)
      @ le_bytes 4 0 @ le_bytes 2 (int (length ps)) @ le_words 2 ps)" by (simp del: le_bytes.simps)
  finally show "b = seg_header nbase s ps @ le_words 2 ps" using l by (simp del: le_bytes.simps)
qed

lemma starts_segment_read:
  assumes "starts_segment nbase s ps = Inr b" "holds_at blob o' b"
    "u32 blob 4 = Inr so" "u32 blob (so + 4 + int i * 4) = Inr rel" "rel \<noteq> 0" "o' = so + rel"
  shows "read_starts blob i = Inr (Some (seg_info nbase s ps))"
proof -
  note f = starts_segment_form [OF assms(1)]
  have fit: "\<forall>v \<in> set ps. 0 \<le> v \<and> v < 256 ^ 2" using f(5) by simp
  have h: "holds_at b 0 (seg_header nbase s ps)" by (simp add: holds_at_def f(1) del: le_bytes.simps)
  have o': "0 \<le> o'" using assms(2) by (simp add: holds_at_def)
  have "unpack_us [4, 2, 2, 8, 4, 2] blob o' = Inr (split_fields [4, 2, 2, 8, 4, 2] (seg_header nbase s ps))"
    by (rule unpack_us_split) (use holds_at_sub [OF assms(2) h] o' in \<open>simp_all del: le_bytes.simps\<close>)
  also have "\<dots> = Inr [22 + 2 * int (length ps), PAGE, PF_ARM64E_USERLAND, vmaddr s - nbase, 0, int (length ps)]"
    using f(2,3,4) by (simp add: le_int_le_bytes PAGE_def PF_ARM64E_USERLAND_def del: le_bytes.simps)
  finally have hd: "unpack_us [4, 2, 2, 8, 4, 2] blob o' = \<dots>" .
  have u: "u16 blob (o' + 22 + 2 * int k) = Inr (ps ! k)" if k: "k < length ps" for k
  proof -
    have "u16 blob (o' + (22 + 2 * int k)) = u16 b (22 + 2 * int k)"
      by (rule holds_at_unpack_u [OF assms(2)]) (use k in \<open>simp_all add: f(1) del: le_bytes.simps\<close>)
    also have "\<dots> = Inr (le_int (take 2 (drop (nat (22 + 2 * int k)) b)))"
      using k by (simp add: unpack_u_def at_off_nonneg f(1) del: le_bytes.simps)
    also have "nat (22 + 2 * int k) = 22 + 2 * k" by simp
    also have "drop (22 + 2 * k) b = drop (2 * k) (le_words 2 ps)" by (simp add: f(1) del: le_bytes.simps)
    also have "take 2 \<dots> = le_bytes 2 (ps ! k)" by (rule le_words_nth [OF k])
    also have "le_int (le_bytes 2 (ps ! k)) = ps ! k" by (rule le_int_le_bytes) (use fit k in auto)
    finally show ?thesis by (simp add: add.assoc)
  qed
  have "mapR (\<lambda>k. u16 blob (o' + 22 + 2 * int k)) [0..<length ps] = Inr (map ((!) ps) [0..<length ps])"
    by (rule mapR_Inr_map) (use u in simp)
  then show ?thesis using hd assms(3-6) by (simp add: read_starts_def seg_info_def Let_def map_nth)
qed

lemma starts_segment_nonempty: "starts_segment nbase s ps = Inr b \<Longrightarrow> 0 < length b"
  using starts_segment_form(1) [of nbase s ps b] by simp

subsection \<open>All segments\<close>

text \<open>The table under construction: a count, one offset per segment, 0 for a segment that has none,
  and behind every other offset the segment's block.\<close>

definition slot_ok :: "nat \<Rightarrow> bytes option \<Rightarrow> bytes \<Rightarrow> nat \<Rightarrow> bool" where
  "slot_ok n f sii i \<longleftrightarrow> (case f of None \<Rightarrow> u32 sii (4 + int i * 4) = Inr 0
     | Some b \<Rightarrow> \<exists>rel. u32 sii (4 + int i * 4) = Inr rel \<and> int (4 + 4 * n) \<le> rel \<and> holds_at sii rel b)"

definition sii_inv :: "nat \<Rightarrow> (nat \<Rightarrow> bytes option) \<Rightarrow> bytes \<Rightarrow> bool" where
  "sii_inv n found sii \<longleftrightarrow> 4 + 4 * n \<le> length sii \<and> u32 sii 0 = Inr (int n) \<and> (\<forall>i < n. slot_ok n (found i) sii i)"

lemma slot_ok_transfer:
  "slot_ok n f sii i \<Longrightarrow> u32 sii' (4 + int i * 4) = u32 sii (4 + int i * 4) \<Longrightarrow>
   (\<And>rel c. holds_at sii rel c \<Longrightarrow> int (4 + 4 * n) \<le> rel \<Longrightarrow> holds_at sii' rel c) \<Longrightarrow> slot_ok n f sii' i"
  by (cases f) (auto simp: slot_ok_def)

lemma sii_inv_append:
  assumes "sii_inv n found sii"
  shows "sii_inv n found (sii @ ys)"
proof -
  have u: "u32 (sii @ ys) (4 + int i * 4) = u32 sii (4 + int i * 4)" if "i < n" for i
    by (rule unpack_u_append) (use assms that in \<open>auto simp: sii_inv_def\<close>)
  have z: "u32 (sii @ ys) 0 = u32 sii 0"
    by (rule unpack_u_append) (use assms in \<open>auto simp: sii_inv_def\<close>)
  show ?thesis using assms u z slot_ok_transfer holds_at_append by (simp add: sii_inv_def) blast
qed

lemma put_starts_inv:
  assumes inv: "sii_inv n found sii" and run: "put_starts (i, b) sii = Inr sii'" and i: "i < n"
  shows "sii_inv n (found(i \<mapsto> b)) sii'"
proof -
  let ?s = "pad_to sii 4"
  obtain s2 where p: "p32 ?s (4 + int i * 4) (int (length ?s)) = Inr s2" and s': "sii' = s2 @ b"
    using run by (auto simp: put_starts_def Let_def bindR_Inr_iff)
  have invp: "sii_inv n found ?s" unfolding pad_to_def by (rule sii_inv_append [OF inv])
  have len: "length s2 = length ?s" by (rule pack_u_length [OF p])
  have keep: "u32 s2 off = u32 ?s off" if "0 \<le> off" "off + 4 \<le> 4 + int i * 4 \<or> 4 + int i * 4 + 4 \<le> off" for off
    by (rule unpack_u_pack_u_other [OF p]) (use that in auto)
  have out: "same_outside (\<lambda>k. 4 + int i * 4 \<le> int k \<and> int k < 4 + int i * 4 + int 4) ?s s2"
    by (rule same_outside_pack_u [OF p]) simp
  have blk: "holds_at s2 rel c" if "holds_at ?s rel c" "int (4 + 4 * n) \<le> rel" for rel c
    by (rule holds_at_agree [OF that(1) agree_on_outside [OF out]]) (use that(2) i in auto)
  have big: "4 + 4 * n \<le> length ?s" using invp by (simp add: sii_inv_def)
  have tail: "u32 (s2 @ b) (4 + int j * 4) = u32 s2 (4 + int j * 4)" if "j < n" for j
    by (rule unpack_u_append) (use that big len in auto)
  have "slot_ok n ((found(i \<mapsto> b)) j) (s2 @ b) j" if j: "j < n" for j
  proof (cases "j = i")
    case True
    have "u32 (s2 @ b) (4 + int j * 4) = Inr (int (length ?s))"
      using tail [OF j] unpack_u_pack_u_same [OF p] True by simp
    moreover have "holds_at (s2 @ b) (int (length ?s)) b" using holds_at_end [of s2 b "[]"] len by simp
    ultimately show ?thesis using True big by (auto simp: slot_ok_def)
  next
    case False
    have "slot_ok n (found j) (s2 @ b) j"
    proof (rule slot_ok_transfer [of _ _ ?s])
      show "slot_ok n (found j) ?s j" using invp j by (simp add: sii_inv_def)
      show "u32 (s2 @ b) (4 + int j * 4) = u32 ?s (4 + int j * 4)"
        using tail [OF j] keep [of "4 + int j * 4"] False by (cases "j < i") auto
    qed (rule holds_at_append [OF blk])
    then show ?thesis using False by simp
  qed
  moreover have "u32 (s2 @ b) 0 = Inr (int n)"
    using unpack_u_append [of 0 4 s2 b] keep [of 0] big len invp by (auto simp: sii_inv_def)
  ultimately show ?thesis using big len by (simp add: s' sii_inv_def)
qed

lemma put_starts_fold:
  assumes "sii_inv n found sii" "foldR put_starts blobs sii = Inr sii'" "\<forall>(i, b) \<in> set blobs. i < n"
    "distinct (map fst blobs)"
  shows "sii_inv n (\<lambda>i. case map_of blobs i of None \<Rightarrow> found i | Some b \<Rightarrow> Some b) sii'"
  using assms
proof (induction blobs arbitrary: sii found)
  case (Cons x blobs)
  obtain i b where x: "x = (i, b)" by (cases x)
  obtain s1 where s1: "put_starts (i, b) sii = Inr s1" "foldR put_starts blobs s1 = Inr sii'"
    using Cons.prems(2) by (auto simp: x bindR_Inr_iff)
  have "sii_inv n (found(i \<mapsto> b)) s1" by (rule put_starts_inv [OF Cons.prems(1) s1(1)]) (use Cons.prems(3) x in auto)
  then have "sii_inv n (\<lambda>j. case map_of blobs j of None \<Rightarrow> (found(i \<mapsto> b)) j | Some b \<Rightarrow> Some b) sii'"
    by (rule Cons.IH [OF _ s1(2)]) (use Cons.prems(3,4) in auto)
  moreover have "map_of blobs i = None" using Cons.prems(4) x by (simp add: map_of_eq_None_iff)
  ultimately show ?case
    by (elim back_subst [of "\<lambda>f. sii_inv n f sii'"]) (auto simp: x fun_eq_iff split: option.splits)
qed simp

lemma starts_in_image_inv:
  assumes "starts_in_image nbase segs starts = Inr sii" "distinct (map fst starts)" "\<forall>(i, ps) \<in> set starts. i < length segs"
  obtains found where "sii_inv (length segs) found sii"
    "\<And>i. map_of starts i = None \<Longrightarrow> found i = None"
    "\<And>i ps. map_of starts i = Some ps \<Longrightarrow> \<exists>b. found i = Some b \<and> starts_segment nbase (segs ! i) ps = Inr b"
proof -
  let ?n = "length segs"
  let ?mk = "\<lambda>(i, ps). bindR (starts_segment nbase (segs ! i) ps) (\<lambda>b. Inr (i, b))"
  obtain blobs where fit: "int ?n < 2 ^ 32" and b: "mapR ?mk starts = Inr blobs"
    and f: "foldR put_starts (sort_key fst blobs) (le_bytes 4 (int ?n) @ zeros (4 * int ?n)) = Inr sii"
    using assms(1) by (auto simp: starts_in_image_def pack_new_def bindR_Inr_iff simp del: le_bytes.simps split: if_splits)
  have rel: "list_all2 (\<lambda>(i, ps) (j, b). i = j \<and> starts_segment nbase (segs ! i) ps = Inr b) starts blobs"
    using b by (induction starts arbitrary: blobs) (auto simp: bindR_Inr_iff)
  have mo: "rel_option (\<lambda>ps b. starts_segment nbase (segs ! i) ps = Inr b) (map_of starts i) (map_of blobs i)" for i
    using rel by (induction rule: list_all2_induct) auto
  have keys: "map fst blobs = map fst starts"
    using rel by (induction rule: list_all2_induct) auto
  then have "fst ` set blobs = fst ` set starts" by (metis set_map)
  then have dist: "distinct (map fst (sort_key fst blobs))" and lt: "\<forall>(i, b) \<in> set (sort_key fst blobs). i < ?n"
    using assms(2,3) keys by (auto simp: distinct_sort_key) force
  let ?h = "le_bytes 4 (int ?n) @ zeros (4 * int ?n)"
  have "u32 ?h (4 + int i * 4) = Inr 0" if "i < ?n" for i
  proof -
    have "drop (4 * i) (replicate (4 * ?n) (0::byte)) = replicate (4 * ?n - 4 * i) 0" by simp
    moreover have "take 4 (replicate (4 * ?n - 4 * i) (0::byte)) = replicate 4 0" using that by (simp add: min_def)
    moreover have "nat (4 + int i * 4) = 4 + 4 * i" by simp
    moreover have "le_int (replicate 4 0) = 0" by (simp add: numeral_eq_Suc)
    ultimately show ?thesis using that by (simp add: unpack_u_def at_off_nonneg zeros_def nat_mult_distrib del: le_bytes.simps)
  qed
  then have "sii_inv ?n Map.empty ?h"
    using fit by (simp add: sii_inv_def slot_ok_def zeros_def)
      (simp add: unpack_u_def at_off_nonneg le_int_le_bytes del: le_bytes.simps)
  from put_starts_fold [OF this f lt dist]
  have "sii_inv ?n (\<lambda>i. case map_of blobs i of None \<Rightarrow> None | Some b \<Rightarrow> Some b) sii"
    using map_of_sort_key [of blobs] assms(2) keys by simp
  then have "sii_inv ?n (map_of blobs) sii"
    by (elim back_subst [of "\<lambda>f. sii_inv ?n f sii"]) (auto simp: fun_eq_iff split: option.splits)
  then show thesis
  proof (rule that)
    show "map_of blobs i = None" if "map_of starts i = None" for i
      using mo [of i] that by simp
    show "\<exists>b. map_of blobs i = Some b \<and> starts_segment nbase (segs ! i) ps = Inr b" if "map_of starts i = Some ps" for i ps
      using mo [of i] that by (cases "map_of blobs i") auto
  qed
qed

subsection \<open>The import words\<close>

lemma import_word_form: "weak \<in> {0, 1} \<Longrightarrow> import_word weak lo off = fld 0 8 lo OR fld 8 1 weak OR fld 9 23 off"
proof -
  have m: "(0xFF::int) = mask 8" "(0x7FFFFF::int) = mask 23" by (simp_all add: mask_eq_exp_minus_1)
  have "fld 8 1 weak = push_bit 8 weak" if "weak \<in> {0, 1}" using that by (auto simp: fld_def)
  then show "weak \<in> {0, 1} \<Longrightarrow> import_word weak lo off = fld 0 8 lo OR fld 8 1 weak OR fld 9 23 off"
    by (simp add: import_word_def fld_def m take_bit_eq_mask del: One_nat_def)
qed

lemma import_word_bits:
  assumes "weak \<in> {0, 1}"
  shows "bits 0 8 (import_word weak lo off) = lo mod 256" "bits 8 1 (import_word weak lo off) = weak"
    and "bits 9 23 (import_word weak lo off) = off mod 2 ^ 23"
    and "0 \<le> import_word weak lo off" "import_word weak lo off < 2 ^ 32"
proof -
  show "bits 0 8 (import_word weak lo off) = lo mod 256" "bits 9 23 (import_word weak lo off) = off mod 2 ^ 23"
    using assms by (simp_all only: import_word_form bits_simps take_bit_eq_mod) (simp_all add: bits_simps take_bit_eq_mod del: One_nat_def)
  show "bits 8 1 (import_word weak lo off) = weak"
    using assms by (auto simp: import_word_form bits_simps simp del: One_nat_def)
  show "0 \<le> import_word weak lo off" "import_word weak lo off < 2 ^ 32"
    using assms by (auto simp: import_word_form intro!: or_less fld_less simp del: One_nat_def power_numeral)
qed

lemma import_words_form:
  assumes "import_words weak symoff ks = Inr b" "weak \<in> {0, 1}"
  obtains offs where "length offs = length ks" "\<forall>k < length ks. symoff (snd (ks ! k)) = Some (offs ! k)"
    "b = le_words 4 (map (\<lambda>(k, off). import_word weak (fst k) off) (zip ks offs))"
proof -
  let ?f = "\<lambda>(lo, n). bindR (lookup_key symoff n) (\<lambda>off. pack_new 4 [import_word weak lo off])"
  obtain ws where ws: "mapR ?f ks = Inr ws" "b = concat ws"
    using assms(1) by (auto simp: import_words_def bindR_Inr_iff)
  have "\<exists>offs. length offs = length ks \<and> (\<forall>k < length ks. symoff (snd (ks ! k)) = Some (offs ! k))
      \<and> concat ws = le_words 4 (map (\<lambda>(k, off). import_word weak (fst k) off) (zip ks offs))"
    using ws(1)
  proof (induction ks arbitrary: ws)
    case (Cons k ks)
    obtain w ws' where w: "?f k = Inr w" "mapR ?f ks = Inr ws'" "ws = w # ws'"
      using Cons.prems by (auto simp: bindR_Inr_iff)
    obtain off where off: "symoff (snd k) = Some off" "w = le_bytes 4 (import_word weak (fst k) off)"
      using w(1) by (cases k) (auto simp: bindR_Inr_iff lookup_key_def pack_new_def simp del: le_bytes.simps split: option.splits if_splits)
    obtain offs where offs: "length offs = length ks" "\<forall>k < length ks. symoff (snd (ks ! k)) = Some (offs ! k)"
      "concat ws' = le_words 4 (map (\<lambda>(k, off). import_word weak (fst k) off) (zip ks offs))"
      using Cons.IH [OF w(2)] by blast
    show ?case
      by (rule exI [of _ "off # offs"]) (use off offs w(3) in \<open>auto simp: nth_Cons split: nat.splits simp del: le_bytes.simps\<close>)
  qed simp
  then show thesis using that ws(2) by blast
qed

subsection \<open>The parts of the payload\<close>

lemma fixups_blob_parts:
  assumes "fixups_blob weak nbase segs starts imports = Inr blob"
  obtains pool symoff imp sii pad1 pad2 where
    "sym_pool imports [] Map.empty = (pool, symoff)" "import_words weak symoff imports = Inr imp"
    "starts_in_image nbase segs starts = Inr sii"
    "blob = le_words 4 [0, 28, int (28 + length sii + length pad1), int (28 + length sii + length pad1 + length imp),
        int (length imports), 1, 0] @ sii @ pad1 @ imp @ pool @ pad2"
    "int (28 + length sii + length pad1 + length imp) < 2 ^ 32"
    "8 dvd int (length blob)"
proof -
  obtain pool symoff where p: "sym_pool imports [] Map.empty = (pool, symoff)" by (cases "sym_pool imports [] Map.empty")
  let ?h0 = "le_words 4 [0, 0, 0, 0, int (length imports), 1, 0]"
  have l0: "length ?h0 = 28" by simp
  have pd: "pad_to ?h0 4 = ?h0" using l0 by (simp add: pad_to_def zeros_def del: le_words.simps)
  obtain imp sii b2 where i: "import_words weak symoff imports = Inr imp" and s: "starts_in_image nbase segs starts = Inr sii"
    and w: "p32s (pad_to (?h0 @ sii) 4 @ imp @ pool) 0 [0, 28, int (length (pad_to (?h0 @ sii) 4)),
          int (length (pad_to (?h0 @ sii) 4 @ imp)), int (length imports), 1, 0] = Inr b2" and b: "blob = pad_to b2 8"
    using assms l0 pd
    by (auto simp: fixups_blob_def p bindR_Inr_iff Let_def pack_new_def simp del: le_words.simps split: if_splits)
  define pad1 where "pad1 = zeros ((- int (length (?h0 @ sii))) mod 4)"
  have e: "pad_to (?h0 @ sii) 4 = ?h0 @ sii @ pad1" by (simp add: pad_to_def pad1_def del: le_words.simps)
  have len: "int (length (?h0 @ sii @ pad1)) = int (28 + length sii + length pad1)"
      "int (length (?h0 @ sii @ pad1 @ imp)) = int (28 + length sii + length pad1 + length imp)"
    using l0 by (simp_all del: le_words.simps)
  let ?h1 = "le_words 4 [0, 28, int (28 + length sii + length pad1), int (28 + length sii + length pad1 + length imp),
        int (length imports), 1, 0]"
  have "b2 = put_at ((?h0 @ sii @ pad1) @ imp @ pool) 0 ?h1"
    and fit: "int (28 + length sii + length pad1 + length imp) < 2 ^ 32"
    using w unfolding e by (auto simp: len add.assoc pack_us_def at_off_nonneg bindR_Inr_iff simp del: le_words.simps split: if_splits)
  moreover have "put_at ((?h0 @ sii @ pad1) @ imp @ pool) 0 ?h1 = ?h1 @ sii @ pad1 @ imp @ pool"
  proof -
    have "length ?h1 = length ?h0" by simp
    then show ?thesis by (simp add: put_at_def del: le_words.simps)
  qed
  ultimately have bl: "blob = ?h1 @ sii @ pad1 @ imp @ pool @ zeros ((- int (length b2)) mod 8)"
    by (simp add: b pad_to_def del: le_words.simps)
  have d: "8 dvd int (length blob)" unfolding b by (rule pad_to_dvd) simp
  show thesis by (rule that [OF p i s bl fit d])
qed

lemma u32_le_words:
  assumes "holds_at b cur (le_words 4 vs)" "k < length vs" "0 \<le> vs ! k" "vs ! k < 2 ^ 32"
  shows "u32 b (cur + 4 * int k) = Inr (vs ! k)"
proof -
  have "u32 b (cur + 4 * int k) = u32 (le_words 4 vs) (4 * int k)"
    by (rule holds_at_unpack_u [OF assms(1)]) (use assms(2) in \<open>simp_all del: le_words.simps\<close>)
  also have "\<dots> = Inr (le_int (take 4 (drop (4 * k) (le_words 4 vs))))"
    using assms(2) by (simp add: unpack_u_def at_off_nonneg nat_mult_distrib del: le_words.simps)
  also have "take 4 (drop (4 * k) (le_words 4 vs)) = le_bytes 4 (vs ! k)" by (rule le_words_nth [OF assms(2)])
  finally show ?thesis using assms(3,4) by (simp add: le_int_le_bytes)
qed

lemma u32_list:
  assumes "holds_at b cur (le_words 4 vs)" "k < length vs" "0 \<le> vs ! k" "vs ! k < 2 ^ 32" "off = cur + 4 * int k" "v = vs ! k"
  shows "u32 b off = Inr v"
  using u32_le_words [OF assms(1-4)] assms(5,6) by simp

lemma read_import_correct:
  assumes run: "import_words weak symoff ks = Inr imp" "sym_pool ks [] Map.empty = (pool, symoff)" "weak \<in> {0, 1}"
    and offs: "u32 blob 8 = Inr io" "u32 blob 12 = Inr so" "holds_at blob io imp" "holds_at blob so pool"
    and small: "int (length pool) \<le> 2 ^ 23" and k: "k < length ks" "0 \<notin> set (snd (ks ! k))"
  shows "read_import blob (int k) = Inr (fst (ks ! k) mod 256, weak, snd (ks ! k))"
proof -
  obtain os where os: "length os = length ks" "\<forall>k < length ks. symoff (snd (ks ! k)) = Some (os ! k)"
    and imp: "imp = le_words 4 (map (\<lambda>(k, off). import_word weak (fst k) off) (zip ks os))"
    by (rule import_words_form [OF run(1,3)])
  let ?w = "import_word weak (fst (ks ! k)) (os ! k)"
  note w = import_word_bits [OF run(3)]
  have "u32 blob (io + 4 * int k) = Inr ?w"
    by (rule u32_list [OF offs(3)[unfolded imp]]) (use k os w(4,5) in auto)
  moreover obtain off where off: "symoff (snd (ks ! k)) = Some off" "holds_at pool off (snd (ks ! k) @ [0])"
    using pool_name [OF run(2), of "fst (ks ! k)" "snd (ks ! k)"] k(1) by auto
  have "os ! k = off" using os(2) k(1) off(1) by simp
  moreover have "off mod 2 ^ 23 = off" using off(2) small by (auto simp: holds_at_def)
  moreover have "before_nul (drop (nat (so + off)) blob) = snd (ks ! k)"
    by (rule before_nul_block [OF holds_at_sub [OF offs(4) off(2)] k(2)])
  ultimately show ?thesis using offs(1,2) w(2) [of "fst (ks ! k)" off]
    by (simp add: read_import_def w)
qed

lemma fixups_blob_read:
  assumes run: "fixups_blob weak nbase segs starts imports = Inr blob" and weak: "weak \<in> {0, 1}"
    and names: "\<forall>(lo, n) \<in> set imports. 0 \<notin> set n"
    and small: "int (length (fst (sym_pool imports [] Map.empty))) \<le> 2 ^ 23"
    and starts: "distinct (map fst starts)" "\<forall>(i, ps) \<in> set starts. i < length segs"
  shows "u32 blob 16 = Inr (int (length imports))
    \<and> (\<forall>k < length imports. read_import blob (int k) = Inr (fst (imports ! k) mod 256, weak, snd (imports ! k)))
    \<and> (\<forall>i < length segs. read_starts blob i = Inr (map_option (seg_info nbase (segs ! i)) (map_of starts i)))
    \<and> 8 dvd int (length blob)"
proof -
  obtain pool symoff imp sii pad1 pad2 where p: "sym_pool imports [] Map.empty = (pool, symoff)"
    and iw: "import_words weak symoff imports = Inr imp" and si: "starts_in_image nbase segs starts = Inr sii"
    and bl: "blob = le_words 4 [0, 28, int (28 + length sii + length pad1), int (28 + length sii + length pad1 + length imp),
        int (length imports), 1, 0] @ sii @ pad1 @ imp @ pool @ pad2"
    and fit: "int (28 + length sii + length pad1 + length imp) < 2 ^ 32" and dv: "8 dvd int (length blob)"
    by (rule fixups_blob_parts [OF run])
  define h where "h = [0, 28, int (28 + length sii + length pad1), int (28 + length sii + length pad1 + length imp),
        int (length imports), 1, 0]"
  have bl: "blob = le_words 4 h @ sii @ pad1 @ imp @ pool @ pad2" and lh: "length h = 7"
    using bl by (simp_all add: h_def del: le_words.simps)
  have hh: "holds_at blob 0 (le_words 4 h)" unfolding bl by (simp add: holds_at_def)
  have hs: "holds_at blob 28 sii" using holds_at_end [of "le_words 4 h" sii "pad1 @ imp @ pool @ pad2"] by (simp add: bl lh)
  have hi: "holds_at blob (int (28 + length sii + length pad1)) imp"
    using holds_at_end [of "le_words 4 h @ sii @ pad1" imp "pool @ pad2"] by (simp add: bl lh add.assoc)
  have hp: "holds_at blob (int (28 + length sii + length pad1 + length imp)) pool"
    using holds_at_end [of "le_words 4 h @ sii @ pad1 @ imp" pool pad2] by (simp add: bl lh add.assoc)
  obtain os where "length os = length imports"
    "imp = le_words 4 (map (\<lambda>(k, off). import_word weak (fst k) off) (zip imports os))"
    by (rule import_words_form [OF iw weak])
  then have li: "length imp = 4 * length imports" by simp
  have hn: "h ! 1 = 28" "h ! 2 = int (28 + length sii + length pad1)"
    "h ! 3 = int (28 + length sii + length pad1 + length imp)" "h ! 4 = int (length imports)"
    by (simp_all add: h_def)
  have li': "int (length imports) < 2 ^ 32" using fit li by simp
  have u1: "u32 blob 4 = Inr 28" by (rule u32_list [OF hh, of 1]) (simp_all add: lh hn del: One_nat_def)
  have u2: "u32 blob 8 = Inr (int (28 + length sii + length pad1))"
    by (rule u32_list [OF hh, of 2]) (use fit in \<open>simp_all add: lh hn\<close>)
  have u3: "u32 blob 12 = Inr (int (28 + length sii + length pad1 + length imp))"
    by (rule u32_list [OF hh, of 3]) (use fit in \<open>simp_all add: lh hn\<close>)
  have u4: "u32 blob 16 = Inr (int (length imports))"
    by (rule u32_list [OF hh, of 4]) (use li' in \<open>simp_all add: lh hn\<close>)
  note u = u1 u2 u3 u4
  have imps: "read_import blob (int k) = Inr (fst (imports ! k) mod 256, weak, snd (imports ! k))" if k: "k < length imports" for k
    by (rule read_import_correct [OF iw p weak u(2,3) hi hp])
       (use small p k names nth_mem [OF k] in \<open>auto simp: case_prod_unfold\<close>)
  obtain found where inv: "sii_inv (length segs) found sii" and none: "\<And>i. map_of starts i = None \<Longrightarrow> found i = None"
    and some: "\<And>i ps. map_of starts i = Some ps \<Longrightarrow> \<exists>b. found i = Some b \<and> starts_segment nbase (segs ! i) ps = Inr b"
    by (rule starts_in_image_inv [OF si starts]) blast
  have st: "read_starts blob i = Inr (map_option (seg_info nbase (segs ! i)) (map_of starts i))" if i: "i < length segs" for i
  proof -
    have sl: "slot_ok (length segs) (found i) sii i" and len: "4 + 4 * length segs \<le> length sii" using inv i by (auto simp: sii_inv_def)
    have rd: "u32 blob (28 + 4 + int i * 4) = u32 sii (4 + int i * 4)"
      using holds_at_unpack_u [OF hs, of "4 + int i * 4" 4] len i by (simp add: add.assoc)
    show ?thesis
    proof (cases "map_of starts i")
      case None
      then show ?thesis using sl none rd u(1) by (simp add: slot_ok_def read_starts_def)
    next
      case (Some ps)
      then obtain b where b: "found i = Some b" "starts_segment nbase (segs ! i) ps = Inr b" using some by blast
      then obtain rel where rel: "u32 sii (4 + int i * 4) = Inr rel" "int (4 + 4 * length segs) \<le> rel" "holds_at sii rel b"
        using sl by (auto simp: slot_ok_def)
      have "read_starts blob i = Inr (Some (seg_info nbase (segs ! i) ps))"
        by (rule starts_segment_read [OF b(2) holds_at_sub [OF hs rel(3)] u(1)]) (use rd rel in auto)
      then show ?thesis by (simp add: Some)
    qed
  qed
  show ?thesis using u(4) imps st dv by blast
qed

text \<open>C17: A loader that follows the offsets of the payload finds, for every import, its ordinal byte, the
  weak flag and its name, and for every segment exactly the page starts it was given, or nothing; the
  payload ends on an 8-byte boundary.\<close>

theorem fixups_blob_roundtrip:
  assumes run: "fixups_blob weak nbase segs starts imports = Inr blob" and weak: "weak \<in> {0, 1}"
    and names: "\<forall>(lo, n) \<in> set imports. 0 \<notin> set n"
    and small: "int (length (fst (sym_pool imports [] Map.empty))) \<le> 2 ^ 23"
    and starts: "distinct (map fst starts)" "\<forall>(i, ps) \<in> set starts. i < length segs"
  shows "u32 blob 16 = Inr (int (length imports))
    \<and> (\<forall>k < length imports. read_import blob (int k) = Inr (fst (imports ! k) mod 256, weak, snd (imports ! k)))
    \<and> (\<forall>i < length segs. read_starts blob i = Inr (map_option (seg_info nbase (segs ! i)) (map_of starts i)))
    \<and> 8 dvd int (length blob)"
  by (rule fixups_blob_read [OF assms])

lemma fixups_blob_roundtrip_witness:
  "\<exists>blob. fixups_blob 1 0x1000 [weave_example_seg, weave_example_seg] [(1, [0, 0xFFFF])]
        [(0xFE, ascii ''_a''), (0xFE, ascii ''_bc'')] = Inr blob
     \<and> read_import blob 1 = Inr (0xFE, 1, ascii ''_bc'') \<and> read_starts blob 0 = Inr None
     \<and> read_starts blob 1 = Inr (Some (seg_info 0x1000 weave_example_seg [0, 0xFFFF]))"
proof -
  let ?s = "[weave_example_seg, weave_example_seg]" and ?i = "[(0xFE, ascii ''_a''), (0xFE, ascii ''_bc'')] :: import_key list"
  have ok: "is_ok (fixups_blob 1 0x1000 ?s [(1, [0, 0xFFFF])] ?i)"
    "\<forall>(lo, n) \<in> set ?i. 0 \<notin> set n" "int (length (fst (sym_pool ?i [] Map.empty))) \<le> 2 ^ 23"
    by code_simp+
  from ok(1) obtain blob where run: "fixups_blob 1 0x1000 ?s [(1, [0, 0xFFFF])] ?i = Inr blob" by (auto simp: is_ok_iff)
  have st: "distinct (map fst [(1::nat, [0, 0xFFFF] :: int list)])" "\<forall>(i, ps) \<in> set [(1::nat, [0, 0xFFFF] :: int list)]. i < length ?s" by simp_all
  have one: "(1::int) \<in> {0, 1}" by simp
  note r = fixups_blob_roundtrip [OF run one ok(2,3) st]
  have "\<forall>k < length ?i. read_import blob (int k) = Inr (fst (?i ! k) mod 256, 1, snd (?i ! k))"
    "\<forall>j < length ?s. read_starts blob j = Inr (map_option (seg_info 0x1000 (?s ! j)) (map_of [(1, [0, 0xFFFF])] j))"
    using r by blast+
  from this(1)[rule_format, of 1] this(2)[rule_format, of 0] this(2)[rule_format, of 1] show ?thesis using run by auto
qed

end
