(* ===== verification/Emit_Fixups.thy ===== *)
theory Emit_Fixups
  imports Fixup_Blob
begin

text \<open>
  The last steps of \<^verbatim>\<open>main\<close> of \<^verbatim>\<open>uncache.py\<close>: weave the chains, build the payload, put it at the end of
  the file inside \<^verbatim>\<open>__LINKEDIT\<close>, point a load command at it and clear the cache flag; and what a loader
  that starts from that command finds again.
\<close>

subsection \<open>Splicing the payload\<close>

definition last_seg :: "segment list \<Rightarrow> segment res" where
  "last_seg segs = (case segs of [] \<Rightarrow> Inl Value_Error
     | s # ss \<Rightarrow> Inr (foldl (\<lambda>best t. if fileoff best < fileoff t then t else best) s ss))"

definition splice :: "segment list \<Rightarrow> bytes \<Rightarrow> bytes \<Rightarrow> (bytes \<times> int) res" where
  "splice segs blob buf =
     bindR (last_seg segs) (\<lambda>li.
     bindR (guardR (seg_name li = ascii ''__LINKEDIT'') Assertion_Error) (\<lambda>_.
     let buf = pad_to buf 8; dataoff = int (length buf); buf = buf @ blob;
         new_size = int (length buf) - fileoff li in
     bindR (p64 buf (lc_off li + 32) (align16k new_size)) (\<lambda>buf.
     bindR (p64 buf (lc_off li + 48) new_size) (\<lambda>buf. Inr (buf, dataoff)))))"

definition clear_in_cache :: "bytes \<Rightarrow> bytes res" where
  "clear_in_cache buf = bindR (u32 buf 24) (\<lambda>flags. p32 buf 24 (flags AND NOT MH_DYLIB_IN_CACHE))"

definition finish_image :: "segment list \<Rightarrow> bytes \<Rightarrow> bytes \<Rightarrow> bytes res" where
  "finish_image segs blob buf =
     bindR (splice segs blob buf) (\<lambda>(buf, dataoff).
     bindR (append_fixups_command buf dataoff (int (length blob))) clear_in_cache)"

definition emit_fixups ::
    "int \<Rightarrow> int \<Rightarrow> segment list \<Rightarrow> (int \<Rightarrow> fixup_entry) \<Rightarrow> int list \<Rightarrow> import_key list \<Rightarrow> bytes \<Rightarrow> bytes res" where
  "emit_fixups weak nbase segs ent locs imports buf =
     bindR (weave segs ent locs buf) (\<lambda>(buf, starts).
     bindR (fixups_blob weak nbase segs starts imports) (\<lambda>blob.
     finish_image segs blob buf))"

subsection \<open>What the loader reads\<close>

text \<open>The fixups of one page, from the payload's starts and the chain in the image.\<close>

definition page_fixups ::
    "int \<Rightarrow> segment list \<Rightarrow> bytes \<Rightarrow> bytes \<Rightarrow> nat \<Rightarrow> int \<Rightarrow> (int \<times> fixup_entry) list res" where
  "page_fixups nbase segs out blob i pg =
     bindR (read_starts blob i) (\<lambda>r. case r of None \<Rightarrow> Inr []
       | Some info \<Rightarrow> bindR (py_index (ps_starts info) pg) (\<lambda>start.
           if start = START_NONE then Inr []
           else case walk_chain 2048 segs out (nbase + ps_segment_offset info + pg * ps_page_size info + start) of
                  None \<Rightarrow> Inl Value_Error | Some xs \<Rightarrow> Inr xs))"

subsection \<open>The image keeps what was woven\<close>

lemma splice_form:
  assumes "splice segs blob buf = Inr (mid, dataoff)"
  obtains li b where "last_seg segs = Inr li" "seg_name li = ascii ''__LINKEDIT''" "dataoff = int (length (pad_to buf 8))"
    "p64 (pad_to buf 8 @ blob) (lc_off li + 32) (align16k (int (length mid) - fileoff li)) = Inr b"
    "p64 b (lc_off li + 48) (int (length mid) - fileoff li) = Inr mid"
    "length mid = length (pad_to buf 8 @ blob)"
proof -
  obtain li b where *: "last_seg segs = Inr li" "seg_name li = ascii ''__LINKEDIT''" "dataoff = int (length (pad_to buf 8))"
    "p64 (pad_to buf 8 @ blob) (lc_off li + 32) (align16k (int (length (pad_to buf 8 @ blob)) - fileoff li)) = Inr b"
    "p64 b (lc_off li + 48) (int (length (pad_to buf 8 @ blob)) - fileoff li) = Inr mid"
    using assms by (auto simp: splice_def bindR_Inr_iff Let_def)
  have "length mid = length (pad_to buf 8 @ blob)"
    using pack_u_length [OF *(4)] pack_u_length [OF *(5)] by simp
  then show thesis using that * by metis
qed

lemma last_seg_mem:
  assumes "last_seg segs = Inr li"
  shows "li \<in> set segs" "\<forall>s \<in> set segs. fileoff s \<le> fileoff li"
proof -
  obtain s ss where s: "segs = s # ss" "li = foldl (\<lambda>best t. if fileoff best < fileoff t then t else best) s ss"
    using assms by (auto simp: last_seg_def split: list.splits)
  have "foldl (\<lambda>best t. if fileoff best < fileoff t then t else best) s ss \<in> set (s # ss)
      \<and> (\<forall>t \<in> set (s # ss). fileoff t \<le> fileoff (foldl (\<lambda>best t. if fileoff best < fileoff t then t else best) s ss))"
  proof (induction ss arbitrary: s)
    case (Cons t ss)
    show ?case using Cons.IH [of s] Cons.IH [of t] by (auto simp: not_less)
  qed simp
  then show "li \<in> set segs" "\<forall>s \<in> set segs. fileoff s \<le> fileoff li" using s by simp_all
qed

lemma lc_blobs_beyond:
  assumes "agree_on lo (int (length b)) b b'" "lo \<le> off" "0 \<le> lo"
  shows "lc_blobs b' n off = lc_blobs b n off"
  using assms(2)
proof (induction n arbitrary: off)
  case (Suc n)
  have u: "u32 b' p = u32 b p" if "off \<le> p" for p
    by (rule same_outside_unpack_u [of "\<lambda>k. int k < lo"]) (use assms that Suc.prems in \<open>auto simp: agree_on_def same_outside_def\<close>)
  have x: "u32x2 b' off = u32x2 b off" using u assms(3) Suc.prems by (simp add: u32x2_eq)
  have s: "py_slice b' off (off + sz) = py_slice b off (off + sz)" if "0 \<le> sz" for sz
  proof -
    have l: "length b' = length b" using assms(1) by (simp add: agree_on_def)
    have "drop (slice_bound (length b) off) b' = drop (slice_bound (length b) off) b"
      by (rule nth_equalityI) (use assms Suc.prems l in \<open>auto simp: agree_on_def slice_bound_def min_def split: if_splits\<close>)
    then show ?thesis by (simp add: py_slice_def Let_def l)
  qed
  show ?case
  proof (cases "u32x2 b off")
    case (Inr x)
    obtain cmd sz where x': "x = (cmd, sz)" by (cases x)
    have "0 \<le> sz" using u32x2_bounds Inr x' by auto
    then show ?thesis using Suc.IH [of "off + sz"] Suc.prems s x Inr x' by simp
  qed (simp add: x)
qed simp

text \<open>Room for the command: the spliced image has a well-formed table of \<open>n\<close> commands in \<open>area\<close> bytes,
  and its first used section starts at \<open>first\<close>.\<close>

definition command_room :: "bytes \<Rightarrow> int \<Rightarrow> int \<Rightarrow> int \<Rightarrow> bool" where
  "command_room mid n area first \<longleftrightarrow> header_ok mid n area \<and> is_ok (lc_blobs mid (nat n) 32) \<and> first \<le> int (length mid)
     \<and> (case parse_segments mid of Inl _ \<Rightarrow> False | Inr (segs, n', area') \<Rightarrow> n' = n \<and> area' = area
          \<and> (case section_offsets mid segs of Inl _ \<Rightarrow> False
               | Inr offs \<Rightarrow> first = (if offs = [] then 0x4000 else Min (set offs))))"

lemma append_command_effect:
  assumes run: "append_fixups_command mid dataoff sz = Inr b" and room: "command_room mid n area first"
  obtains bs size where "lc_blobs b (Suc (length bs)) 32
       = Inr (bs @ [(LC_DYLD_CHAINED_FIXUPS, le_words 4 [LC_DYLD_CHAINED_FIXUPS, 16, dataoff, sz])])"
    "u32 b 16 = Inr (int (length bs) + 1)" "32 + size \<le> first"
    "same_outside (\<lambda>k. 16 \<le> k \<and> k < 24 \<or> 32 \<le> k \<and> int k < 32 + max area size) mid b"
proof -
  obtain segs offs bs0 where h: "header_ok mid n area" "lc_blobs mid (nat n) 32 = Inr bs0" "first \<le> int (length mid)"
    "parse_segments mid = Inr (segs, n, area)" "section_offsets mid segs = Inr offs"
    "first = (if offs = [] then 0x4000 else Min (set offs))"
    using room by (auto simp: command_room_def is_ok_iff split: sum.splits)
  obtain bs size where *: "lc_blobs b (Suc (length bs)) 32
       = Inr (bs @ [(LC_DYLD_CHAINED_FIXUPS, le_words 4 [LC_DYLD_CHAINED_FIXUPS, 16, dataoff, sz])])"
    "32 + size + (if list_ex (\<lambda>(cmd, _). cmd = LC_CODE_SIGNATURE) bs0 then 0 else 16) \<le> first"
    "u32 b 16 = Inr (int (length bs) + 1)"
    "same_outside (\<lambda>k. 16 \<le> k \<and> k < 24 \<or> 32 \<le> k \<and> int k < 32 + max area size) mid b"
    using append_fixups_command_correct [OF run h(1,2,4,5,6,3) refl] by blast
  have "32 + size \<le> first" using *(2) by (simp split: if_splits)
  then show thesis using that * by blast
qed

lemma finish_image_effect:
  assumes run: "splice segs blob buf = Inr (mid, dataoff)" "append_fixups_command mid dataoff (int (length blob)) = Inr b"
      "clear_in_cache b = Inr out"
    and room: "command_room mid n area first" and lcs: "\<forall>s \<in> set segs. 32 \<le> lc_off s \<and> lc_off s + 56 \<le> 32 + area"
    and top: "lim \<le> int (length buf)" "max first (32 + area) \<le> lim"
  obtains bs where "\<And>off. lim \<le> off \<Longrightarrow> off + 8 \<le> int (length buf) \<Longrightarrow> u64 out off = u64 buf off"
    "py_slice out dataoff (dataoff + int (length blob)) = blob"
    "lc_blobs out (Suc (length bs)) 32
       = Inr (bs @ [(LC_DYLD_CHAINED_FIXUPS, le_words 4 [LC_DYLD_CHAINED_FIXUPS, 16, dataoff, int (length blob)])])"
    "u32 out 16 = Inr (int (length bs) + 1)"
    "\<exists>flags. u32 out 24 = Inr (flags AND NOT MH_DYLIB_IN_CACHE)"
proof -
  obtain li b1 where sp: "last_seg segs = Inr li" "dataoff = int (length (pad_to buf 8))"
    "p64 (pad_to buf 8 @ blob) (lc_off li + 32) (align16k (int (length mid) - fileoff li)) = Inr b1"
    "p64 b1 (lc_off li + 48) (int (length mid) - fileoff li) = Inr mid" "length mid = length (pad_to buf 8 @ blob)"
    by (rule splice_form [OF run(1)])
  have lc: "32 \<le> lc_off li" "lc_off li + 56 \<le> 32 + area" using last_seg_mem(1) [OF sp(1)] lcs by auto
  have o1: "same_outside (\<lambda>k. 32 \<le> int k \<and> int k < 32 + area) (pad_to buf 8 @ blob) mid"
    by (rule same_outside_trans [OF same_outside_mono [OF same_outside_pack_u [OF sp(3)]] same_outside_mono [OF same_outside_pack_u [OF sp(4)]]])
       (use lc in auto)
  obtain bs size where ap: "lc_blobs b (Suc (length bs)) 32
       = Inr (bs @ [(LC_DYLD_CHAINED_FIXUPS, le_words 4 [LC_DYLD_CHAINED_FIXUPS, 16, dataoff, int (length blob)])])"
    "u32 b 16 = Inr (int (length bs) + 1)" "32 + size \<le> first"
    "same_outside (\<lambda>k. 16 \<le> k \<and> k < 24 \<or> 32 \<le> k \<and> int k < 32 + max area size) mid b"
    by (rule append_command_effect [OF run(2) room])
  obtain flags where fl: "p32 b 24 (flags AND NOT MH_DYLIB_IN_CACHE) = Inr out" using run(3) by (auto simp: clear_in_cache_def bindR_Inr_iff)
  have o3: "same_outside (\<lambda>k. 24 \<le> int k \<and> int k < 28) b out" using same_outside_pack_u [OF fl] by simp
  have "same_outside (\<lambda>k. int k < lim) (pad_to buf 8 @ blob) out"
    by (rule same_outside_trans [OF same_outside_mono [OF o1] same_outside_trans [OF same_outside_mono [OF ap(4)] same_outside_mono [OF o3]]])
       (use ap(3) top(2) lc in auto)
  note all = this
  have len: "length out = length (pad_to buf 8 @ blob)" using all by (rule same_outside_length)
  have pre: "int (length buf) \<le> int (length (pad_to buf 8))" by (simp add: pad_to_def)
  have words: "u64 out off = u64 buf off" if so: "lim \<le> off" "off + 8 \<le> int (length buf)" for off
  proof -
    have z: "0 \<le> off" using so lc top(2) by auto
    have "u64 out off = u64 (pad_to buf 8 @ blob) off"
      by (rule same_outside_unpack_u [OF all z]) (use so in auto)
    also have "\<dots> = u64 (pad_to buf 8) off" by (rule unpack_u_append) (use so z pre in auto)
    also have "\<dots> = u64 buf off" unfolding pad_to_def by (rule unpack_u_append) (use so z in auto)
    finally show ?thesis .
  qed
  have hb: "holds_at (pad_to buf 8 @ blob) dataoff blob" using holds_at_end [of "pad_to buf 8" blob "[]"] by (simp add: sp(2))
  have "holds_at out dataoff blob"
    by (rule holds_at_agree [OF hb agree_on_outside [OF all]]) (use pre top(1) sp(2) in auto)
  then have slice: "py_slice out dataoff (dataoff + int (length blob)) = blob"
    using holds_at_slice [of out dataoff blob 0 "int (length blob)"] by (simp add: py_slice_take_drop)
  have tab: "lc_blobs out (Suc (length bs)) 32
       = Inr (bs @ [(LC_DYLD_CHAINED_FIXUPS, le_words 4 [LC_DYLD_CHAINED_FIXUPS, 16, dataoff, int (length blob)])])"
    unfolding ap(1) [symmetric]
    by (rule lc_blobs_beyond [of 28]) (use agree_on_outside [OF o3, of 28 "int (length b)"] in auto)
  have cnt: "u32 out 16 = Inr (int (length bs) + 1)"
    unfolding ap(2) [symmetric] by (rule same_outside_unpack_u [OF o3]) auto
  have "u32 out 24 = Inr (flags AND NOT MH_DYLIB_IN_CACHE)" by (rule unpack_u_pack_u_same [OF fl])
  then have fl': "\<exists>flags. u32 out 24 = Inr (flags AND NOT MH_DYLIB_IN_CACHE)" by blast
  show thesis by (rule that [OF words slice tab cnt fl'])
qed

subsection \<open>The loader finds the fixups\<close>

lemma seg_starts_bound:
  assumes "0 \<le> pg" "pg < page_count (segs ! i)" "page_list segs locs i pg \<noteq> []"
  shows "seg_starts segs locs i ! nat pg \<noteq> START_NONE"
    and "vmaddr (segs ! i) + pg * PAGE + seg_starts segs locs i ! nat pg = hd (page_list segs locs i pg)"
proof -
  have "hd (page_list segs locs i pg) \<in> set (page_list segs locs i pg)" using assms(3) by simp
  then have "page_of (segs ! i) (hd (page_list segs locs i pg)) = pg" by (simp add: mem_page_list)
  then show "seg_starts segs locs i ! nat pg \<noteq> START_NONE"
    "vmaddr (segs ! i) + pg * PAGE + seg_starts segs locs i ! nat pg = hd (page_list segs locs i pg)"
    using assms by (auto simp: seg_starts_nth page_of_def PAGE_def START_NONE_def)
qed

lemma page_fixups_correct:
  assumes w: "weavable segs ent locs buf" and i: "i < length segs" and pg: "0 \<le> pg" "pg < page_count (segs ! i)"
    and rd: "\<And>a v. (a, v) \<in> set (image_words segs ent locs) \<Longrightarrow> u64 out (off_of segs a) = Inr v"
    and st: "read_starts blob i = Inr (map_option (seg_info nbase (segs ! i)) (map_of (image_starts segs locs) i))"
  shows "page_fixups nbase segs out blob i pg = Inr (map (\<lambda>a. (a, ent a)) (page_list segs locs i pg))"
proof (cases "seg_fixups segs locs i = []")
  case True
  have "page_list segs locs i pg = []" using True by (simp add: page_list_def page_addrs_def)
  moreover have "map_of (image_starts segs locs) i = None" using True by (auto simp: map_of_eq_None_iff image_starts_def)
  ultimately show ?thesis using st by (simp add: page_fixups_def)
next
  case False
  have "map_of (image_starts segs locs) i = Some (seg_starts segs locs i)"
    using False i by (intro map_of_is_SomeI) (auto simp: image_starts_def comp_def)
  then have r: "read_starts blob i = Inr (Some (seg_info nbase (segs ! i) (seg_starts segs locs i)))" using st by simp
  have ix: "py_index (seg_starts segs locs i) pg = Inr (seg_starts segs locs i ! nat pg)"
    by (rule py_index_nonneg) (use pg in auto)
  show ?thesis
  proof (cases "page_list segs locs i pg = []")
    case True
    then show ?thesis using r ix pg by (simp add: page_fixups_def seg_info_def seg_starts_nth)
  next
    case False
    note b = seg_starts_bound [OF pg False]
    have "walk_chain 2048 segs out (hd (page_list segs locs i pg)) = Some (map (\<lambda>a. (a, ent a)) (page_list segs locs i pg))"
      by (rule page_walk [OF w i False rd])
    then show ?thesis using r ix b by (simp add: page_fixups_def seg_info_def add.commute add.left_commute)
  qed
qed

text \<open>The image between the splicing and the new command.\<close>

definition spliced_image ::
    "int \<Rightarrow> int \<Rightarrow> segment list \<Rightarrow> (int \<Rightarrow> fixup_entry) \<Rightarrow> int list \<Rightarrow> import_key list \<Rightarrow> bytes \<Rightarrow> bytes res" where
  "spliced_image weak nbase segs ent locs imports buf =
     bindR (weave segs ent locs buf) (\<lambda>(b, starts).
     bindR (fixups_blob weak nbase segs starts imports) (\<lambda>blob.
     bindR (splice segs blob b) (\<lambda>(mid, _). Inr mid)))"

text \<open>C18: After the fixups are emitted, a loader that starts from the new load command finds what was meant:
  the command points at a payload inside the file, every import by index has its name, and the fixups of
  every page, followed from the payload's starts through the chain in the image, are exactly the
  entries of that page in address order; the cache flag is clear. (The fixup words and the command area must not overlap.)\<close>

theorem emitted_fixups_load:
  assumes run: "emit_fixups weak nbase segs ent locs imports buf = Inr out" and w: "weavable segs ent locs buf"
    and weak: "weak \<in> {0, 1}" and names: "\<forall>(lo, n) \<in> set imports. 0 \<notin> set n"
    and small: "int (length (fst (sym_pool imports [] Map.empty))) \<le> 2 ^ 23"
    and lcs: "\<forall>s \<in> set segs. 32 \<le> lc_off s \<and> lc_off s + 56 \<le> 32 + area"
    and room: "spliced_image weak nbase segs ent locs imports buf = Inr mid" "command_room mid n area first"
    and lim: "max first (32 + area) \<le> lim" "lim \<le> int (length buf)"
    and above: "\<forall>a \<in> set locs. seg_index segs a \<noteq> None \<longrightarrow> lim \<le> off_of segs a"
  shows "\<exists>blob dataoff bs flags.
      lc_blobs out (Suc (length bs)) 32
        = Inr (bs @ [(LC_DYLD_CHAINED_FIXUPS, le_words 4 [LC_DYLD_CHAINED_FIXUPS, 16, dataoff, int (length blob)])])
    \<and> u32 out 16 = Inr (int (length bs) + 1) \<and> u32 out 24 = Inr (flags AND NOT MH_DYLIB_IN_CACHE)
    \<and> py_slice out dataoff (dataoff + int (length blob)) = blob
    \<and> (\<forall>k < length imports. read_import blob (int k) = Inr (fst (imports ! k) mod 256, weak, snd (imports ! k)))
    \<and> (\<forall>i < length segs. \<forall>pg. 0 \<le> pg \<longrightarrow> pg < page_count (segs ! i) \<longrightarrow>
         page_fixups nbase segs out blob i pg = Inr (map (\<lambda>a. (a, ent a)) (page_list segs locs i pg)))"
proof -
  obtain b where b: "f64.wr_list (off_words segs (image_words segs ent locs)) buf = Inr b"
    "weave segs ent locs buf = Inr (b, image_starts segs locs)"
    "\<And>a w. (a, w) \<in> set (image_words segs ent locs) \<Longrightarrow> u64 b (off_of segs a) = Inr w"
    using weavable_weave [OF w] by metis
  have lb: "length b = length buf" by (rule f64.wr_list_length [OF b(1)])
  obtain blob mid' dataoff b2 where bl: "fixups_blob weak nbase segs (image_starts segs locs) imports = Inr blob"
    and f: "splice segs blob b = Inr (mid', dataoff)" "append_fixups_command mid' dataoff (int (length blob)) = Inr b2"
      "clear_in_cache b2 = Inr out"
    using run b(2) by (auto simp: emit_fixups_def finish_image_def bindR_Inr_iff)
  have mid: "mid' = mid" using room(1) b(2) bl f(1) by (simp add: spliced_image_def)
  have st: "distinct (map fst (image_starts segs locs))" "\<forall>(i, ps) \<in> set (image_starts segs locs). i < length segs"
    by (auto simp: image_starts_def comp_def)
  note rd = fixups_blob_read [OF bl weak names small st]
  obtain bs where fin: "\<And>off. lim \<le> off \<Longrightarrow> off + 8 \<le> int (length b) \<Longrightarrow> u64 out off = u64 b off"
    "py_slice out dataoff (dataoff + int (length blob)) = blob"
    "lc_blobs out (Suc (length bs)) 32
       = Inr (bs @ [(LC_DYLD_CHAINED_FIXUPS, le_words 4 [LC_DYLD_CHAINED_FIXUPS, 16, dataoff, int (length blob)])])"
    "u32 out 16 = Inr (int (length bs) + 1)" "\<exists>flags. u32 out 24 = Inr (flags AND NOT MH_DYLIB_IN_CACHE)"
    by (rule finish_image_effect [OF f [unfolded mid] room(2) lcs]) (use lim lb in auto)
  have words: "u64 out (off_of segs a) = Inr v" if av: "(a, v) \<in> set (image_words segs ent locs)" for a v
  proof -
    have "a \<in> fst ` set (image_words segs ent locs)" using av by force
    then obtain j where j: "seg_index segs a = Some j" "a \<in> set locs" "j < length segs" by (rule fst_image_words) auto
    have "lim \<le> off_of segs a" using above j by auto
    moreover have "off_of segs a + 8 \<le> int (length b)" using w j lb by (auto simp: weavable_def)
    ultimately show ?thesis using fin(1) b(3) [OF av] by simp
  qed
  have "page_fixups nbase segs out blob i pg = Inr (map (\<lambda>a. (a, ent a)) (page_list segs locs i pg))"
    if "i < length segs" "0 \<le> pg" "pg < page_count (segs ! i)" for i pg
    by (rule page_fixups_correct [OF w that words]) (use rd that in blast)+
  then show ?thesis using fin(2-5) rd by blast
qed

definition emit_example_seg :: segment where
  "emit_example_seg = \<lparr>seg_name = ascii ''__LINKEDIT'', vmaddr = 0x8000, vmsize = 0x4000, fileoff = 0,
     filesize = 240, lc_off = 32\<rparr>"

definition emit_example :: bytes where
  "emit_example = le_words 4 [MH_MAGIC_64, 0, 0, 0, 1, 152, MH_DYLIB_IN_CACHE, 0]
     @ le_words 4 [0x19, 152] @ ascii ''__LINKEDIT'' @ zeros 6 @ le_words 8 [0x8000, 0x4000, 0, 240] @ le_words 4 [0, 0, 1, 0]
     @ zeros 40 @ le_words 8 [1] @ le_words 4 [216] @ zeros 28 @ zeros 56"

definition emit_example_entry :: "int \<Rightarrow> fixup_entry" where
  "emit_example_entry a = (weave_example_entry a)\<lparr>fx_val := (if a = 0x80E0 then 0 else 0x4321)\<rparr>"

lemma emit_example_facts:
  "length emit_example = 240"
  "is_ok (emit_fixups 1 0x8000 [emit_example_seg] emit_example_entry [0x80E0, 0x80D8] [(0xFE, ascii ''_a'')] emit_example)"
  "case spliced_image 1 0x8000 [emit_example_seg] emit_example_entry [0x80E0, 0x80D8] [(0xFE, ascii ''_a'')] emit_example of
     Inl _ \<Rightarrow> False | Inr mid \<Rightarrow> command_room mid 1 152 216"
  by code_simp+

lemma emitted_fixups_load_witness:
  "\<exists>out blob. emit_fixups 1 0x8000 [emit_example_seg] emit_example_entry [0x80E0, 0x80D8] [(0xFE, ascii ''_a'')] emit_example = Inr out
     \<and> read_import blob 0 = Inr (0xFE, 1, ascii ''_a'')
     \<and> page_fixups 0x8000 [emit_example_seg] out blob 0 0
         = Inr [(0x80D8, emit_example_entry 0x80D8), (0x80E0, emit_example_entry 0x80E0)]"
proof -
  let ?s = "[emit_example_seg]" and ?l = "[0x80E0, 0x80D8] :: int list" and ?i = "[(0xFE, ascii ''_a'')] :: import_key list"
  obtain out where out: "emit_fixups 1 0x8000 ?s emit_example_entry ?l ?i emit_example = Inr out"
    using emit_example_facts(2) by (auto simp: is_ok_iff)
  obtain mid where mid: "spliced_image 1 0x8000 ?s emit_example_entry ?l ?i emit_example = Inr mid" "command_room mid 1 152 216"
    using emit_example_facts(3) by (auto split: sum.splits)
  have w: "weavable ?s emit_example_entry ?l emit_example"
    by (auto simp: weavable_def emit_example_facts(1) emit_example_seg_def off_of_def entry_fits_def emit_example_entry_def weave_example_entry_def)
  have pl: "page_list ?s ?l 0 0 = [0x80D8, 0x80E0]"
    by (simp add: page_list_def page_addrs_def seg_fixups_def emit_example_seg_def page_of_def PAGE_def)
  have pc: "0 < page_count (?s ! 0)" by (simp add: page_count_def emit_example_seg_def PAGE_def)
  have nm: "\<forall>(lo, n) \<in> set ?i. 0 \<notin> set n" "int (length (fst (sym_pool ?i [] Map.empty))) \<le> 2 ^ 23" by code_simp+
  have "\<exists>blob dataoff bs flags.
      lc_blobs out (Suc (length bs)) 32
        = Inr (bs @ [(LC_DYLD_CHAINED_FIXUPS, le_words 4 [LC_DYLD_CHAINED_FIXUPS, 16, dataoff, int (length blob)])])
    \<and> u32 out 16 = Inr (int (length bs) + 1) \<and> u32 out 24 = Inr (flags AND NOT MH_DYLIB_IN_CACHE)
    \<and> py_slice out dataoff (dataoff + int (length blob)) = blob
    \<and> (\<forall>k < length ?i. read_import blob (int k) = Inr (fst (?i ! k) mod 256, 1, snd (?i ! k)))
    \<and> (\<forall>i < length ?s. \<forall>pg. 0 \<le> pg \<longrightarrow> pg < page_count (?s ! i) \<longrightarrow>
         page_fixups 0x8000 ?s out blob i pg = Inr (map (\<lambda>a. (a, emit_example_entry a)) (page_list ?s ?l i pg)))"
    by (rule emitted_fixups_load [OF out w _ nm _ mid, of 216])
       (auto simp: emit_example_facts(1) emit_example_seg_def off_of_def)
  then obtain blob where blob: "\<forall>k < length ?i. read_import blob (int k) = Inr (fst (?i ! k) mod 256, 1, snd (?i ! k))"
    "\<forall>i < length ?s. \<forall>pg. 0 \<le> pg \<longrightarrow> pg < page_count (?s ! i) \<longrightarrow>
         page_fixups 0x8000 ?s out blob i pg = Inr (map (\<lambda>a. (a, emit_example_entry a)) (page_list ?s ?l i pg))"
    by blast
  show ?thesis
    using out blob(1)[rule_format, of 0] blob(2)[rule_format, of 0 0] pc by (auto simp: pl)
qed

end
