(* ===== verification/Bind_Plan.thy ===== *)
theory Bind_Plan
  imports Weave Branch_Islands
begin

text \<open>
  Which pointer of the image becomes what (\<^verbatim>\<open>main\<close> of \<^verbatim>\<open>uncache.py\<close>): each collected fixup is a rebase
  inside the image, a rebase to a localized string or protocol, or a bind by name; the rebuilt slots
  are added, and every name gets one import. The dicts \<^verbatim>\<open>impidx\<close> and \<^verbatim>\<open>entries\<close> are association lists;
  a location is \<^const>\<open>None\<close> where the address map has no image of it, which the code uses as a key as well.
  The symbol map of the batch lookup and the strings of the cache come from outside and are parameters.
\<close>

subsection \<open>Import names\<close>

definition ALIAS :: "(bytes \<times> bytes) list" where
  "ALIAS = [
     (ascii ''_OBJC_CLASS_$___NSGlobalBlock__'', ascii ''__NSConcreteGlobalBlock''),
     (ascii ''_OBJC_CLASS_$___NSStackBlock__'', ascii ''__NSConcreteStackBlock''),
     (ascii ''_OBJC_CLASS_$___NSMallocBlock__'', ascii ''__NSConcreteMallocBlock''),
     (ascii ''_OBJC_CLASS_$_OS_xpc_connection'', ascii ''__xpc_type_connection''),
     (ascii ''_OBJC_CLASS_$_OS_xpc_dictionary'', ascii ''__xpc_type_dictionary''),
     (ascii ''_OBJC_CLASS_$_OS_xpc_error'', ascii ''__xpc_type_error''),
     (ascii ''_OBJC_CLASS_$_OS_xpc_string'', ascii ''__xpc_type_string''),
     (ascii ''_OBJC_CLASS_$_OS_xpc_uint64'', ascii ''__xpc_type_uint64'')]"

definition strip_label :: "string \<Rightarrow> bytes \<Rightarrow> bytes" where
  "strip_label label name = (if prefix (ascii label) name then drop (length (ascii label)) name else name)"

definition strip_branch :: "bytes \<Rightarrow> bytes" where
  "strip_branch name =
     (if prefix (ascii ''__branch.'') name then
        (let name = drop (length (ascii ''__branch.'')) name
         in if prefix (ascii ''_objc_msgSend$'') name then ascii ''_objc_msgSend'' else name)
      else name)"

definition canonical_import_name :: "bytes \<Rightarrow> bytes" where
  "canonical_import_name name =
     (let name = strip_branch (strip_label ''_ptr.'' (strip_label ''__got.'' name))
      in case map_of ALIAS name of None \<Rightarrow> name | Some alias \<Rightarrow> alias)"

subsection \<open>The plan under construction\<close>

text \<open>One collected fixup: address, target, whether it is signed, key, diversity, address diversity.\<close>

type_synonym cache_fixup = "int \<times> int \<times> bool \<times> int \<times> int \<times> int"

record bind_plan =
  pl_imports :: "(int \<times> bytes) list"
  pl_index :: "((int \<times> bytes) \<times> int) list"
  pl_entries :: "(int option \<times> fixup_entry) list"

definition empty_plan :: bind_plan where
  "empty_plan = \<lparr>pl_imports = [], pl_index = [], pl_entries = []\<rparr>"

text \<open>What a slot is to hold: an offset inside the image, or the address of a symbol.\<close>

datatype target = Place int | Symbol bytes

definition import_of :: "bytes \<Rightarrow> bind_plan \<Rightarrow> bind_plan" where
  "import_of name pl =
     (let k = (0xFE, name) in
      if k \<in> fst ` set (pl_index pl) then pl
      else pl\<lparr>pl_index := AList.update k (int (length (pl_imports pl))) (pl_index pl),
              pl_imports := pl_imports pl @ [k]\<rparr>)"

definition put_target :: "int option \<Rightarrow> target \<Rightarrow> fixup_entry \<Rightarrow> bind_plan \<Rightarrow> bind_plan res" where
  "put_target loc tgt form pl =
     (case tgt of
        Place v \<Rightarrow> Inr (pl\<lparr>pl_entries := AList.update loc (form\<lparr>fx_kind := Rebase, fx_val := v\<rparr>) (pl_entries pl)\<rparr>)
      | Symbol name \<Rightarrow>
          (let pl = import_of name pl in
           bindR (lookup_key (map_of (pl_index pl)) (0xFE, name)) (\<lambda>i.
           Inr (pl\<lparr>pl_entries := AList.update loc (form\<lparr>fx_kind := Bind, fx_val := i\<rparr>) (pl_entries pl)\<rparr>))))"

subsection \<open>Classifying a fixup\<close>

definition real_t :: "int \<Rightarrow> bool \<Rightarrow> int" where
  "real_t t auth = (if auth then t else t AND 0x00FFFFFFFFFFFFFF)"

record bind_env =
  be_image :: "(int \<times> int) list"
  be_amap :: "int \<Rightarrow> int option"
  be_nbase :: int
  be_local :: "int \<Rightarrow> int option"
  be_symbols :: "int \<Rightarrow> bytes option"

definition in_img :: "bind_env \<Rightarrow> int \<Rightarrow> bool" where
  "in_img env a = list_ex (\<lambda>(lo, hi). lo \<le> a \<and> a < hi) (be_image env)"

definition none_type :: "'a option \<Rightarrow> 'a res" where
  "none_type m = (case m of None \<Rightarrow> Inl Type_Error | Some x \<Rightarrow> Inr x)"

text \<open>A pointer the cache redirected to the protocol class: the file holds the local protocol.\<close>

definition local_protocol :: "bind_env \<Rightarrow> bytes \<Rightarrow> int option \<Rightarrow> int option res" where
  "local_protocol env buf nloc =
     bindR (none_type nloc) (\<lambda>nloc.
     bindR (u64 buf (nloc - be_nbase env)) (\<lambda>fv. Inr (be_amap env (fv AND 0x00FFFFFFFFFFFFFF))))"

definition bind_target :: "bind_env \<Rightarrow> bytes \<Rightarrow> int option \<Rightarrow> int \<Rightarrow> target res" where
  "bind_target env buf nloc rt =
     (let name = map_option canonical_import_name (be_symbols env rt) in
      bindR (if name = Some (ascii ''_OBJC_CLASS_$_Protocol'') then local_protocol env buf nloc else Inr None) (\<lambda>dt.
      case dt of Some dt \<Rightarrow> Inr (Place (dt - be_nbase env))
      | None \<Rightarrow> (case name of None \<Rightarrow> Inl System_Exit
                 | Some n \<Rightarrow> if n = [] then Inl System_Exit else Inr (Symbol n))))"

definition fixup_target :: "bind_env \<Rightarrow> bytes \<Rightarrow> cache_fixup \<Rightarrow> target res" where
  "fixup_target env buf = (\<lambda>(addr, t, auth, _, _, _).
     let rt = real_t t auth in
     if in_img env rt then bindR (none_type (be_amap env rt)) (\<lambda>x. Inr (Place (x - be_nbase env)))
     else case be_local env rt of Some x \<Rightarrow> Inr (Place (x - be_nbase env))
          | None \<Rightarrow> bind_target env buf (be_amap env addr) rt)"

definition fixup_form :: "cache_fixup \<Rightarrow> fixup_entry" where
  "fixup_form = (\<lambda>(_, t, auth, key, div', ad).
     \<lparr>fx_kind = Rebase, fx_val = 0, fx_auth = auth, fx_key = key, fx_div = div', fx_addrdiv = ad,
      fx_high8 = (if auth then 0 else drop_bit 56 t AND 0xFF)\<rparr>)"

definition classify :: "bind_env \<Rightarrow> bytes \<Rightarrow> cache_fixup \<Rightarrow> bind_plan \<Rightarrow> bind_plan res" where
  "classify env buf fx pl =
     bindR (fixup_target env buf fx) (\<lambda>tgt. put_target (be_amap env (fst fx)) tgt (fixup_form fx) pl)"

subsection \<open>The rebuilt slots\<close>

definition plain_form :: fixup_entry where
  "plain_form = \<lparr>fx_kind = Rebase, fx_val = 0, fx_auth = False, fx_key = 0, fx_div = 0, fx_addrdiv = 0, fx_high8 = 0\<rparr>"

definition call_form :: fixup_entry where
  "call_form = plain_form\<lparr>fx_auth := True, fx_addrdiv := 1\<rparr>"

definition put_selref :: "int \<Rightarrow> int \<times> int \<Rightarrow> bind_plan \<Rightarrow> bind_plan res" where
  "put_selref nbase = (\<lambda>(ns, nt). put_target (Some ns) (Place (nt - nbase)) plain_form)"

definition put_auth_stub :: "int \<times> bytes \<Rightarrow> bind_plan \<Rightarrow> bind_plan res" where
  "put_auth_stub = (\<lambda>(slot, name). put_target (Some slot) (Symbol (canonical_import_name name)) call_form)"

definition put_got :: "(bytes \<Rightarrow> bool option) \<Rightarrow> bytes \<times> int \<Rightarrow> bind_plan \<Rightarrow> bind_plan res" where
  "put_got got_auth = (\<lambda>(name, slot) pl.
     bindR (lookup_key got_auth name) (\<lambda>au.
     put_target (Some slot) (Symbol (canonical_import_name name)) (if au then call_form else plain_form) pl))"

text \<open>Every word of \<^verbatim>\<open>__EXTRA_OBJC\<close> that holds an address of the original image is rebased, unless its
  slot is already planned.\<close>

definition extra_word :: "bind_env \<Rightarrow> bytes \<Rightarrow> segment \<Rightarrow> int \<Rightarrow> bind_plan \<Rightarrow> bind_plan res" where
  "extra_word env buf s p pl =
     bindR (u64 buf (fileoff s + p)) (\<lambda>v.
     if v < 0x100000000 then Inr pl
     else case be_amap env v of None \<Rightarrow> Inr pl
       | Some t \<Rightarrow> if Some (vmaddr s + p) \<in> fst ` set (pl_entries pl) then Inr pl
                   else put_target (Some (vmaddr s + p)) (Place (t - be_nbase env)) plain_form pl)"

definition extra_objc :: "bind_env \<Rightarrow> bytes \<Rightarrow> segment \<Rightarrow> bind_plan \<Rightarrow> bind_plan res" where
  "extra_objc env buf s pl =
     (if seg_name s \<noteq> ascii ''__EXTRA_OBJC'' then Inr pl
      else foldR (extra_word env buf s) (map (\<lambda>k. 8 * int k) [0..<nat ((filesize s - 7 + 7) div 8)]) pl)"

definition plan_binds ::
    "bind_env \<Rightarrow> bytes \<Rightarrow> segment list \<Rightarrow> cache_fixup list \<Rightarrow> (int \<times> int) list \<Rightarrow> (int \<times> bytes) list
     \<Rightarrow> (bytes \<Rightarrow> bool option) \<Rightarrow> (bytes \<times> int) list \<Rightarrow> bind_plan res" where
  "plan_binds env buf osegs fx objc_slot_reb auth_stub_binds got_auth got_slot =
     bindR (foldR (classify env buf) fx empty_plan) (\<lambda>pl.
     bindR (foldR (put_selref (be_nbase env)) objc_slot_reb pl) (\<lambda>pl.
     bindR (foldR put_auth_stub auth_stub_binds pl) (\<lambda>pl.
     bindR (foldR (put_got got_auth) got_slot pl) (\<lambda>pl.
     foldR (extra_objc env buf) osegs pl))))"

subsection \<open>One import per name, one entry per location\<close>

definition index_ok :: "bind_plan \<Rightarrow> bool" where
  "index_ok pl \<longleftrightarrow> distinct (pl_imports pl) \<and> pl_index pl = zip (pl_imports pl) (map int [0..<length (pl_imports pl)])"

definition realises :: "(int \<times> bytes) list \<Rightarrow> target \<Rightarrow> fixup_entry \<Rightarrow> fixup_entry \<Rightarrow> bool" where
  "realises ims tgt form e \<longleftrightarrow> (case tgt of Place v \<Rightarrow> e = form\<lparr>fx_kind := Rebase, fx_val := v\<rparr>
     | Symbol n \<Rightarrow> \<exists>i < length ims. ims ! i = (0xFE, n) \<and> e = form\<lparr>fx_kind := Bind, fx_val := int i\<rparr>)"

type_synonym wish = "int option \<times> target \<times> fixup_entry"

definition planned :: "bind_plan \<Rightarrow> wish \<Rightarrow> bool" where
  "planned pl = (\<lambda>(loc, tgt, form). \<exists>e. map_of (pl_entries pl) loc = Some e \<and> realises (pl_imports pl) tgt form e)"

definition binds_ok :: "bind_plan \<Rightarrow> bool" where
  "binds_ok pl \<longleftrightarrow> (\<forall>e \<in> snd ` set (pl_entries pl). fx_kind e = Bind \<longrightarrow> 0 \<le> fx_val e \<and> fx_val e < int (length (pl_imports pl)))"

lemma index_ok_empty: "index_ok empty_plan" "binds_ok empty_plan"
  by (simp_all add: index_ok_def binds_ok_def empty_plan_def)

lemma index_keys: "index_ok pl \<Longrightarrow> fst ` set (pl_index pl) = set (pl_imports pl)"
  by (simp add: index_ok_def flip: set_map)

lemma update_new: "k \<notin> fst ` set al \<Longrightarrow> AList.update k v al = al @ [(k, v)]"
  by (induction al) auto

lemma index_lookup:
  assumes "index_ok pl" "map_of (pl_index pl) k = Some v"
  shows "\<exists>i < length (pl_imports pl). pl_imports pl ! i = k \<and> v = int i"
proof -
  have "(k, v) \<in> set (zip (pl_imports pl) (map int [0..<length (pl_imports pl)]))"
    using assms map_of_SomeD by (fastforce simp: index_ok_def)
  then show ?thesis by (auto simp: set_zip)
qed

lemma import_of_ok:
  assumes "index_ok pl"
  shows "index_ok (import_of name pl)" "prefix (pl_imports pl) (pl_imports (import_of name pl))"
    "pl_entries (import_of name pl) = pl_entries pl"
proof -
  have "index_ok (import_of name pl) \<and> prefix (pl_imports pl) (pl_imports (import_of name pl))
      \<and> pl_entries (import_of name pl) = pl_entries pl"
  proof (cases "(0xFE, name) \<in> set (pl_imports pl)")
    case True
    then show ?thesis using assms by (simp add: import_of_def Let_def index_keys)
  next
    case False
    have e: "pl_index pl = zip (pl_imports pl) (map int [0..<length (pl_imports pl)])" "distinct (pl_imports pl)"
      using assms by (simp_all add: index_ok_def)
    have nk: "(0xFE, name) \<notin> fst ` set (pl_index pl)" using False index_keys [OF assms] by simp
    then have "pl_index (import_of name pl) = pl_index pl @ [((0xFE, name), int (length (pl_imports pl)))]"
      by (simp add: import_of_def Let_def update_new)
    then show ?thesis using e nk False by (simp add: index_ok_def import_of_def Let_def)
  qed
  then show "index_ok (import_of name pl)" "prefix (pl_imports pl) (pl_imports (import_of name pl))"
    "pl_entries (import_of name pl) = pl_entries pl" by blast+
qed

lemma realises_mono: "realises ims tgt form e \<Longrightarrow> prefix ims ims' \<Longrightarrow> realises ims' tgt form e"
  by (auto simp: realises_def prefix_def nth_append split: target.splits)

lemma binds_ok_mono: "binds_ok pl \<Longrightarrow> prefix (pl_imports pl) (pl_imports pl') \<Longrightarrow> pl_entries pl' = pl_entries pl \<Longrightarrow> binds_ok pl'"
  by (fastforce simp: binds_ok_def prefix_def)

lemma set_update: "set (AList.update k v al) \<subseteq> insert (k, v) (set al)"
  by (induction al) auto

lemma put_target_ok:
  assumes run: "put_target loc tgt form pl = Inr pl'" and ok: "index_ok pl" "binds_ok pl"
  shows "index_ok pl'" "binds_ok pl'" "prefix (pl_imports pl) (pl_imports pl')"
    and "\<exists>e. map_of (pl_entries pl') = (map_of (pl_entries pl))(loc \<mapsto> e) \<and> realises (pl_imports pl') tgt form e"
proof -
  have "index_ok pl' \<and> binds_ok pl' \<and> prefix (pl_imports pl) (pl_imports pl')
    \<and> (\<exists>e. map_of (pl_entries pl') = (map_of (pl_entries pl))(loc \<mapsto> e) \<and> realises (pl_imports pl') tgt form e)"
  proof (cases tgt)
    case (Place v)
    have p: "pl' = pl\<lparr>pl_entries := AList.update loc (form\<lparr>fx_kind := Rebase, fx_val := v\<rparr>) (pl_entries pl)\<rparr>"
      using run by (simp add: put_target_def Place)
    then have "binds_ok pl'" using ok(2) set_update [of loc _ "pl_entries pl"] by (fastforce simp: binds_ok_def)
    then show ?thesis using ok(1) by (auto simp: p index_ok_def update_conv' realises_def Place)
  next
    case (Symbol name)
    let ?pl = "import_of name pl"
    note i = import_of_ok [OF ok(1), of name]
    obtain v where v: "map_of (pl_index ?pl) (0xFE, name) = Some v"
      and p: "pl' = ?pl\<lparr>pl_entries := AList.update loc (form\<lparr>fx_kind := Bind, fx_val := v\<rparr>) (pl_entries ?pl)\<rparr>"
      using run by (auto simp: put_target_def Symbol Let_def bindR_Inr_iff lookup_key_def split: option.splits)
    obtain k where k: "k < length (pl_imports ?pl)" "pl_imports ?pl ! k = (0xFE, name)" "v = int k"
      using index_lookup [OF i(1) v] by blast
    have "binds_ok ?pl" by (rule binds_ok_mono [OF ok(2) i(2,3)])
    then have "binds_ok pl'" using k set_update [of loc _ "pl_entries ?pl"] by (fastforce simp: binds_ok_def p)
    moreover have "index_ok pl'" using i(1) by (simp add: p index_ok_def)
    moreover have "realises (pl_imports pl') tgt form (form\<lparr>fx_kind := Bind, fx_val := v\<rparr>)"
      using k by (auto simp: p realises_def Symbol)
    ultimately show ?thesis using i(2,3) by (auto simp: p update_conv')
  qed
  then show "index_ok pl'" "binds_ok pl'" "prefix (pl_imports pl) (pl_imports pl')"
    "\<exists>e. map_of (pl_entries pl') = (map_of (pl_entries pl))(loc \<mapsto> e) \<and> realises (pl_imports pl') tgt form e" by blast+
qed

definition plan_inv :: "bind_plan \<Rightarrow> wish list \<Rightarrow> bool" where
  "plan_inv pl W \<longleftrightarrow> index_ok pl \<and> binds_ok pl \<and> (\<forall>w \<in> set W. planned pl w)"

lemma planned_step:
  assumes "planned pl w" "fst w \<noteq> loc" "prefix (pl_imports pl) (pl_imports pl')"
    "map_of (pl_entries pl') = (map_of (pl_entries pl))(loc \<mapsto> e)"
  shows "planned pl' w"
  using assms realises_mono by (cases w) (fastforce simp: planned_def)

lemma plan_inv_put:
  assumes "plan_inv pl W" "put_target loc tgt form pl = Inr pl'" "loc \<notin> fst ` set W"
  shows "plan_inv pl' (W @ [(loc, tgt, form)])"
proof -
  have ok: "index_ok pl" "binds_ok pl" "\<forall>w \<in> set W. planned pl w" using assms(1) by (auto simp: plan_inv_def)
  note p = put_target_ok [OF assms(2) ok(1,2)]
  obtain e where e: "map_of (pl_entries pl') = (map_of (pl_entries pl))(loc \<mapsto> e)" "realises (pl_imports pl') tgt form e"
    using p(4) by blast
  have "planned pl' w" if "w \<in> set W" for w
    by (rule planned_step [OF _ _ p(3) e(1)]) (use ok(3) assms(3) that in auto)
  moreover have "planned pl' (loc, tgt, form)" using e by (simp add: planned_def)
  ultimately show ?thesis using p(1,2) by (auto simp: plan_inv_def)
qed

lemma foldR_plans:
  assumes "foldR f xs pl = Inr pl'" "plan_inv pl W"
    and "\<And>x s t. x \<in> set xs \<Longrightarrow> f x s = Inr t \<Longrightarrow> put_target (loc x) (tg x) (form x) s = Inr t"
    and "distinct (map loc xs)" "loc ` set xs \<inter> fst ` set W = {}"
  shows "plan_inv pl' (W @ map (\<lambda>x. (loc x, tg x, form x)) xs)"
  using assms
proof (induction xs arbitrary: pl W)
  case (Cons x xs)
  obtain t where t: "f x pl = Inr t" "foldR f xs t = Inr pl'" using Cons.prems(1) by (auto simp: bindR_Inr_iff)
  have "put_target (loc x) (tg x) (form x) pl = Inr t" by (rule Cons.prems(3)) (use t in auto)
  then have "plan_inv t (W @ [(loc x, tg x, form x)])"
    by (rule plan_inv_put [OF Cons.prems(2)]) (use Cons.prems(5) in auto)
  then have "plan_inv pl' ((W @ [(loc x, tg x, form x)]) @ map (\<lambda>x. (loc x, tg x, form x)) xs)"
    by (rule Cons.IH [OF t(2)]) (use Cons.prems(3,4,5) in auto)
  then show ?case by simp
qed simp

text \<open>The slots that \<^verbatim>\<open>__EXTRA_OBJC\<close> adds are free ones, so everything planned before stays.\<close>

lemma extra_word_inv:
  assumes "plan_inv pl W" "extra_word env buf s p pl = Inr pl'"
  shows "plan_inv pl' W"
proof -
  have "plan_inv pl' W" if so: "put_target (Some (vmaddr s + p)) tgt plain_form pl = Inr pl'"
    and free: "Some (vmaddr s + p) \<notin> fst ` set (pl_entries pl)" for tgt
  proof -
    have ok: "index_ok pl" "binds_ok pl" "\<forall>w \<in> set W. planned pl w" using assms(1) by (auto simp: plan_inv_def)
    note p = put_target_ok [OF so ok(1,2)]
    obtain e where e: "map_of (pl_entries pl') = (map_of (pl_entries pl))(Some (vmaddr s + p) \<mapsto> e)" using p(4) by blast
    have "planned pl' w" if w: "w \<in> set W" for w
    proof (rule planned_step [OF _ _ p(3) e])
      show "planned pl w" using ok(3) w by blast
      obtain e where "map_of (pl_entries pl) (fst w) = Some e" using ok(3) w by (cases w) (auto simp: planned_def)
      then have "(fst w, e) \<in> set (pl_entries pl)" by (rule map_of_SomeD)
      then have "fst (fst w, e) \<in> fst ` set (pl_entries pl)" by (rule imageI)
      then have mem: "fst w \<in> fst ` set (pl_entries pl)" unfolding fst_conv .
      show "fst w \<noteq> Some (vmaddr s + p)"
      proof
        assume "fst w = Some (vmaddr s + p)"
        then show False using mem free by (simp only:)
      qed
    qed
    then show ?thesis using p(1,2) by (auto simp: plan_inv_def)
  qed
  then show ?thesis using assms by (auto simp: extra_word_def bindR_Inr_iff split: if_splits option.splits)
qed

lemma extra_objc_inv: "plan_inv pl W \<Longrightarrow> extra_objc env buf s pl = Inr pl' \<Longrightarrow> plan_inv pl' W"
  by (auto simp: extra_objc_def split: if_splits intro: foldR_invariant [of _ _ pl pl' "\<lambda>pl. plan_inv pl W"] extra_word_inv)

abbreviation fixup_wish :: "bind_env \<Rightarrow> bytes \<Rightarrow> cache_fixup \<Rightarrow> wish" where
  "fixup_wish env buf fx \<equiv> (be_amap env (fst fx), projr (fixup_target env buf fx), fixup_form fx)"

abbreviation selref_wish :: "int \<Rightarrow> int \<times> int \<Rightarrow> wish" where
  "selref_wish nbase x \<equiv> (Some (fst x), Place (snd x - nbase), plain_form)"

abbreviation stub_wish :: "int \<times> bytes \<Rightarrow> wish" where
  "stub_wish x \<equiv> (Some (fst x), Symbol (canonical_import_name (snd x)), call_form)"

abbreviation got_wish :: "(bytes \<Rightarrow> bool option) \<Rightarrow> bytes \<times> int \<Rightarrow> wish" where
  "got_wish got_auth x \<equiv> (Some (snd x), Symbol (canonical_import_name (fst x)),
     if got_auth (fst x) = Some True then call_form else plain_form)"

abbreviation wishes :: "bind_env \<Rightarrow> bytes \<Rightarrow> cache_fixup list \<Rightarrow> (int \<times> int) list \<Rightarrow> (int \<times> bytes) list
     \<Rightarrow> (bytes \<Rightarrow> bool option) \<Rightarrow> (bytes \<times> int) list \<Rightarrow> wish list" where
  "wishes env buf fx sel stubs got_auth got \<equiv> map (fixup_wish env buf) fx @ map (selref_wish (be_nbase env)) sel
     @ map stub_wish stubs @ map (got_wish got_auth) got"

lemma classify_put:
  "classify env buf fx s = Inr t \<Longrightarrow>
   put_target (be_amap env (fst fx)) (projr (fixup_target env buf fx)) (fixup_form fx) s = Inr t"
  by (auto simp: classify_def bindR_Inr_iff)

lemma extras_inv: "foldR (extra_objc env buf) segs pl = Inr pl' \<Longrightarrow> plan_inv pl W \<Longrightarrow> plan_inv pl' W"
  by (erule foldR_invariant [where I = "\<lambda>pl. plan_inv pl W"]) (auto intro: extra_objc_inv)

lemma put_got_put:
  "put_got got_auth x s = Inr t \<Longrightarrow> put_target (Some (snd x)) (Symbol (canonical_import_name (fst x)))
     (if got_auth (fst x) = Some True then call_form else plain_form) s = Inr t"
  by (cases x; cases "got_auth (fst x)") (auto simp: put_got_def lookup_key_def split: if_splits)

lemma foldR_plans_wish:
  assumes "foldR f xs pl = Inr pl'" "plan_inv pl W"
    and "\<And>x s t. f x s = Inr t \<Longrightarrow> put_target (fst (wi x)) (fst (snd (wi x))) (snd (snd (wi x))) s = Inr t"
    and "distinct (map fst (W @ map wi xs))"
  shows "plan_inv pl' (W @ map wi xs)"
proof -
  have "plan_inv pl' (W @ map (\<lambda>x. (fst (wi x), fst (snd (wi x)), snd (snd (wi x)))) xs)"
    by (rule foldR_plans [OF assms(1,2)]) (use assms(3,4) in \<open>auto simp: comp_def image_image\<close>)
  then show ?thesis by simp
qed


definition plan_example_env :: bind_env where
  "plan_example_env = \<lparr>be_image = [(0x1000, 0x3000)],
     be_amap = (\<lambda>a. if 0x1000 \<le> a \<and> a < 0x3000 then Some (a + 0x10000) else None), be_nbase = 0x11000,
     be_local = (\<lambda>a. if a = 0x7000 then Some 0x11500 else None),
     be_symbols = (\<lambda>a. if a = 0x9000 then Some (ascii ''__got._foo'') else None)\<rparr>"

definition plan_example :: "cache_fixup list" where
  "plan_example = [(0x1000, 0x8000000000002000, False, 0, 0, 0), (0x1008, 0x9000, True, 1, 5, 1), (0x1010, 0x7000, False, 0, 0, 0)]"


end
