(* ===== verification/Objc_Lists.thy ===== *)
theory Objc_Lists
  imports Branch_Islands
begin

text \<open>
  Objective-C metadata in \<^verbatim>\<open>uncache.py\<close>: \<^verbatim>\<open>objc_collect_relmethods\<close>, which walks classes, categories
  and protocols for relative method lists, the repointing of their fields after the layout has moved
  the segments, and the image-info flags. Addresses that no segment holds read as 0, as in the code.
\<close>

subsection \<open>Reading by address\<close>

type_synonym span = "int \<times> int \<times> int"

fun addr_off :: "span list \<Rightarrow> int \<Rightarrow> int option" where
  "addr_off [] a = None"
| "addr_off ((lo, hi, fo) # segs) a = (if lo \<le> a \<and> a < hi then Some (fo + (a - lo)) else addr_off segs a)"

definition inimg :: "span list \<Rightarrow> int \<Rightarrow> bool" where
  "inimg segs a = list_ex (\<lambda>(lo, hi, _). lo \<le> a \<and> a < hi) segs"

definition read_at :: "(bytes \<Rightarrow> int \<Rightarrow> int res) \<Rightarrow> span list \<Rightarrow> bytes \<Rightarrow> int \<Rightarrow> int res" where
  "read_at rd segs buf a = (case addr_off segs a of None \<Rightarrow> Inr 0 | Some off \<Rightarrow> rd buf off)"

abbreviation rdp :: "span list \<Rightarrow> bytes \<Rightarrow> int \<Rightarrow> int res" where "rdp \<equiv> read_at u64"
abbreviation rdu :: "span list \<Rightarrow> bytes \<Rightarrow> int \<Rightarrow> int res" where "rdu \<equiv> read_at u32"
abbreviation rdi :: "span list \<Rightarrow> bytes \<Rightarrow> int \<Rightarrow> int res" where "rdi \<equiv> read_at i32"

subsection \<open>Collecting the relative method lists\<close>

record relmethods =
  rm_buf :: bytes
  rm_recs :: "(int \<times> int) list"
  rm_names :: "(int \<times> int) list"

definition add_field :: "span list \<Rightarrow> int \<Rightarrow> relmethods \<Rightarrow> relmethods res" where
  "add_field segs fa st =
     bindR (rdi segs (rm_buf st) fa) (\<lambda>rel.
     Inr (if rel \<noteq> 0 then st\<lparr>rm_recs := rm_recs st @ [(fa, fa + rel)]\<rparr> else st))"

definition add_name :: "span list \<Rightarrow> int \<Rightarrow> relmethods \<Rightarrow> relmethods res" where
  "add_name segs e st =
     bindR (rdi segs (rm_buf st) e) (\<lambda>rel.
     if rel \<noteq> 0 \<and> inimg segs (e + rel) then
       bindR (rdp segs (rm_buf st) (e + rel)) (\<lambda>sp.
       Inr (if inimg segs sp then st\<lparr>rm_names := rm_names st @ [(e, sp)]\<rparr> else st))
     else Inr st)"

definition do_entry :: "span list \<Rightarrow> int \<Rightarrow> relmethods \<Rightarrow> relmethods res" where
  "do_entry segs e st =
     bindR (foldR (\<lambda>fo. add_field segs (e + fo)) [4, 8] st) (add_name segs e)"

definition entry_size :: "int \<Rightarrow> int" where
  "entry_size ef = (if ef AND 0xFFFC = 0 then 12 else ef AND 0xFFFC)"

definition do_ml :: "span list \<Rightarrow> int \<Rightarrow> relmethods \<Rightarrow> relmethods res" where
  "do_ml segs ml st =
     (if ml = 0 \<or> \<not> inimg segs ml then Inr st
      else bindR (rdu segs (rm_buf st) ml) (\<lambda>ef.
           bindR (rdu segs (rm_buf st) (ml + 4)) (\<lambda>count.
           if ef AND 0x80000000 = 0 then Inr st
           else bindR (case addr_off segs ml of None \<Rightarrow> Inl Type_Error
                       | Some off \<Rightarrow> p32 (rm_buf st) off (ef AND NOT 0x3)) (\<lambda>buf.
                foldR (\<lambda>i. do_entry segs (ml + 8 + int i * entry_size ef)) [0..<nat count] (st\<lparr>rm_buf := buf\<rparr>)))))"

definition do_listed :: "span list \<Rightarrow> int \<Rightarrow> relmethods \<Rightarrow> relmethods res" where
  "do_listed segs entry st =
     (case addr_off segs entry of None \<Rightarrow> Inr st
      | Some off \<Rightarrow> bindR (i64 (rm_buf st) off) (\<lambda>v. do_ml segs (entry + drop_bit 16 v) st))"

definition do_methods :: "span list \<Rightarrow> int \<Rightarrow> relmethods \<Rightarrow> relmethods res" where
  "do_methods segs raw st =
     (let raw = raw AND 0x00FFFFFFFFFFFFFF in
      if raw = 0 then Inr st
      else if raw AND 1 \<noteq> 0 then
        (let lol = raw AND NOT 0x7 in
         if \<not> inimg segs lol then Inr st
         else bindR (rdu segs (rm_buf st) (lol + 4)) (\<lambda>cnt.
              foldR (\<lambda>i. do_listed segs (lol + 8 + int i * 8)) [0..<nat cnt] st))
      else do_ml segs (raw AND NOT 0x7) st)"

definition do_one_class :: "span list \<Rightarrow> int \<Rightarrow> relmethods \<Rightarrow> relmethods res" where
  "do_one_class segs cls st =
     (if \<not> inimg segs cls then Inr st
      else bindR (rdp segs (rm_buf st) (cls + 32)) (\<lambda>w.
           let ro = w AND 0x00007ffffffffff8 in
           if inimg segs ro then bindR (rdp segs (rm_buf st) (ro + 32)) (\<lambda>raw. do_methods segs raw st)
           else Inr st))"

definition do_class :: "span list \<Rightarrow> int \<Rightarrow> relmethods \<Rightarrow> relmethods res" where
  "do_class segs c st =
     (if c = 0 \<or> \<not> inimg segs c then Inr st
      else bindR (rdp segs (rm_buf st) c) (\<lambda>meta. foldR (do_one_class segs) [c, meta] st))"

definition do_list_at :: "span list \<Rightarrow> int \<Rightarrow> relmethods \<Rightarrow> relmethods res" where
  "do_list_at segs a st = bindR (rdp segs (rm_buf st) a) (\<lambda>ml. do_ml segs ml st)"

definition do_category :: "span list \<Rightarrow> int \<Rightarrow> relmethods \<Rightarrow> relmethods res" where
  "do_category segs cat st =
     (if inimg segs cat then foldR (\<lambda>moff. do_list_at segs (cat + moff)) [16, 24] st else Inr st)"

definition do_protocol :: "span list \<Rightarrow> int \<Rightarrow> relmethods \<Rightarrow> relmethods res" where
  "do_protocol segs p st =
     (if inimg segs p then foldR (\<lambda>moff. do_list_at segs (p + moff)) [24, 32, 40, 48] st else Inr st)"

text \<open>The segments and the last section of each name.\<close>

definition map_section ::
    "bytes \<Rightarrow> int \<Rightarrow> (bytes \<times> int \<times> int) list \<Rightarrow> (bytes \<times> int \<times> int) list res" where
  "map_section buf so sects =
     bindR (py_decode (cstr16 buf so)) (\<lambda>nm.
     bindR (u64x2 buf (so + 32)) (\<lambda>s. Inr (AList.update nm s sects)))"

definition map_cmd :: "bytes \<Rightarrow> int \<Rightarrow> int \<Rightarrow> int \<Rightarrow> span list \<times> (bytes \<times> int \<times> int) list
     \<Rightarrow> (span list \<times> (bytes \<times> int \<times> int) list) res" where
  "map_cmd buf cmd sz off = (\<lambda>(segs, sects).
     if cmd = LC_SEGMENT_64 then
       bindR (u64x4 buf (off + 24)) (\<lambda>(va, vs, fo, fs).
       bindR (u32 buf (off + 64)) (\<lambda>ns.
       bindR (foldR (map_section buf) (sect_offs off ns) sects) (\<lambda>sects.
       Inr (segs @ [(va, va + vs, fo)], sects))))
     else Inr (segs, sects))"

definition walk_section :: "span list \<Rightarrow> (bytes \<times> int \<times> int) list \<Rightarrow> string
     \<Rightarrow> (span list \<Rightarrow> int \<Rightarrow> relmethods \<Rightarrow> relmethods res) \<Rightarrow> relmethods \<Rightarrow> relmethods res" where
  "walk_section segs sects name visit st =
     (case map_of sects (ascii name) of None \<Rightarrow> Inr st
      | Some (sa, ssz) \<Rightarrow>
          foldR (\<lambda>i st. bindR (rdp segs (rm_buf st) (sa + int i * 8)) (\<lambda>p. visit segs p st)) [0..<nat (ssz div 8)] st)"

definition objc_collect_relmethods :: "bytes \<Rightarrow> relmethods res" where
  "objc_collect_relmethods buf =
     bindR (u32 buf 16) (\<lambda>ncmds.
     bindR (for_cmds (\<lambda>_. buf) (map_cmd buf) (nat ncmds) 32 ([], [])) (\<lambda>(segs, sects).
     bindR (walk_section segs sects ''__objc_classlist'' do_class \<lparr>rm_buf = buf, rm_recs = [], rm_names = []\<rparr>) (\<lambda>st.
     bindR (walk_section segs sects ''__objc_catlist'' do_category st) (\<lambda>st.
     walk_section segs sects ''__objc_protolist'' do_protocol st))))"

subsection \<open>Repointing the fields\<close>

definition fix_relmethod :: "(int \<Rightarrow> int option) \<Rightarrow> int \<Rightarrow> int \<times> int \<Rightarrow> bytes \<Rightarrow> bytes res" where
  "fix_relmethod am nbase = (\<lambda>(fa, tgt) buf.
     case (am fa, am tgt) of (Some na, Some nt) \<Rightarrow> pi32 buf (na - nbase) (nt - na) | _ \<Rightarrow> Inr buf)"

definition repoint_name :: "(int \<Rightarrow> int option) \<Rightarrow> int \<Rightarrow> (int \<Rightarrow> int option) \<Rightarrow> int \<times> int \<Rightarrow> bytes \<Rightarrow> bytes res" where
  "repoint_name am nbase str_slot = (\<lambda>(nf, s) buf.
     case am nf of None \<Rightarrow> Inr buf
     | Some na \<Rightarrow> bindR (lookup_key str_slot s) (\<lambda>slot. pi32 buf (na - nbase) (slot - na)))"

definition repoint_methods ::
    "(int \<Rightarrow> int option) \<Rightarrow> int \<Rightarrow> (int \<Rightarrow> int option) \<Rightarrow> (int \<times> int) list \<Rightarrow> (int \<times> int) list \<Rightarrow> bytes \<Rightarrow> bytes res" where
  "repoint_methods am nbase str_slot recs names buf =
     bindR (foldR (fix_relmethod am nbase) recs buf) (foldR (repoint_name am nbase str_slot) names)"

subsection \<open>The image-info flags\<close>

definition clear_imageinfo_sect :: "int \<Rightarrow> bytes \<Rightarrow> bytes res" where
  "clear_imageinfo_sect so buf =
     (if cstr16 buf so \<noteq> ascii ''__objc_imageinfo'' then Inr buf
      else bindR (u32 buf (so + 48)) (\<lambda>ioff.
           bindR (u32 buf (ioff + 4)) (\<lambda>fl. p32 buf (ioff + 4) (fl AND NOT (0x1 OR 0x8 OR 0x80)))))"

definition clear_imageinfo_cmd :: "int \<Rightarrow> int \<Rightarrow> int \<Rightarrow> bytes \<Rightarrow> bytes res" where
  "clear_imageinfo_cmd cmd sz off buf =
     (if cmd = LC_SEGMENT_64 then
        bindR (u32 buf (off + 64)) (\<lambda>ns. foldR clear_imageinfo_sect (sect_offs off ns) buf)
      else Inr buf)"

definition clear_imageinfo :: "int \<Rightarrow> bytes \<Rightarrow> bytes res" where
  "clear_imageinfo ncmds buf = for_cmds id clear_imageinfo_cmd (nat ncmds) 32 buf"

subsection \<open>The walk clears flags and nothing else\<close>

definition low_cleared :: "bytes \<Rightarrow> bytes \<Rightarrow> bool" where
  "low_cleared b c \<longleftrightarrow> length c = length b \<and> (\<forall>k < length b. c ! k \<in> {b ! k, b ! k AND NOT 3})"

lemma low_cleared_refl: "low_cleared b b"
  by (simp add: low_cleared_def)

lemma low_cleared_trans:
  assumes "low_cleared a b" "low_cleared b c"
  shows "low_cleared a c"
proof -
  have [simp]: "(x AND NOT 3) AND NOT 3 = x AND NOT (3 :: byte)" for x by (rule bit_word_eqI) (simp add: bit_simps)
  show ?thesis using assms unfolding low_cleared_def by (metis \<open>\<And>x. (x AND NOT 3) AND NOT 3 = x AND NOT (3 :: byte)\<close> insert_iff singletonD)
qed

lemma le_bytes_clear: "le_bytes (Suc n) (v AND NOT 3) = (hd (le_bytes (Suc n) v) AND NOT 3) # tl (le_bytes (Suc n) v)"
proof -
  have "(v AND NOT 3) div 256 = drop_bit 8 (v AND NOT 3)" by (simp add: drop_bit_eq_div)
  also have "\<dots> = drop_bit 8 v"
  proof (rule bit_eqI)
    fix n
    have "(3::int) = mask 2" by (simp add: mask_eq_exp_minus_1)
    then show "bit (drop_bit 8 (v AND NOT 3)) n = bit (drop_bit 8 v) n" by (simp add: bit_simps)
  qed
  finally have d: "(v AND NOT 3) div 256 = v div 256" by (simp add: drop_bit_eq_div)
  have "word_of_int (x mod 256) = (word_of_int x :: byte)" for x
    by (simp add: word_of_int_eq_iff take_bit_eq_mod)
  moreover have "(word_of_int (v AND NOT (mask 2)) :: byte) = word_of_int v AND NOT (mask 2)"
    by (rule bit_word_eqI) (simp add: bit_simps)
  moreover have "(mask 2 :: int) = 3" "(mask 2 :: byte) = 3" by (simp_all add: mask_eq_exp_minus_1)
  ultimately have "(word_of_int ((v AND NOT 3) mod 256) :: byte) = word_of_int (v mod 256) AND NOT 3" by metis
  then show ?thesis by (simp only: le_bytes.simps list.sel d)
qed

lemma clear_flag_word:
  assumes "u32 b off = Inr ef" "p32 b off (ef AND NOT 3) = Inr c"
  shows "low_cleared b c"
proof -
  obtain i where i: "at_off b 4 off = Inr i" and ef: "ef = le_int (take 4 (drop i b))"
    and c: "c = put_at b i (le_bytes 4 (ef AND NOT 3))"
    using assms by (auto simp: unpack_u_def pack_u_def bindR_Inr_iff simp del: le_bytes.simps split: if_splits)
  have len: "i + 4 \<le> length b" using at_off_Inr [OF i] by simp
  have "le_bytes (length (take 4 (drop i b))) ef = take 4 (drop i b)" unfolding ef by (rule le_bytes_le_int)
  then have e: "le_bytes 4 ef = take 4 (drop i b)" using len by simp
  have w: "le_bytes 4 (ef AND NOT 3) = (hd (take 4 (drop i b)) AND NOT 3) # tl (take 4 (drop i b))"
    using le_bytes_clear [of 3 ef] e by (simp add: numeral_eq_Suc del: le_bytes.simps)
  have n: "le_bytes 4 (ef AND NOT 3) ! j \<in> {b ! (i + j), b ! (i + j) AND NOT 3}" if "j < 4" for j
    using that len unfolding w by (cases j) (auto simp: hd_drop_conv_nth nth_tl)
  show ?thesis unfolding low_cleared_def
  proof (intro conjI allI impI)
    show "length c = length b" using len by (simp add: c del: le_bytes.simps)
    fix k assume k: "k < length b"
    show "c ! k \<in> {b ! k, b ! k AND NOT 3}"
      using nth_put_at [of i "le_bytes 4 (ef AND NOT 3)" b k] len k n [of "k - i"]
      by (auto simp: c simp del: le_bytes.simps split: if_splits)
  qed
qed

text \<open>What the walk has established: only flag bits of the buffer have changed, every field it recorded
  lies in a segment and leads elsewhere, every selector it recorded lies in the image.\<close>

definition walk_ok :: "span list \<Rightarrow> bytes \<Rightarrow> relmethods \<Rightarrow> bool" where
  "walk_ok segs buf st \<longleftrightarrow> low_cleared buf (rm_buf st)
     \<and> (\<forall>(fa, t) \<in> set (rm_recs st). addr_off segs fa \<noteq> None \<and> t \<noteq> fa)
     \<and> (\<forall>(e, sp) \<in> set (rm_names st). addr_off segs e \<noteq> None \<and> inimg segs sp)"

lemma inimg_off: "inimg segs a \<longleftrightarrow> addr_off segs a \<noteq> None"
  by (induction segs a rule: addr_off.induct) (auto simp: inimg_def)

lemma read_at_found: "read_at rd segs buf a = Inr v \<Longrightarrow> v \<noteq> 0 \<Longrightarrow> addr_off segs a \<noteq> None"
  by (cases "addr_off segs a") (auto simp: read_at_def)

lemma add_field_ok: "walk_ok segs buf st \<Longrightarrow> add_field segs fa st = Inr st' \<Longrightarrow> walk_ok segs buf st'"
  by (auto simp: add_field_def walk_ok_def bindR_Inr_iff dest: read_at_found split: if_splits)

lemma add_name_ok: "walk_ok segs buf st \<Longrightarrow> add_name segs e st = Inr st' \<Longrightarrow> walk_ok segs buf st'"
  by (auto simp: add_name_def walk_ok_def bindR_Inr_iff dest: read_at_found split: if_splits)

lemma walk_fold:
  assumes "foldR f xs st = Inr st'" "walk_ok segs buf st"
    and "\<And>x s t. walk_ok segs buf s \<Longrightarrow> f x s = Inr t \<Longrightarrow> walk_ok segs buf t"
  shows "walk_ok segs buf st'"
  by (rule foldR_invariant [OF assms(1), where I = "walk_ok segs buf"]) (use assms in auto)

lemma do_entry_ok: "walk_ok segs buf st \<Longrightarrow> do_entry segs e st = Inr st' \<Longrightarrow> walk_ok segs buf st'"
  unfolding do_entry_def bindR_Inr_iff by (blast intro: walk_fold add_field_ok add_name_ok)

lemma do_ml_ok:
  assumes "walk_ok segs buf st" "do_ml segs ml st = Inr st'"
  shows "walk_ok segs buf st'"
proof (cases "st' = st")
  case False
  then obtain ef count off b where ef: "rdu segs (rm_buf st) ml = Inr ef" and off: "addr_off segs ml = Some off"
    and b: "p32 (rm_buf st) off (ef AND NOT 3) = Inr b"
    and f: "foldR (\<lambda>i. do_entry segs (ml + 8 + int i * entry_size ef)) [0..<nat count]
        (st\<lparr>rm_buf := b\<rparr>) = Inr st'"
    using assms(2) by (auto simp: do_ml_def Let_def bindR_Inr_iff split: if_splits option.splits)
  have "low_cleared (rm_buf st) b"
    by (rule clear_flag_word [OF _ b]) (use ef off in \<open>simp add: read_at_def\<close>)
  then have "walk_ok segs buf (st\<lparr>rm_buf := b\<rparr>)" using assms(1) low_cleared_trans by (auto simp: walk_ok_def)
  then show ?thesis by (rule walk_fold [OF f]) (rule do_entry_ok)
qed (use assms(1) in simp)

lemma do_listed_ok: "walk_ok segs buf st \<Longrightarrow> do_listed segs e st = Inr st' \<Longrightarrow> walk_ok segs buf st'"
  by (auto simp: do_listed_def bindR_Inr_iff intro: do_ml_ok split: option.splits)

lemma do_methods_ok: "walk_ok segs buf st \<Longrightarrow> do_methods segs raw st = Inr st' \<Longrightarrow> walk_ok segs buf st'"
  unfolding do_methods_def Let_def
  by (auto simp: bindR_Inr_iff intro: do_ml_ok walk_fold [OF _ _ do_listed_ok] split: if_splits)

lemma do_one_class_ok: "walk_ok segs buf st \<Longrightarrow> do_one_class segs c st = Inr st' \<Longrightarrow> walk_ok segs buf st'"
  by (auto simp: do_one_class_def Let_def bindR_Inr_iff intro: do_methods_ok split: if_splits)

lemma do_class_ok: "walk_ok segs buf st \<Longrightarrow> do_class segs c st = Inr st' \<Longrightarrow> walk_ok segs buf st'"
  unfolding do_class_def by (auto simp del: foldR.simps simp: bindR_Inr_iff intro: walk_fold [OF _ _ do_one_class_ok] split: if_splits)

lemma do_lists_ok: "foldR (\<lambda>moff. do_list_at segs (p + moff)) ms st = Inr st' \<Longrightarrow> walk_ok segs buf st \<Longrightarrow> walk_ok segs buf st'"
  by (rule walk_fold) (auto simp: do_list_at_def bindR_Inr_iff intro: do_ml_ok)

lemma walk_section_ok:
  assumes "walk_section segs sects name visit st = Inr st'" "walk_ok segs buf st"
    and "\<And>p s t. walk_ok segs buf s \<Longrightarrow> visit segs p s = Inr t \<Longrightarrow> walk_ok segs buf t"
  shows "walk_ok segs buf st'"
proof (cases "map_of sects (ascii name)")
  case (Some s)
  obtain sa ssz where s: "s = (sa, ssz)" by (cases s)
  have f: "foldR (\<lambda>i st. bindR (rdp segs (rm_buf st) (sa + int i * 8)) (\<lambda>p. visit segs p st)) [0..<nat (ssz div 8)] st = Inr st'"
    using assms(1) Some s by (simp add: walk_section_def)
  show ?thesis by (rule walk_fold [OF f assms(2)]) (auto simp: bindR_Inr_iff intro: assms(3))
qed (use assms(1,2) in \<open>simp add: walk_section_def\<close>)

text \<open>Collecting the method lists touches the image only in the low two bits of some bytes, which it
  clears (the flag words of relative lists); every recorded field lies in a segment and has a target other
  than itself, and every recorded selector string lies in the image.\<close>

theorem objc_collect_relmethods_safe:
  assumes run: "objc_collect_relmethods buf = Inr st"
  shows "length (rm_buf st) = length buf
    \<and> (\<forall>k < length buf. rm_buf st ! k \<in> {buf ! k, buf ! k AND NOT 3})
    \<and> (\<exists>ncmds segs sects. u32 buf 16 = Inr ncmds
         \<and> for_cmds (\<lambda>_. buf) (map_cmd buf) (nat ncmds) 32 ([], []) = Inr (segs, sects)
         \<and> (\<forall>(fa, t) \<in> set (rm_recs st). addr_off segs fa \<noteq> None \<and> t \<noteq> fa)
         \<and> (\<forall>(e, sp) \<in> set (rm_names st). addr_off segs e \<noteq> None \<and> inimg segs sp))"
proof -
  let ?s0 = "\<lparr>rm_buf = buf, rm_recs = [], rm_names = []\<rparr>"
  obtain ncmds segs sects s1 s2 where h: "u32 buf 16 = Inr ncmds"
      "for_cmds (\<lambda>_. buf) (map_cmd buf) (nat ncmds) 32 ([], []) = Inr (segs, sects)"
    and w: "walk_section segs sects ''__objc_classlist'' do_class ?s0 = Inr s1"
      "walk_section segs sects ''__objc_catlist'' do_category s1 = Inr s2"
      "walk_section segs sects ''__objc_protolist'' do_protocol s2 = Inr st"
    using run by (auto simp: objc_collect_relmethods_def bindR_Inr_iff)
  have "walk_ok segs buf ?s0" by (simp add: walk_ok_def low_cleared_refl)
  then have "walk_ok segs buf s1" by (rule walk_section_ok [OF w(1)]) (rule do_class_ok)
  then have "walk_ok segs buf s2"
    by (rule walk_section_ok [OF w(2)]) (auto simp: do_category_def intro: do_lists_ok simp del: foldR.simps split: if_splits)
  then have "walk_ok segs buf st"
    by (rule walk_section_ok [OF w(3)]) (auto simp: do_protocol_def intro: do_lists_ok simp del: foldR.simps split: if_splits)
  then show ?thesis using h unfolding walk_ok_def low_cleared_def by blast
qed

subsection \<open>Repointed fields lead to the moved targets\<close>

definition rec_write :: "(int \<Rightarrow> int option) \<Rightarrow> int \<Rightarrow> int \<times> int \<Rightarrow> (int \<times> int) option" where
  "rec_write am nbase = (\<lambda>(fa, tgt). case (am fa, am tgt) of
     (Some na, Some nt) \<Rightarrow> Some (na - nbase, nt - na) | _ \<Rightarrow> None)"

definition name_write :: "(int \<Rightarrow> int option) \<Rightarrow> int \<Rightarrow> (int \<Rightarrow> int option) \<Rightarrow> int \<times> int \<Rightarrow> (int \<times> int) option" where
  "name_write am nbase slots = (\<lambda>(nf, s). case am nf of None \<Rightarrow> None
     | Some na \<Rightarrow> map_option (\<lambda>slot. (na - nbase, slot - na)) (slots s))"

definition method_writes ::
    "(int \<Rightarrow> int option) \<Rightarrow> int \<Rightarrow> (int \<Rightarrow> int option) \<Rightarrow> (int \<times> int) list \<Rightarrow> (int \<times> int) list \<Rightarrow> (int \<times> int) list" where
  "method_writes am nbase slots recs names =
     List.map_filter (rec_write am nbase) recs @ List.map_filter (name_write am nbase slots) names"

lemma foldR_writes:
  assumes "foldR f xs b = Inr c"
    and "\<And>x b c. f x b = Inr c \<Longrightarrow> (case w x of None \<Rightarrow> c = b | Some (p, v) \<Rightarrow> pi32 b p v = Inr c)"
  shows "fs32.wr_list (List.map_filter w xs) b = Inr c"
  using assms(1)
proof (induction xs arbitrary: b)
  case (Cons x xs)
  obtain d where d: "f x b = Inr d" "foldR f xs d = Inr c" using Cons.prems by (auto simp: bindR_Inr_iff)
  have ih: "fs32.wr_list (List.map_filter w xs) d = Inr c" by (rule Cons.IH [OF d(2)])
  show ?case
  proof (cases "w x")
    case None
    then show ?thesis using ih assms(2) [OF d(1)] by (simp add: map_filter_simps)
  next
    case (Some pv)
    obtain p v where pv: "pv = (p, v)" by (cases pv)
    have "fs32.wr_list ([(p, v)] @ List.map_filter w xs) b = Inr c"
      using ih assms(2) [OF d(1)] Some pv unfolding fs32.wr_list_append by (simp add: fs32.wr_list_def)
    then show ?thesis using Some pv by (simp add: map_filter_simps)
  qed
qed (simp add: map_filter_simps fs32.wr_list_def)

lemma fix_relmethod_write:
  "fix_relmethod am nbase x b = Inr c \<Longrightarrow> (case rec_write am nbase x of None \<Rightarrow> c = b | Some (p, v) \<Rightarrow> pi32 b p v = Inr c)"
  by (auto simp: fix_relmethod_def rec_write_def split: prod.splits option.splits)

lemma repoint_name_write:
  "repoint_name am nbase slots x b = Inr c \<Longrightarrow> (case name_write am nbase slots x of None \<Rightarrow> c = b | Some (p, v) \<Rightarrow> pi32 b p v = Inr c)"
  by (auto simp: repoint_name_def name_write_def lookup_key_def bindR_Inr_iff split: prod.splits option.splits)

text \<open>C20: After the layout has moved the segments, every recorded types, implementation and name field reads,
  from where it now lies, as the distance to its target's new place or to its selector's slot, and
  nothing outside these fields changes (the fields lie inside the image, four bytes apart).\<close>

theorem repoint_methods_correct:
  assumes run: "repoint_methods am nbase slots recs names buf = Inr buf'"
    and inside: "\<forall>(p, v) \<in> set (method_writes am nbase slots recs names). 0 \<le> p"
    and apart: "fs32.spaced (map fst (method_writes am nbase slots recs names))"
  shows "(\<forall>(fa, tgt) \<in> set recs. \<forall>na nt. am fa = Some na \<longrightarrow> am tgt = Some nt \<longrightarrow> i32 buf' (na - nbase) = Inr (nt - na))
    \<and> (\<forall>(nf, s) \<in> set names. \<forall>na. am nf = Some na \<longrightarrow>
         (\<exists>slot. slots s = Some slot \<and> i32 buf' (na - nbase) = Inr (slot - na)))
    \<and> same_outside (\<lambda>k. \<exists>(p, v) \<in> set (method_writes am nbase slots recs names). p \<le> int k \<and> int k < p + 4) buf buf'"
proof -
  let ?W = "method_writes am nbase slots recs names"
  obtain b where b: "foldR (fix_relmethod am nbase) recs buf = Inr b" "foldR (repoint_name am nbase slots) names b = Inr buf'"
    using run by (auto simp: repoint_methods_def bindR_Inr_iff)
  have w: "fs32.wr_list ?W buf = Inr buf'"
    using foldR_writes [OF b(1) fix_relmethod_write] foldR_writes [OF b(2) repoint_name_write]
    by (simp add: method_writes_def fs32.wr_list_append)
  have rd: "i32 buf' p = Inr v" if "(p, v) \<in> set ?W" for p v
    by (rule fs32.wr_list_read [OF w inside apart that])
  have mem: "y \<in> set (List.map_filter f xs)" if "x \<in> set xs" "f x = Some y" for f and x :: "int \<times> int" and y :: "int \<times> int" and xs
    using that by (force simp: List.map_filter_def)
  have R: "(na - nbase, nt - na) \<in> set ?W" if "(fa, tgt) \<in> set recs" "am fa = Some na" "am tgt = Some nt" for fa tgt na nt
    using mem [OF that(1), of "rec_write am nbase"] that by (simp add: method_writes_def rec_write_def)
  have N: "\<exists>slot. slots s = Some slot \<and> (na - nbase, slot - na) \<in> set ?W" if m: "(nf, s) \<in> set names" "am nf = Some na" for nf s na
  proof -
    obtain c d where "repoint_name am nbase slots (nf, s) c = Inr d" using foldR_steps [OF b(2) m(1)] by blast
    then obtain slot where slot: "slots s = Some slot"
      using m(2) by (auto simp: repoint_name_def lookup_key_def bindR_Inr_iff split: option.splits)
    show ?thesis using mem [OF m(1), of "name_write am nbase slots"] m slot by (simp add: method_writes_def name_write_def)
  qed
  have "same_outside (\<lambda>k. \<exists>(p, v) \<in> set ?W. p \<le> int k \<and> int k < p + int 4) buf buf'"
    by (rule fs32.wr_list_outside [OF w inside])
  then show ?thesis using R N rd by fastforce
qed

subsection \<open>Examples\<close>

definition objc_example :: bytes where
  "objc_example = le_words 4 [MH_MAGIC_64, 0, 0, 0, 1, 152, 0, 0]
     @ le_words 4 [0x19, 152] @ zeros 16 @ le_words 8 [0x1000, 0x1000, 0, 268] @ le_words 4 [0, 0, 1, 0]
     @ ascii ''__objc_protolist'' @ zeros 16 @ le_words 8 [0x10B8, 8] @ zeros 32
     @ le_words 8 [0x10C0, 0, 0, 0, 0x10F8, 0, 0, 0] @ le_words 4 [0x8000000F, 1, 0, 0x10, 0x20]"

lemma objc_example_walk:
  "map_sum (\<lambda>_. ()) (\<lambda>st. (rm_recs st, rm_names st)) (objc_collect_relmethods objc_example)
     = Inr ([(0x1104, 0x1114), (0x1108, 0x1128)], [])"
  by code_simp

lemma objc_collect_relmethods_safe_witness:
  "\<exists>st. objc_collect_relmethods objc_example = Inr st \<and> rm_recs st = [(0x1104, 0x1114), (0x1108, 0x1128)]
     \<and> length (rm_buf st) = length objc_example"
proof -
  obtain st where st: "objc_collect_relmethods objc_example = Inr st" "rm_recs st = [(0x1104, 0x1114), (0x1108, 0x1128)]"
    using objc_example_walk by (cases "objc_collect_relmethods objc_example") auto
  then show ?thesis using objc_collect_relmethods_safe [OF st(1)] by blast
qed

lemma repoint_methods_correct_witness:
  "\<exists>buf'. repoint_methods (\<lambda>a. Some (a + 0x100)) 0x100 [0x30 \<mapsto> 0x128] [(0x10, 0x20)] [(0x18, 0x30)] (zeros 64) = Inr buf'
     \<and> i32 buf' 0x10 = Inr 0x10 \<and> i32 buf' 0x18 = Inr 0x10"
proof -
  let ?am = "\<lambda>a::int. Some (a + 0x100)" and ?sl = "[0x30 \<mapsto> 0x128] :: int \<Rightarrow> int option"
  have ok: "is_ok (repoint_methods ?am 0x100 ?sl [(0x10, 0x20)] [(0x18, 0x30)] (zeros 64))" by code_simp
  then obtain buf' where run: "repoint_methods ?am 0x100 ?sl [(0x10, 0x20)] [(0x18, 0x30)] (zeros 64) = Inr buf'"
    by (auto simp: is_ok_iff)
  have W: "method_writes ?am 0x100 ?sl [(0x10, 0x20)] [(0x18, 0x30)] = [(0x10, 0x10), (0x18, 0x10)]"
    by (simp add: method_writes_def rec_write_def name_write_def map_filter_simps)
  have "fs32.spaced []" by (simp add: fs32.spaced_def)
  then have sp: "fs32.spaced (map fst [(0x10 :: int, 0x10 :: int), (0x18, 0x10)])" by (simp add: fs32.spaced_Cons)
  have "(\<forall>(fa, tgt) \<in> set [(0x10, 0x20)]. \<forall>na nt. ?am fa = Some na \<longrightarrow> ?am tgt = Some nt \<longrightarrow> i32 buf' (na - 0x100) = Inr (nt - na))
    \<and> (\<forall>(nf, s) \<in> set [(0x18, 0x30)]. \<forall>na. ?am nf = Some na \<longrightarrow> (\<exists>slot. ?sl s = Some slot \<and> i32 buf' (na - 0x100) = Inr (slot - na)))"
    using repoint_methods_correct [OF run] sp unfolding W by simp
  then show ?thesis using run by simp
qed

end
