(* ===== verification/Pool_Plan.thy ===== *)
theory Pool_Plan
  imports Bind_Plan Layout
begin

text \<open>
  The pool that \<^verbatim>\<open>main\<close> of \<^verbatim>\<open>uncache.py\<close> adds to the image: selector slots, rebuilt GOT slots and copies of
  strings the cache moved out, with the section that hosts it; and the strings of the image by content,
  used to localize pointers into the shared string pools. Dicts whose order or overwriting matters are
  association lists; \<^verbatim>\<open>sorted\<close> of a set is \<^const>\<open>sorted_list_of_set\<close>.
\<close>

subsection \<open>The symbols of the rebuilt GOT\<close>

definition got_auth_of ::
    "(int \<times> bytes \<times> bool) list \<Rightarrow> bytes option list \<Rightarrow> bytes option list \<Rightarrow> bytes list \<Rightarrow> bytes \<Rightarrow> bool option" where
  "got_auth_of got_targets unwind_pers lsda_symbols branches =
     (let truthy = (\<lambda>s. case s of None \<Rightarrow> [] | Some n \<Rightarrow> if n = [] then [] else [n]);
          old = (\<lambda>m s. case m s of None \<Rightarrow> False | Some au \<Rightarrow> au);
          m = foldl (\<lambda>m (_, s, au). m(s \<mapsto> old m s \<or> au)) Map.empty got_targets;
          m = foldl (\<lambda>m s. m(s \<mapsto> True)) m (concat (map truthy unwind_pers));
          m = foldl (\<lambda>m s. m(s \<mapsto> old m s)) m (concat (map truthy lsda_symbols))
      in foldl (\<lambda>m name. m(ascii ''__branch.'' @ name \<mapsto> True)) m branches)"

definition branch_selectors :: "bytes list \<Rightarrow> bytes list" where
  "branch_selectors branches =
     sorted_list_of_set (after_dollar ` {name \<in> set branches. prefix (ascii ''_objc_msgSend$'') name})"

subsection \<open>The string copies\<close>

definition printable :: "bytes \<Rightarrow> bool" where
  "printable s = list_all (\<lambda>b. 32 \<le> b \<and> b < 127) s"

text \<open>\<^verbatim>\<open>read_cache_cstrs\<close>: the bytes of the cache at an address come from outside; a string is what
  precedes a NUL, and nothing where no NUL or no data is.\<close>

definition cache_cstr :: "bytes option \<Rightarrow> bytes option" where
  "cache_cstr data = (case data of None \<Rightarrow> None
     | Some d \<Rightarrow> if 0 \<in> set d then Some (before_nul d) else None)"

definition external_targets :: "bind_env \<Rightarrow> cache_fixup list \<Rightarrow> int set" where
  "external_targets env fx = {t AND 0x00FFFFFFFFFFFFFF | t. t \<in> (fst \<circ> snd) ` set fx} - {a. in_img env a}"

definition cache_strings :: "(int \<Rightarrow> bytes option) \<Rightarrow> int list \<Rightarrow> (int \<times> bytes) list" where
  "cache_strings data targets =
     List.map_filter (\<lambda>t. case cache_cstr (data t) of None \<Rightarrow> None
        | Some v \<Rightarrow> if v \<noteq> [] \<and> printable v then Some (t, v) else None) targets"

record string_pool =
  sp_blob :: bytes
  sp_by_value :: "(bytes \<times> int) list"

definition pool_string :: "bytes \<Rightarrow> string_pool \<Rightarrow> string_pool" where
  "pool_string v sp =
     (if v \<in> fst ` set (sp_by_value sp) then sp
      else \<lparr>sp_blob = sp_blob sp @ v @ [0], sp_by_value = AList.update v (int (length (sp_blob sp))) (sp_by_value sp)\<rparr>)"

definition place_string :: "'k \<times> bytes \<Rightarrow> string_pool \<times> ('k \<times> int) list \<Rightarrow> (string_pool \<times> ('k \<times> int) list) res" where
  "place_string = (\<lambda>(k, v) (sp, offs).
     let sp = pool_string v sp in
     bindR (lookup_key (map_of (sp_by_value sp)) v) (\<lambda>off. Inr (sp, AList.update k off offs)))"

definition string_blob ::
    "(int \<times> bytes) list \<Rightarrow> bytes list \<Rightarrow> (bytes \<times> (int \<times> int) list \<times> (bytes \<times> int) list) res" where
  "string_blob strings selectors =
     bindR (foldR place_string (sort_key fst strings) (\<lparr>sp_blob = [], sp_by_value = []\<rparr>, [])) (\<lambda>(sp, string_offsets).
     bindR (foldR place_string (map (\<lambda>s. (s, s)) selectors) (sp, [])) (\<lambda>(sp, branch_string_offsets).
     Inr (sp_blob sp, string_offsets, branch_string_offsets)))"

subsection \<open>Where the pool goes and how it is laid out\<close>

definition pool_candidates :: "int \<Rightarrow> bytes list" where
  "pool_candidates selector_count =
     (if selector_count \<noteq> 0 then [ascii ''__objc_selrefs''] else []) @ [ascii ''__got'', ascii ''__data'']"

definition pool_home :: "bytes \<Rightarrow> int \<Rightarrow> int \<Rightarrow> bytes \<Rightarrow> (bytes \<times> bytes) option res" where
  "pool_home buf selector_count got_count blob =
     (if selector_count = 0 \<and> got_count = 0 \<and> blob = [] then Inr None
      else firstR (\<lambda>cand. bindR (section_segment buf cand) (\<lambda>r.
             Inr (case r of None \<Rightarrow> None | Some seg \<Rightarrow> if seg = [] then None else Some (seg, cand))))
           (pool_candidates selector_count))"

definition pool_sizes :: "int \<Rightarrow> int \<Rightarrow> bytes \<Rightarrow> int \<times> int \<times> int" where
  "pool_sizes selector_count got_count blob =
     (let slots_size = (selector_count + got_count) * 8;
          pool_size = slots_size + (int (length blob) + 7) div 8 * 8
      in (slots_size, pool_size, if selector_count \<noteq> 0 then selector_count * 8 else pool_size))"

definition branch_space :: "bytes list \<Rightarrow> int" where
  "branch_space branches = (if branches = [] then 0 else int (card (set branches)) * 32 + 15)"

text \<open>One slot per key, in order, from an address.\<close>

definition slots_from :: "int \<Rightarrow> 'k list \<Rightarrow> ('k \<times> int) list" where
  "slots_from va ks = zip ks (map (\<lambda>i. va + int i * 8) [0..<length ks])"

record pool_slots =
  po_selrefs :: "(int \<times> int) list"
  po_branches :: "(bytes \<times> int) list"
  po_got :: "(bytes \<times> int) list"
  po_strings :: int

definition lay_pool :: "int \<Rightarrow> int list \<Rightarrow> bytes list \<Rightarrow> bytes list \<Rightarrow> pool_slots" where
  "lay_pool pool_va uniq_sel branch_sels got_syms =
     (let selector_count = int (length uniq_sel) + int (length branch_sels);
          slots_size = (selector_count + int (length got_syms)) * 8
      in \<lparr>po_selrefs = slots_from pool_va uniq_sel,
          po_branches = (if got_syms = [] then [] else slots_from (pool_va + int (length uniq_sel) * 8) branch_sels),
          po_got = slots_from (pool_va + selector_count * 8) got_syms,
          po_strings = pool_va + slots_size\<rparr>)"

text \<open>The rebases of selector slots: branch selectors to their copies, the others to their moved strings.\<close>

definition selref_rebases ::
    "(int \<Rightarrow> int option) \<Rightarrow> pool_slots \<Rightarrow> (bytes \<times> int) list \<Rightarrow> (int \<times> int) list res" where
  "selref_rebases am po branch_offs =
     bindR (mapR (\<lambda>(sel, slot). bindR (lookup_key (map_of branch_offs) sel) (\<lambda>o'. Inr (slot, po_strings po + o'))) (po_branches po)) (\<lambda>rs.
     Inr (rs @ List.map_filter (\<lambda>(s, slot). map_option (\<lambda>nt. (slot, nt)) (am s)) (po_selrefs po)))"

text \<open>Copying the strings behind the slots.\<close>

definition copy_strings :: "segment list \<Rightarrow> pool_slots \<Rightarrow> bytes \<Rightarrow> (int \<times> int) list \<Rightarrow> bytes \<Rightarrow> (bytes \<times> (int \<times> int) list) res" where
  "copy_strings osegs po blob offs buf =
     (if blob = [] then Inr (buf, [])
      else bindR (addr2off osegs (po_strings po)) (\<lambda>off.
           Inr (py_set_slice buf off (off + int (length blob)) blob,
                map (\<lambda>(t, o'). (t, po_strings po + o')) offs)))"

subsection \<open>Every string is where its offset says, every slot has its own place\<close>

definition pool_ok :: "string_pool \<Rightarrow> bool" where
  "pool_ok sp \<longleftrightarrow> (\<forall>v off. map_of (sp_by_value sp) v = Some off \<longrightarrow> holds_at (sp_blob sp) off (v @ [0]))"

definition pool_le :: "string_pool \<Rightarrow> string_pool \<Rightarrow> bool" where
  "pool_le sp sp' \<longleftrightarrow> prefix (sp_blob sp) (sp_blob sp') \<and> map_of (sp_by_value sp) \<subseteq>\<^sub>m map_of (sp_by_value sp')"

lemma pool_le_refl: "pool_le sp sp"
  by (simp add: pool_le_def map_le_def)

lemma pool_le_trans: "pool_le a b \<Longrightarrow> pool_le b c \<Longrightarrow> pool_le a c"
  by (auto simp: pool_le_def intro: map_le_trans)

lemma holds_at_prefix: "holds_at b cur c \<Longrightarrow> prefix b b' \<Longrightarrow> holds_at b' cur c"
  by (auto simp: holds_at_def prefix_def)

lemma pool_string_ok:
  assumes "pool_ok sp"
  shows "pool_ok (pool_string v sp)" "pool_le sp (pool_string v sp)" "v \<in> dom (map_of (sp_by_value (pool_string v sp)))"
proof -
  have "pool_ok (pool_string v sp) \<and> pool_le sp (pool_string v sp) \<and> v \<in> dom (map_of (sp_by_value (pool_string v sp)))"
  proof (cases "v \<in> fst ` set (sp_by_value sp)")
    case True
    then show ?thesis using assms by (simp add: pool_string_def pool_le_refl dom_map_of_conv_image_fst)
  next
    case False
    then have new: "map_of (sp_by_value sp) v = None" by (simp add: map_of_eq_None_iff)
    have p: "pool_string v sp = \<lparr>sp_blob = sp_blob sp @ v @ [0], sp_by_value = AList.update v (int (length (sp_blob sp))) (sp_by_value sp)\<rparr>"
      using False by (simp add: pool_string_def)
    have "holds_at (sp_blob sp @ v @ [0]) (int (length (sp_blob sp))) (v @ [0])" by (simp add: holds_at_def)
    then have "pool_ok (pool_string v sp)"
      using assms holds_at_prefix [of "sp_blob sp" _ _ "sp_blob sp @ v @ [0]"] by (auto simp: pool_ok_def p update_conv')
    moreover have "pool_le sp (pool_string v sp)" using new by (auto simp: pool_le_def p update_conv' map_le_def)
    ultimately show ?thesis by (auto simp: p update_conv')
  qed
  then show "pool_ok (pool_string v sp)" "pool_le sp (pool_string v sp)" "v \<in> dom (map_of (sp_by_value (pool_string v sp)))" by blast+
qed

lemma place_string_ok:
  assumes "pool_ok sp"
  obtains off where "place_string (k, v) (sp, offs) = Inr (pool_string v sp, AList.update k off offs)"
    "map_of (sp_by_value (pool_string v sp)) v = Some off"
proof -
  obtain off where "map_of (sp_by_value (pool_string v sp)) v = Some off" using pool_string_ok(3) [OF assms] by blast
  then show thesis using that by (simp add: place_string_def Let_def lookup_key_def)
qed

lemma place_strings:
  assumes "pool_ok sp" "distinct (map fst xs)"
  shows "\<exists>sp' offs'. foldR place_string xs (sp, offs) = Inr (sp', offs') \<and> pool_ok sp' \<and> pool_le sp sp'
    \<and> (\<forall>k. k \<notin> fst ` set xs \<longrightarrow> map_of offs' k = map_of offs k)
    \<and> (\<forall>(k, v) \<in> set xs. \<exists>off. map_of offs' k = Some off \<and> map_of (sp_by_value sp') v = Some off)"
  using assms
proof (induction xs arbitrary: sp offs)
  case (Cons x xs)
  obtain k v where x: "x = (k, v)" by (cases x)
  obtain off where off: "place_string (k, v) (sp, offs) = Inr (pool_string v sp, AList.update k off offs)"
    "map_of (sp_by_value (pool_string v sp)) v = Some off"
    by (rule place_string_ok [OF Cons.prems(1)])
  note p = pool_string_ok [OF Cons.prems(1), of v]
  obtain sp' offs' where r: "foldR place_string xs (pool_string v sp, AList.update k off offs) = Inr (sp', offs')" "pool_ok sp'"
    "pool_le (pool_string v sp) sp'" "\<forall>j. j \<notin> fst ` set xs \<longrightarrow> map_of offs' j = map_of (AList.update k off offs) j"
    "\<forall>(j, w) \<in> set xs. \<exists>off. map_of offs' j = Some off \<and> map_of (sp_by_value sp') w = Some off"
    using Cons.IH [OF p(1), of "AList.update k off offs"] Cons.prems(2) by (simp only: list.map distinct.simps) blast
  have k: "map_of offs' k = Some off" using r(4) Cons.prems(2) x by (simp add: update_conv')
  have v: "map_of (sp_by_value sp') v = Some off" using r(3) off(2) by (auto simp: pool_le_def map_le_def dom_def)
  have "pool_le sp sp'" using p(2) r(3) by (rule pool_le_trans)
  then show ?case using r off(1) k v by (intro exI [of _ sp'] exI [of _ offs']) (auto simp: x update_conv')
qed (auto intro: pool_le_refl)

lemma string_blob_ok:
  assumes "distinct (map fst strings)" "distinct selectors"
  shows "\<exists>blob offs boffs. string_blob strings selectors = Inr (blob, offs, boffs)
    \<and> (\<forall>(t, v) \<in> set strings. \<exists>off. map_of offs t = Some off \<and> holds_at blob off (v @ [0]))
    \<and> (\<forall>s \<in> set selectors. \<exists>off. map_of boffs s = Some off \<and> holds_at blob off (s @ [0]))"
proof -
  let ?e = "\<lparr>sp_blob = [], sp_by_value = []\<rparr>"
  have e: "pool_ok ?e" by (simp add: pool_ok_def)
  have d: "distinct (map fst (sort_key fst strings))" using assms(1) by (simp add: distinct_sort_key)
  obtain sp offs where 1: "foldR place_string (sort_key fst strings) (?e, []) = Inr (sp, offs)" "pool_ok sp"
    "\<forall>(k, v) \<in> set strings. \<exists>off. map_of offs k = Some off \<and> map_of (sp_by_value sp) v = Some off"
    using place_strings [OF e d, of "[]"] by (simp add: case_prod_unfold) blast
  have d2: "distinct (map fst (map (\<lambda>s. (s, s)) selectors))" using assms(2) by (simp add: comp_def)
  obtain sp' boffs where 2: "foldR place_string (map (\<lambda>s. (s, s)) selectors) (sp, []) = Inr (sp', boffs)" "pool_ok sp'" "pool_le sp sp'"
    "\<forall>s \<in> set selectors. \<exists>off. map_of boffs s = Some off \<and> map_of (sp_by_value sp') s = Some off"
    using place_strings [OF 1(2) d2, of "[]"] by auto
  have "holds_at (sp_blob sp') off (v @ [0])" if "map_of (sp_by_value sp) v = Some off" for v off
  proof -
    have "map_of (sp_by_value sp') v = Some off" using 2(3) that by (auto simp: pool_le_def map_le_def dom_def)
    then show ?thesis using 2(2) by (simp add: pool_ok_def)
  qed
  moreover have "holds_at (sp_blob sp') off (v @ [0])" if "map_of (sp_by_value sp') v = Some off" for v off
    using 2(2) that by (simp add: pool_ok_def)
  ultimately show ?thesis using 1(3) 2(4) by (simp add: string_blob_def 1(1) 2(1)) blast
qed

lemma snd_slots_from: "map snd (slots_from va ks) = map (\<lambda>i. va + int i * 8) [0..<length ks]"
  by (simp add: slots_from_def)

lemma slots_from_append:
  "map snd (slots_from va ks) @ map snd (slots_from (va + int (length ks) * 8) ls)
     = map (\<lambda>i. va + int i * 8) [0..<length ks + length ls]"
proof (rule nth_equalityI)
  fix i assume i: "i < length (map snd (slots_from va ks) @ map snd (slots_from (va + int (length ks) * 8) ls))"
  then have l: "i < length ks + length ls" by (simp add: snd_slots_from)
  show "(map snd (slots_from va ks) @ map snd (slots_from (va + int (length ks) * 8) ls)) ! i
     = map (\<lambda>i. va + int i * 8) [0..<length ks + length ls] ! i"
  proof (cases "i < length ks")
    case False
    then have "int (i - length ks) = int i - int (length ks)" by (simp add: of_nat_diff)
    then show ?thesis using l False by (simp add: snd_slots_from nth_append left_diff_distrib)
  qed (use l in \<open>simp add: snd_slots_from nth_append\<close>)
qed (simp add: snd_slots_from)

text \<open>C21: The pool is laid out without overlap: the selector slots, branch-selector slots and GOT slots are
  consecutive words from the pool's address and the strings start behind them; every string, of a cache
  pointer or of a branch selector, has an offset where its NUL-terminated bytes stand, and after the copy
  they stand in the image at the address the pointer is localized to.\<close>

theorem pool_correct:
  assumes keys: "distinct (map fst strings)" "distinct sels" and got: "got_syms \<noteq> []"
    and po: "po = lay_pool pool_va uniq_sel sels got_syms"
    and off: "addr2off osegs (po_strings po) = Inr off" "0 \<le> off"
    and fits: "\<And>blob offs boffs. string_blob strings sels = Inr (blob, offs, boffs) \<Longrightarrow> off + int (length blob) \<le> int (length buf)"
  shows "map snd (po_selrefs po) @ map snd (po_branches po) @ map snd (po_got po)
      = map (\<lambda>i. pool_va + int i * 8) [0..<length uniq_sel + length sels + length got_syms]
    \<and> po_strings po = pool_va + int (length uniq_sel + length sels + length got_syms) * 8
    \<and> (\<exists>blob offs boffs buf' moved. string_blob strings sels = Inr (blob, offs, boffs)
        \<and> copy_strings osegs po blob offs buf = Inr (buf', moved)
        \<and> (\<forall>s \<in> set sels. \<exists>o'. map_of boffs s = Some o' \<and> holds_at blob o' (s @ [0]))
        \<and> (\<forall>(t, v) \<in> set strings. \<exists>a. map_of moved t = Some a \<and> holds_at buf' (off + (a - po_strings po)) (v @ [0])))"
proof -
  have s1: "map snd (po_selrefs po) @ map snd (po_branches po) = map (\<lambda>i. pool_va + int i * 8) [0..<length uniq_sel + length sels]"
    using got slots_from_append [of pool_va uniq_sel sels] by (simp add: po lay_pool_def Let_def)
  have s2: "map snd (po_got po) = map (\<lambda>i. pool_va + int (length uniq_sel + length sels) * 8 + int i * 8) [0..<length got_syms]"
    by (simp add: po lay_pool_def Let_def snd_slots_from)
  have len: "map (\<lambda>i. pool_va + int i * 8) [0..<n] @ map (\<lambda>i. pool_va + int n * 8 + int i * 8) [0..<m]
      = map (\<lambda>i. pool_va + int i * 8) [0..<n + m]" for n m
    using slots_from_append [of pool_va "replicate n ()" "replicate m ()"] by (simp add: snd_slots_from)
  have slots: "map snd (po_selrefs po) @ map snd (po_branches po) @ map snd (po_got po)
      = map (\<lambda>i. pool_va + int i * 8) [0..<length uniq_sel + length sels + length got_syms]"
    unfolding append_assoc [symmetric] s1 s2 by (rule len)
  obtain blob offs boffs where sb: "string_blob strings sels = Inr (blob, offs, boffs)"
    "\<forall>(t, v) \<in> set strings. \<exists>o'. map_of offs t = Some o' \<and> holds_at blob o' (v @ [0])"
    "\<forall>s \<in> set sels. \<exists>o'. map_of boffs s = Some o' \<and> holds_at blob o' (s @ [0])"
    using string_blob_ok [OF keys] by blast
  have "\<exists>buf' moved. copy_strings osegs po blob offs buf = Inr (buf', moved)
      \<and> (\<forall>(t, v) \<in> set strings. \<exists>a. map_of moved t = Some a \<and> holds_at buf' (off + (a - po_strings po)) (v @ [0]))"
  proof (cases "blob = []")
    case True
    then have "strings = []" using sb(2) by (cases strings) (auto simp: holds_at_def)
    then show ?thesis using True by (simp add: copy_strings_def)
  next
    case False
    let ?buf = "py_set_slice buf off (off + int (length blob)) blob"
    let ?moved = "map (\<lambda>(t, o'). (t, po_strings po + o')) offs"
    have "?buf = put_at buf (nat off) blob" by (rule py_set_slice_put_at) (use off(2) fits [OF sb(1)] in auto)
    then have hb: "holds_at ?buf off blob" using holds_at_put off(2) fits [OF sb(1)] by simp
    have mv: "map_of ?moved t = map_option (\<lambda>o'. po_strings po + o') (map_of offs t)" for t
      by (induction offs) auto
    have "\<exists>a. map_of ?moved t = Some a \<and> holds_at ?buf (off + (a - po_strings po)) (v @ [0])" if "(t, v) \<in> set strings" for t v
      using sb(2) that mv [of t] holds_at_sub [OF hb] by fastforce
    then show ?thesis using False off(1) by (auto simp: copy_strings_def)
  qed
  then show ?thesis using slots sb(1,3) by (intro conjI) (auto simp: po lay_pool_def Let_def)
qed

lemma pool_correct_witness:
  "\<exists>blob offs boffs buf' moved. string_blob [(0x200, ascii ''ab''), (0x100, ascii ''cd''), (0x180, ascii ''ab'')] [ascii ''x''] = Inr (blob, offs, boffs)
     \<and> copy_strings [weave_example_seg] (lay_pool 0x8000 [0x10] [ascii ''x''] [ascii ''_f'']) blob offs (zeros 64) = Inr (buf', moved)
     \<and> (\<exists>a. map_of moved 0x180 = Some a \<and> holds_at buf' (32 + (a - 0x8018)) (ascii ''ab'' @ [0]))"
proof -
  let ?S = "[(0x200, ascii ''ab''), (0x100, ascii ''cd''), (0x180, ascii ''ab'')] :: (int \<times> bytes) list" and ?L = "[ascii ''x'']"
  let ?po = "lay_pool 0x8000 [0x10] ?L [ascii ''_f'']"
  have f: "case string_blob ?S ?L of Inl _ \<Rightarrow> True | Inr (blob, _) \<Rightarrow> length blob = 8" "addr2off [weave_example_seg] (po_strings ?po) = Inr 32"
    "distinct (map fst ?S)" "distinct ?L" "po_strings ?po = 0x8018"
    by code_simp+
  have fits: "32 + int (length blob) \<le> int (length (zeros 64))" if "string_blob ?S ?L = Inr (blob, offs, boffs)" for blob offs boffs
    using f(1) by (simp add: that)
  have ne: "[ascii ''_f''] \<noteq> []" and z: "(0::int) \<le> 32" by simp_all
  note r = pool_correct [OF f(3,4) ne refl f(2) z fits]
  have "\<exists>blob offs boffs buf' moved. string_blob ?S ?L = Inr (blob, offs, boffs)
        \<and> copy_strings [weave_example_seg] ?po blob offs (zeros 64) = Inr (buf', moved)
        \<and> (\<forall>s \<in> set ?L. \<exists>o'. map_of boffs s = Some o' \<and> holds_at blob o' (s @ [0]))
        \<and> (\<forall>(t, v) \<in> set ?S. \<exists>a. map_of moved t = Some a \<and> holds_at buf' (32 + (a - po_strings ?po)) (v @ [0]))"
    by (rule r [THEN conjunct2, THEN conjunct2]) assumption
  then show ?thesis unfolding f(5) by fastforce
qed

end
