(* ===== verification/Localize.thy ===== *)
theory Localize
  imports Pool_Plan
begin

text \<open>
  Pointers into the cache's shared string pools that have no symbol (\<^verbatim>\<open>uncache.py\<close>): the strings of the
  image by content (\<^verbatim>\<open>build_local_str_va\<close>), and the choice of an in-image address for each such pointer.
  The iteration order of a Python set is not specified; it is the parameter \<open>order\<close>.
\<close>

subsection \<open>\<^verbatim>\<open>build_local_str_va\<close>\<close>

text \<open>The NUL-terminated strings of a section, with the address of each; what follows the last NUL is dropped.\<close>

function section_cstrs :: "bytes \<Rightarrow> int \<Rightarrow> (bytes \<times> int) list" where
  "section_cstrs blob a =
     (if 0 \<notin> set blob then []
      else (before_nul blob, a) # section_cstrs (drop (Suc (length (before_nul blob))) blob) (a + int (length (before_nul blob)) + 1))"
  by pat_completeness auto
termination
proof (relation "measure (\<lambda>(blob, _). length blob)")
  fix blob :: bytes and a :: int
  assume "\<not> 0 \<notin> set blob"
  then have "blob \<noteq> []" by auto
  then show "((drop (Suc (length (before_nul blob))) blob, a + int (length (before_nul blob)) + 1), (blob, a)) \<in> measure (\<lambda>(blob, _). length blob)"
    by (cases blob) auto
qed simp

declare section_cstrs.simps [simp del]

definition set_default :: "'k \<Rightarrow> 'v \<Rightarrow> ('k \<times> 'v) list \<Rightarrow> ('k \<times> 'v) list" where
  "set_default k v m = (if k \<in> fst ` set m then m else m @ [(k, v)])"

definition add_cstr :: "bytes \<times> int \<Rightarrow> (bytes \<times> int) list \<Rightarrow> (bytes \<times> int) list" where
  "add_cstr = (\<lambda>(s, a) smap. if s = [] then smap else set_default s a smap)"

definition literal_section :: "bytes \<Rightarrow> int \<Rightarrow> (bytes \<times> int) list \<Rightarrow> (bytes \<times> int) list res" where
  "literal_section buf so smap =
     bindR (u64x2 buf (so + 32)) (\<lambda>(addr, sz).
     bindR (u32 buf (so + 48)) (\<lambda>foff.
     bindR (u32 buf (so + 64)) (\<lambda>flags.
     Inr (if flags AND 0xFF = 2 \<and> sz \<noteq> 0 then fold add_cstr (section_cstrs (py_slice buf foff (foff + sz)) addr) smap
          else smap))))"

definition literal_cmd :: "bytes \<Rightarrow> int \<Rightarrow> int \<Rightarrow> int \<Rightarrow> (bytes \<times> int) list \<Rightarrow> (bytes \<times> int) list res" where
  "literal_cmd buf cmd sz off smap =
     (if cmd = LC_SEGMENT_64 then
        bindR (u32 buf (off + 64)) (\<lambda>ns. foldR (literal_section buf) (sect_offs off ns) smap)
      else Inr smap)"

definition selref_words :: "bytes \<Rightarrow> int \<Rightarrow> int set \<Rightarrow> int set res" where
  "selref_words buf so targets =
     (if cstr16 buf so \<noteq> ascii ''__objc_selrefs'' then Inr targets
      else bindR (u64 buf (so + 40)) (\<lambda>sz.
           bindR (u32 buf (so + 48)) (\<lambda>off.
           bindR (mapR (\<lambda>k. u64 buf (off + 8 * int k)) [0..<nat ((sz + 7) div 8)]) (\<lambda>ws.
           Inr (targets \<union> set ws)))))"

definition selref_targets :: "bytes \<Rightarrow> segment list \<Rightarrow> int set \<Rightarrow> int set res" where
  "selref_targets buf segs targets =
     foldR (\<lambda>s targets. bindR (u32 buf (lc_off s + 64)) (\<lambda>ns.
       foldR (selref_words buf) (sect_offs (lc_off s) ns) targets)) segs targets"

fun local_string :: "bytes \<Rightarrow> segment list \<Rightarrow> int \<Rightarrow> (bytes \<times> int) list \<Rightarrow> (bytes \<times> int) list" where
  "local_string buf [] a smap = smap"
| "local_string buf (s # ss) a smap =
     (if vmaddr s \<le> a \<and> a < vmaddr s + filesize s then
        (let off = fileoff s + a - vmaddr s;
             v = before_nul (py_slice buf off (off + min 256 (vmaddr s + filesize s - a)))
         in if v \<noteq> [] \<and> printable v then set_default v a smap else smap)
      else local_string buf ss a smap)"

definition build_local_str_va ::
    "(int set \<Rightarrow> int list) \<Rightarrow> bytes \<Rightarrow> (int \<Rightarrow> int option) \<Rightarrow> int list \<Rightarrow> (bytes \<times> int) list res" where
  "build_local_str_va order buf am method_strings =
     bindR (u32 buf 16) (\<lambda>ncmds.
     bindR (for_cmds (\<lambda>_. buf) (literal_cmd buf) (nat ncmds) 32 []) (\<lambda>smap.
     bindR (parse_segments buf) (\<lambda>(segments, _, _).
     bindR (selref_targets buf segments (set method_strings)) (\<lambda>targets.
     Inr (fold (\<lambda>t smap. case am t of None \<Rightarrow> smap | Some a \<Rightarrow> local_string buf segments a smap)
               (order targets) smap)))))"

subsection \<open>Choosing the in-image address\<close>

definition unnamed_targets :: "(int \<Rightarrow> bytes option) \<Rightarrow> int list \<Rightarrow> int list" where
  "unnamed_targets symbols bind_tgts =
     filter (\<lambda>rt. symbols rt = None \<or> symbols rt = Some [] \<or> symbols rt = Some (ascii ''?'')) bind_tgts"

definition bind_targets :: "bind_env \<Rightarrow> cache_fixup list \<Rightarrow> int list" where
  "bind_targets env fx =
     sorted_list_of_set ({real_t t auth | t auth. (t, auth) \<in> (\<lambda>(_, t, auth, _). (t, auth)) ` set fx} - {a. in_img env a})"

definition localize_named :: "(int \<Rightarrow> bytes option) \<Rightarrow> (bytes \<times> int) list \<Rightarrow> int \<Rightarrow> (int \<times> int) list \<Rightarrow> (int \<times> int) list" where
  "localize_named cstrs local_va rt localize =
     (case cstrs rt of None \<Rightarrow> localize
      | Some s \<Rightarrow> if s = [] then localize
                  else case map_of local_va s of None \<Rightarrow> localize | Some a \<Rightarrow> AList.update rt a localize)"

text \<open>A pointer that the extractor already redirected to a copy is kept only if the bytes agree.\<close>

definition localize_copied ::
    "(int \<Rightarrow> bytes option) \<Rightarrow> (int \<Rightarrow> int option) \<Rightarrow> segment list \<Rightarrow> bytes \<Rightarrow> cache_fixup \<Rightarrow> (int \<times> int) list
     \<Rightarrow> (int \<times> int) list res" where
  "localize_copied cstrs am osegs buf = (\<lambda>(addr, t, auth, _) localize.
     let rt = real_t t auth in
     case cstrs rt of None \<Rightarrow> Inr localize
     | Some v \<Rightarrow>
         if rt \<in> fst ` set localize \<or> v = [] \<or> \<not> printable v then Inr localize
         else bindR (none_type (am addr)) (\<lambda>nloc.
              bindR (addr2off osegs nloc) (\<lambda>o'.
              bindR (u64 buf o') (\<lambda>pointer.
              case am pointer of None \<Rightarrow> Inr localize
              | Some address \<Rightarrow>
                  bindR (addr2off osegs address) (\<lambda>off.
                  Inr (if py_slice buf off (off + int (length v) + 1) = v @ [0]
                       then AList.update rt address localize else localize))))))"

definition localize_strings ::
    "(int set \<Rightarrow> int list) \<Rightarrow> (int \<Rightarrow> bytes option) \<Rightarrow> (int \<Rightarrow> int option) \<Rightarrow> segment list \<Rightarrow> int list
     \<Rightarrow> cache_fixup list \<Rightarrow> int list \<Rightarrow> bytes \<Rightarrow> (int \<times> int) list \<Rightarrow> (int \<times> int) list res" where
  "localize_strings order data am osegs uniq_sel fx unnamed buf copied =
     (let cstrs = (\<lambda>rt. if rt \<in> set unnamed then cache_cstr (data rt) else None) in
      if unnamed = [] then Inr copied
      else bindR (build_local_str_va order buf am uniq_sel) (\<lambda>local_va.
           foldR (localize_copied cstrs am osegs buf) fx (fold (localize_named cstrs local_va) unnamed copied)))"

subsection \<open>A localized pointer leads to the same bytes\<close>

definition stands_at :: "bytes \<Rightarrow> segment list \<Rightarrow> int \<Rightarrow> bytes \<Rightarrow> bool" where
  "stands_at buf segs a v \<longleftrightarrow>
     (\<exists>s \<in> set segs. vmaddr s \<le> a \<and> py_slice buf (fileoff s + (a - vmaddr s)) (fileoff s + (a - vmaddr s) + int (length v)) = v)
     \<or> (\<exists>so addr sz foff. u64x2 buf (so + 32) = Inr (addr, sz) \<and> u32 buf (so + 48) = Inr foff \<and> addr \<le> a
          \<and> holds_at buf (foff + (a - addr)) (v @ [0]))"

lemma section_cstrs_hold: "(s, a) \<in> set (section_cstrs blob A) \<Longrightarrow> A \<le> a \<and> holds_at blob (a - A) (s @ [0])"
proof (induction blob A rule: section_cstrs.induct)
  case (1 blob A)
  let ?n = "length (before_nul blob)"
  have z: "0 \<in> set blob" using "1.prems" by (subst (asm) section_cstrs.simps) (auto split: if_splits)
  then obtain xs ys where b: "blob = xs @ 0 # ys" "0 \<notin> set xs" by (metis split_list_first)
  then have n: "before_nul blob = xs" by (simp add: before_nul_def takeWhile_append)
  have "(s, a) = (xs, A) \<or> (s, a) \<in> set (section_cstrs (drop (Suc ?n) blob) (A + int ?n + 1))"
    using "1.prems" z n by (subst (asm) section_cstrs.simps) auto
  then show ?case
  proof
    assume "(s, a) = (xs, A)"
    then show ?thesis using b by (simp add: holds_at_def)
  next
    assume r: "(s, a) \<in> set (section_cstrs (drop (Suc ?n) blob) (A + int ?n + 1))"
    have h: "A + int ?n + 1 \<le> a \<and> holds_at (drop (Suc ?n) blob) (a - (A + int ?n + 1)) (s @ [0])"
      by (rule "1.IH" [OF _ r]) (use z in simp)
    have e: "int (Suc ?n) + (a - (A + int ?n + 1)) = a - A" by simp
    have k: "Suc ?n \<le> length blob" using b n by simp
    have "holds_at blob (int (Suc ?n)) (drop (Suc ?n) blob)" using k by (simp add: holds_at_def del: of_nat_Suc)
    from holds_at_sub [OF this conjunct2 [OF h]] show ?thesis using h unfolding e by auto
  qed
qed

lemma holds_at_sliced:
  assumes "holds_at (py_slice buf f g) p c" "0 \<le> f"
  shows "holds_at buf (f + p) c \<or> c = []"
proof (cases "c = []")
  case False
  let ?i = "slice_bound (length buf) f" and ?j = "slice_bound (length buf) g"
  have h: "0 \<le> p" "nat p + length c \<le> length (py_slice buf f g)" "take (length c) (drop (nat p) (py_slice buf f g)) = c"
    using assms(1) by (auto simp: holds_at_def)
  have l: "length (py_slice buf f g) = min (?j - ?i) (length buf - ?i)" by (simp add: py_slice_def Let_def min.commute)
  have "0 < length c" using False by simp
  then have lt: "?i < length buf" using h(2) l by linarith
  then have i: "?i = nat f" using assms(2) by (auto simp: slice_bound_def min_def split: if_splits)
  have "take (length c) (drop (nat p) (take (?j - ?i) (drop ?i buf))) = take (length c) (drop (nat f + nat p) buf)"
  proof -
    have k: "nat p + length c \<le> ?j - nat f" using h(2) l i by linarith
    have "drop (nat p) (take (?j - nat f) (drop (nat f) buf)) = take (?j - nat f - nat p) (drop (nat f + nat p) buf)"
      by (simp add: drop_take add.commute)
    moreover have "take (length c) (take (?j - nat f - nat p) (drop (nat f + nat p) buf)) = take (length c) (drop (nat f + nat p) buf)"
      using k by (simp add: min_def)
    ultimately show ?thesis by (simp add: i)
  qed
  then have "take (length c) (drop (nat (f + p)) buf) = c" using h assms(2) by (simp add: py_slice_def Let_def nat_add_distrib)
  moreover have "f + p + int (length c) \<le> int (length buf)"
  proof -
    have "nat p + length c \<le> length buf - nat f" using h(2) l i by linarith
    then have "nat f + nat p + length c \<le> length buf" using lt i by linarith
    then show ?thesis using assms(2) h(1) by linarith
  qed
  ultimately show ?thesis using h(1) assms(2) by (simp add: holds_at_def)
qed simp

definition all_stand :: "bytes \<Rightarrow> segment list \<Rightarrow> (bytes \<times> int) list \<Rightarrow> bool" where
  "all_stand buf segs smap \<longleftrightarrow> (\<forall>(s, a) \<in> set smap. stands_at buf segs a s)"

lemma all_stand_default: "all_stand buf segs smap \<Longrightarrow> stands_at buf segs a s \<Longrightarrow> all_stand buf segs (set_default s a smap)"
  by (auto simp: all_stand_def set_default_def)

lemma all_stand_cstrs:
  assumes "\<forall>(s, a) \<in> set xs. stands_at buf segs a s" "all_stand buf segs smap"
  shows "all_stand buf segs (fold add_cstr xs smap)"
  using assms
proof (induction xs arbitrary: smap)
  case (Cons x xs)
  have "all_stand buf segs (add_cstr x smap)" using Cons.prems by (auto simp: add_cstr_def intro: all_stand_default)
  then show ?case using Cons by simp
qed simp

lemma literal_section_stand:
  assumes "literal_section buf so smap = Inr smap'" "all_stand buf segs smap"
  shows "all_stand buf segs smap'"
proof -
  obtain addr sz foff and flags :: int where h: "u64x2 buf (so + 32) = Inr (addr, sz)" "u32 buf (so + 48) = Inr foff"
    and s: "smap' = (if flags AND 0xFF = 2 \<and> sz \<noteq> 0 then fold add_cstr (section_cstrs (py_slice buf foff (foff + sz)) addr) smap else smap)"
    using assms(1) by (auto simp: literal_section_def bindR_Inr_iff simp del: if_split)
  have f: "0 \<le> foff" using unpack_u_bounds [OF h(2)] by simp
  have "stands_at buf segs a v" if m: "(v, a) \<in> set (section_cstrs (py_slice buf foff (foff + sz)) addr)" for v a
  proof -
    have "addr \<le> a \<and> holds_at (py_slice buf foff (foff + sz)) (a - addr) (v @ [0])" by (rule section_cstrs_hold [OF m])
    then have "addr \<le> a \<and> holds_at buf (foff + (a - addr)) (v @ [0])" using holds_at_sliced [OF _ f] by blast
    then show ?thesis unfolding stands_at_def using h by blast
  qed
  then show ?thesis using assms(2) s by (auto intro!: all_stand_cstrs)
qed

lemma py_slice_prefix:
  assumes "prefix v (py_slice b p q)" "0 \<le> p"
  shows "py_slice b p (p + int (length v)) = v"
proof (cases "v = []")
  case False
  let ?i = "slice_bound (length b) p" and ?j = "slice_bound (length b) q"
  have e: "v = take (length v) (py_slice b p q)" using assms(1) by (auto simp: prefix_def)
  have l: "length v \<le> ?j - ?i" "length v \<le> length b - ?i"
    using prefix_length_le [OF assms(1)] by (simp_all add: py_slice_def Let_def)
  have i: "?i = nat p" using l(2) False assms(2) by (auto simp: slice_bound_def min_def split: if_splits)
  have "slice_bound (length b) (p + int (length v)) = nat p + length v"
    using l(2) False assms(2) i by (auto simp: slice_bound_def min_def nat_add_distrib split: if_splits)
  then have "py_slice b p (p + int (length v)) = take (length v) (drop (nat p) b)" by (simp add: py_slice_def Let_def i)
  also have "\<dots> = take (length v) (py_slice b p q)" using l(1) by (simp add: py_slice_def Let_def i min_def)
  finally show ?thesis using e by simp
qed (use assms(2) in \<open>simp add: py_slice_def Let_def\<close>)

lemma before_nul_prefix: "prefix (before_nul s) s"
  by (auto simp: before_nul_def prefix_def) (metis takeWhile_dropWhile_id)

lemma local_string_stand:
  "all_stand buf segs smap \<Longrightarrow> set ss \<subseteq> set segs \<Longrightarrow> \<forall>s \<in> set segs. 0 \<le> fileoff s \<Longrightarrow>
   all_stand buf segs (local_string buf ss a smap)"
proof (induction ss)
  case (Cons s ss)
  let ?off = "fileoff s + (a - vmaddr s)"
  let ?s = "py_slice buf ?off (?off + min 256 (vmaddr s + filesize s - a))"
  have st: "stands_at buf segs a (before_nul ?s)" if "vmaddr s \<le> a"
  proof -
    have z: "0 \<le> ?off" using that Cons.prems(2,3) by auto
    have "py_slice buf ?off (?off + int (length (before_nul ?s))) = before_nul ?s"
      by (rule py_slice_prefix [OF before_nul_prefix z])
    then show ?thesis unfolding stands_at_def using that Cons.prems(2) by auto
  qed
  have e: "fileoff s + a - vmaddr s = ?off" by simp
  show ?case using Cons st all_stand_default unfolding local_string.simps Let_def e by simp
qed simp


lemma parsed_fileoff:
  assumes "parse_segments buf = Inr (segs, n, area)"
  shows "\<forall>s \<in> set segs. 0 \<le> fileoff s"
proof -
  obtain h where h: "for_cmds (\<lambda>_. buf) (parse_segment_cmd buf) (nat (h ! 4)) 32 [] = Inr segs"
    using assms by (auto simp: parse_segments_def bindR_Inr_iff)
  have nonneg: "0 \<le> split_fields ws bs ! i" if "i < length ws" for ws bs i
    using that by (induction ws arbitrary: bs i) (auto simp: nth_Cons split: nat.splits)
  show ?thesis
    by (rule for_cmds_invariant [OF h, of "\<lambda>segs. \<forall>s \<in> set segs. 0 \<le> fileoff s"])
       (auto simp: parse_segment_cmd_def bindR_Inr_iff u64x4_def unpack_us_def nonneg split: if_splits)
qed

lemma addr2off_mem: "addr2off segs a = Inr off \<Longrightarrow> \<exists>s \<in> set segs. vmaddr s \<le> a \<and> off = fileoff s + (a - vmaddr s)"
  by (induction segs) (auto split: if_splits)

lemma build_local_str_va_stand:
  assumes "build_local_str_va order buf am ms = Inr smap" "parse_segments buf = Inr (segs, n, area)"
  shows "all_stand buf segs smap"
proof -
  obtain ncmds smap0 targets where s0: "for_cmds (\<lambda>_. buf) (literal_cmd buf) (nat ncmds) 32 [] = Inr smap0"
    and s: "smap = fold (\<lambda>t smap. case am t of None \<Rightarrow> smap | Some a \<Rightarrow> local_string buf segs a smap) (order targets) smap0"
    using assms by (auto simp: build_local_str_va_def bindR_Inr_iff)
  have "all_stand buf segs smap0"
    by (rule for_cmds_invariant [OF s0, of "all_stand buf segs"])
       (auto simp: all_stand_def [of _ _ "[]"] literal_cmd_def bindR_Inr_iff
          intro: literal_section_stand foldR_invariant [where I = "all_stand buf segs"] split: if_splits)
  moreover have "all_stand buf segs (fold (\<lambda>t smap. case am t of None \<Rightarrow> smap | Some a \<Rightarrow> local_string buf segs a smap) ts m)"
    if "all_stand buf segs m" for ts m
    using that
  proof (induction ts arbitrary: m)
    case (Cons t ts)
    have "all_stand buf segs (case am t of None \<Rightarrow> m | Some a \<Rightarrow> local_string buf segs a m)"
      using local_string_stand [OF Cons.prems subset_refl parsed_fileoff [OF assms(2)]] Cons.prems by (simp split: option.split)
    then show ?case using Cons.IH by simp
  qed simp
  ultimately show ?thesis unfolding s by blast
qed


definition localize_example :: bytes where
  "localize_example = le_words 4 [MH_MAGIC_64, 0, 0, 0, 1, 72, 0, 0]
     @ le_words 4 [0x19, 72] @ zeros 16 @ le_words 8 [0x1000, 0x1000, 0, 120] @ zeros 16
     @ le_words 8 [0x1070] @ ascii ''ab'' @ zeros 6"

lemma localize_example_run:
  "localize_strings (\<lambda>_. []) (\<lambda>_. Some (ascii ''ab'' @ [0])) Some
     [\<lparr>seg_name = [], vmaddr = 0x1000, vmsize = 0x1000, fileoff = 0, filesize = 120, lc_off = 32\<rparr>] []
     [(0x1068, 0x9000, False, 0, 0, 0)] [0x9000] localize_example [] = Inr [(0x9000, 0x1070)]"
  "parse_segments localize_example
     = Inr ([\<lparr>seg_name = [], vmaddr = 0x1000, vmsize = 0x1000, fileoff = 0, filesize = 120, lc_off = 32\<rparr>], 1, 72)"
  by code_simp+


end
