(* ===== verification/Slide_Info.thy ===== *)
theory Slide_Info
  imports Bind_Plan Adrp_Flow
begin

text \<open>
  Where the fixups come from: the page walks of slide-info versions 3 and 5 in \<^verbatim>\<open>main\<close> of \<^verbatim>\<open>uncache.py\<close>
  and the one of \<^verbatim>\<open>fixup_enum.py\<close>; the collection of references to the cache's shared GOT
  (\<^verbatim>\<open>collect_got_refs\<close>); and the output of the batch symbol lookup. Reading and decoding a pointer of the
  cache (DyldExtractor) and disassembling (capstone) are parameters. The version-3 walk follows the
  chain with no bound of its own, so it is a partial function; it returns when reading past the end fails.
\<close>

record slide_pointer =
  sl_next :: int
  sl_value :: int
  sl_authenticated :: bool
  sl_offset :: int
  sl_key :: int
  sl_div :: int
  sl_addrdiv :: int

record mapping_info =
  mi_address :: int
  mi_offset :: int
  mi_auth_add :: int
  mi_page_size :: int

definition plain_target :: "int \<Rightarrow> int" where
  "plain_target v = push_bit 13 (v AND 0x0007F80000000000) OR (v AND 0x000007FFFFFFFFFF)"

definition v3_fixup :: "mapping_info \<Rightarrow> int \<Rightarrow> slide_pointer \<Rightarrow> cache_fixup" where
  "v3_fixup mi a li =
     (if sl_authenticated li then (a, sl_offset li + mi_auth_add mi, True, sl_key li, sl_div li, sl_addrdiv li)
      else (a, plain_target (sl_value li), False, 0, 0, 0))"

partial_function (option) v3_page ::
    "(int \<Rightarrow> slide_pointer res) \<Rightarrow> (int \<Rightarrow> bool) \<Rightarrow> mapping_info \<Rightarrow> int \<Rightarrow> int \<Rightarrow> cache_fixup list \<Rightarrow> cache_fixup list res option" where
  "v3_page rd inside mi loc delta fx =
     (let loc = loc + delta in
      case rd loc of Inl e \<Rightarrow> Some (Inl e)
      | Inr li \<Rightarrow>
          (let delta = sl_next li * 8; a = mi_address mi + (loc - mi_offset mi);
               fx = (if inside a then fx @ [v3_fixup mi a li] else fx)
           in if delta = 0 then Some (Inr fx) else v3_page rd inside mi loc delta fx))"

text \<open>The walk of \<^verbatim>\<open>fixup_enum.py\<close>, which keeps no address diversity and skips neighbours early.\<close>

type_synonym enum_rec = "int \<times> int \<times> bool \<times> int \<times> int"

partial_function (option) enum_page ::
    "(int \<Rightarrow> slide_pointer res) \<Rightarrow> (int \<Rightarrow> bool) \<Rightarrow> mapping_info \<Rightarrow> int \<Rightarrow> int \<Rightarrow> enum_rec list \<Rightarrow> enum_rec list res option" where
  "enum_page rd inside mi loc delta recs =
     (let loc = loc + delta in
      case rd loc of Inl e \<Rightarrow> Some (Inl e)
      | Inr li \<Rightarrow>
          (let delta = sl_next li * 8; addr = mi_address mi + (loc - mi_offset mi) in
           if \<not> inside addr then (if delta = 0 then Some (Inr recs) else enum_page rd inside mi loc delta recs)
           else let recs = recs @ [if sl_authenticated li then (addr, sl_offset li + mi_auth_add mi, True, sl_key li, sl_div li)
                                   else (addr, plain_target (sl_value li), False, 0, 0)]
                in if delta = 0 then Some (Inr recs) else enum_page rd inside mi loc delta recs))"

text \<open>The tallies \<^verbatim>\<open>fixup_enum.py\<close> prints: signed, in the image, outside.\<close>

definition enum_tally :: "(int \<Rightarrow> bool) \<Rightarrow> enum_rec list \<Rightarrow> nat \<times> enum_rec list \<times> enum_rec list" where
  "enum_tally inside recs =
     (length (filter (\<lambda>(_, _, auth, _). auth) recs), filter (\<lambda>(_, t, _). inside t) recs, filter (\<lambda>(_, t, _). \<not> inside t) recs)"

text \<open>Version 5 checks every step against the page; \<open>decode\<close> gives the fixup's fields and the next distance.\<close>

function v5_page ::
    "(int \<Rightarrow> int res) \<Rightarrow> (int \<Rightarrow> (int \<times> bool \<times> int \<times> int \<times> int) \<times> nat) \<Rightarrow> (int \<Rightarrow> bool) \<Rightarrow> mapping_info
     \<Rightarrow> int \<Rightarrow> int \<Rightarrow> cache_fixup list \<Rightarrow> cache_fixup list res" where
  "v5_page rd decode inside mi page loc fx =
     (if mi_page_size mi + page < loc + 8 \<or> (loc - page) mod 8 \<noteq> 0 then Inl Value_Error
      else case rd loc of Inl e \<Rightarrow> Inl e
      | Inr raw \<Rightarrow>
          (case decode raw of ((t, auth, key, div', ad), delta) \<Rightarrow>
           let a = mi_address mi + loc - mi_offset mi;
               fx = (if inside a then fx @ [(a, t, auth, key, div', ad)] else fx)
           in if delta = 0 then Inr fx else v5_page rd decode inside mi page (loc + int delta) fx))"
  by pat_completeness auto
termination
  by (relation "measure (\<lambda>(rd, decode, inside, mi, page, loc, fx). nat (mi_page_size mi + page - loc))") auto

declare v5_page.simps [simp del]

text \<open>A mapping of another version is refused when it overlaps the image.\<close>

definition mapping_overlaps :: "(int \<times> int) list \<Rightarrow> int \<Rightarrow> int \<Rightarrow> bool" where
  "mapping_overlaps segs address sz = list_ex (\<lambda>(lo, hi). lo < address + sz \<and> address < hi) segs"

subsection \<open>References to the shared GOT\<close>

type_synonym got_regs = "(int \<times> int \<times> bool) list"

text \<open>One instruction: an ADRP starts a page, the first consumer of it gives the target.\<close>

definition got_insn ::
    "(int \<Rightarrow> bool) \<Rightarrow> insn \<Rightarrow> got_regs \<times> (int \<times> bool) list \<Rightarrow> got_regs \<times> (int \<times> bool) list" where
  "got_insn inside i = (\<lambda>(regs, targets).
     case (mnemonic i = ''adrp'', operands i) of
       (True, [OReg r, OImm page]) \<Rightarrow> (AList.update r (page, False) regs, targets)
     | _ \<Rightarrow>
         (case consumer_operand i of None \<Rightarrow> (regs, targets)
          | Some (base, disp) \<Rightarrow>
              (case map_of regs base of
                 Some (page, False) \<Rightarrow>
                   (AList.update base (page, True) regs,
                    if inside (page + disp) then targets
                    else AList.update (page + disp) (mnemonic i = ''add'') targets)
               | _ \<Rightarrow> (regs, targets))))"

text \<open>The sweep over one section: words that do not decode are skipped, four bytes at a time.\<close>

function got_sweep ::
    "(int \<Rightarrow> insn option) \<Rightarrow> (int \<Rightarrow> bool) \<Rightarrow> int \<Rightarrow> int \<Rightarrow> int \<Rightarrow> got_regs \<times> (int \<times> bool) list \<Rightarrow> got_regs \<times> (int \<times> bool) list" where
  "got_sweep disasm inside sa ssz pos st =
     (if ssz \<le> pos then st
      else got_sweep disasm inside sa ssz (pos + 4)
             (case (if pos + 4 \<le> ssz then disasm (sa + pos) else None) of None \<Rightarrow> st | Some i \<Rightarrow> got_insn inside i st))"
  by pat_completeness auto
termination
  by (relation "measure (\<lambda>(disasm, inside, sa, ssz, pos, st). nat (ssz - pos))") auto

declare got_sweep.simps [simp del]

definition got_section ::
    "(int \<Rightarrow> insn option) \<Rightarrow> (int \<Rightarrow> bool) \<Rightarrow> bytes \<Rightarrow> int \<Rightarrow> (int \<times> bool) list \<Rightarrow> (int \<times> bool) list res" where
  "got_section disasm inside buf so targets =
     (if cstr16 buf so \<notin> {ascii ''__text'', ascii ''__objc_stubs''} then Inr targets
      else bindR (u64x2 buf (so + 32)) (\<lambda>(sa, ssz).
           bindR (u32 buf (so + 48)) (\<lambda>_.
           Inr (snd (got_sweep disasm inside sa ssz 0 ([], targets))))))"

definition got_name :: "bytes option \<Rightarrow> bytes option" where
  "got_name nm = (case nm of None \<Rightarrow> None
     | Some n \<Rightarrow> let n = (if prefix (ascii ''_ptr.'') n then drop 5 n else n) in if n = [] then None else Some n)"

definition collect_got_refs ::
    "(int list \<Rightarrow> int \<Rightarrow> bytes option) \<Rightarrow> (int \<Rightarrow> insn option) \<Rightarrow> bytes \<Rightarrow> (int \<times> bytes \<times> bool) list res" where
  "collect_got_refs a2s disasm buf =
     bindR (parse_segments buf) (\<lambda>(osegs, _, _).
     case find (\<lambda>s. seg_name s = ascii ''__TEXT'') osegs of None \<Rightarrow> Inl Stop_Iteration
     | Some t \<Rightarrow>
         bindR (u32 buf (lc_off t + 64)) (\<lambda>ns.
         bindR (foldR (got_section disasm (in_segments osegs) buf) (sect_offs (lc_off t) ns) []) (\<lambda>targets.
         Inr (if targets = [] then []
              else let sm = a2s (map fst targets)
                   in List.map_filter (\<lambda>(a, is_auth). map_option (\<lambda>n. (a, n, is_auth)) (got_name (sm a))) targets))))"

subsection \<open>The symbol lookup's output\<close>

text \<open>One line of the tool's output, split at tabs: an address in hexadecimal, a name, perhaps an image.
  \<open>read_hex\<close> is \<^verbatim>\<open>int(p, 16)\<close>.\<close>

definition hex_digit :: "char \<Rightarrow> int option" where
  "hex_digit c =
     (let k = int (of_char c :: nat) in
      if 48 \<le> k \<and> k \<le> 57 then Some (k - 48)
      else if 97 \<le> k \<and> k \<le> 102 then Some (k - 87)
      else if 65 \<le> k \<and> k \<le> 70 then Some (k - 55) else None)"

fun hex_value :: "int \<Rightarrow> string \<Rightarrow> int option" where
  "hex_value n [] = Some n"
| "hex_value n (c # cs) = (case hex_digit c of None \<Rightarrow> None | Some d \<Rightarrow> hex_value (16 * n + d) cs)"

definition a2s_line :: "string list \<Rightarrow> (int \<times> string option \<times> string option) list \<Rightarrow> (int \<times> string option \<times> string option) list res" where
  "a2s_line p m =
     (case p of a # nm # rest \<Rightarrow>
        if prefix ''0x'' a then
          (case (if drop 2 a = [] then None else hex_value 0 (drop 2 a)) of
             None \<Rightarrow> Inl Value_Error
           | Some v \<Rightarrow> Inr (AList.update v (if nm = [] then None else Some nm, case rest of [] \<Rightarrow> None | im # _ \<Rightarrow> Some im) m))
        else Inr m
      | _ \<Rightarrow> Inr m)"

definition a2s_parse :: "string list list \<Rightarrow> (int \<times> string option \<times> string option) list res" where
  "a2s_parse ls = foldR a2s_line ls []"

subsection \<open>The two walks of version 3\<close>

definition enum_of :: "cache_fixup \<Rightarrow> enum_rec" where
  "enum_of = (\<lambda>(a, t, auth, key, div', ad). (a, t, auth, key, div'))"

lemma enum_of_v3: "enum_of (v3_fixup mi a li) =
    (if sl_authenticated li then (a, sl_offset li + mi_auth_add mi, True, sl_key li, sl_div li)
     else (a, plain_target (sl_value li), False, 0, 0))"
  by (simp add: enum_of_def v3_fixup_def)

text \<open>C23: When reads past the cache file fail and next fields are not negative, the version-3 page walk returns,
  and \<^verbatim>\<open>fixup_enum.py\<close> sees the same fixups in the same order, or fails with the same error: its early
  skip of neighbouring images' pointers changes nothing.\<close>

theorem page_walks_agree:
  assumes finite: "\<And>loc. n \<le> loc \<Longrightarrow> \<not> is_ok (rd loc)" and next0: "\<And>loc li. rd loc = Inr li \<Longrightarrow> 0 \<le> sl_next li"
  shows "\<exists>r. v3_page rd inside mi loc delta fx = Some r
    \<and> enum_page rd inside mi loc delta (map enum_of fx) = Some (map_sum id (map enum_of) r)"
proof (induction "nat (n - (loc + delta))" arbitrary: loc delta fx rule: less_induct)
  case less
  show ?case
  proof (cases "rd (loc + delta)")
    case (Inl e)
    then show ?thesis by (subst v3_page.simps, subst enum_page.simps) (simp add: Let_def)
  next
    case (Inr li)
    let ?d = "sl_next li * 8" and ?a = "mi_address mi + (loc + delta - mi_offset mi)"
    let ?fx = "if inside ?a then fx @ [v3_fixup mi ?a li] else fx"
    have lt: "loc + delta < n" using finite [of "loc + delta"] Inr by (cases "n \<le> loc + delta") auto
    have z: "0 \<le> ?d" using next0 [OF Inr] by simp
    show ?thesis
    proof (cases "?d = 0")
      case True
      then show ?thesis by (subst v3_page.simps, subst enum_page.simps) (simp add: Inr Let_def enum_of_v3)
    next
      case False
      have "nat (n - (loc + delta + ?d)) < nat (n - (loc + delta))" using lt z False by linarith
      from less [OF this, of ?fx] obtain r where r: "v3_page rd inside mi (loc + delta) ?d ?fx = Some r"
        "enum_page rd inside mi (loc + delta) ?d (map enum_of ?fx) = Some (map_sum id (map enum_of) r)" by blast
      have "v3_page rd inside mi loc delta fx = Some r"
        using r(1) False by (subst v3_page.simps) (simp add: Inr Let_def)
      moreover have "enum_page rd inside mi loc delta (map enum_of fx) = Some (map_sum id (map enum_of) r)"
        using r(2) False by (subst enum_page.simps) (cases "inside ?a"; simp add: Inr Let_def enum_of_v3)
      ultimately show ?thesis by blast
    qed
  qed
qed

definition walk_example :: "int \<Rightarrow> slide_pointer res" where
  "walk_example loc =
     (if loc = 0x10 then Inr \<lparr>sl_next = 1, sl_value = 0x5000, sl_authenticated = False, sl_offset = 0, sl_key = 0, sl_div = 0, sl_addrdiv = 0\<rparr>
      else if loc = 0x18 then Inr \<lparr>sl_next = 0, sl_value = 0, sl_authenticated = True, sl_offset = 0x20, sl_key = 2, sl_div = 7, sl_addrdiv = 1\<rparr>
      else Inl Os_Error)"

lemma page_walks_agree_witness:
  "\<exists>r. v3_page walk_example (\<lambda>a. True) \<lparr>mi_address = 0x1000, mi_offset = 0, mi_auth_add = 0x100, mi_page_size = 0x4000\<rparr> 0 0x10 [] = Some r
     \<and> enum_page walk_example (\<lambda>a. True) \<lparr>mi_address = 0x1000, mi_offset = 0, mi_auth_add = 0x100, mi_page_size = 0x4000\<rparr> 0 0x10 []
        = Some (map_sum id (map enum_of) r)"
proof -
  have f: "\<not> is_ok (walk_example loc)" if "0x19 \<le> loc" for loc using that by (simp add: walk_example_def)
  have s: "0 \<le> sl_next li" if "walk_example loc = Inr li" for loc li using that by (auto simp: walk_example_def split: if_splits)
  show ?thesis using page_walks_agree [where fx = "[]", OF f s] by simp
qed

end
