(* ===== verification/Code_Directory.thy ===== *)
theory Code_Directory
  imports MachO
begin

text \<open>
  \<^verbatim>\<open>scripts/development/verify-macho-code-directory.py\<close>: the embedded signature of a thin Mach-O file is
  taken apart and every signed page and special slot is hashed and compared. The three hash functions of
  \<^verbatim>\<open>hashlib\<close> are parameters; a \<^verbatim>\<open>cdhash\<close> is given as its first twenty bytes, not in hexadecimal.
\<close>

subsection \<open>Big-endian fields\<close>

definition be_int :: "bytes \<Rightarrow> int" where
  "be_int bs = le_int (rev bs)"

definition unpack_be :: "nat \<Rightarrow> bytes \<Rightarrow> int \<Rightarrow> int res" where
  "unpack_be w b off = bindR (at_off b w off) (\<lambda>i. Inr (be_int (take w (drop i b))))"

text \<open>\<^verbatim>\<open>integer\<close>, which refuses what \<^verbatim>\<open>struct\<close> would resolve from the end.\<close>

definition sig_integer :: "bytes \<Rightarrow> int \<Rightarrow> int res" where
  "sig_integer v p =
     bindR (guardR (\<not> (p < 0 \<or> int (length v) < p + 4)) Value_Error) (\<lambda>_. unpack_be 4 v p)"

subsection \<open>Locating the signature\<close>

fun signature_commands :: "bytes \<Rightarrow> int \<Rightarrow> nat \<Rightarrow> int \<Rightarrow> (int \<times> int) list \<Rightarrow> (int \<times> (int \<times> int) list) res" where
  "signature_commands data stop 0 off sigs = Inr (off, sigs)"
| "signature_commands data stop (Suc n) off sigs =
     bindR (guardR (off + 8 \<le> stop) Value_Error) (\<lambda>_.
     bindR (u32x2 data off) (\<lambda>(command, len).
     bindR (guardR (8 \<le> len \<and> off + len \<le> stop) Value_Error) (\<lambda>_.
     bindR (if command = 0x1D then
              bindR (guardR (16 \<le> len) Value_Error) (\<lambda>_.
              bindR (u32x2 data (off + 8)) (\<lambda>s. Inr (sigs @ [s])))
            else Inr sigs) (signature_commands data stop n (off + len)))))"

definition find_signature :: "bytes \<Rightarrow> (int \<times> bytes) res" where
  "find_signature data =
     bindR (guardR (32 \<le> length data \<and> py_slice data 0 4 = [0xCF, 0xFA, 0xED, 0xFE]) Value_Error) (\<lambda>_.
     bindR (u32x2 data 16) (\<lambda>(commands, sz).
     let stop = 32 + sz in
     bindR (guardR (\<not> (int (length data) < stop \<or> sz div 8 < commands)) Value_Error) (\<lambda>_.
     bindR (signature_commands data stop (nat commands) 32 []) (\<lambda>(off, sigs).
     bindR (guardR (off = stop \<and> length sigs = 1) Value_Error) (\<lambda>_.
     bindR (py_index sigs 0) (\<lambda>(sig_offset, sig_size).
     bindR (guardR (\<not> (sig_offset < stop \<or> int (length data) < sig_offset + sig_size \<or> sig_size < 12)) Value_Error) (\<lambda>_.
     Inr (sig_offset, py_slice data sig_offset (sig_offset + sig_size)))))))))"

subsection \<open>The blobs of the signature\<close>

type_synonym sig_blobs = "(int \<times> bytes) list"

definition sig_blob ::
    "bytes \<Rightarrow> int \<Rightarrow> int \<Rightarrow> nat \<Rightarrow> sig_blobs \<times> (int \<times> int) list \<Rightarrow> (sig_blobs \<times> (int \<times> int) list) res" where
  "sig_blob signature len cnt index = (\<lambda>(blobs, ranges).
     bindR (unpack_be 4 signature (12 + 8 * int index)) (\<lambda>kind.
     bindR (unpack_be 4 signature (16 + 8 * int index)) (\<lambda>start.
     bindR (guardR (\<not> (start < 12 + 8 * cnt \<or> len < start + 8)) Value_Error) (\<lambda>_.
     bindR (sig_integer signature (start + 4)) (\<lambda>blob_size.
     bindR (guardR (\<not> (blob_size < 8 \<or> len < start + blob_size \<or> kind \<in> fst ` set blobs)) Value_Error) (\<lambda>_.
     bindR (guardR (\<not> list_ex (\<lambda>(begin', stop). start < stop \<and> begin' < start + blob_size) ranges) Value_Error) (\<lambda>_.
     Inr (blobs @ [(kind, py_slice signature start (start + blob_size))], ranges @ [(start, start + blob_size)]))))))))"

definition signature_blobs :: "bytes \<Rightarrow> sig_blobs res" where
  "signature_blobs signature =
     bindR (sig_integer signature 0) (\<lambda>magic.
     bindR (guardR (magic = 0xFADE0CC0) Value_Error) (\<lambda>_.
     bindR (sig_integer signature 4) (\<lambda>len.
     bindR (sig_integer signature 8) (\<lambda>cnt.
     bindR (guardR (\<not> (int (length signature) < len \<or> (len - 12) div 8 < cnt)) Value_Error) (\<lambda>_.
     bindR (foldR (sig_blob signature len cnt) [0..<nat cnt] ([], [])) (\<lambda>(blobs, _). Inr blobs))))))"

subsection \<open>One code directory\<close>

record hashes =
  h_sha1 :: "bytes \<Rightarrow> bytes"
  h_sha256 :: "bytes \<Rightarrow> bytes"
  h_sha384 :: "bytes \<Rightarrow> bytes"

definition hash_function :: "hashes \<Rightarrow> int \<Rightarrow> bytes \<Rightarrow> bytes" where
  "hash_function h t = (if t = 1 then h_sha1 h else if t \<in> {2, 3} then h_sha256 h else h_sha384 h)"

definition digest_size :: "int \<Rightarrow> int option" where
  "digest_size t = (if t \<in> {1, 3} then Some 20 else if t = 2 then Some 32 else if t = 4 then Some 48 else None)"

record directory =
  cd_version :: int
  cd_flags :: int
  cd_hash_offset :: int
  cd_identifier_offset :: int
  cd_special :: int
  cd_pages :: int
  cd_limit :: int
  cd_hash_size :: int
  cd_hash_type :: int
  cd_page_power :: int

definition read_directory :: "bytes \<Rightarrow> directory res" where
  "read_directory cd =
     bindR (guardR (44 \<le> length cd) Value_Error) (\<lambda>_.
     bindR (mapR (\<lambda>k. unpack_be 4 cd (8 + 4 * int k)) [0..<7]) (\<lambda>f.
     bindR (mapR (\<lambda>k. u8 cd (36 + int k)) [0..<4]) (\<lambda>g.
     let version = f ! 0; limit = f ! 6 in
     bindR (if version \<ge> 0x20300 \<and> limit = 0xFFFFFFFF then
              bindR (guardR (64 \<le> length cd) Value_Error) (\<lambda>_. unpack_be 8 cd 56)
            else Inr limit) (\<lambda>limit.
     Inr \<lparr>cd_version = version, cd_flags = f ! 1, cd_hash_offset = f ! 2, cd_identifier_offset = f ! 3,
          cd_special = f ! 4, cd_pages = f ! 5, cd_limit = limit, cd_hash_size = g ! 0, cd_hash_type = g ! 1,
          cd_page_power = g ! 3\<rparr>))))"

definition bounds_ok :: "bytes \<Rightarrow> directory \<Rightarrow> bool" where
  "bounds_ok cd d =
     (let stop = cd_hash_offset d - cd_special d * cd_hash_size d in
      digest_size (cd_hash_type d) = Some (cd_hash_size d)
      \<and> cd_page_power d \<le> 30 \<and> 44 + cd_special d * cd_hash_size d \<le> cd_hash_offset d
      \<and> cd_hash_offset d + cd_pages d * cd_hash_size d \<le> int (length cd)
      \<and> 44 \<le> cd_identifier_offset d \<and> cd_identifier_offset d < stop
      \<and> 0 \<in> set (py_slice cd (cd_identifier_offset d) stop))"

definition page_bytes :: "directory \<Rightarrow> int" where
  "page_bytes d = (if cd_page_power d \<noteq> 0 then push_bit (nat (cd_page_power d)) 1 else cd_limit d)"

definition digest_of :: "hashes \<Rightarrow> directory \<Rightarrow> bytes \<Rightarrow> bytes" where
  "digest_of h d v = py_slice (hash_function h (cd_hash_type d) v) 0 (cd_hash_size d)"

definition code_page :: "bytes \<Rightarrow> directory \<Rightarrow> int \<Rightarrow> bytes" where
  "code_page data d i = py_slice data (i * page_bytes d) (min ((i + 1) * page_bytes d) (cd_limit d))"

definition page_matches :: "hashes \<Rightarrow> bytes \<Rightarrow> bytes \<Rightarrow> directory \<Rightarrow> nat \<Rightarrow> bool" where
  "page_matches h data cd d index =
     (let hs = cd_hash_size d; i = int index in
      digest_of h d (code_page data d i)
        = py_slice cd (cd_hash_offset d + i * hs) (cd_hash_offset d + (i + 1) * hs))"

definition slot_matches :: "hashes \<Rightarrow> sig_blobs \<Rightarrow> bytes \<Rightarrow> directory \<Rightarrow> int \<Rightarrow> bool" where
  "slot_matches h blobs cd d slot =
     (if cd_special d < slot then True
      else let claimed = py_slice cd (cd_hash_offset d - slot * cd_hash_size d) (cd_hash_offset d - (slot - 1) * cd_hash_size d)
           in case map_of blobs slot of
                Some b \<Rightarrow> digest_of h d b = claimed
              | None \<Rightarrow> list_all (\<lambda>b. b = 0) claimed)"

record code_record =
  cr_cdhash :: bytes
  cr_directory :: directory
  cr_page_size :: int

definition expected_pages :: "directory \<Rightarrow> int" where
  "expected_pages d = (let ps = page_bytes d in if ps \<noteq> 0 then (cd_limit d + ps - 1) div ps else 0)"

definition check_directory ::
    "hashes \<Rightarrow> bytes \<Rightarrow> int \<Rightarrow> sig_blobs \<Rightarrow> bytes \<Rightarrow> code_record list \<Rightarrow> code_record list res" where
  "check_directory h data sig_offset blobs cd records =
     bindR (sig_integer cd 0) (\<lambda>magic.
     if magic \<noteq> 0xFADE0C02 then Inr records
     else bindR (read_directory cd) (\<lambda>d.
       bindR (guardR (bounds_ok cd d) Value_Error) (\<lambda>_.
       bindR (guardR (\<not> (cd_limit d = 0 \<or> sig_offset < cd_limit d \<or> cd_pages d \<noteq> expected_pages d)) Value_Error) (\<lambda>_.
       bindR (guardR (list_all (page_matches h data cd d) [0..<nat (cd_pages d)]) Value_Error) (\<lambda>_.
       bindR (guardR (list_all (slot_matches h blobs cd d) [2, 5, 7]) Value_Error) (\<lambda>_.
       Inr (records @ [\<lparr>cr_cdhash = take 20 (hash_function h (cd_hash_type d) cd), cr_directory = d,
                         cr_page_size = page_bytes d\<rparr>])))))))"

definition check_code :: "hashes \<Rightarrow> bytes \<Rightarrow> code_record list res" where
  "check_code h data =
     bindR (find_signature data) (\<lambda>(sig_offset, signature).
     bindR (signature_blobs signature) (\<lambda>blobs.
     bindR (foldR (\<lambda>(kind, cd). check_directory h data sig_offset blobs cd) blobs []) (\<lambda>records.
     if records = [] then Inl Value_Error else Inr records)))"

subsection \<open>Every signed byte is covered\<close>

lemma u32x2_read: "u32x2 b off = Inr (x, y) \<Longrightarrow> 0 \<le> y"
  using u32x2_bounds by blast

lemma find_signature_bounds:
  assumes "find_signature data = Inr (so, sg)"
  shows "so \<le> int (length data)"
  using assms by (fastforce simp: find_signature_def bindR_Inr_iff Let_def split: prod.splits)

lemma check_directory_cases:
  assumes "check_directory h data so blobs cd rs = Inr rs'"
  obtains (skipped) "rs' = rs" "\<And>data'. check_directory h data' so blobs cd rs = Inr rs"
  | (read) d where "rs' = rs @ [\<lparr>cr_cdhash = take 20 (hash_function h (cd_hash_type d) cd),
                                 cr_directory = d, cr_page_size = page_bytes d\<rparr>]"
      "cd_limit d \<noteq> 0" "cd_limit d \<le> so" "cd_pages d = expected_pages d" "read_directory cd = Inr d"
      "list_all (page_matches h data cd d) [0..<nat (cd_pages d)]"
      "\<And>data'. check_directory h data' so blobs cd rs =
         (if list_all (page_matches h data' cd d) [0..<nat (cd_pages d)] then Inr rs' else Inl Value_Error)"
proof -
  from assms obtain m where m: "sig_integer cd 0 = Inr m"
    by (auto simp: check_directory_def bindR_Inr_iff)
  show thesis
  proof (cases "m = 0xFADE0C02")
    case False
    then show thesis using assms m skipped by (simp add: check_directory_def)
  next
    case True
    from assms m True obtain d where d: "read_directory cd = Inr d" "bounds_ok cd d"
        "cd_limit d \<noteq> 0" "cd_limit d \<le> so" "cd_pages d = expected_pages d"
        "list_all (page_matches h data cd d) [0..<nat (cd_pages d)]"
        "list_all (slot_matches h blobs cd d) [2, 5, 7]"
      and rs': "rs' = rs @ [\<lparr>cr_cdhash = take 20 (hash_function h (cd_hash_type d) cd),
                                 cr_directory = d, cr_page_size = page_bytes d\<rparr>]"
      by (simp only: check_directory_def bindR_simps bindR_Inr_iff if_False simp_thms guardR_Inr_iff not_less) auto
    show thesis
      by (rule read [of d])
        (use d m True rs' in \<open>simp_all add: check_directory_def guardR_def del: upt.simps\<close>)
  qed
qed

text \<open>What a record owes to the file it was accepted for.\<close>

definition pages_stand :: "hashes \<Rightarrow> bytes \<Rightarrow> bytes \<Rightarrow> code_record \<Rightarrow> bool" where
  "pages_stand h data cd r =
     (let d = cr_directory r in
      list_all (page_matches h data cd d) [0..<nat (cd_pages d)])"

definition record_ok :: "int \<Rightarrow> code_record \<Rightarrow> bool" where
  "record_ok so r =
     (let d = cr_directory r in 0 \<noteq> cd_limit d \<and> cd_limit d \<le> so \<and> cd_pages d = expected_pages d)"

lemma check_directory_ok:
  assumes "check_directory h data so blobs cd rs = Inr rs'" "list_all (record_ok so) rs"
  shows "list_all (record_ok so) rs'"
  using assms(1)
proof (cases rule: check_directory_cases)
  case skipped
  then show ?thesis using assms(2) by simp
next
  case (read d)
  then have "record_ok so \<lparr>cr_cdhash = c, cr_directory = d, cr_page_size = p\<rparr>" for c p
    by (simp add: record_ok_def)
  then show ?thesis using assms(2) read(1) by simp
qed

lemma check_directories_pair:
  assumes "foldR (\<lambda>(kind, cd). check_directory h data so blobs cd) xs rs = Inr rs'"
    and "list_all (record_ok so) rs" "list_all (\<lambda>r. \<exists>cd. pages_stand h data cd r \<and> pages_stand h data' cd r) rs"
  shows "list_all (record_ok so) rs' \<and>
    (foldR (\<lambda>(kind, cd). check_directory h data' so blobs cd) xs rs = Inl Value_Error \<or>
     list_all (\<lambda>r. \<exists>cd. pages_stand h data cd r \<and> pages_stand h data' cd r) rs')"
  using assms
proof (induction xs arbitrary: rs)
  case (Cons x xs)
  obtain k cd where x: "x = (k, cd)" by (cases x)
  from Cons.prems(1) x obtain t where t: "check_directory h data so blobs cd rs = Inr t"
    and r: "foldR (\<lambda>(kind, cd). check_directory h data so blobs cd) xs t = Inr rs'"
    by (auto simp: bindR_Inr_iff)
  from t show ?case
  proof (cases rule: check_directory_cases)
    case skipped
    then show ?thesis using Cons.IH [OF r] Cons.prems(2,3) by (simp add: x)
  next
    case (read d)
    have ok: "list_all (record_ok so) t" using check_directory_ok [OF t] Cons.prems(2) .
    show ?thesis
    proof (cases "list_all (page_matches h data' cd d) [0..<nat (cd_pages d)]")
      case True
      have st: "pages_stand h data cd \<lparr>cr_cdhash = c, cr_directory = d, cr_page_size = p\<rparr>"
        "pages_stand h data' cd \<lparr>cr_cdhash = c, cr_directory = d, cr_page_size = p\<rparr>" for c p
        using True read(6) by (simp_all add: pages_stand_def)
      have "list_all (\<lambda>r. \<exists>cd. pages_stand h data cd r \<and> pages_stand h data' cd r) t"
        unfolding read(1) list_all_append using Cons.prems(3) st by (simp del: split_paired_Ex) blast
      then show ?thesis using Cons.IH [OF r ok] True by (simp add: x read(7))
    next
      case False
      moreover have "list_all (record_ok so) rs'"
        by (rule foldR_invariant [where I = "list_all (record_ok so)", OF r ok])
          (auto split: prod.splits intro: check_directory_ok)
      ultimately show ?thesis by (simp add: x read(7))
    qed
  qed
qed simp

lemma page_index:
  assumes "0 < cd_limit d" "0 \<le> p" "p < cd_limit d"
  shows "0 < page_bytes d \<and> p div page_bytes d < expected_pages d"
proof -
  have ps: "0 < page_bytes d" using assms(1) by (auto simp: page_bytes_def)
  have "p div page_bytes d < (cd_limit d + page_bytes d - 1) div page_bytes d"
  proof -
    have "(p + page_bytes d) div page_bytes d \<le> (cd_limit d + page_bytes d - 1) div page_bytes d"
      by (rule zdiv_mono1) (use assms ps in auto)
    moreover have "(p + page_bytes d) div page_bytes d = p div page_bytes d + 1"
      by (rule div_add_self2) (use ps in simp)
    ultimately show ?thesis by linarith
  qed
  then show ?thesis using ps by (simp add: expected_pages_def Let_def)
qed

lemma page_covers:
  assumes "0 < cd_limit d" "cd_limit d \<le> int (length data)" "cd_limit d \<le> int (length data')"
    and "p < nat (cd_limit d)"
    and eq: "code_page data d (int p div page_bytes d) = code_page data' d (int p div page_bytes d)"
  shows "data ! p = data' ! p"
proof -
  let ?n = "page_bytes d" let ?i = "int p div ?n"
  let ?a = "?i * ?n" and ?b = "min ((?i + 1) * ?n) (cd_limit d)"
  have n: "0 < ?n" using page_index [of d "int p"] assms by simp
  have "0 \<le> ?i" using n by (simp add: pos_imp_zdiv_nonneg_iff)
  then have a0: "0 \<le> ?a" using n by simp
  have m: "?a + int p mod ?n = int p" "0 \<le> int p mod ?n" "int p mod ?n < ?n" using n by simp_all
  have a: "0 \<le> ?a" "?a \<le> int p" using a0 m by linarith+
  have "(?i + 1) * ?n = ?a + ?n" by (simp add: algebra_simps)
  then have "int p < (?i + 1) * ?n" using m by linarith
  then have b: "int p < ?b" "?b \<le> cd_limit d" using assms(4) by auto
  have at: "code_page c d ?i ! (p - nat ?a) = c ! p" if c: "cd_limit d \<le> int (length c)" for c :: bytes
  proof -
    have "code_page c d ?i = take (nat (?b - ?a)) (drop (nat ?a) c)"
      unfolding code_page_def by (rule py_slice_take_drop) (use a b c in auto)
    moreover have "p - nat ?a < nat (?b - ?a)" "nat ?a \<le> p" "nat ?a + (p - nat ?a) = p" "nat ?a \<le> length c"
      using a b c by auto
    ultimately show ?thesis by simp
  qed
  show ?thesis using at [OF assms(2)] at [OF assms(3)] eq by simp
qed

text \<open>C24: A changed byte below the code limit of an accepted file is refused with an error, when the digest of its
page tells the two contents of the page apart: with the same signature blob at the same place, the check of the
changed file raises.\<close>
theorem tampered_code_refused:
  assumes "check_code h data = Inr records"
    and "find_signature data = Inr (so, sg)" and "find_signature data' = Inr (so, sg)"
    and "r \<in> set records" and "d = cr_directory r"
    and "p < nat (cd_limit d)" and "data' ! p \<noteq> data ! p"
    and "inj_on (digest_of h d) {code_page data d (int p div page_bytes d), code_page data' d (int p div page_bytes d)}"
  shows "check_code h data' = Inl Value_Error"
proof -
  from assms(1,2) obtain blobs where blobs: "signature_blobs sg = Inr blobs"
    and f: "foldR (\<lambda>(kind, cd). check_directory h data so blobs cd) blobs [] = Inr records"
    by (auto simp: check_code_def bindR_Inr_iff split: if_splits)
  have len: "so \<le> int (length data)" "so \<le> int (length data')"
    using find_signature_bounds assms(2,3) by blast+
  note pair = check_directories_pair [where data' = data', OF f, simplified]
  have ok: "record_ok so r" using pair assms(4) by (auto simp: list_all_iff)
  then have d: "0 < cd_limit d" "cd_limit d \<le> so" "cd_pages d = expected_pages d"
    using assms(5,6) by (auto simp: record_ok_def Let_def)
  let ?i = "int p div page_bytes d"
  have i: "0 \<le> ?i" "?i < cd_pages d"
    using page_index [of d "int p"] d assms(6) by (auto simp: pos_imp_zdiv_nonneg_iff)
  have "\<not> (pages_stand h data cd r \<and> pages_stand h data' cd r)" for cd
  proof
    assume st: "pages_stand h data cd r \<and> pages_stand h data' cd r"
    have "nat ?i \<in> set [0..<nat (cd_pages d)]" using i by auto
    then have m: "page_matches h data cd d (nat ?i)" "page_matches h data' cd d (nat ?i)"
      using st assms(5) unfolding pages_stand_def Let_def list_all_iff by blast+
    then have "digest_of h d (code_page data d ?i) = digest_of h d (code_page data' d ?i)"
      using i by (simp add: page_matches_def Let_def)
    then have "code_page data d ?i = code_page data' d ?i" using assms(8) by (auto dest: inj_onD)
    then show False using page_covers [of d data data' p] d len assms(6,7) by simp
  qed
  then have "\<not> list_all (\<lambda>r. \<exists>cd. pages_stand h data cd r \<and> pages_stand h data' cd r) records"
    using assms(4) by (auto simp: list_all_iff)
  then have "foldR (\<lambda>(kind, cd). check_directory h data' so blobs cd) blobs [] = Inl Value_Error"
    using pair by blast
  then show ?thesis by (simp add: check_code_def assms(3) blobs)
qed

text \<open>A file of 52 signed bytes, one directory and one page; \<open>v\<close> is the byte at 50.\<close>

definition demo_hashes :: hashes where
  "demo_hashes = \<lparr>h_sha1 = \<lambda>v. take 20 (rev v @ replicate 20 0), h_sha256 = id, h_sha384 = id\<rparr>"

definition demo_page :: "byte \<Rightarrow> bytes" where
  "demo_page v =
     [0xCF, 0xFA, 0xED, 0xFE] @ replicate 12 0 @ le_words 4 [1, 16, 0, 0] @ le_words 4 [0x1D, 16, 52, 86] @ [0, 0, v, 0]"

definition demo_directory :: bytes where
  "demo_directory =
     concat (map (\<lambda>x. rev (le_bytes 4 x)) [0xFADE0C02, 66, 0x20100, 0, 46, 44, 0, 1, 52])
       @ [20, 1, 0, 0] @ replicate 4 0 @ [97, 0] @ take 20 (rev (demo_page 0))"

definition demo_signature :: bytes where
  "demo_signature = concat (map (\<lambda>x. rev (le_bytes 4 x)) [0xFADE0CC0, 86, 1, 0, 20]) @ demo_directory"

definition demo_signed :: "byte \<Rightarrow> bytes" where
  "demo_signed v = demo_page v @ demo_signature"

definition demo_record :: code_record where
  "demo_record = \<lparr>cr_cdhash = take 20 (rev demo_directory),
     cr_directory = \<lparr>cd_version = 0x20100, cd_flags = 0, cd_hash_offset = 46, cd_identifier_offset = 44, cd_special = 0,
       cd_pages = 1, cd_limit = 52, cd_hash_size = 20, cd_hash_type = 1, cd_page_power = 0\<rparr>, cr_page_size = 52\<rparr>"

lemma demo_signed_accepted: "check_code demo_hashes (demo_signed 0) = Inr [demo_record]"
  by code_simp

lemma demo_signed_found: "find_signature (demo_signed v) = Inr (52, demo_signature)" if "v = 0 \<or> v = 1"
  using that by (elim disjE; simp only:) code_simp+

lemma demo_signed_refused:
  "check_code demo_hashes (demo_signed 1) = Inl Value_Error \<and> is_ok (check_code demo_hashes (demo_signed 0))"
proof -
  have "inj_on (digest_of demo_hashes (cr_directory demo_record))
      {code_page (demo_signed 0) (cr_directory demo_record) (int 50 div page_bytes (cr_directory demo_record)),
       code_page (demo_signed 1) (cr_directory demo_record) (int 50 div page_bytes (cr_directory demo_record))}"
    by code_simp
  moreover have "50 < nat (cd_limit (cr_directory demo_record))" "demo_signed 1 ! 50 \<noteq> demo_signed 0 ! 50"
    by code_simp+
  ultimately show ?thesis
    using tampered_code_refused [OF demo_signed_accepted demo_signed_found demo_signed_found _ refl]
    by (simp add: demo_signed_accepted)
qed

end
