(* ===== verification/Py_Io.thy ===== *)
theory Py_Io
  imports Py_Prelude
begin

text \<open>
  Computations that change a state, may raise, and may never return: \<open>None\<close> is the run that does not end,
  and an exception keeps the state it was raised in, because the code catches some of them and goes on. Also the
  text functions of Python the probe uses: hexadecimal, the decoders with \<^verbatim>\<open>"replace"\<close>, and \<^verbatim>\<open>split\<close>.
\<close>

type_synonym ('s, 'a) io = "'s \<Rightarrow> ('a res \<times> 's) option"

named_theorems io_simps \<open>running a computation\<close>

definition retM :: "'a \<Rightarrow> ('s, 'a) io" where
  "retM x = (\<lambda>s. Some (Inr x, s))"

definition resM :: "'a res \<Rightarrow> ('s, 'a) io" where
  "resM r = (\<lambda>s. Some (r, s))"

definition raiseM :: "py_error \<Rightarrow> ('s, 'a) io" where
  "raiseM e = (\<lambda>s. Some (Inl e, s))"

definition bindM :: "('s, 'a) io \<Rightarrow> ('a \<Rightarrow> ('s, 'b) io) \<Rightarrow> ('s, 'b) io" where
  "bindM m f = (\<lambda>s. case m s of
     None \<Rightarrow> None
   | Some (Inl e, t) \<Rightarrow> Some (Inl e, t)
   | Some (Inr x, t) \<Rightarrow> f x t)"

definition guardM :: "bool \<Rightarrow> py_error \<Rightarrow> ('s, unit) io" where
  "guardM b e = (if b then retM () else raiseM e)"

definition getM :: "('s \<Rightarrow> 'a) \<Rightarrow> ('s, 'a) io" where
  "getM f = (\<lambda>s. Some (Inr (f s), s))"

definition putM :: "('s \<Rightarrow> 's) \<Rightarrow> ('s, unit) io" where
  "putM f = (\<lambda>s. Some (Inr (), f s))"

text \<open>\<^verbatim>\<open>try: m except E: h\<close> and \<^verbatim>\<open>try: m finally: c\<close>.\<close>

definition catchM :: "py_error \<Rightarrow> ('s, 'a) io \<Rightarrow> ('s, 'a) io \<Rightarrow> ('s, 'a) io" where
  "catchM e m h = (\<lambda>s. case m s of
     None \<Rightarrow> None
   | Some (Inl e', t) \<Rightarrow> (if e' = e then h t else Some (Inl e', t))
   | Some (Inr x, t) \<Rightarrow> Some (Inr x, t))"

definition finallyM :: "('s, 'a) io \<Rightarrow> ('s, unit) io \<Rightarrow> ('s, 'a) io" where
  "finallyM m c = (\<lambda>s. case m s of
     None \<Rightarrow> None
   | Some (r, t) \<Rightarrow> (case c t of
       None \<Rightarrow> None
     | Some (Inl e, u) \<Rightarrow> Some (Inl e, u)
     | Some (Inr _, u) \<Rightarrow> Some (r, u)))"

text \<open>A \<^verbatim>\<open>for\<close> loop, and one that returns at its first hit.\<close>

fun foldM :: "('a \<Rightarrow> 'b \<Rightarrow> ('s, 'b) io) \<Rightarrow> 'a list \<Rightarrow> 'b \<Rightarrow> ('s, 'b) io" where
  "foldM f [] b = retM b"
| "foldM f (x # xs) b = bindM (f x b) (foldM f xs)"

fun firstM :: "('a \<Rightarrow> ('s, 'b option) io) \<Rightarrow> 'a list \<Rightarrow> ('s, 'b option) io" where
  "firstM f [] = retM None"
| "firstM f (x # xs) = bindM (f x) (\<lambda>r. case r of None \<Rightarrow> firstM f xs | Some y \<Rightarrow> retM (Some y))"

lemma io_basic [simp, io_simps]:
  "retM x s = Some (Inr x, s)" "resM r s = Some (r, s)" "raiseM e s = Some (Inl e, s)"
  "getM f s = Some (Inr (f s), s)" "putM g s = Some (Inr (), g s)"
  by (simp_all add: retM_def resM_def raiseM_def getM_def putM_def)

lemma bindM_simps [simp, io_simps]:
  "m s = Some (Inr x, t) \<Longrightarrow> bindM m f s = f x t"
  "m s = Some (Inl e, t) \<Longrightarrow> bindM m f s = Some (Inl e, t)"
  "m s = None \<Longrightarrow> bindM m f s = None"
  by (simp_all add: bindM_def)

lemma guardM_simps [simp, io_simps]: "guardM True e = retM ()" "guardM False e = raiseM e"
  by (simp_all add: guardM_def)

lemma bindM_Inr_iff:
  "bindM m f s = Some (Inr y, u) \<longleftrightarrow> (\<exists>x t. m s = Some (Inr x, t) \<and> f x t = Some (Inr y, u))"
  by (auto simp: bindM_def split: option.splits prod.splits sum.splits)

lemma guardM_Inr_iff [simp]: "guardM b e s = Some (Inr x, t) \<longleftrightarrow> b \<and> t = s"
  by (auto simp: guardM_def)

lemma catchM_simps [simp, io_simps]:
  "m s = Some (Inr x, t) \<Longrightarrow> catchM e m h s = Some (Inr x, t)"
  "m s = Some (Inl e, t) \<Longrightarrow> catchM e m h s = h t"
  "m s = Some (Inl e', t) \<Longrightarrow> e' \<noteq> e \<Longrightarrow> catchM e m h s = Some (Inl e', t)"
  by (simp_all add: catchM_def)

subsection \<open>Hexadecimal\<close>

definition hex_char :: "int \<Rightarrow> byte" where
  "hex_char d = word_of_int (if d < 10 then 48 + d else 87 + d)"

text \<open>\<^verbatim>\<open>f"{n:x}"\<close>.\<close>

function hex_digits :: "int \<Rightarrow> bytes" where
  "hex_digits n = (if n < 16 then [hex_char n] else hex_digits (n div 16) @ [hex_char (n mod 16)])"
  by pat_completeness auto
termination by (relation "measure nat") (auto simp: nat_less_eq_zless)

declare hex_digits.simps [simp del]

definition hex_of :: "int \<Rightarrow> bytes" where
  "hex_of n = (if n < 0 then ascii ''-'' @ hex_digits (- n) else hex_digits n)"

text \<open>\<^verbatim>\<open>f"{b:02x}"\<close> of a byte, and \<^verbatim>\<open>value.hex()\<close>.\<close>

definition hex2 :: "int \<Rightarrow> bytes" where
  "hex2 n = [hex_char (n div 16), hex_char (n mod 16)]"

definition hex_bytes :: "bytes \<Rightarrow> bytes" where
  "hex_bytes bs = concat (map (\<lambda>b. hex2 (uint b)) bs)"

definition nibble :: "byte \<Rightarrow> int option" where
  "nibble b =
     (let k = uint b in
      if 48 \<le> k \<and> k \<le> 57 then Some (k - 48)
      else if 97 \<le> k \<and> k \<le> 102 then Some (k - 87)
      else if 65 \<le> k \<and> k \<le> 70 then Some (k - 55) else None)"

text \<open>\<^verbatim>\<open>bytes.fromhex\<close>, which skips ASCII white space between the bytes.\<close>

definition ascii_space :: "byte \<Rightarrow> bool" where
  "ascii_space b \<longleftrightarrow> uint b \<in> {9, 10, 11, 12, 13, 32}"

fun from_hex :: "bytes \<Rightarrow> bytes res" where
  "from_hex [] = Inr []"
| "from_hex (a # bs) =
     (if ascii_space a then from_hex bs
      else case bs of
        [] \<Rightarrow> Inl Value_Error
      | b # cs \<Rightarrow> (case (nibble a, nibble b) of
          (Some x, Some y) \<Rightarrow> bindR (from_hex cs) (\<lambda>r. Inr (word_of_int (16 * x + y) # r))
        | _ \<Rightarrow> Inl Value_Error))"

definition ascii_strict :: "bytes \<Rightarrow> bytes res" where
  "ascii_strict bs = (if list_all (\<lambda>b. uint b < 128) bs then Inr bs else Inl Unicode_Error)"

subsection \<open>Text\<close>

text \<open>A Python string as its code points.\<close>

type_synonym pstr = "int list"

definition pstr_of :: "string \<Rightarrow> pstr" where
  "pstr_of s = map (\<lambda>c. int (of_char c :: nat)) s"

definition ascii_replace :: "bytes \<Rightarrow> pstr" where
  "ascii_replace bs = map (\<lambda>b. if uint b < 128 then uint b else 0xFFFD) bs"

text \<open>One step of the UTF-8 decoder with \<^verbatim>\<open>"replace"\<close>: the code point and how many bytes it took. A malformed
  sequence is replaced up to the byte that cannot continue it.\<close>

definition cont_range :: "int \<Rightarrow> (int \<times> int)" where
  "cont_range a =
     (if a = 0xE0 then (0xA0, 0xBF) else if a = 0xED then (0x80, 0x9F)
      else if a = 0xF0 then (0x90, 0xBF) else if a = 0xF4 then (0x80, 0x8F) else (0x80, 0xBF))"

definition seq_length :: "int \<Rightarrow> nat" where
  "seq_length a =
     (if 0xC2 \<le> a \<and> a \<le> 0xDF then 2 else if 0xE0 \<le> a \<and> a \<le> 0xEF then 3
      else if 0xF0 \<le> a \<and> a \<le> 0xF4 then 4 else 0)"

definition lead_bits :: "int \<Rightarrow> int" where
  "lead_bits a = (if a \<le> 0xDF then a - 0xC0 else if a \<le> 0xEF then a - 0xE0 else a - 0xF0)"

fun continue_seq :: "nat \<Rightarrow> int \<times> int \<Rightarrow> int \<Rightarrow> nat \<Rightarrow> int list \<Rightarrow> int \<times> nat" where
  "continue_seq 0 r cp k bs = (cp, k)"
| "continue_seq (Suc n) r cp k [] = (0xFFFD, k)"
| "continue_seq (Suc n) r cp k (b # bs) =
     (if fst r \<le> b \<and> b \<le> snd r then continue_seq n (0x80, 0xBF) (64 * cp + (b - 0x80)) (Suc k) bs
      else (0xFFFD, k))"

definition decode_one :: "int \<Rightarrow> int list \<Rightarrow> int \<times> nat" where
  "decode_one a bs =
     (if a < 0x80 then (a, 0)
      else if seq_length a = 0 then (0xFFFD, 0)
      else continue_seq (seq_length a - 1) (cont_range a) (lead_bits a) 0 bs)"

function utf8_replace_ints :: "int list \<Rightarrow> pstr" where
  "utf8_replace_ints [] = []"
| "utf8_replace_ints (a # bs) = (let (cp, k) = decode_one a bs in cp # utf8_replace_ints (drop k bs))"
  by pat_completeness auto
termination by (relation "measure length") auto

definition utf8_replace :: "bytes \<Rightarrow> pstr" where
  "utf8_replace bs = utf8_replace_ints (map uint bs)"

text \<open>\<^verbatim>\<open>encode("utf-8")\<close>; the decoders above make no surrogates, which it would refuse.\<close>

definition utf8_of :: "int \<Rightarrow> bytes" where
  "utf8_of c =
     map word_of_int
       (if c < 0x80 then [c]
        else if c < 0x800 then [0xC0 + c div 64, 0x80 + c mod 64]
        else if c < 0x10000 then [0xE0 + c div 4096, 0x80 + c div 64 mod 64, 0x80 + c mod 64]
        else [0xF0 + c div 262144, 0x80 + c div 4096 mod 64, 0x80 + c div 64 mod 64, 0x80 + c mod 64])"

definition utf8_encode :: "pstr \<Rightarrow> bytes" where
  "utf8_encode s = concat (map utf8_of s)"

text \<open>\<^verbatim>\<open>str.split()\<close>: the words between runs of white space.\<close>

definition str_space :: "int \<Rightarrow> bool" where
  "str_space c \<longleftrightarrow> (9 \<le> c \<and> c \<le> 13) \<or> (28 \<le> c \<and> c \<le> 32) \<or> (0x2000 \<le> c \<and> c \<le> 0x200A)
     \<or> c \<in> {0x85, 0xA0, 0x1680, 0x2028, 0x2029, 0x202F, 0x205F, 0x3000}"

function str_split :: "pstr \<Rightarrow> pstr list" where
  "str_split [] = []"
| "str_split (c # cs) =
     (if str_space c then str_split cs
      else (c # takeWhile (\<lambda>d. \<not> str_space d) cs) # str_split (dropWhile (\<lambda>d. \<not> str_space d) cs))"
  by pat_completeness auto
termination
  by (relation "measure length") (auto simp: le_imp_less_Suc length_dropWhile_le)

text \<open>\<^verbatim>\<open>" ".join(words)\<close>.\<close>

fun str_join :: "pstr list \<Rightarrow> pstr" where
  "str_join [] = []"
| "str_join [w] = w"
| "str_join (w # v # ws) = w @ [32] @ str_join (v # ws)"

text \<open>\<^verbatim>\<open>s.split(sep)\<close> at one character.\<close>

fun split_at :: "'a \<Rightarrow> 'a list \<Rightarrow> 'a list list" where
  "split_at c [] = [[]]"
| "split_at c (x # xs) =
     (if x = c then [] # split_at c xs
      else case split_at c xs of [] \<Rightarrow> [[x]] | w # ws \<Rightarrow> (x # w) # ws)"

text \<open>Reading hexadecimal digits back.\<close>

fun hex_parse :: "int \<Rightarrow> bytes \<Rightarrow> int" where
  "hex_parse n [] = n"
| "hex_parse n (b # bs) = (case nibble b of None \<Rightarrow> n | Some d \<Rightarrow> hex_parse (16 * n + d) bs)"

lemma nibble_hex_char: "0 \<le> d \<Longrightarrow> d < 16 \<Longrightarrow> nibble (hex_char d) = Some d"
  by (auto simp: nibble_def hex_char_def uint_word_of_int Let_def)

lemma hex_char_range: "0 \<le> d \<Longrightarrow> d < 16 \<Longrightarrow> hex_char d \<notin> {0x23, 0x24, 0x2C}"
proof -
  assume "0 \<le> d" "d < 16"
  then have "nibble (hex_char d) = Some d" by (rule nibble_hex_char)
  moreover have "nibble 0x23 = None" "nibble 0x24 = None" "nibble 0x2C = None" by code_simp+
  ultimately show ?thesis by auto
qed

lemma hex_parse_snoc:
  "list_all (\<lambda>b. nibble b \<noteq> None) xs \<Longrightarrow> hex_parse n (xs @ ys) = hex_parse (hex_parse n xs) ys"
  by (induction xs arbitrary: n) (auto split: option.splits)

lemma hex_digits_parse:
  assumes "0 \<le> n"
  shows "hex_parse 0 (hex_digits n) = n \<and> list_all (\<lambda>b. nibble b \<noteq> None) (hex_digits n) \<and>
    set (hex_digits n) \<inter> {0x23, 0x24, 0x2C} = {}"
  using assms
proof (induction n rule: hex_digits.induct)
  case (1 n)
  show ?case
  proof (cases "n < 16")
    case True
    then show ?thesis using 1(2) hex_char_range [of n]
      by (subst (1 2 3) hex_digits.simps) (simp add: nibble_hex_char)
  next
    case False
    have d: "nibble (hex_char (n mod 16)) = Some (n mod 16)" "hex_char (n mod 16) \<notin> {0x23, 0x24, 0x2C}"
      by (rule nibble_hex_char hex_char_range; simp)+
    have e: "hex_digits n = hex_digits (n div 16) @ [hex_char (n mod 16)]"
      using False by (subst hex_digits.simps) simp
    have "hex_parse 0 (hex_digits (n div 16)) = n div 16" "list_all (\<lambda>b. nibble b \<noteq> None) (hex_digits (n div 16))"
      "set (hex_digits (n div 16)) \<inter> {0x23, 0x24, 0x2C} = {}"
      using 1(1) [OF False] 1(2) by auto
    then show ?thesis using d by (simp add: e hex_parse_snoc)
  qed
qed

end
