(* ===== verification/Gdb_Remote.thy ===== *)
theory Gdb_Remote
  imports Py_Io
begin

text \<open>
  The GDB client of \<^verbatim>\<open>scripts/development/gdb-remote-probe.py\<close> (class \<^verbatim>\<open>Remote\<close>). The socket and the stub behind it
  are a parameter: a record of what sending and receiving do to the peer's state. Timeouts, closed connections and
  the \<^verbatim>\<open>OSError\<close>s of the code are all \<^const>\<open>Os_Error\<close>, as the \<^verbatim>\<open>except OSError\<close> clauses see them. The loops that
  skip to a byte end only when the peer sends it, so they are partial functions.
\<close>

subsection \<open>The connection\<close>

record 'p net =
  net_send :: "bytes \<Rightarrow> 'p \<Rightarrow> unit res \<times> 'p"
  net_recv :: "int \<Rightarrow> 'p \<Rightarrow> bytes res \<times> 'p"
  net_timeout :: "int \<Rightarrow> 'p \<Rightarrow> 'p"
  net_close :: "'p \<Rightarrow> 'p"

record 'p remote =
  pending :: bytes
  no_ack :: bool
  peer :: 'p

definition checksum :: "bytes \<Rightarrow> bytes" where
  "checksum payload = hex2 (sum_list (map uint payload) AND 0xFF)"

definition send_all :: "'p net \<Rightarrow> bytes \<Rightarrow> ('p remote, unit) io" where
  "send_all net bs = (\<lambda>r. let (x, p) = net_send net bs (peer r) in Some (x, r\<lparr>peer := p\<rparr>))"

definition open_remote :: "'p net \<Rightarrow> 'p \<Rightarrow> (unit res \<times> 'p remote) option" where
  "open_remote net p = send_all net (ascii ''+'') \<lparr>pending = [], no_ack = False, peer = net_timeout net 5 p\<rparr>"

definition receive_byte :: "'p net \<Rightarrow> 'p remote \<Rightarrow> byte res \<times> 'p remote" where
  "receive_byte net r =
     (case pending r of
        b # bs \<Rightarrow> (Inr b, r\<lparr>pending := bs\<rparr>)
      | [] \<Rightarrow> (case net_recv net 65536 (peer r) of
          (Inl e, p) \<Rightarrow> (Inl e, r\<lparr>peer := p\<rparr>)
        | (Inr [], p) \<Rightarrow> (Inl Os_Error, r\<lparr>peer := p\<rparr>)
        | (Inr (b # bs), p) \<Rightarrow> (Inr b, r\<lparr>pending := bs, peer := p\<rparr>)))"

definition byteM :: "'p net \<Rightarrow> ('p remote, byte) io" where
  "byteM net = (\<lambda>r. Some (receive_byte net r))"

text \<open>\<^verbatim>\<open>while self._receive_byte() != c: pass\<close>, and the loop that collects up to \<^verbatim>\<open>c\<close>.\<close>

partial_function (option) skip_until :: "'p net \<Rightarrow> byte \<Rightarrow> 'p remote \<Rightarrow> (unit res \<times> 'p remote) option" where
  "skip_until net c r =
     (case receive_byte net r of
        (Inl e, r') \<Rightarrow> Some (Inl e, r')
      | (Inr b, r') \<Rightarrow> if b = c then Some (Inr (), r') else skip_until net c r')"

partial_function (option) collect_until ::
    "'p net \<Rightarrow> byte \<Rightarrow> bytes \<Rightarrow> 'p remote \<Rightarrow> (bytes res \<times> 'p remote) option" where
  "collect_until net c payload r =
     (case receive_byte net r of
        (Inl e, r') \<Rightarrow> Some (Inl e, r')
      | (Inr b, r') \<Rightarrow> if b = c then Some (Inr payload, r') else collect_until net c (payload @ [b]) r')"

definition lower :: "byte \<Rightarrow> byte" where
  "lower b = (if 65 \<le> uint b \<and> uint b \<le> 90 then b + 32 else b)"

definition receive_packet :: "'p net \<Rightarrow> ('p remote, bytes) io" where
  "receive_packet net =
     bindM (skip_until net 0x24) (\<lambda>_.
     bindM (collect_until net 0x23 []) (\<lambda>payload.
     bindM (byteM net) (\<lambda>a. bindM (byteM net) (\<lambda>b.
     if checksum payload \<noteq> map lower [a, b] then
       bindM (send_all net (ascii ''-'')) (\<lambda>_. raiseM Value_Error)
     else bindM (getM no_ack) (\<lambda>na.
       bindM (if na then retM () else send_all net (ascii ''+'')) (\<lambda>_. retM payload))))))"

definition packet :: "bytes \<Rightarrow> bytes" where
  "packet payload = ascii ''$'' @ payload @ ascii ''#'' @ checksum payload"

definition request :: "'p net \<Rightarrow> bytes \<Rightarrow> ('p remote, bytes) io" where
  "request net payload =
     bindM (send_all net (packet payload)) (\<lambda>_.
     bindM (getM no_ack) (\<lambda>na.
     bindM (if na then retM () else skip_until net 0x2B) (\<lambda>_. receive_packet net)))"

definition start_no_ack_mode :: "'p net \<Rightarrow> ('p remote, unit) io" where
  "start_no_ack_mode net =
     bindM (request net (ascii ''QStartNoAckMode'')) (\<lambda>reply.
     bindM (guardM (reply = ascii ''OK'') Runtime_Error) (\<lambda>_.
     putM (\<lambda>r. r\<lparr>no_ack := True\<rparr>)))"

definition close_remote :: "'p net \<Rightarrow> ('p remote, unit) io" where
  "close_remote net =
     finallyM (catchM Os_Error (bindM (request net (ascii ''D'')) (\<lambda>_. retM ())) (retM ()))
       (putM (\<lambda>r. r\<lparr>peer := net_close net (peer r)\<rparr>))"

subsection \<open>Guest memory\<close>

text \<open>The escapes of a binary reply.\<close>

fun unescape :: "bytes \<Rightarrow> bytes res" where
  "unescape [] = Inr []"
| "unescape (b # bs) =
     (if b = 0x7D then (case bs of [] \<Rightarrow> Inl Os_Error
        | c # cs \<Rightarrow> bindR (unescape cs) (\<lambda>r. Inr ((c XOR 0x20) # r)))
      else bindR (unescape bs) (\<lambda>r. Inr (b # r)))"

definition error_reply :: "bytes \<Rightarrow> bool" where
  "error_reply r \<longleftrightarrow> length r = 3 \<and> take 1 r = ascii ''E'' \<and> list_all (\<lambda>b. nibble b \<noteq> None) (drop 1 r)"

definition read_request :: "int \<Rightarrow> int \<Rightarrow> bytes" where
  "read_request current amount = ascii ''x'' @ hex_of current @ ascii '','' @ hex_of amount"

definition read_chunk :: "'p net \<Rightarrow> int \<Rightarrow> nat \<Rightarrow> ('p remote, bytes) io" where
  "read_chunk net current amount =
     bindM (request net (read_request current (int amount))) (\<lambda>response.
     bindM (guardM (\<not> error_reply response) Os_Error) (\<lambda>_.
     bindM (resM (unescape response)) (\<lambda>value.
     bindM (guardM (length value = amount) Os_Error) (\<lambda>_. retM value))))"

text \<open>The loop over the chunks: \<open>n\<close> bytes are still wanted, from \<open>current\<close> on.\<close>

function read_loop :: "'p net \<Rightarrow> int \<Rightarrow> nat \<Rightarrow> bytes \<Rightarrow> ('p remote, bytes) io" where
  "read_loop net current n result =
     (if n = 0 then retM result
      else let amount = min 0x40000 n in
        bindM (read_chunk net current amount) (\<lambda>value.
        read_loop net (current + int amount) (n - amount) (result @ value)))"
  by pat_completeness auto
termination by (relation "measure (\<lambda>(net, a, n, r). n)") auto

declare read_loop.simps [simp del]

definition read_memory :: "'p net \<Rightarrow> int \<Rightarrow> int \<Rightarrow> ('p remote, bytes) io" where
  "read_memory net address len = read_loop net address (nat len) []"

definition write_request :: "int \<Rightarrow> bytes \<Rightarrow> bytes" where
  "write_request address v =
     ascii ''M'' @ hex_of address @ ascii '','' @ hex_of (int (length v)) @ ascii '':'' @ hex_bytes v"

definition write_memory :: "'p net \<Rightarrow> int \<Rightarrow> bytes \<Rightarrow> ('p remote, unit) io" where
  "write_memory net address v =
     bindM (request net (write_request address v)) (\<lambda>response.
     guardM (response = ascii ''OK'') Os_Error)"

definition remote_register :: "'p net \<Rightarrow> int \<Rightarrow> ('p remote, int) io" where
  "remote_register net number =
     bindM (request net (ascii ''p'' @ hex_of number)) (\<lambda>encoded.
     bindM (resM (ascii_strict encoded)) (\<lambda>t.
     bindM (resM (from_hex t)) (\<lambda>v. retM (le_int v))))"

subsection \<open>What the client needs of the peer\<close>

text \<open>\<open>avail\<close> is what the peer has still to deliver. It may cut it into chunks as it likes, and its own state keeps
  the property \<open>good\<close> while it delivers and while it is sent an acknowledgement.\<close>

definition delivers :: "'p net \<Rightarrow> ('p \<Rightarrow> bytes) \<Rightarrow> ('p \<Rightarrow> bool) \<Rightarrow> bool" where
  "delivers net avail good \<longleftrightarrow>
     (\<forall>p. good p \<and> avail p \<noteq> [] \<longrightarrow>
       (\<exists>c q. net_recv net 65536 p = (Inr c, q) \<and> c \<noteq> [] \<and> avail p = c @ avail q \<and> good q)) \<and>
     (\<forall>p. good p \<longrightarrow> (\<forall>a \<in> {ascii ''+'', ascii ''-''}.
       \<exists>q. net_send net a p = (Inr (), q) \<and> avail q = avail p \<and> good q))"

text \<open>A stub that answers every read of up to 256 KiB with some binary encoding of the memory.\<close>

definition serves :: "'p net \<Rightarrow> ('p \<Rightarrow> bytes) \<Rightarrow> ('p \<Rightarrow> bool) \<Rightarrow> bool \<Rightarrow> (int \<Rightarrow> byte) \<Rightarrow> bool" where
  "serves net avail good na mem \<longleftrightarrow>
     (\<forall>p a n. good p \<and> avail p = [] \<and> 0 < n \<and> n \<le> 0x40000 \<longrightarrow>
       (\<exists>q enc. net_send net (packet (read_request a (int n))) p = (Inr (), q) \<and> good q
          \<and> avail q = (if na then [] else ascii ''+'') @ packet enc \<and> 0x23 \<notin> set enc
          \<and> unescape enc = Inr (map (\<lambda>i. mem (a + int i)) [0..<n])))"

definition stream :: "('p \<Rightarrow> bytes) \<Rightarrow> 'p remote \<Rightarrow> bytes" where
  "stream avail r = pending r @ avail (peer r)"

lemma receive_byte_stream:
  assumes "delivers net avail good" "good (peer r)" "stream avail r = b # bs"
  obtains r' where "receive_byte net r = (Inr b, r')" "stream avail r' = bs" "good (peer r')" "no_ack r' = no_ack r"
proof (cases "pending r")
  case (Cons c cs)
  then show thesis using assms that [of "r\<lparr>pending := cs\<rparr>"] by (simp add: receive_byte_def stream_def)
next
  case Nil
  then have "avail (peer r) \<noteq> []" using assms(3) by (simp add: stream_def)
  then obtain c q where q: "net_recv net 65536 (peer r) = (Inr c, q)" "c \<noteq> []" "avail (peer r) = c @ avail q" "good q"
    using assms(1,2) unfolding delivers_def by blast
  then obtain d ds where "c = d # ds" by (cases c) auto
  then show thesis
    using that [of "r\<lparr>pending := ds, peer := q\<rparr>"] q Nil assms(3) by (simp add: receive_byte_def stream_def)
qed

lemma skip_until_stream:
  assumes "delivers net avail good" "good (peer r)" "stream avail r = xs @ c # bs" "c \<notin> set xs"
  obtains r' where "skip_until net c r = Some (Inr (), r')" "stream avail r' = bs" "good (peer r')" "no_ack r' = no_ack r"
  using assms(2-)
proof (induction xs arbitrary: r thesis)
  case Nil
  then obtain r' where "receive_byte net r = (Inr c, r')" "stream avail r' = bs" "good (peer r')" "no_ack r' = no_ack r"
    using receive_byte_stream [OF assms(1) Nil.prems(2), of c bs] by (metis append_Nil)
  then show ?case using Nil.prems(1) by (simp add: skip_until.simps)
next
  case (Cons x xs)
  obtain r' where r': "receive_byte net r = (Inr x, r')" "stream avail r' = xs @ c # bs" "good (peer r')" "no_ack r' = no_ack r"
    using receive_byte_stream [OF assms(1) Cons.prems(2), of x "xs @ c # bs"] Cons.prems(3) by (metis append_Cons)
  have "c \<notin> set xs" "x \<noteq> c" using Cons.prems(4) by auto
  then obtain r'' where "skip_until net c r' = Some (Inr (), r'')" "stream avail r'' = bs" "good (peer r'')"
      "no_ack r'' = no_ack r'" using Cons.IH [OF _ r'(3,2)] by blast
  then show ?case using Cons.prems(1) r' \<open>x \<noteq> c\<close> by (simp add: skip_until.simps [of net c r])
qed

lemma collect_until_stream:
  assumes "delivers net avail good" "good (peer r)" "stream avail r = xs @ c # bs" "c \<notin> set xs"
  obtains r' where "collect_until net c acc r = Some (Inr (acc @ xs), r')" "stream avail r' = bs" "good (peer r')"
    "no_ack r' = no_ack r"
  using assms(2-)
proof (induction xs arbitrary: r acc thesis)
  case Nil
  then obtain r' where "receive_byte net r = (Inr c, r')" "stream avail r' = bs" "good (peer r')" "no_ack r' = no_ack r"
    using receive_byte_stream [OF assms(1) Nil.prems(2), of c bs] by (metis append_Nil)
  then show ?case using Nil.prems(1) by (simp add: collect_until.simps)
next
  case (Cons x xs)
  obtain r' where r': "receive_byte net r = (Inr x, r')" "stream avail r' = xs @ c # bs" "good (peer r')" "no_ack r' = no_ack r"
    using receive_byte_stream [OF assms(1) Cons.prems(2), of x "xs @ c # bs"] Cons.prems(3) by (metis append_Cons)
  have "c \<notin> set xs" "x \<noteq> c" using Cons.prems(4) by auto
  then obtain r'' where "collect_until net c (acc @ [x]) r' = Some (Inr ((acc @ [x]) @ xs), r'')" "stream avail r'' = bs"
      "good (peer r'')" "no_ack r'' = no_ack r'" using Cons.IH [OF _ r'(3,2)] by blast
  then show ?case using Cons.prems(1) r' \<open>x \<noteq> c\<close> by (simp add: collect_until.simps [of net c acc r])
qed

lemma send_ack:
  assumes "delivers net avail good" "good (peer r)" "a = ascii ''+'' \<or> a = ascii ''-''"
  obtains r' where "send_all net a r = Some (Inr (), r')" "stream avail r' = stream avail r" "good (peer r')"
    "no_ack r' = no_ack r"
proof -
  obtain q where "net_send net a (peer r) = (Inr (), q)" "avail q = avail (peer r)" "good q"
    using assms unfolding delivers_def by blast
  then show thesis using that [of "r\<lparr>peer := q\<rparr>"] by (simp add: send_all_def stream_def)
qed

lemma receive_packet_step:
  assumes d: "delivers net avail good" and "good (peer r)"
    and "stream avail r = junk @ [0x24] @ payload @ [0x23, a, b] @ rest"
    and "0x24 \<notin> set junk" "0x23 \<notin> set payload"
  obtains r' where "receive_packet net r =
      Some (if map lower [a, b] = checksum payload then Inr payload else Inl Value_Error, r')"
    "stream avail r' = rest" "good (peer r')" "no_ack r' = no_ack r"
proof -
  obtain r1 where 1: "skip_until net 0x24 r = Some (Inr (), r1)" "stream avail r1 = payload @ 0x23 # a # b # rest"
      "good (peer r1)" "no_ack r1 = no_ack r"
    using skip_until_stream [OF d assms(2), of junk "0x24" "payload @ 0x23 # a # b # rest"] assms(3,4) by auto
  obtain r2 where 2: "collect_until net 0x23 [] r1 = Some (Inr payload, r2)" "stream avail r2 = a # b # rest"
      "good (peer r2)" "no_ack r2 = no_ack r1"
    using collect_until_stream [OF d 1(3,2) assms(5), of "[]"] by auto
  obtain r3 where 3: "receive_byte net r2 = (Inr a, r3)" "stream avail r3 = b # rest" "good (peer r3)" "no_ack r3 = no_ack r2"
    using receive_byte_stream [OF d 2(3,2)] by blast
  obtain r4 where 4: "receive_byte net r3 = (Inr b, r4)" "stream avail r4 = rest" "good (peer r4)" "no_ack r4 = no_ack r3"
    using receive_byte_stream [OF d 3(3,2)] by blast
  obtain p where p: "send_all net (ascii ''+'') r4 = Some (Inr (), p)" "stream avail p = rest" "good (peer p)"
      "no_ack p = no_ack r4" using send_ack [OF d 4(3)] 4(2) by metis
  obtain m where m: "send_all net (ascii ''-'') r4 = Some (Inr (), m)" "stream avail m = rest" "good (peer m)"
      "no_ack m = no_ack r4" using send_ack [OF d 4(3)] 4(2) by metis
  note na = 1(4) 2(4) 3(4) 4(4)
  consider "map lower [a, b] \<noteq> checksum payload" | "map lower [a, b] = checksum payload" "no_ack r"
    | "map lower [a, b] = checksum payload" "\<not> no_ack r" by blast
  then show thesis
  proof cases
    case 1
    then show thesis using that [of m] \<open>skip_until net 0x24 r = _\<close> 2(1) 3(1) 4(1) m na
      by (simp add: receive_packet_def byteM_def eq_commute)
  next
    case ok: 2
    then show thesis using that [of r4] \<open>skip_until net 0x24 r = _\<close> 2(1) 3(1) 4 na
      by (simp add: receive_packet_def byteM_def eq_commute)
  next
    case ok: 3
    then show thesis using that [of p] \<open>skip_until net 0x24 r = _\<close> 2(1) 3(1) 4(1) p na
      by (simp add: receive_packet_def byteM_def eq_commute)
  qed
qed

lemma length_unescape: "unescape bs = Inr v \<Longrightarrow> 0x7D \<notin> set bs \<Longrightarrow> length v = length bs"
  by (induction bs arbitrary: v) (auto simp: bindR_Inr_iff split: if_splits)

lemma error_reply_length:
  assumes "error_reply bs" "unescape bs = Inr v"
  shows "length v = 3"
proof -
  have "nibble 0x7D = None" by code_simp
  then have "0x7D \<notin> set (drop 1 bs)" "0x7D \<notin> set (take 1 bs)"
    using assms(1) by (auto simp: error_reply_def list_all_iff ascii_def)
  then have "0x7D \<notin> set bs" by (metis Un_iff append_take_drop_id set_append)
  then show ?thesis using length_unescape [OF assms(2)] assms(1) by (simp add: error_reply_def)
qed

lemma checksum_pair: "checksum payload = [a, b] \<Longrightarrow> map lower [a, b] = [a, b]"
proof -
  assume c: "checksum payload = [a, b]"
  have h: "lower (hex_char d) = hex_char d" if "0 \<le> d" "d < 16" for d
    using that by (auto simp: lower_def hex_char_def uint_word_of_int)
  let ?n = "sum_list (map uint payload) AND 0xFF"
  have "k AND 0xFF = k mod 256" for k :: int
    using take_bit_eq_mask [of 8 k] by (simp add: mask_eq_exp_minus_1 take_bit_eq_mod)
  then have "?n = sum_list (map uint payload) mod 256" .
  then obtain n where n: "?n = n" "0 \<le> n" "n < 256" by simp
  then have "0 \<le> n div 16" "n div 16 < 16" "0 \<le> n mod 16" "n mod 16 < 16" by auto
  then show ?thesis using c h unfolding checksum_def n(1) by (auto simp: hex2_def)
qed

lemma receive_good_packet:
  assumes d: "delivers net avail good" and "good (peer r)"
    and "stream avail r = junk @ packet payload @ rest" "0x24 \<notin> set junk" "0x23 \<notin> set payload"
  obtains r' where "receive_packet net r = Some (Inr payload, r')" "stream avail r' = rest" "good (peer r')"
    "no_ack r' = no_ack r"
proof -
  obtain a b where c: "checksum payload = [a, b]" by (simp add: checksum_def hex2_def)
  have "stream avail r = junk @ [0x24] @ payload @ [0x23, a, b] @ rest"
    using assms(3) c by (simp add: packet_def ascii_def)
  then obtain r' where "receive_packet net r =
      Some (if map lower [a, b] = checksum payload then Inr payload else Inl Value_Error, r')"
      "stream avail r' = rest" "good (peer r')" "no_ack r' = no_ack r"
    using receive_packet_step [OF d assms(2) _ assms(4,5)] by blast
  moreover have "map lower [a, b] = checksum payload" using checksum_pair [OF c] c by (simp only:)
  ultimately show thesis using that by (simp only: if_True simp_thms)
qed

lemma read_chunk_serves:
  assumes d: "delivers net avail good" and s: "serves net avail good (no_ack r) mem"
    and "good (peer r)" "stream avail r = []" "0 < n" "n \<le> 0x40000" "n \<noteq> 3"
  obtains r' where "read_chunk net a n r = Some (Inr (map (\<lambda>i. mem (a + int i)) [0..<n]), r')"
    "stream avail r' = []" "good (peer r')" "no_ack r' = no_ack r"
proof -
  have e: "pending r = []" "avail (peer r) = []" using assms(4) by (simp_all add: stream_def)
  obtain q enc where q: "net_send net (packet (read_request a (int n))) (peer r) = (Inr (), q)" "good q"
      "avail q = (if no_ack r then [] else ascii ''+'') @ packet enc" "0x23 \<notin> set enc"
      "unescape enc = Inr (map (\<lambda>i. mem (a + int i)) [0..<n])"
    using s e assms(3,5,6) unfolding serves_def by blast
  let ?r = "r\<lparr>peer := q\<rparr>"
  have sent: "send_all net (packet (read_request a (int n))) r = Some (Inr (), ?r)"
    by (simp add: send_all_def q(1))
  obtain r1 where r1: "(if no_ack r then retM () else skip_until net 0x2B) ?r = Some (Inr (), r1)"
      "stream avail r1 = packet enc" "good (peer r1)" "no_ack r1 = no_ack r"
  proof (cases "no_ack r")
    case True
    then show thesis using that [of ?r] q(2,3) e by (simp add: stream_def)
  next
    case False
    have "stream avail ?r = [] @ 0x2B # packet enc" using q(3) e False by (simp add: stream_def ascii_def)
    from skip_until_stream [OF d _ this] q(2) show thesis using that False by auto
  qed
  obtain r2 where r2: "receive_packet net r1 = Some (Inr enc, r2)" "stream avail r2 = []" "good (peer r2)"
      "no_ack r2 = no_ack r1"
    using receive_good_packet [OF d r1(3), of "[]" enc "[]"] r1(2) q(4) by auto
  have "request net (read_request a (int n)) r = Some (Inr enc, r2)"
    using sent r1(1,4) r2(1) by (simp add: request_def)
  moreover have "\<not> error_reply enc" using error_reply_length [OF _ q(5)] assms(7) by auto
  ultimately have "read_chunk net a n r = Some (Inr (map (\<lambda>i. mem (a + int i)) [0..<n]), r2)"
    using q(5) by (simp add: read_chunk_def)
  then show thesis using that r2 r1(4) by metis
qed

lemma map_upt_parts:
  assumes "k \<le> n"
  shows "map f [0..<k] @ map (\<lambda>i. f (i + k)) [0..<n - k] = map f [0..<n]"
  by (rule nth_equalityI) (use assms in \<open>auto simp: nth_append\<close>)

lemma mem_parts:
  "k \<le> n \<Longrightarrow> map (\<lambda>i. mem (a + int i)) [0..<k] @ map (\<lambda>i. mem (a + int k + int i)) [0..<n - k]
     = map (\<lambda>i. mem (a + int i)) [0..<n]" for a :: int
  using map_upt_parts [of k n "\<lambda>i. mem (a + int i)"] by (simp add: ac_simps)

lemma read_loop_serves:
  assumes d: "delivers net avail good" and "serves net avail good (no_ack r) mem"
    and "good (peer r)" "stream avail r = []" "n mod 0x40000 \<noteq> 3"
  shows "\<exists>r'. read_loop net a n acc r = Some (Inr (acc @ map (\<lambda>i. mem (a + int i)) [0..<n]), r')
    \<and> stream avail r' = [] \<and> good (peer r') \<and> no_ack r' = no_ack r"
  using assms(2-)
proof (induction n arbitrary: a acc r rule: less_induct)
  case (less n)
  show ?case
  proof (cases "n = 0")
    case True
    then show ?thesis using less.prems by (simp add: read_loop.simps)
  next
    case False
    define k where "k = min 0x40000 n"
    have k: "0 < k" "k \<le> 0x40000" "k \<noteq> 3" "n - k < n" "k \<le> n"
      using False less.prems(4) by (auto simp: k_def)
    have m: "(n - k) mod 0x40000 \<noteq> 3"
    proof (cases "n \<le> 0x40000")
      case False
      then show ?thesis using less.prems(4) by (simp add: le_mod_geq k_def)
    qed (simp add: k_def)
    obtain r1 where r1: "read_chunk net a k r = Some (Inr (map (\<lambda>i. mem (a + int i)) [0..<k]), r1)"
        "stream avail r1 = []" "good (peer r1)" "no_ack r1 = no_ack r"
      using read_chunk_serves [OF d less.prems(1-3) k(1-3)] by blast
    let ?v = "map (\<lambda>i. mem (a + int i)) [0..<k]"
    obtain r2 where r2: "read_loop net (a + int k) (n - k) (acc @ ?v) r1 =
        Some (Inr ((acc @ ?v) @ map (\<lambda>i. mem (a + int k + int i)) [0..<n - k]), r2)"
        "stream avail r2 = []" "good (peer r2)" "no_ack r2 = no_ack r1"
      using less.IH [OF k(4) _ r1(3,2) m] less.prems(1) unfolding r1(4) by blast
    have "?v @ map (\<lambda>i. mem (a + int k + int i)) [0..<n - k] = map (\<lambda>i. mem (a + int i)) [0..<n]"
      by (rule mem_parts [OF k(5)])
    moreover have "read_loop net a n acc r = read_loop net (a + int k) (n - k) (acc @ ?v) r1"
      using r1(1) False by (simp add: read_loop.simps [of net a n] k_def [symmetric])
    ultimately have "read_loop net a n acc r = Some (Inr (acc @ map (\<lambda>i. mem (a + int i)) [0..<n]), r2)"
      by (simp only: r2(1) append_assoc)
    then show ?thesis using r2 r1(4) by auto
  qed
qed

subsection \<open>Packets and memory arrive as sent\<close>

text \<open>C25: A packet is received whole however the peer cuts it into chunks: what stands before the dollar sign is
skipped, the payload is returned when its checksum is right in either letter case and a ValueError is raised when
it is not, and exactly the packet is consumed.\<close>
theorem packets_received:
  assumes "delivers net avail good" and "good (peer r)"
    and "stream avail r = junk @ [0x24] @ payload @ [0x23, a, b] @ rest"
    and "0x24 \<notin> set junk" and "0x23 \<notin> set payload"
  shows "\<exists>r'. receive_packet net r =
      Some (if map lower [a, b] = checksum payload then Inr payload else Inl Value_Error, r') \<and> stream avail r' = rest"
  using receive_packet_step [OF assms] by metis


text \<open>A stub whose memory is full of closing braces, all of which it must escape.\<close>

definition demo_send :: "bytes \<Rightarrow> bytes list \<Rightarrow> unit res \<times> bytes list" where
  "demo_send bs p =
     (if length bs = 1 then (Inr (), p)
      else let n = hex_parse 0 (drop 1 (dropWhile (\<lambda>b. b \<noteq> 0x2C) bs))
           in (Inr (), p @ [ascii ''+'', packet (concat (replicate (nat n) [0x7D, 0x5D]))]))"

definition demo_recv :: "int \<Rightarrow> bytes list \<Rightarrow> bytes res \<times> bytes list" where
  "demo_recv n p = (case p of [] \<Rightarrow> (Inr [], []) | c # cs \<Rightarrow> (Inr c, cs))"

definition demo_net :: "bytes list net" where
  "demo_net = \<lparr>net_send = demo_send, net_recv = demo_recv, net_timeout = (\<lambda>t p. p), net_close = (\<lambda>p. p)\<rparr>"

lemma demo_delivers: "delivers demo_net concat (\<lambda>p. [] \<notin> set p)"
proof -
  have "\<exists>c q. net_recv demo_net 65536 p = (Inr c, q) \<and> c \<noteq> [] \<and> concat p = c @ concat q \<and> [] \<notin> set q"
    if "[] \<notin> set p" "concat p \<noteq> []" for p
    using that by (cases p) (auto simp: demo_net_def demo_recv_def)
  then show ?thesis unfolding delivers_def by (auto simp: demo_net_def demo_send_def ascii_def)
qed

lemma demo_request:
  "hex_parse 0 (drop 1 (dropWhile (\<lambda>b. b \<noteq> 0x2C) (packet (read_request a (int n))))) = int n"
proof -
  have a: "\<forall>b \<in> set (ascii ''$'' @ ascii ''x'' @ hex_of a). b \<noteq> 0x2C"
    using hex_digits_parse [of a] hex_digits_parse [of "- a"] by (auto simp: hex_of_def ascii_def)
  have p: "packet (read_request a (int n)) = (ascii ''$'' @ ascii ''x'' @ hex_of a) @
      0x2C # hex_digits (int n) @ 0x23 # checksum (read_request a (int n))"
    by (simp add: packet_def read_request_def ascii_def hex_of_def)
  have "drop 1 (dropWhile (\<lambda>b. b \<noteq> 0x2C) (packet (read_request a (int n)))) =
      hex_digits (int n) @ 0x23 # checksum (read_request a (int n))"
    unfolding p by (subst dropWhile_append2) (use a in auto)
  moreover have "nibble 0x23 = None" by code_simp
  ultimately show ?thesis using hex_digits_parse [of "int n"] by (simp add: hex_parse_snoc)
qed

lemma demo_serves: "serves demo_net concat (\<lambda>p. [] \<notin> set p) False (\<lambda>_. 0x7D)"
proof -
  have u: "unescape (concat (replicate n [0x7D, 0x5D])) = Inr (replicate n 0x7D)" for n
    by (induction n) auto
  have one: "\<exists>q enc. net_send demo_net (packet (read_request a (int n))) p = (Inr (), q) \<and> [] \<notin> set q
      \<and> concat q = (if False then [] else ascii ''+'') @ packet enc \<and> 0x23 \<notin> set enc
      \<and> unescape enc = Inr (map (\<lambda>i. 0x7D) [0..<n])" if p: "[] \<notin> set p" "concat p = []" for p a and n :: nat
  proof -
    let ?enc = "concat (replicate n [0x7D, 0x5D]) :: bytes"
    have "p = []" using p by (cases p) auto
    moreover have "length (packet (read_request a (int n))) \<noteq> 1" by (simp add: packet_def ascii_def)
    ultimately have "net_send demo_net (packet (read_request a (int n))) p = (Inr (), [ascii ''+'', packet ?enc])"
      by (simp only: demo_net_def net.simps demo_send_def demo_request if_False Let_def nat_int append_Nil)
    moreover have "[] \<notin> set [ascii ''+'', packet ?enc]" by (simp add: packet_def ascii_def)
    moreover have "concat [ascii ''+'', packet ?enc] = ascii ''+'' @ packet ?enc" by simp
    moreover have "0x23 \<notin> set ?enc" by auto
    ultimately show ?thesis using u [of n] unfolding map_replicate_const length_upt diff_zero if_False by blast
  qed
  show ?thesis unfolding serves_def using one by blast
qed

definition demo_remote :: "bytes list \<Rightarrow> bytes list remote" where
  "demo_remote p = \<lparr>pending = [], no_ack = False, peer = p\<rparr>"

lemma packets_received_witness:
  "\<exists>r'. receive_packet demo_net (demo_remote [ascii ''+$O'', ascii ''K#9A'', ascii ''$'']) = Some (Inr (ascii ''OK''), r')
     \<and> stream concat r' = ascii ''$''"
proof -
  have c: "map lower [0x39, 0x41] = checksum (ascii ''OK'')" by code_simp
  show ?thesis
    using packets_received [OF demo_delivers, of "demo_remote [ascii ''+$O'', ascii ''K#9A'', ascii ''$'']"
        "ascii ''+''" "ascii ''OK''" "0x39" "0x41" "ascii ''$''"] c
    by (simp add: demo_remote_def stream_def ascii_def)
qed


end
