(* ===== verification/Kernel_Probe.thy ===== *)
theory Kernel_Probe
  imports Gdb_Remote MachO "HOL-Library.AList"
begin

text \<open>
  The kernel side of \<^verbatim>\<open>scripts/development/gdb-remote-probe.py\<close>: finding the kernel's Mach-O header below the program
  counter, the pattern scans for the boot arguments and the CSR configuration, and the change of the boot
  arguments. Dicts are association lists in insertion order; printing is left out.
\<close>

subsection \<open>The kernel's header\<close>

type_synonym segs = "(pstr \<times> int \<times> int) list"

fun kernel_segments :: "bytes \<Rightarrow> nat \<Rightarrow> int \<Rightarrow> segs \<Rightarrow> segs option res" where
  "kernel_segments cmds 0 off segs = Inr (Some segs)"
| "kernel_segments cmds (Suc n) off segs =
     (if off + 8 > int (length cmds) then Inr None
      else bindR (u32x2 cmds off) (\<lambda>(command, sz).
        if sz < 8 \<or> off + sz > int (length cmds) then Inr None
        else bindR (if command = LC_SEGMENT_64 \<and> 72 \<le> sz then
                 let name = ascii_replace (before_nul (py_slice cmds (off + 8) (off + 24))) in
                 bindR (u64x2 cmds (off + 24)) (\<lambda>(va, vs). Inr (AList.update name (va, vs) segs))
               else Inr segs) (kernel_segments cmds n (off + sz))))"

definition kernel_header :: "int list \<Rightarrow> bool" where
  "kernel_header f \<longleftrightarrow> f ! 0 = 0xFEEDFACF \<and> f ! 1 = 0x0100000C \<and> f ! 3 \<in> {2, 12}
     \<and> 0 < f ! 4 \<and> f ! 4 < 1000 \<and> f ! 5 \<le> 1024 * 1024"

text \<open>One page of the search: the segments when the kernel starts there.\<close>

definition probe_page :: "'p net \<Rightarrow> int \<Rightarrow> ('p remote, segs option) io" where
  "probe_page net page =
     bindM (catchM Os_Error (bindM (read_memory net page 32) (\<lambda>h. retM (Some h))) (retM None)) (\<lambda>header.
     case header of None \<Rightarrow> retM None | Some h \<Rightarrow>
       bindM (resM (bindR (guardR (length h = 32) Struct_Error) (\<lambda>_. unpack_us [4, 4, 4, 4, 4, 4, 4, 4] h 0))) (\<lambda>f.
       if \<not> kernel_header f then retM None
       else bindM (read_memory net (page + 32) (f ! 5)) (\<lambda>cmds.
         bindM (resM (kernel_segments cmds (nat (f ! 4)) 0 [])) (\<lambda>segs.
         case segs of None \<Rightarrow> retM None
         | Some ss \<Rightarrow> if pstr_of ''__TEXT'' \<in> fst ` set ss \<and> pstr_of ''__TEXT_EXEC'' \<in> fst ` set ss
                      then retM (Some ss) else retM None))))"

fun search_pages :: "'p net \<Rightarrow> nat \<Rightarrow> int \<Rightarrow> ('p remote, int \<times> segs) io" where
  "search_pages net 0 page = raiseM Runtime_Error"
| "search_pages net (Suc n) page =
     bindM (probe_page net page) (\<lambda>r. case r of
       Some segs \<Rightarrow> retM (page, segs)
     | None \<Rightarrow> search_pages net n (page - 0x4000))"

definition find_kernel :: "'p net \<Rightarrow> int \<Rightarrow> ('p remote, int \<times> segs) io" where
  "find_kernel net pc = search_pages net (128 * 1024 * 1024 div 0x4000) (pc AND NOT 0x3FFF)"

subsection \<open>Scanning the code\<close>

definition sign_extend :: "int \<Rightarrow> nat \<Rightarrow> int" where
  "sign_extend v bits = (let sign = push_bit (bits - 1) 1 in (v XOR sign) - sign)"

definition decode_adrp :: "int \<Rightarrow> int \<Rightarrow> int" where
  "decode_adrp pc insn =
     (let immediate = push_bit 2 (drop_bit 5 insn AND 0x7FFFF) OR (drop_bit 29 insn AND 3)
      in (pc AND NOT 0xFFF) + push_bit 12 (sign_extend immediate 21))"

type_synonym 'a matcher = "bytes \<Rightarrow> int \<Rightarrow> int \<Rightarrow> 'a option res"

definition scan_positions :: "int \<Rightarrow> int \<Rightarrow> int list" where
  "scan_positions data_address n =
     (let a = (- data_address) AND 3 in map (\<lambda>k. a + 4 * int k) [0..<nat ((n - 28 - a + 3) div 4)])"

function scan_loop :: "'p net \<Rightarrow> int \<Rightarrow> 'a matcher \<Rightarrow> nat \<Rightarrow> nat \<Rightarrow> bytes \<Rightarrow> ('p remote, 'a option) io" where
  "scan_loop net start callback sz offset tail =
     (if sz \<le> offset then retM None
      else let amount = min 0x40000 (sz - offset) in
        bindM (read_memory net (start + int offset) (int amount)) (\<lambda>chunk.
        let data = tail @ chunk; data_address = start + int offset - int (length tail) in
        bindM (resM (firstR (\<lambda>p. callback data p (data_address + p)) (scan_positions data_address (int (length data))))) (\<lambda>r.
        case r of Some v \<Rightarrow> retM (Some v)
        | None \<Rightarrow> scan_loop net start callback sz (offset + amount) (py_slice data (- 32) (int (length data))))))"
  by pat_completeness auto
termination by (relation "measure (\<lambda>(net, start, cb, sz, off, tail). sz - off)") auto

declare scan_loop.simps [simp del]

definition scan_text :: "'p net \<Rightarrow> int \<Rightarrow> int \<Rightarrow> 'a matcher \<Rightarrow> ('p remote, 'a option) io" where
  "scan_text net start sz callback = scan_loop net start callback (nat sz) 0 []"

definition match_boot_args :: "int matcher" where
  "match_boot_args data position pc =
     (if py_slice data position (position + 12) \<noteq> le_words 4 [0xAA0203E3, 0xAA0103E2, 0xAA0003E1] then Inr None
      else bindR (unpack_us [4, 4, 4, 4] data (position + 12)) (\<lambda>w.
        let adrp = w ! 0; add = w ! 1; load = w ! 2; command_line = w ! 3 in
        if adrp AND 0x9F00001F \<noteq> 0x90000008 then Inr None
        else if add AND 0xFFC003FF \<noteq> 0x91000108 then Inr None
        else if load AND 0xFFC003FF \<noteq> 0xF9400108 then Inr None
        else if command_line \<noteq> 0x9101B100 then Inr None
        else let add_value = push_bit (if add AND push_bit 22 1 \<noteq> 0 then 12 else 0) (drop_bit 10 add AND 0xFFF);
                 load_value = (drop_bit 10 load AND 0xFFF) * 8
             in Inr (Some (decode_adrp (pc + 12) adrp + add_value + load_value))))"

definition found :: "'a option \<Rightarrow> 'a res" where
  "found r = (case r of None \<Rightarrow> Inl Runtime_Error | Some x \<Rightarrow> Inr x)"

definition find_boot_args_pointer :: "'p net \<Rightarrow> int \<Rightarrow> int \<Rightarrow> ('p remote, int) io" where
  "find_boot_args_pointer net start sz =
     bindM (scan_text net start sz match_boot_args) (\<lambda>r. resM (found r))"

definition csr_tail :: "int list" where
  "csr_tail = [0x12003109, 0x321D012A, 0x5280022B, 0x6A0B011F, 0x1A8A0128, 0x6A28001F, 0x1A9F07E0, 0xD65F03C0]"

definition match_csr :: "int matcher" where
  "match_csr data position pc =
     (if position + 40 > int (length data) then Inr None
      else bindR (unpack_us [4, 4, 4, 4, 4, 4, 4, 4, 4, 4] data position) (\<lambda>w.
        let adrp = w ! 0; load = w ! 1; logical_mask = w ! 2 in
        if logical_mask AND 0xFF8003FF \<noteq> 0x12000109 \<or> drop 3 w \<noteq> drop 1 csr_tail then Inr None
        else if adrp AND 0x9F00001F \<noteq> 0x90000008 then Inr None
        else if load AND 0xFFC003FF \<noteq> 0xB9400108 then Inr None
        else Inr (Some (decode_adrp pc adrp + (drop_bit 10 load AND 0xFFF) * 4))))"

definition find_csr_config :: "'p net \<Rightarrow> int \<Rightarrow> int \<Rightarrow> ('p remote, int) io" where
  "find_csr_config net start sz = bindM (scan_text net start sz match_csr) (\<lambda>r. resM (found r))"

subsection \<open>The boot arguments\<close>

definition looks_like_boot_args :: "bytes \<Rightarrow> bool res" where
  "looks_like_boot_args v =
     (if length v < 128 then Inr False
      else bindR (unpack_us [2, 2] v 0) (\<lambda>rv.
        bindR (u64x4 v 8) (\<lambda>(virtual_base, physical_base, memory_size, top').
        bindR (u64 v 96) (\<lambda>device_tree.
        bindR (u32 v 104) (\<lambda>device_tree_length.
        let command = before_nul (py_slice v 108 128) in
        Inr (1 \<le> rv ! 0 \<and> rv ! 0 \<le> 4 \<and> 1 \<le> rv ! 1 \<and> rv ! 1 \<le> 2
          \<and> virtual_base AND 0xFFF = 0 \<and> physical_base AND 0xFFF = 0
          \<and> push_bit 20 128 \<le> memory_size \<and> memory_size \<le> push_bit 40 1
          \<and> physical_base \<le> top' \<and> top' \<le> physical_base + memory_size
          \<and> 0xFFFF000000000000 \<le> device_tree
          \<and> 0 < device_tree_length \<and> device_tree_length \<le> push_bit 20 64
          \<and> list_all (\<lambda>b. 0x20 \<le> uint b \<and> uint b \<le> 0x7E) command))))))"

definition live_segments :: "segs \<Rightarrow> int \<Rightarrow> segs" where
  "live_segments segs slide = map (\<lambda>(name, address, sz). (name, address + slide, sz)) segs"

definition read_data_segment :: "'p net \<Rightarrow> pstr \<times> int \<times> int \<Rightarrow> (int \<times> bytes) list \<Rightarrow> ('p remote, (int \<times> bytes) list) io" where
  "read_data_segment net = (\<lambda>(name, address, sz) ds.
     if (prefix (pstr_of ''__DATA'') name \<or> prefix (pstr_of ''__BOOTDATA'') name) \<and> sz \<le> push_bit 20 64
     then bindM (read_memory net address sz) (\<lambda>contents. retM (ds @ [(address, contents)]))
     else retM ds)"

text \<open>The pointers of the data segments, first occurrences only: those out of the image, and those into its data.\<close>

type_synonym slots = "(int \<times> int) list"

definition classify_pointer ::
    "int \<Rightarrow> int \<Rightarrow> (int \<times> bytes) list \<Rightarrow> int \<Rightarrow> bytes \<Rightarrow> int \<Rightarrow> slots \<times> slots \<Rightarrow> (slots \<times> slots) res" where
  "classify_pointer image_start image_end ds address contents offset = (\<lambda>(external, internal).
     bindR (u64 contents offset) (\<lambda>target.
     if target < 0xFFFF000000000000 then Inr (external, internal)
     else let points_into_data = list_ex (\<lambda>(start, d). start \<le> target \<and> target < start + int (length d)) ds in
       if target < image_start \<or> target \<ge> image_end then
         Inr (if target \<notin> snd ` set external then (external @ [(address + offset, target)], internal)
              else (external, internal))
       else if points_into_data \<and> target \<notin> snd ` set internal then
         Inr (external, internal @ [(address + offset, target)])
       else Inr (external, internal)))"

definition pointer_offsets :: "bytes \<Rightarrow> int list" where
  "pointer_offsets contents = map (\<lambda>k. 8 * int k) [0..<nat ((int (length contents) - 7 + 7) div 8)]"

definition collect_pointers :: "int \<Rightarrow> int \<Rightarrow> (int \<times> bytes) list \<Rightarrow> (slots \<times> slots) res" where
  "collect_pointers image_start image_end ds =
     foldR (\<lambda>(address, contents). foldR (classify_pointer image_start image_end ds address contents)
       (pointer_offsets contents)) ds ([], [])"

definition held_bytes :: "(int \<times> bytes) list \<Rightarrow> int \<Rightarrow> bytes option" where
  "held_bytes ds target =
     map_option (\<lambda>(address, contents). py_slice contents (target - address) (target - address + 128))
       (find (\<lambda>(address, contents). 0 \<le> target - address \<and> target - address + 128 \<le> int (length contents)) ds)"

definition try_candidate :: "'p net \<Rightarrow> (int \<times> bytes) list \<Rightarrow> int \<times> int \<Rightarrow> ('p remote, int option) io" where
  "try_candidate net ds = (\<lambda>(slot, target).
     bindM (case held_bytes ds target of
              Some v \<Rightarrow> retM (Some v)
            | None \<Rightarrow> catchM Os_Error (bindM (read_memory net target 128) (\<lambda>v. retM (Some v))) (retM None)) (\<lambda>v.
     case v of None \<Rightarrow> retM None
     | Some b \<Rightarrow> bindM (resM (looks_like_boot_args b)) (\<lambda>ok. retM (if ok then Some slot else None))))"

definition find_boot_args_pointer_by_data :: "'p net \<Rightarrow> segs \<Rightarrow> int \<Rightarrow> ('p remote, int) io" where
  "find_boot_args_pointer_by_data net segments slide =
     (let live = live_segments segments slide in
      bindM (resM (list_min (map (\<lambda>(_, a, _). a) live))) (\<lambda>image_start.
      bindM (resM (list_max (map (\<lambda>(_, a, sz). a + sz) live))) (\<lambda>image_end.
      bindM (foldM (read_data_segment net) live []) (\<lambda>ds.
      bindM (resM (collect_pointers image_start image_end ds)) (\<lambda>(external, internal).
      bindM (firstM (try_candidate net ds) (external @ internal)) (\<lambda>r. resM (found r)))))))"

subsection \<open>The change of the policy\<close>

definition required_args :: "pstr list" where
  "required_args = map pstr_of [''-arm64e_preview_abi'', ''amfi_get_out_of_my_way=1'', ''ipc_control_port_options=0'']"

definition add_token :: "pstr \<Rightarrow> pstr list \<Rightarrow> pstr list" where
  "add_token token tokens = (if token \<notin> set tokens then tokens @ [token] else tokens)"

definition updated_command :: "bytes \<Rightarrow> bytes res" where
  "updated_command raw =
     (let tokens = fold add_token required_args (str_split (utf8_replace (before_nul raw)));
          updated = utf8_encode (str_join tokens)
      in bindR (guardR (\<not> 1024 \<le> length updated) Runtime_Error) (\<lambda>_. Inr updated))"

definition seg_range :: "segs \<Rightarrow> string \<Rightarrow> (int \<times> int) res" where
  "seg_range segs name = (case map_of segs (pstr_of name) of None \<Rightarrow> Inl Key_Error | Some r \<Rightarrow> Inr r)"

definition patch_runtime_policy :: "'p net \<Rightarrow> int \<Rightarrow> ('p remote, unit) io" where
  "patch_runtime_policy net pc =
     bindM (find_kernel net pc) (\<lambda>(kernel, segments).
     bindM (resM (seg_range segments ''__TEXT'')) (\<lambda>(static_text, _).
     bindM (resM (seg_range segments ''__TEXT_EXEC'')) (\<lambda>(static_exec, exec_size).
     let slide = kernel - static_text; live_exec = static_exec + slide;
         patchfinder_size = min exec_size (32 * 1024 * 1024) in
     bindM (catchM Runtime_Error (find_boot_args_pointer net live_exec patchfinder_size)
              (find_boot_args_pointer_by_data net segments slide)) (\<lambda>boot_args_pointer.
     bindM (find_csr_config net live_exec patchfinder_size) (\<lambda>csr_config.
     bindM (read_memory net boot_args_pointer 8) (\<lambda>b.
     let command_address = le_int b + 0x6C in
     bindM (read_memory net command_address 1024) (\<lambda>raw.
     bindM (resM (updated_command raw)) (\<lambda>updated.
     bindM (write_memory net command_address (updated @ [0])) (\<lambda>_.
     write_memory net csr_config (le_bytes 4 0xFFF))))))))))"

subsection \<open>The session\<close>

text \<open>The fields of a stop reply, and the program counter in register 0x20.\<close>

definition stop_fields :: "bytes \<Rightarrow> (bytes \<times> bytes) list" where
  "stop_fields t =
     fold (\<lambda>f fields. if 0x3A \<in> set f
             then AList.update (takeWhile (\<lambda>b. b \<noteq> 0x3A) f) (drop 1 (dropWhile (\<lambda>b. b \<noteq> 0x3A) f)) fields else fields)
       (split_at 0x2C (map (\<lambda>b. if b = 0x3B then 0x2C else b) t)) []"

definition stop_pc :: "bytes \<Rightarrow> int res" where
  "stop_pc response =
     bindR (ascii_strict response) (\<lambda>t.
     case map_of (stop_fields t) (ascii ''20'') of
       None \<Rightarrow> Inl Runtime_Error
     | Some v \<Rightarrow> bindR (from_hex v) (\<lambda>b. Inr (le_int b)))"

fun run_to_kernel :: "'p net \<Rightarrow> nat \<Rightarrow> bytes \<Rightarrow> ('p remote, int) io" where
  "run_to_kernel net 0 stop_response = raiseM Runtime_Error"
| "run_to_kernel net (Suc n) stop_response =
     bindM (resM (stop_pc stop_response)) (\<lambda>pc.
     if pc \<ge> 0xFFFF000000000000 then retM pc
     else bindM (putM (\<lambda>r. r\<lparr>peer := net_timeout net 60 (peer r)\<rparr>)) (\<lambda>_.
       bindM (request net (ascii ''c'')) (\<lambda>stop.
       bindM (putM (\<lambda>r. r\<lparr>peer := net_timeout net 5 (peer r)\<rparr>)) (\<lambda>_.
       run_to_kernel net n stop))))"

definition probe_session :: "'p net \<Rightarrow> bool \<Rightarrow> bool \<Rightarrow> ('p remote, unit) io" where
  "probe_session net continue_until_kernel policy =
     bindM (start_no_ack_mode net) (\<lambda>_.
     bindM (request net (ascii ''qSupported'')) (\<lambda>_.
     bindM (request net (ascii ''?'')) (\<lambda>stop_response.
     if continue_until_kernel \<or> policy then
       bindM (run_to_kernel net 8 stop_response) (\<lambda>pc.
       if policy then patch_runtime_policy net pc else retM ())
     else retM ())))"

definition probe_main :: "'p net \<Rightarrow> 'p \<Rightarrow> bool \<Rightarrow> bool \<Rightarrow> (unit res \<times> 'p remote) option" where
  "probe_main net p continue_until_kernel policy =
     (case open_remote net p of
        None \<Rightarrow> None
      | Some (Inl e, r) \<Rightarrow> Some (Inl e, r)
      | Some (Inr _, r) \<Rightarrow> finallyM (probe_session net continue_until_kernel policy) (close_remote net) r)"

subsection \<open>Unicode scalar values\<close>

definition scalar :: "int \<Rightarrow> bool" where
  "scalar c \<longleftrightarrow> 0 < c \<and> (c < 0xD800 \<or> 0xE000 \<le> c \<and> c < 0x110000)"

lemma continue_seq_0: "continue_seq (Suc 0) r cp k bs = (c, n) \<Longrightarrow>
    c = 0xFFFD \<or> (\<exists>b. fst r \<le> b \<and> b \<le> snd r \<and> c = 64 * cp + (b - 0x80))"
  by (cases bs) (auto split: if_splits)

lemma continue_seq_Suc: "continue_seq (Suc n) r cp k bs = (c, m) \<Longrightarrow>
    c = 0xFFFD \<or> (\<exists>b bs'. fst r \<le> b \<and> b \<le> snd r
      \<and> continue_seq n (0x80, 0xBF) (64 * cp + (b - 0x80)) (Suc k) bs' = (c, m))"
  by (cases bs) (auto split: if_splits)

lemma decode_one_scalar:
  assumes "decode_one a bs = (c, n)" "0 < a" "a < 256"
  shows "scalar c"
proof -
  consider "c = a" "a < 0x80" | "c = 0xFFFD"
    | "continue_seq (seq_length a - 1) (cont_range a) (lead_bits a) 0 bs = (c, n)" "seq_length a \<noteq> 0" "\<not> a < 0x80"
    using assms(1) by (auto simp: decode_one_def split: if_splits)
  then show ?thesis
  proof cases
    case 3
    then consider "0xC2 \<le> a" "a \<le> 0xDF" "continue_seq (Suc 0) (0x80, 0xBF) (a - 0xC0) 0 bs = (c, n)"
      | "0xE0 \<le> a" "a \<le> 0xEF" "continue_seq (Suc (Suc 0)) (cont_range a) (a - 0xE0) 0 bs = (c, n)"
      | "0xF0 \<le> a" "a \<le> 0xF4" "continue_seq (Suc (Suc (Suc 0))) (cont_range a) (a - 0xF0) 0 bs = (c, n)"
      by (auto simp: seq_length_def cont_range_def lead_bits_def eval_nat_numeral split: if_splits)
    then show ?thesis
    proof cases
      case 1
      from continue_seq_0 [OF 1(3)] 1(1,2) show ?thesis by (auto simp: scalar_def)
    next
      case 2
      from continue_seq_Suc [OF 2(3)] 2(1,2) show ?thesis
        by (auto simp: scalar_def cont_range_def dest!: continue_seq_0 split: if_splits)
    next
      case 3
      from continue_seq_Suc [OF 3(3)] 3(1,2) show ?thesis
        by (auto simp: scalar_def cont_range_def dest!: continue_seq_0 continue_seq_Suc split: if_splits)
    qed
  qed (use assms(2) in \<open>auto simp: scalar_def\<close>)
qed

lemma utf8_replace_scalars:
  assumes "\<forall>b \<in> set bs. 0 < b \<and> b < 256"
  shows "list_all scalar (utf8_replace_ints bs)"
  using assms
proof (induction bs rule: utf8_replace_ints.induct)
  case (2 a bs)
  obtain c n where c: "decode_one a bs = (c, n)" by (cases "decode_one a bs")
  have "\<forall>b \<in> set (drop n bs). 0 < b \<and> b < 256" using 2(2) by (auto dest: in_set_dropD)
  then show ?case using 2(1) [OF c [symmetric] refl] decode_one_scalar [OF c] 2(2) c by simp
qed simp

lemma map_uint_bytes: "list_all (\<lambda>v. 0 \<le> v \<and> v < 256) vs \<Longrightarrow> map uint (map word_of_int vs :: bytes) = vs"
  by (induction vs) (simp_all add: uint_of_byte)

lemma div_4096: "c div 4096 = c div 64 div 64" "c div 262144 = c div 64 div 64 div 64" for c :: int
  using zdiv_zmult2_eq [of 64 c 64] zdiv_zmult2_eq [of 4096 c 64] zdiv_zmult2_eq [of 64 "c div 64" 64]
  by (simp_all add: zdiv_zmult2_eq [of 64 c 4096, simplified])

lemma uint_utf8_of:
  assumes "scalar c"
  shows "map uint (utf8_of c) =
      (if c < 0x80 then [c]
        else if c < 0x800 then [0xC0 + c div 64, 0x80 + c mod 64]
        else if c < 0x10000 then [0xE0 + c div 4096, 0x80 + c div 64 mod 64, 0x80 + c mod 64]
        else [0xF0 + c div 262144, 0x80 + c div 4096 mod 64, 0x80 + c div 64 mod 64, 0x80 + c mod 64])"
  unfolding utf8_of_def by (rule map_uint_bytes) (use assms in \<open>auto simp: scalar_def\<close>)

lemma decode_four:
  assumes "fst (cont_range (0xF0 + x)) \<le> 0x80 + y \<and> 0x80 + y \<le> snd (cont_range (0xF0 + x))"
    and "0 \<le> x" "x < 5" "0 \<le> z" "z \<le> 63" "0 \<le> w" "w \<le> 63"
  shows "decode_one (0xF0 + x) ([0x80 + y, 0x80 + z, 0x80 + w] @ bs) = (64 * (64 * (64 * x + y) + z) + w, 3)"
  using assms by (simp add: decode_one_def seq_length_def lead_bits_def eval_nat_numeral)

lemma decode_utf8_of:
  assumes "scalar c" "map uint (utf8_of c) = a # as"
  shows "decode_one a (as @ bs) = (c, length as)"
proof -
  consider "c < 0x80" | "0x80 \<le> c" "c < 0x800" | "0x800 \<le> c" "c < 0x10000" | "0x10000 \<le> c" by linarith
  then show ?thesis
  proof cases
    case 1
    then show ?thesis using assms by (auto simp: uint_utf8_of decode_one_def)
  next
    case 2
    then have a: "a = 0xC0 + c div 64" "as = [0x80 + c mod 64]" using assms by (auto simp: uint_utf8_of)
    have "2 \<le> c div 64" "c div 64 < 32" using 2 by auto
    moreover have "64 * (c div 64) + c mod 64 = c" by simp
    ultimately show ?thesis
      by (simp add: a decode_one_def seq_length_def cont_range_def lead_bits_def eval_nat_numeral)
  next
    case 3
    then have a: "a = 0xE0 + c div 4096" "as = [0x80 + c div 64 mod 64, 0x80 + c mod 64]"
      using assms by (auto simp: uint_utf8_of)
    have r: "0 \<le> c div 4096" "c div 4096 < 16" using 3 by auto
    have "fst (cont_range a) \<le> 0x80 + c div 64 mod 64 \<and> 0x80 + c div 64 mod 64 \<le> snd (cont_range a)"
    proof -
      have e: "64 * (c div 4096) + c div 64 mod 64 = c div 64" by (simp add: div_4096)
      have "32 \<le> c div 64" "c div 64 < 0x360 \<or> 0x380 \<le> c div 64" using 3 assms(1) by (auto simp: scalar_def)
      moreover have "c div 64 mod 64 \<le> 63" "0 \<le> c div 64 mod 64"
        using pos_mod_bound [of 64 "c div 64"] by simp_all
      ultimately show ?thesis using e r by (auto simp: a cont_range_def)
    qed
    moreover have "64 * (64 * (c div 4096) + c div 64 mod 64) + c mod 64 = c"
      by (simp add: div_4096)
    ultimately show ?thesis using r
      by (simp add: a decode_one_def seq_length_def lead_bits_def eval_nat_numeral)
  next
    case 4
    then have a: "a = 0xF0 + c div 262144" "as = [0x80 + c div 4096 mod 64, 0x80 + c div 64 mod 64, 0x80 + c mod 64]"
      using assms by (auto simp: uint_utf8_of)
    have r: "0 \<le> c div 262144" "c div 262144 < 5" using 4 assms(1) by (auto simp: scalar_def)
    have e: "64 * (c div 262144) + c div 4096 mod 64 = c div 4096" "64 * (c div 4096) + c div 64 mod 64 = c div 64"
      by (simp_all add: div_4096)
    have cr: "fst (cont_range (0xF0 + c div 262144)) \<le> 0x80 + c div 4096 mod 64 \<and>
        0x80 + c div 4096 mod 64 \<le> snd (cont_range (0xF0 + c div 262144))"
    proof -
      have "16 \<le> c div 4096" "c div 4096 < 0x110" using 4 assms(1) by (auto simp: scalar_def)
      moreover have "c div 4096 mod 64 \<le> 63" "0 \<le> c div 4096 mod 64"
        using pos_mod_bound [of 64 "c div 4096"] by simp_all
      ultimately show ?thesis using e(1) r by (auto simp: cont_range_def)
    qed
    have z: "0 \<le> c div 64 mod 64" "c div 64 mod 64 \<le> 63" "0 \<le> c mod 64" "c mod 64 \<le> 63"
      using pos_mod_bound [of 64 "c div 64"] pos_mod_bound [of 64 c] by simp_all
    have "64 * (64 * (64 * (c div 262144) + c div 4096 mod 64) + c div 64 mod 64) + c mod 64 = c"
      unfolding e by simp
    moreover have "decode_one a (as @ bs) =
        (64 * (64 * (64 * (c div 262144) + c div 4096 mod 64) + c div 64 mod 64) + c mod 64, 3)"
      unfolding a by (rule decode_four [OF cr r z])
    moreover have "length as = 3" by (simp add: a)
    ultimately show ?thesis by (simp only:)
  qed
qed

lemma utf8_roundtrip:
  assumes "list_all scalar s"
  shows "utf8_replace (utf8_encode s) = s"
proof -
  have "utf8_replace_ints (map uint (utf8_encode s)) = s" using assms
  proof (induction s)
    case (Cons c s)
    obtain a as where a: "map uint (utf8_of c) = a # as" by (cases "map uint (utf8_of c)") (auto simp: utf8_of_def split: if_splits)
    have e: "map uint (utf8_encode (c # s)) = a # as @ map uint (utf8_encode s)"
      using a by (simp add: utf8_encode_def)
    show ?case using Cons decode_utf8_of [OF _ a] by (simp add: e)
  qed (simp add: utf8_encode_def)
  then show ?thesis by (simp add: utf8_replace_def)
qed

subsection \<open>What the boot arguments become\<close>

lemma str_split_words:
  "\<forall>w \<in> set (str_split s). w \<noteq> [] \<and> list_all (\<lambda>c. \<not> str_space c) w \<and> set w \<subseteq> set s"
proof (induction s rule: str_split.induct)
  case (2 c cs)
  show ?case
  proof (cases "str_space c")
    case True
    then show ?thesis using 2(1) by auto
  next
    case False
    let ?t = "takeWhile (\<lambda>d. \<not> str_space d) cs" and ?d = "dropWhile (\<lambda>d. \<not> str_space d) cs"
    have sub: "set ?t \<subseteq> set cs" "set ?d \<subseteq> set cs" by (meson set_takeWhileD set_dropWhileD subsetI)+
    have "list_all (\<lambda>c. \<not> str_space c) ?t" by (auto simp: list_all_iff dest: set_takeWhileD)
    then have "c # ?t \<noteq> [] \<and> list_all (\<lambda>c. \<not> str_space c) (c # ?t) \<and> set (c # ?t) \<subseteq> set (c # cs)"
      using False sub(1) by auto
    moreover have "\<forall>w \<in> set (str_split ?d). w \<noteq> [] \<and> list_all (\<lambda>c. \<not> str_space c) w \<and> set w \<subseteq> set (c # cs)"
      using 2(2) [OF False] sub(2) by (meson order_trans set_subset_Cons)
    moreover have "str_split (c # cs) = (c # ?t) # str_split ?d" using False by simp
    ultimately show ?thesis by (metis set_ConsD)
  qed
qed simp

lemma str_split_word:
  assumes "list_all (\<lambda>c. \<not> str_space c) w" "w \<noteq> []"
  shows "str_split (w @ 32 # s) = w # str_split s" and "str_split w = [w]"
proof -
  obtain c cs where w: "w = c # cs" using assms(2) by (cases w) auto
  have n: "\<not> str_space c" "\<forall>d \<in> set cs. \<not> str_space d" using assms(1) by (auto simp: w list_all_iff)
  have sp: "str_space 32" by code_simp
  show "str_split (w @ 32 # s) = w # str_split s"
    using n sp by (simp add: w takeWhile_append2 dropWhile_append2)
  have "dropWhile (\<lambda>d. \<not> str_space d) cs = []" "takeWhile (\<lambda>d. \<not> str_space d) cs = cs"
    using n(2) by (simp_all add: dropWhile_eq_Nil_conv takeWhile_eq_all_conv)
  then show "str_split w = [w]" unfolding w str_split.simps using n(1) by (simp only: if_False str_split.simps)
qed

lemma str_split_join:
  assumes "\<forall>w \<in> set ws. w \<noteq> [] \<and> list_all (\<lambda>c. \<not> str_space c) w"
  shows "str_split (str_join ws) = ws"
  using assms by (induction ws rule: str_join.induct) (simp_all add: str_split_word)

lemma fold_add_token:
  "distinct ts \<Longrightarrow> fold add_token ts tokens = tokens @ filter (\<lambda>t. t \<notin> set tokens) ts"
proof (induction ts arbitrary: tokens)
  case (Cons t ts)
  have "filter (\<lambda>x. x \<notin> set (add_token t tokens)) ts = filter (\<lambda>x. x \<notin> set tokens) ts"
    using Cons.prems by (auto simp: add_token_def intro!: filter_cong)
  then show ?case using Cons by (simp add: add_token_def)
qed simp

lemma scalar_join: "\<forall>w \<in> set ws. list_all scalar w \<Longrightarrow> list_all scalar (str_join ws)"
  by (induction ws rule: str_join.induct) (auto simp: scalar_def)

lemma utf8_of_nonzero: "scalar c \<Longrightarrow> 0 \<notin> set (utf8_of c)"
proof
  assume c: "scalar c" "0 \<in> set (utf8_of c)"
  then have "0 \<in> set (map uint (utf8_of c))" by (metis image_eqI list.set_map uint_0_eq)
  then show False using c(1) unfolding uint_utf8_of [OF c(1)] by (auto simp: scalar_def split: if_splits)
qed

lemma before_nul_clean: "0 \<notin> set out \<Longrightarrow> before_nul (out @ 0 # r) = out"
  by (induction out) (auto simp: before_nul_def)

text \<open>The tokens of a boot command line as the kernel has it in memory.\<close>

definition boot_tokens :: "bytes \<Rightarrow> pstr list" where
  "boot_tokens raw = str_split (utf8_replace (before_nul raw))"

lemma boot_tokens_words:
  "\<forall>w \<in> set (boot_tokens raw). w \<noteq> [] \<and> list_all (\<lambda>c. \<not> str_space c) w \<and> list_all scalar w"
proof -
  have "0 < uint b \<and> uint b < 256" if "b \<in> set (before_nul raw)" for b
  proof -
    have "b \<noteq> 0" using that by (auto simp: before_nul_def dest: set_takeWhileD)
    then show ?thesis using uint_byte_bounds [of b] unsigned_eq_0_iff [of b] by (metis order_le_less)
  qed
  then have "\<forall>b \<in> set (map uint (before_nul raw)). 0 < b \<and> b < 256" by auto
  then have "list_all scalar (utf8_replace (before_nul raw))"
    unfolding utf8_replace_def by (rule utf8_replace_scalars)
  then show ?thesis using str_split_words [of "utf8_replace (before_nul raw)"]
    unfolding boot_tokens_def list_all_iff by blast
qed

text \<open>C27: The boot arguments written back fit their 1024 bytes with the terminator, hold no NUL of their own, and
read back, whatever stands behind them in memory, as the old tokens in their order followed by exactly the required
ones that were missing; every code point written is a Unicode scalar value.\<close>
theorem boot_arguments_extended:
  assumes "updated_command raw = Inr out"
  shows "length (out @ [0]) \<le> 1024 \<and> 0 \<notin> set out \<and>
    boot_tokens (out @ [0] @ stale) =
      boot_tokens raw @ filter (\<lambda>t. t \<notin> set (boot_tokens raw)) required_args \<and>
    list_all (list_all scalar) (boot_tokens (out @ [0] @ stale)) \<and>
    set required_args \<subseteq> set (boot_tokens (out @ [0] @ stale))"
proof -
  let ?old = "boot_tokens raw" let ?new = "?old @ filter (\<lambda>t. t \<notin> set ?old) required_args"
  have req: "distinct required_args" "list_all (\<lambda>w. w \<noteq> [] \<and> list_all (\<lambda>c. \<not> str_space c) w \<and> list_all scalar w) required_args"
    by code_simp+
  have new: "fold add_token required_args ?old = ?new" by (rule fold_add_token [OF req(1)])
  have w: "\<forall>w \<in> set ?new. w \<noteq> [] \<and> list_all (\<lambda>c. \<not> str_space c) w \<and> list_all scalar w"
    using boot_tokens_words [of raw] req(2) by (auto simp: list_all_iff)
  have out: "out = utf8_encode (str_join ?new)" "length out < 1024"
    using assms unfolding updated_command_def Let_def boot_tokens_def [symmetric] new by (auto simp: bindR_Inr_iff)
  have sc: "list_all scalar (str_join ?new)" using w by (intro scalar_join) blast
  have nz: "0 \<notin> set out" using sc utf8_of_nonzero unfolding out(1) by (auto simp: utf8_encode_def list_all_iff)
  have "boot_tokens (out @ [0] @ stale) = str_split (str_join ?new)"
    using before_nul_clean [OF nz] utf8_roundtrip [OF sc] by (simp add: boot_tokens_def out(1))
  also have "\<dots> = ?new" by (rule str_split_join) (use w in blast)
  finally have b: "boot_tokens (out @ [0] @ stale) = ?new" .
  have "list_all (list_all scalar) ?new" using w unfolding list_all_iff by blast
  then show ?thesis unfolding b using out(2) nz by auto
qed

lemma boot_arguments_extended_witness:
  "boot_tokens (ascii ''debug=1 -arm64e_preview_abi amfi_get_out_of_my_way=1 ipc_control_port_options=0'' @ [0] @ [65])
     = map pstr_of [''debug=1'', ''-arm64e_preview_abi'', ''amfi_get_out_of_my_way=1'', ''ipc_control_port_options=0'']"
proof -
  have "updated_command (ascii ''debug=1  -arm64e_preview_abi'' @ [0, 66]) =
      Inr (ascii ''debug=1 -arm64e_preview_abi amfi_get_out_of_my_way=1 ipc_control_port_options=0'')"
    by code_simp
  moreover have "boot_tokens (ascii ''debug=1  -arm64e_preview_abi'' @ [0, 66]) = map pstr_of [''debug=1'', ''-arm64e_preview_abi'']"
    by code_simp
  moreover have "filter (\<lambda>t. t \<notin> set (map pstr_of [''debug=1'', ''-arm64e_preview_abi''])) required_args
      = map pstr_of [''amfi_get_out_of_my_way=1'', ''ipc_control_port_options=0'']" by code_simp
  ultimately show ?thesis
    using boot_arguments_extended [of "ascii ''debug=1  -arm64e_preview_abi'' @ [0, 66]" _ "[65]"] by simp
qed

end
