(* ===== verification/Bc_Resolver.thy ===== *)
theory Bc_Resolver
  imports Arm64
begin

text \<open>
  \<^verbatim>\<open>scripts/development/check-native-bc-resolver.py\<close>: the structural match of the AGX driver's format chooser and
  the check of the descriptor records it returns. \<^verbatim>\<open>main\<close> is given what reading each file gave; printing is left out.
\<close>

subsection \<open>The instruction pattern\<close>

definition add_immediate :: "int \<Rightarrow> int \<Rightarrow> int \<Rightarrow> bool" where
  "add_immediate insn destination source \<longleftrightarrow>
     insn AND 0xFFC003FF = 0x91000000 OR destination OR push_bit 5 source"

definition is_adrp :: "int \<Rightarrow> int \<Rightarrow> bool" where
  "is_adrp insn destination \<longleftrightarrow> insn AND 0x9F00001F = 0x90000000 OR destination"

definition chooser_match :: "int list \<Rightarrow> int option" where
  "chooser_match code =
     (if code ! 0 \<notin> {0x51000410, 0xD1000410} then None
      else let first_compare = (if code ! 0 = 0xD1000410 then 0xF100021F else 0x7100021F) in
        if code ! 1 AND 0xFFC003FF \<noteq> first_compare then None
        else if code ! 2 AND 0xFF00001F \<noteq> 0x54000008 then None
        else if \<not> is_adrp (code ! 3) 0 \<or> \<not> add_immediate (code ! 4) 0 0 then None
        else if code ! 5 AND 0xFFC003FF \<noteq> 0xF100021F then None
        else if \<not> (code ! 6 = 0x9A9F9210 \<and> is_adrp (code ! 7) 17 \<and> add_immediate (code ! 8) 17 17
                  \<and> code ! 9 = 0xB8B07A30 \<and> code ! 10 = 0x10000011 \<and> code ! 11 = 0x8B100230
                  \<and> code ! 12 = 0xD61F0200) then None
        else let first_limit = drop_bit 10 (code ! 1) AND 0xFFF; second_limit = drop_bit 10 (code ! 5) AND 0xFFF in
          if first_limit = 0 \<or> first_limit \<noteq> second_limit then None else Some (first_limit + 2))"

subsection \<open>The layout of the image\<close>

type_synonym range4 = "int \<times> int \<times> int \<times> int"
type_synonym text_range = "int \<times> int \<times> int"

definition rstrip_nul :: "bytes \<Rightarrow> bytes" where
  "rstrip_nul bs = rev (dropWhile (\<lambda>b. b = 0) (rev bs))"

definition text_section :: "bytes \<Rightarrow> int \<Rightarrow> text_range option \<Rightarrow> text_range option res" where
  "text_section data so found =
     (let section_name = rstrip_nul (py_slice data so (so + 16));
          segment_name = rstrip_nul (py_slice data (so + 16) (so + 32))
      in if section_name = ascii ''__text'' \<and> segment_name = ascii ''__TEXT'' then
           bindR (unpack_us [8, 8, 4] data (so + 32)) (\<lambda>w.
           let address = w ! 0; sz = w ! 1; offset = w ! 2 in
           bindR (guardR (\<not> (offset + sz > int (length data) \<or> sz mod 4 \<noteq> 0)) Value_Error) (\<lambda>_.
           Inr (Some (offset, sz, address))))
         else Inr found)"

definition layout_command ::
    "bytes \<Rightarrow> int \<Rightarrow> int \<Rightarrow> int \<Rightarrow> text_range option \<times> range4 list \<Rightarrow> (text_range option \<times> range4 list) res" where
  "layout_command data command command_size off = (\<lambda>(found, segments).
     bindR (guardR (\<not> (command_size < 8 \<or> off + command_size > int (length data))) Value_Error) (\<lambda>_.
     if command = LC_SEGMENT_64 then
       bindR (u64x4 data (off + 24)) (\<lambda>(va, vs, fo, fs).
       bindR (u32 data (off + 64)) (\<lambda>section_count.
       bindR (foldR (text_section data) (sect_offs off section_count) found) (\<lambda>found'.
       Inr (found', segments @ [(va, vs, fo, fs)]))))
     else Inr (found, segments)))"

definition macho_layout :: "bytes \<Rightarrow> (text_range \<times> range4 list) res" where
  "macho_layout data =
     bindR (guardR (32 \<le> length data) Value_Error) (\<lambda>_.
     bindR (u32 data 0) (\<lambda>magic.
     bindR (guardR (magic = MH_MAGIC_64) Value_Error) (\<lambda>_.
     bindR (u32 data 16) (\<lambda>command_count.
     bindR (for_cmds (\<lambda>_. data) (layout_command data) (nat command_count) 32 (None, [])) (\<lambda>(found, segments).
     case found of None \<Rightarrow> Inl Value_Error | Some t \<Rightarrow> Inr (t, segments))))))"

definition vm_bytes :: "bytes \<Rightarrow> range4 list \<Rightarrow> int \<Rightarrow> int \<Rightarrow> bytes res" where
  "vm_bytes data segments address sz =
     (case find (\<lambda>(va, _, _, fs). va \<le> address \<and> address + sz \<le> va + fs) segments of
        None \<Rightarrow> Inl Value_Error
      | Some (va, _, fo, _) \<Rightarrow> (let offset = fo + address - va in Inr (py_slice data offset (offset + sz))))"

subsection \<open>Descriptors\<close>

definition bc_sign_extend :: "int \<Rightarrow> nat \<Rightarrow> int" where
  "bc_sign_extend v width = (let sign = push_bit (width - 1) 1 in (v XOR sign) - sign)"

definition descriptor_hash :: "bytes \<Rightarrow> int" where
  "descriptor_hash record =
     fold (\<lambda>b result. (result XOR uint b) * 1099511628211 AND 0xFFFFFFFFFFFFFFFF) record 14695981039346656037"

definition bc_adrp_target :: "int \<Rightarrow> int \<Rightarrow> int" where
  "bc_adrp_target pc insn =
     (let immediate = push_bit 2 (drop_bit 5 insn AND 0x7FFFF) OR (drop_bit 29 insn AND 3)
      in (pc AND NOT 0xFFF) + push_bit 12 (bc_sign_extend immediate 21))"

definition add_value :: "int \<Rightarrow> int" where
  "add_value insn = push_bit (if insn AND push_bit 22 1 \<noteq> 0 then 12 else 0) (drop_bit 10 insn AND 0xFFF)"

text \<open>\<^verbatim>\<open>first, second = instructions[i : i + 2]\<close>.\<close>

definition two_at :: "int list \<Rightarrow> int \<Rightarrow> (int \<times> int) res" where
  "two_at instructions i =
     (case py_slice instructions i (i + 2) of [a, b] \<Rightarrow> Inr (a, b) | _ \<Rightarrow> Inl Value_Error)"

definition unpack_i32 :: "bytes \<Rightarrow> int res" where
  "unpack_i32 b = (if length b = 4 then i32 b 0 else Inl Struct_Error)"

definition table_entry :: "bytes \<Rightarrow> range4 list \<Rightarrow> int list \<Rightarrow> int \<Rightarrow> int \<Rightarrow> int \<Rightarrow> int res" where
  "table_entry data segments instructions chooser_address chooser_index format_value =
     bindR (py_index instructions (chooser_index + 7)) (\<lambda>w7.
     bindR (py_index instructions (chooser_index + 8)) (\<lambda>w8.
     let table_address = bc_adrp_target (chooser_address + 7 * 4) w7 + add_value w8 in
     bindR (vm_bytes data segments (table_address + (format_value - 1) * 4) 4) unpack_i32))"

definition chooser_target :: "bytes \<Rightarrow> range4 list \<Rightarrow> int list \<Rightarrow> int \<Rightarrow> int \<Rightarrow> int \<Rightarrow> int res" where
  "chooser_target data segments instructions text_address chooser_index format_value =
     (let chooser_address = text_address + chooser_index * 4 in
      if format_value = 0 then Inr (chooser_index + 16)
      else bindR (table_entry data segments instructions chooser_address chooser_index format_value) (\<lambda>entry.
        let target_address = chooser_address + 10 * 4 + entry in
        Inr (chooser_index + (target_address - chooser_address) div 4)))"

definition descriptor_for_format :: "bytes \<Rightarrow> range4 list \<Rightarrow> int list \<Rightarrow> int \<Rightarrow> int \<Rightarrow> int \<Rightarrow> int res" where
  "descriptor_for_format data segments instructions text_address chooser_index format_value =
     bindR (chooser_target data segments instructions text_address chooser_index format_value) (\<lambda>target_index.
     bindR (two_at instructions target_index) (\<lambda>(a, b).
     bindR (if a = 0xD65F03C0 then
              bindR (two_at instructions (chooser_index + 3)) (\<lambda>(c, d).
              Inr (c, d, text_address + (chooser_index + 3) * 4))
            else Inr (a, b, text_address + target_index * 4)) (\<lambda>(first, second, target_pc).
     bindR (guardR (is_adrp first 0 \<and> add_immediate second 0 0) Value_Error) (\<lambda>_.
     Inr (bc_adrp_target target_pc first + add_value second)))))"

subsection \<open>The inspection\<close>

datatype bc_state = Native | Absent

definition chooser_at :: "int list \<Rightarrow> int \<Rightarrow> nat \<Rightarrow> (int \<times> int \<times> int) option" where
  "chooser_at instructions address index =
     (case chooser_match (take 18 (drop index instructions)) of
        None \<Rightarrow> None
      | Some cnt \<Rightarrow>
         let branch_words = drop_bit 5 (instructions ! (index + 2)) AND 0x7FFFF;
             branch_words = (if branch_words AND 0x40000 \<noteq> 0 then branch_words - 0x80000 else branch_words);
             target = int index + 2 + branch_words
         in if \<not> (0 \<le> target \<and> target \<le> int (length instructions) - 3) then None
            else if \<not> (is_adrp (instructions ! nat target) 0 \<and> add_immediate (instructions ! nat (target + 1)) 0 0
                      \<and> instructions ! nat (target + 2) = 0xD65F03C0) then None
            else Some (address + int index * 4, cnt, int index))"

definition choosers :: "int list \<Rightarrow> int \<Rightarrow> (int \<times> int \<times> int) list" where
  "choosers instructions address = List.map_filter (chooser_at instructions address) [0..<length instructions - 17]"

definition probes :: "int list" where
  "probes = [1, 10, 30, 70, 80, 115, 170, 180, 204]"

definition bc_formats :: "int list" where
  "bc_formats = [130, 131, 132, 133, 134, 135, 140, 141, 142, 143, 150, 151, 152, 153]"

definition expected_hashes :: "(int \<times> int) list" where
  "expected_hashes = [(170, 0x96C7F2141F60B4C2), (180, 0xE095D5CB46537E57), (204, 0xD0CB277563853582)]"

definition adjacent_pairs :: "int list \<Rightarrow> nat" where
  "adjacent_pairs records =
     length (filter (\<lambda>(i, j). \<bar>records ! i - records ! j\<bar> = 0x60)
       (concat (map (\<lambda>i. map (\<lambda>j. (i, j)) [0..<i]) [0..<length records])))"

text \<open>The records are file-backed.\<close>

definition backed :: "bytes \<Rightarrow> range4 list \<Rightarrow> int \<Rightarrow> unit \<Rightarrow> unit res" where
  "backed data segments record _ = bindR (vm_bytes data segments record 0x60) (\<lambda>_. Inr ())"

definition check_hash :: "bytes \<Rightarrow> range4 list \<Rightarrow> (int \<Rightarrow> int res) \<Rightarrow> int \<times> int \<Rightarrow> unit \<Rightarrow> unit res" where
  "check_hash data segments descriptor = (\<lambda>(format_value, expected) _.
     bindR (descriptor format_value) (\<lambda>record.
     bindR (vm_bytes data segments record 0x60) (\<lambda>b.
     guardR (descriptor_hash b = expected) Value_Error)))"

definition inspect :: "bytes \<Rightarrow> (int \<times> int \<times> bc_state) res" where
  "inspect data =
     bindR (macho_layout data) (\<lambda>((offset, sz, address), segments).
     bindR (unpack_us (replicate (nat (sz div 4)) 4) data offset) (\<lambda>instructions.
     case choosers instructions address of
       [(chooser_address, cnt, chooser_index)] \<Rightarrow>
         (let descriptor = descriptor_for_format data segments instructions address chooser_index in
          bindR (descriptor 0) (\<lambda>invalid.
          bindR (mapR descriptor probes) (\<lambda>records.
          bindR (guardR (\<not> list_ex (\<lambda>record. record = invalid) records) Value_Error) (\<lambda>_.
          bindR (guardR (2 \<le> adjacent_pairs records) Value_Error) (\<lambda>_.
          bindR (foldR (backed data segments) (invalid # records) ()) (\<lambda>_.
          bindR (foldR (check_hash data segments descriptor) expected_hashes ()) (\<lambda>_.
          bindR (mapR descriptor bc_formats) (\<lambda>bc_records.
          let invalid_count = length (filter (\<lambda>record. record = invalid) bc_records) in
          bindR (guardR (invalid_count = 0 \<or> invalid_count = length bc_records) Value_Error) (\<lambda>_.
          bindR (foldR (backed data segments) bc_records ()) (\<lambda>_.
          Inr (chooser_address, cnt, if invalid_count = 0 then Native else Absent)))))))))))
     | _ \<Rightarrow> Inl Value_Error))"

text \<open>One file of the command line, and the exit status; other exceptions end the run.\<close>

definition inspect_file :: "bytes res \<Rightarrow> bool \<Rightarrow> bool res" where
  "inspect_file contents failed =
     (case bindR contents inspect of
        Inr _ \<Rightarrow> Inr failed
      | Inl e \<Rightarrow> if e \<in> {Os_Error, Value_Error, Struct_Error} then Inr True else Inl e)"

definition resolver_main :: "bytes res list \<Rightarrow> int res" where
  "resolver_main files = bindR (foldR inspect_file files False) (\<lambda>failed. Inr (if failed then 1 else 0))"

subsection \<open>The driver's own code\<close>

text \<open>
  The instructions of the chooser, run as the processor runs them: 64-bit registers that wrap around, a program
  counter that must be aligned and inside the code, and loads from the image as its segments map it.
\<close>

record cpu =
  cpu_pc :: "64 word"
  cpu_x0 :: "64 word"
  cpu_x16 :: "64 word"
  cpu_x17 :: "64 word"
  cpu_hi :: bool

definition fetch :: "int list \<Rightarrow> int \<Rightarrow> 64 word \<Rightarrow> int option" where
  "fetch ins text pc =
     (let d = uint pc - text in
      if 0 \<le> d \<and> d mod 4 = 0 \<and> d div 4 < int (length ins) then Some (ins ! nat (d div 4)) else None)"

definition imm12 :: "int \<Rightarrow> 64 word" where
  "imm12 w = word_of_int (drop_bit 10 w AND 0xFFF)"

definition adrp_value :: "64 word \<Rightarrow> int \<Rightarrow> 64 word" where
  "adrp_value pc w =
     word_of_int (uint pc div 4096 * 4096
       + 4096 * signed_take_bit 20 (push_bit 2 (drop_bit 5 w AND 0x7FFFF) OR (drop_bit 29 w AND 3)))"

definition advance :: "cpu \<Rightarrow> cpu" where
  "advance s = s\<lparr>cpu_pc := cpu_pc s + 4\<rparr>"

definition exec :: "bytes \<Rightarrow> range4 list \<Rightarrow> int \<Rightarrow> cpu \<Rightarrow> cpu option" where
  "exec data segments w s =
     (if is_adrp w 0 then Some (advance (s\<lparr>cpu_x0 := adrp_value (cpu_pc s) w\<rparr>))
      else if is_adrp w 17 then Some (advance (s\<lparr>cpu_x17 := adrp_value (cpu_pc s) w\<rparr>))
      else if add_immediate w 0 0 then Some (advance (s\<lparr>cpu_x0 := cpu_x0 s + imm12 w\<rparr>))
      else if add_immediate w 17 17 then Some (advance (s\<lparr>cpu_x17 := cpu_x17 s + imm12 w\<rparr>))
      else if w AND 0xFFC003FF = 0xF100021F then
        Some (advance (s\<lparr>cpu_hi := imm12 w < cpu_x16 s\<rparr>))
      else if w AND 0xFFC003FF = 0x7100021F then
        Some (advance (s\<lparr>cpu_hi := imm12 w < (ucast (ucast (cpu_x16 s) :: 32 word) :: 64 word)\<rparr>))
      else if w AND 0xFF00001F = 0x54000008 then
        Some (if cpu_hi s
              then s\<lparr>cpu_pc := cpu_pc s + word_of_int (4 * signed_take_bit 18 (drop_bit 5 w AND 0x7FFFF))\<rparr>
              else advance s)
      else if w = 0xD1000410 then Some (advance (s\<lparr>cpu_x16 := cpu_x0 s - 1\<rparr>))
      else if w = 0x51000410 then
        Some (advance (s\<lparr>cpu_x16 := ucast (ucast (cpu_x0 s) - 1 :: 32 word)\<rparr>))
      else if w = 0x9A9F9210 then Some (advance (if cpu_hi s then s\<lparr>cpu_x16 := 0\<rparr> else s))
      else if w = 0xB8B07A30 then
        (case vm_bytes data segments (uint (cpu_x17 s + 4 * cpu_x16 s)) 4 of
           Inl _ \<Rightarrow> None
         | Inr b \<Rightarrow> if length b = 4 then Some (advance (s\<lparr>cpu_x16 := word_of_int (to_signed 4 (le_int b))\<rparr>)) else None)
      else if w = 0x10000011 then Some (advance (s\<lparr>cpu_x17 := cpu_pc s\<rparr>))
      else if w = 0x8B100230 then Some (advance (s\<lparr>cpu_x16 := cpu_x17 s + cpu_x16 s\<rparr>))
      else if w = 0xD61F0200 then Some (s\<lparr>cpu_pc := cpu_x16 s\<rparr>)
      else None)"

fun run_driver :: "bytes \<Rightarrow> range4 list \<Rightarrow> int list \<Rightarrow> int \<Rightarrow> nat \<Rightarrow> cpu \<Rightarrow> cpu option" where
  "run_driver data segments ins text 0 s = Some s"
| "run_driver data segments ins text (Suc n) s =
     (case fetch ins text (cpu_pc s) of
        None \<Rightarrow> None
      | Some w \<Rightarrow> (case exec data segments w s of
          None \<Rightarrow> None
        | Some t \<Rightarrow> run_driver data segments ins text n t))"

lemma and_weaken: "w AND m = c \<Longrightarrow> m AND k = k \<Longrightarrow> w AND k = c AND k" for w :: int
  by (metis and.assoc)

lemma sign_extend_21: "0 \<le> v \<Longrightarrow> v < 2 ^ 21 \<Longrightarrow> bc_sign_extend v 21 = signed_take_bit 20 v"
proof -
  assume v: "0 \<le> v" "v < 2 ^ 21"
  have "v XOR push_bit 20 1 = flip_bit 20 v" by (simp add: flip_bit_eq_xor)
  also have "\<dots> = (if bit v 20 then v - 2 ^ 20 else v + 2 ^ 20)"
    by (simp add: flip_bit_eq_if set_bit_eq unset_bit_eq)
  finally have x: "bc_sign_extend v 21 = (if bit v 20 then v - 2 ^ 21 else v)"
    by (simp add: bc_sign_extend_def push_bit_eq_mult)
  have "take_bit (Suc 20) v = v" using v by (simp add: take_bit_int_eq_self_iff)
  then show ?thesis unfolding x by (simp add: signed_take_bit_eq_take_bit_minus)
qed

lemma adrp_imm_range:
  "0 \<le> push_bit 2 (drop_bit 5 w AND 0x7FFFF) OR (drop_bit 29 w AND 3) \<and>
   push_bit 2 (drop_bit 5 w AND 0x7FFFF) OR (drop_bit 29 w AND 3) < (2 :: int) ^ 21" for w :: int
proof -
  have a: "push_bit 2 (take_bit 19 k) < 2 ^ 21" "0 \<le> push_bit 2 (take_bit 19 k)" for k :: int
    using take_bit_int_less_exp [of 19 k] by (simp_all add: push_bit_eq_mult)
  have "take_bit 2 (drop_bit 29 w) < 2 ^ 2" by (rule take_bit_int_less_exp)
  then have b: "take_bit 2 (drop_bit 29 w) < 2 ^ 21" by simp
  show ?thesis unfolding imm_masks using OR_upper [OF a(2) a(1) b] a(2) [of "drop_bit 5 w"] by (simp add: or_nonnegative_int_iff)
qed

lemma uint64: "0 \<le> k \<Longrightarrow> k < 2 ^ 64 \<Longrightarrow> uint (word_of_int k :: 64 word) = k"
  by (simp add: uint_word_of_int)

lemma adrp_value_target:
  assumes "0 \<le> pc" "pc < 2 ^ 64"
  shows "adrp_value (word_of_int pc) w = word_of_int (bc_adrp_target pc w)"
proof -
  have "uint (word_of_int pc :: 64 word) = pc" by (rule uint64 [OF assms])
  moreover have "pc AND NOT 0xFFF = pc div 4096 * 4096"
    using page_base_eq [of pc] by (simp add: page_base_def)
  ultimately show ?thesis
    unfolding adrp_value_def bc_adrp_target_def Let_def sign_extend_21 [OF conjunct1 [OF adrp_imm_range] conjunct2 [OF adrp_imm_range]]
    by (simp add: push_bit_eq_mult [of 12] mult.commute)
qed

lemma fetch_at:
  assumes "0 \<le> text" "text + 4 * int (length ins) \<le> 2 ^ 64" "0 \<le> j" "j < int (length ins)"
  shows "fetch ins text (word_of_int (text + 4 * j)) = Some (ins ! nat j)"
proof -
  have "uint (word_of_int (text + 4 * j) :: 64 word) = text + 4 * j"
    by (rule uint64) (use assms in auto)
  then show ?thesis using assms by (simp add: fetch_def)
qed

lemma exec_adrp: "is_adrp w 0 \<Longrightarrow> exec data segs w s = Some (advance (s\<lparr>cpu_x0 := adrp_value (cpu_pc s) w\<rparr>))"
  "is_adrp w 17 \<Longrightarrow> exec data segs w s = Some (advance (s\<lparr>cpu_x17 := adrp_value (cpu_pc s) w\<rparr>))"
  by (simp_all add: exec_def is_adrp_def)

lemma masked_not_adrp:
  assumes "w AND 0xFFC003FF = c" "c AND 0x9F00001F \<notin> {0x90000000, 0x90000011}"
  shows "\<not> is_adrp w 0 \<and> \<not> is_adrp w 17"
  using and_weaken [OF assms(1), of "0x9F00001F"] assms(2) by (auto simp: is_adrp_def)

lemma exec_add:
  "add_immediate w 0 0 \<Longrightarrow> exec data segs w s = Some (advance (s\<lparr>cpu_x0 := cpu_x0 s + imm12 w\<rparr>))"
  "add_immediate w 17 17 \<Longrightarrow> exec data segs w s = Some (advance (s\<lparr>cpu_x17 := cpu_x17 s + imm12 w\<rparr>))"
  using masked_not_adrp [of w "0x91000000"] masked_not_adrp [of w "0x91000231"]
  by (simp_all add: exec_def add_immediate_def)

lemma exec_cmp:
  "w AND 0xFFC003FF = 0xF100021F \<Longrightarrow> exec data segs w s = Some (advance (s\<lparr>cpu_hi := imm12 w < cpu_x16 s\<rparr>))"
  "w AND 0xFFC003FF = 0x7100021F \<Longrightarrow> exec data segs w s =
     Some (advance (s\<lparr>cpu_hi := imm12 w < (ucast (ucast (cpu_x16 s) :: 32 word) :: 64 word)\<rparr>))"
  using masked_not_adrp [of w "0xF100021F"] masked_not_adrp [of w "0x7100021F"]
  by (simp_all add: exec_def add_immediate_def)

lemma exec_branch:
  assumes "w AND 0xFF00001F = 0x54000008" "\<not> cpu_hi s"
  shows "exec data segs w s = Some (advance s)"
proof -
  have a: "w AND 0x9F00001F = 0x14000008" using and_weaken [OF assms(1), of "0x9F00001F"] by simp
  have n: "w AND 0xFFC003FF \<noteq> c" if "c AND 0xFF00001F \<noteq> 0x54000008" for c
    using and_weaken [of w "0xFFC003FF" c "0xFF00001F"] assms(1) that by auto
  show ?thesis
    using a n [of "0x91000000"] n [of "0x91000231"] n [of "0xF100021F"] n [of "0x7100021F"] assms
    by (simp add: exec_def is_adrp_def add_immediate_def)
qed

lemma exec_exact:
  "exec data segs 0xD1000410 s = Some (advance (s\<lparr>cpu_x16 := cpu_x0 s - 1\<rparr>))"
  "exec data segs 0x51000410 s = Some (advance (s\<lparr>cpu_x16 := ucast (ucast (cpu_x0 s) - 1 :: 32 word)\<rparr>))"
  "exec data segs 0x9A9F9210 s = Some (advance (if cpu_hi s then s\<lparr>cpu_x16 := 0\<rparr> else s))"
  "exec data segs 0x10000011 s = Some (advance (s\<lparr>cpu_x17 := cpu_pc s\<rparr>))"
  "exec data segs 0x8B100230 s = Some (advance (s\<lparr>cpu_x16 := cpu_x17 s + cpu_x16 s\<rparr>))"
  "exec data segs 0xD61F0200 s = Some (s\<lparr>cpu_pc := cpu_x16 s\<rparr>)"
  by (simp_all add: exec_def is_adrp_def add_immediate_def)

lemma exec_load:
  "vm_bytes data segs (uint (cpu_x17 s + 4 * cpu_x16 s)) 4 = Inr b \<Longrightarrow> length b = 4 \<Longrightarrow>
   exec data segs 0xB8B07A30 s = Some (advance (s\<lparr>cpu_x16 := word_of_int (to_signed 4 (le_int b))\<rparr>))"
  by (simp add: exec_def is_adrp_def add_immediate_def)

lemma chooser_matchE:
  assumes "chooser_match code = Some cnt"
  obtains "code ! 0 = 0x51000410 \<and> code ! 1 AND 0xFFC003FF = 0x7100021F
      \<or> code ! 0 = 0xD1000410 \<and> code ! 1 AND 0xFFC003FF = 0xF100021F"
    "code ! 2 AND 0xFF00001F = 0x54000008" "is_adrp (code ! 3) 0" "add_immediate (code ! 4) 0 0"
    "code ! 5 AND 0xFFC003FF = 0xF100021F" "code ! 6 = 0x9A9F9210" "is_adrp (code ! 7) 17"
    "add_immediate (code ! 8) 17 17" "code ! 9 = 0xB8B07A30" "code ! 10 = 0x10000011"
    "code ! 11 = 0x8B100230" "code ! 12 = 0xD61F0200"
    "drop_bit 10 (code ! 1) AND 0xFFF = cnt - 2" "drop_bit 10 (code ! 5) AND 0xFFF = cnt - 2"
  using assms unfolding chooser_match_def Let_def
  by (simp split: if_splits)

lemma imm12_add_value:
  assumes "w AND 0xFFC003FF = c" "c AND 0x400000 = 0"
  shows "imm12 w = word_of_int (add_value w)"
  using and_weaken [OF assms(1), of "0x400000"] assms(2) by (simp add: imm12_def add_value_def)

lemma add_immediate_value:
  "add_immediate w 0 0 \<Longrightarrow> imm12 w = word_of_int (add_value w)"
  "add_immediate w 17 17 \<Longrightarrow> imm12 w = word_of_int (add_value w)"
  using imm12_add_value [of w "0x91000000"] imm12_add_value [of w "0x91000231"]
  by (simp_all add: add_immediate_def)

lemma two_atE:
  assumes "two_at ins t = Inr (a, b)" "0 \<le> t"
  shows "t + 1 < int (length ins) \<and> a = ins ! nat t \<and> b = ins ! nat (t + 1)"
proof -
  from assms(1) have sl: "py_slice ins t (t + 2) = [a, b]"
    by (auto simp: two_at_def split: list.splits)
  then have "length (py_slice ins t (t + 2)) = 2" by simp
  then have len: "t + 2 \<le> int (length ins)"
    using assms(2) by (auto simp: py_slice_def slice_bound_def Let_def min_def split: if_splits)
  have "py_slice ins t (t + 2) = take 2 (drop (nat t) ins)"
    using py_slice_take_drop [of t "t + 2" ins] assms(2) len by simp
  also have "\<dots> = [ins ! nat t, ins ! nat (t + 1)]"
    using len assms(2) by (auto simp: take_Suc_conv_app_nth eval_nat_numeral nat_add_distrib)
  finally show ?thesis using sl len by simp
qed

lemma vm_bytes_bounds:
  assumes "vm_bytes data segs a n = Inr b" "list_all (\<lambda>(va, _, _, fs). 0 \<le> va \<and> va + fs \<le> 2 ^ 64) segs"
  shows "0 \<le> a \<and> a + n \<le> 2 ^ 64"
proof -
  from assms(1) obtain va vs fo fs where f: "find (\<lambda>(va, _, _, fs). va \<le> a \<and> a + n \<le> va + fs) segs = Some (va, vs, fo, fs)"
    by (auto simp: vm_bytes_def split: option.splits)
  then obtain i where "i < length segs" "segs ! i = (va, vs, fo, fs)" "va \<le> a \<and> a + n \<le> va + fs"
    by (auto simp: find_Some_iff)
  then have "(va, vs, fo, fs) \<in> set segs" "va \<le> a \<and> a + n \<le> va + fs" by (metis nth_mem)+
  then show ?thesis using assms(2) by (auto simp: list_all_iff)
qed

text \<open>The thirteen instructions of the chooser.\<close>

definition driver_start :: "int \<Rightarrow> int \<Rightarrow> cpu" where
  "driver_start chooser_address format_value =
     \<lparr>cpu_pc = word_of_int chooser_address, cpu_x0 = word_of_int format_value, cpu_x16 = 0, cpu_x17 = 0, cpu_hi = False\<rparr>"

lemma driver_step:
  "fetch ins text (cpu_pc s) = Some w \<Longrightarrow> exec data segs w s = Some t \<Longrightarrow>
   run_driver data segs ins text (Suc n) s = run_driver data segs ins text n t"
  by simp

lemma run_append:
  "run_driver data segs ins text m s = Some t \<Longrightarrow>
   run_driver data segs ins text (m + n) s = run_driver data segs ins text n t"
  by (induction m arbitrary: s) (auto split: option.splits)

lemma sub_one:
  assumes "code0 = 0x51000410 \<or> code0 = 0xD1000410" "1 \<le> fv" "fv < 2 ^ 32" "cpu_x0 s = word_of_int fv"
  shows "exec data segs code0 s = Some (advance (s\<lparr>cpu_x16 := word_of_int (fv - 1)\<rparr>))"
proof -
  have "(ucast (ucast (word_of_int fv :: 64 word) - 1 :: 32 word) :: 64 word) = word_of_int (fv - 1)"
  proof -
    have "uint (ucast (word_of_int fv :: 64 word) - 1 :: 32 word) = fv - 1"
      using assms(2,3) by (simp add: uint_word_ariths uint_word_of_int unsigned_ucast_eq take_bit_word_eq_self take_bit_eq_mod)
    then show ?thesis by (metis word_of_int_uint ucast_eq)
  qed
  then show ?thesis using assms(1,4) by (auto simp: exec_exact)
qed

lemma not_above:
  assumes "1 \<le> fv" "fv - 1 \<le> k" "k < 2 ^ 12" "imm12 w = word_of_int k"
  shows "\<not> imm12 w < (word_of_int (fv - 1) :: 64 word)"
    and "\<not> imm12 w < (ucast (ucast (word_of_int (fv - 1) :: 64 word) :: 32 word) :: 64 word)"
proof -
  have k: "uint (word_of_int k :: 64 word) = k" "uint (word_of_int (fv - 1) :: 64 word) = fv - 1"
    by (rule uint64; use assms in simp)+
  then show "\<not> imm12 w < (word_of_int (fv - 1) :: 64 word)"
    using assms unfolding assms(4) word_less_def k by simp
  have "(ucast (ucast (word_of_int (fv - 1) :: 64 word) :: 32 word) :: 64 word) = word_of_int (fv - 1)"
  proof -
    have "uint (ucast (word_of_int (fv - 1) :: 64 word) :: 32 word) = fv - 1"
      using assms k(2) by (simp add: unsigned_ucast_eq take_bit_int_eq_self_iff)
    then show ?thesis by (metis word_of_int_uint ucast_eq)
  qed
  then show "\<not> imm12 w < (ucast (ucast (word_of_int (fv - 1) :: 64 word) :: 32 word) :: 64 word)"
    using assms unfolding assms(4) word_less_def k by (simp only: k)
qed

lemma run_chooser:
  assumes m: "chooser_match (take 18 (drop i ins)) = Some cnt" and len: "i + 17 < length ins"
    and bnd: "0 \<le> text" "text + 4 * int (length ins) \<le> 2 ^ 64"
    and fv: "1 \<le> fv" "fv < cnt"
    and segs: "list_all (\<lambda>(va, _, _, fs). 0 \<le> va \<and> va + fs \<le> 2 ^ 64) segs"
    and entry: "table_entry data segs ins (text + int i * 4) (int i) fv = Inr e"
  obtains t where "run_driver data segs ins text 13 (driver_start (text + int i * 4) fv) = Some t"
    "cpu_pc t = word_of_int (text + 4 * (int i + 10) + e)"
    "cpu_x0 t = word_of_int (bc_adrp_target (text + (int i + 3) * 4) (ins ! (i + 3)) + add_value (ins ! (i + 4)))"
proof -
  have code: "take 18 (drop i ins) ! k = ins ! (i + k)" if "k < 18" for k using that len by simp
  obtain c0: "ins ! i = 0x51000410 \<and> ins ! (i + 1) AND 0xFFC003FF = 0x7100021F
      \<or> ins ! i = 0xD1000410 \<and> ins ! (i + 1) AND 0xFFC003FF = 0xF100021F"
    and c: "ins ! (i + 2) AND 0xFF00001F = 0x54000008" "is_adrp (ins ! (i + 3)) 0" "add_immediate (ins ! (i + 4)) 0 0"
    "ins ! (i + 5) AND 0xFFC003FF = 0xF100021F" "ins ! (i + 6) = 0x9A9F9210" "is_adrp (ins ! (i + 7)) 17"
    "add_immediate (ins ! (i + 8)) 17 17" "ins ! (i + 9) = 0xB8B07A30" "ins ! (i + 10) = 0x10000011"
    "ins ! (i + 11) = 0x8B100230" "ins ! (i + 12) = 0xD61F0200"
    and lim: "drop_bit 10 (ins ! (i + 1)) AND 0xFFF = cnt - 2" "drop_bit 10 (ins ! (i + 5)) AND 0xFFF = cnt - 2"
    using m by (rule chooser_matchE) (use len in simp)
  define A where "A k = (word_of_int (text + 4 * (int i + k)) :: 64 word)" for k
  have step: "A k + 4 = A (k + 1)" for k by (simp add: A_def distrib_left add.assoc)
  have F: "fetch ins text (A (int k)) = Some (ins ! (i + k))" if "k < 18" for k
    using fetch_at [OF bnd, of "int i + int k"] that len unfolding A_def by (simp add: nat_add_distrib)
  have small: "cnt - 2 < 2 ^ 12"
    unfolding lim(1) [symmetric] imm_masks by (rule take_bit_int_less_exp)
  have i12: "imm12 (ins ! (i + 1)) = word_of_int (cnt - 2)" "imm12 (ins ! (i + 5)) = word_of_int (cnt - 2)"
    by (simp_all only: imm12_def lim)
  have le: "fv - 1 \<le> cnt - 2" using fv(2) by simp
  note nh1 = not_above [OF fv(1) le small i12(1)] and nh2 = not_above [OF fv(1) le small i12(2)]
  let ?X = "word_of_int (fv - 1) :: 64 word"
  define v0 where "v0 = adrp_value (A 3) (ins ! (i + 3)) + imm12 (ins ! (i + 4))"
  define T where "T = adrp_value (A 7) (ins ! (i + 7)) + imm12 (ins ! (i + 8))"
  define ta where "ta = bc_adrp_target (text + int i * 4 + 28) (ins ! (i + 7)) + add_value (ins ! (i + 8))"
  have adrp: "adrp_value (A k) w = word_of_int (bc_adrp_target (text + 4 * (int i + k)) w)" if "0 \<le> k" "k < 18" for k w
    unfolding A_def by (rule adrp_value_target) (use that bnd len in auto)
  have iv: "imm12 (ins ! (i + 4)) = word_of_int (add_value (ins ! (i + 4)))"
      "imm12 (ins ! (i + 8)) = word_of_int (add_value (ins ! (i + 8)))"
    by (rule add_immediate_value(1) [OF c(3)], rule add_immediate_value(2) [OF c(7)])
  have v0: "v0 = word_of_int (bc_adrp_target (text + (int i + 3) * 4) (ins ! (i + 3)) + add_value (ins ! (i + 4)))"
    unfolding v0_def adrp [of 3, simplified] iv by (simp add: mult.commute)
  have a7: "adrp_value (A 7) w = word_of_int (bc_adrp_target (text + int i * 4 + 28) w)" for w
    using adrp [of 7 w] by (simp add: algebra_simps)
  have T: "T = word_of_int ta" unfolding T_def ta_def a7 iv by (simp only: of_int_add)
  obtain b where b: "vm_bytes data segs (ta + (fv - 1) * 4) 4 = Inr b" "length b = 4" "e = to_signed 4 (le_int b)"
  proof -
    have "py_index ins (int i + 7) = Inr (ins ! (i + 7))" "py_index ins (int i + 8) = Inr (ins ! (i + 8))"
      using len by (simp_all add: py_index_nonneg nat_add_distrib)
    then show thesis using entry that
      by (auto simp: table_entry_def bindR_Inr_iff ta_def unpack_i32_def unpack_s_def unpack_u_def at_off_def split: if_splits)
  qed
  have "T + 4 * ?X = word_of_int (ta + (fv - 1) * 4)" unfolding T by (simp add: mult.commute)
  then have addr: "uint (T + 4 * ?X) = ta + (fv - 1) * 4"
    using vm_bytes_bounds [OF b(1) segs] by (simp only:) (rule uint64, auto)
  let ?s = "\<lambda>p a x y. \<lparr>cpu_pc = A p, cpu_x0 = a, cpu_x16 = x, cpu_x17 = y, cpu_hi = False\<rparr>"
  have adv: "advance (?s p a x y) = ?s (p + 1) a x y" for p a x y by (simp add: advance_def step)
  let ?run = "run_driver data segs ins text" and ?fv = "word_of_int fv :: 64 word"
  have s0: "driver_start (text + int i * 4) fv = ?s 0 ?fv 0 0" by (simp add: driver_start_def A_def mult.commute)
  have S: "?run 1 (?s (int k) a x y) = Some t" if "k < 18" "exec data segs (ins ! (i + k)) (?s (int k) a x y) = Some t" for k a x y t
    using that F [of k] by simp
  have upd: "(?s p a x y)\<lparr>cpu_x0 := z\<rparr> = ?s p z x y" "(?s p a x y)\<lparr>cpu_x16 := z\<rparr> = ?s p a z y"
    "(?s p a x y)\<lparr>cpu_x17 := z\<rparr> = ?s p a x z" "(?s p a x y)\<lparr>cpu_hi := False\<rparr> = ?s p a x y" for p a x y z by simp_all
  have fv32: "fv < 2 ^ 32" using le small by simp
  have 0: "?run 1 (?s 0 ?fv 0 0) = Some (?s 1 ?fv ?X 0)"
    using S [of 0 ?fv 0 0] sub_one [of "ins ! i" fv "?s 0 ?fv 0 0" data segs] c0 fv(1) fv32 by (auto simp: adv)
  have 1: "?run 1 (?s 1 ?fv ?X 0) = Some (?s 2 ?fv ?X 0)"
    using S [of 1 ?fv ?X 0] c0 exec_cmp [of "ins ! (i + 1)" data segs "?s 1 ?fv ?X 0"] nh1 by (auto simp: adv)
  have 2: "?run 1 (?s 2 ?fv ?X 0) = Some (?s 3 ?fv ?X 0)"
    using S [of 2 ?fv ?X 0] exec_branch [OF c(1), of "?s 2 ?fv ?X 0" data segs] by (simp add: adv)
  have 3: "?run 1 (?s 3 ?fv ?X 0) = Some (?s 4 (adrp_value (A 3) (ins ! (i + 3))) ?X 0)"
    using S [of 3 ?fv ?X 0] exec_adrp(1) [OF c(2), of data segs "?s 3 ?fv ?X 0"] by (simp add: adv)
  have 4: "?run 1 (?s 4 (adrp_value (A 3) (ins ! (i + 3))) ?X 0) = Some (?s 5 v0 ?X 0)"
    using S [of 4 "adrp_value (A 3) (ins ! (i + 3))" ?X 0]
      exec_add(1) [OF c(3), of data segs "?s 4 (adrp_value (A 3) (ins ! (i + 3))) ?X 0"] by (simp add: adv v0_def)
  have 5: "?run 1 (?s 5 v0 ?X 0) = Some (?s 6 v0 ?X 0)"
    using S [of 5 v0 ?X 0] exec_cmp(1) [OF c(4), of data segs "?s 5 v0 ?X 0"] nh2(1) by (simp add: adv)
  have 6: "?run 1 (?s 6 v0 ?X 0) = Some (?s 7 v0 ?X 0)"
    using S [of 6 v0 ?X 0] by (simp add: adv c(5) exec_exact)
  have 7: "?run 1 (?s 7 v0 ?X 0) = Some (?s 8 v0 ?X (adrp_value (A 7) (ins ! (i + 7))))"
    using S [of 7 v0 ?X 0] exec_adrp(2) [OF c(6), of data segs "?s 7 v0 ?X 0"] by (simp add: adv)
  have 8: "?run 1 (?s 8 v0 ?X (adrp_value (A 7) (ins ! (i + 7)))) = Some (?s 9 v0 ?X T)"
    using S [of 8 v0 ?X "adrp_value (A 7) (ins ! (i + 7))"]
      exec_add(2) [OF c(7), of data segs "?s 8 v0 ?X (adrp_value (A 7) (ins ! (i + 7)))"] by (simp add: adv T_def)
  have 9: "?run 1 (?s 9 v0 ?X T) = Some (?s 10 v0 (word_of_int e) T)"
    using S [of 9 v0 ?X T] exec_load [of data segs "?s 9 v0 ?X T" b] b addr by (simp add: adv c(8))
  have 10: "?run 1 (?s 10 v0 (word_of_int e) T) = Some (?s 11 v0 (word_of_int e) (A 10))"
    using S [of 10 v0 "word_of_int e" T] by (simp add: adv c(9) exec_exact)
  have 11: "?run 1 (?s 11 v0 (word_of_int e) (A 10)) = Some (?s 12 v0 (A 10 + word_of_int e) (A 10))"
    using S [of 11 v0 "word_of_int e" "A 10"] by (simp add: adv c(10) exec_exact)
  let ?t = "\<lparr>cpu_pc = A 10 + word_of_int e, cpu_x0 = v0, cpu_x16 = A 10 + word_of_int e, cpu_x17 = A 10, cpu_hi = False\<rparr>"
  have 12: "?run 1 (?s 12 v0 (A 10 + word_of_int e) (A 10)) = Some ?t"
    using S [of 12 v0 "A 10 + word_of_int e" "A 10"] by (simp add: c(11) exec_exact)
  have "?run (1 + (1 + (1 + (1 + (1 + (1 + (1 + (1 + (1 + (1 + (1 + (1 + 1)))))))))))) (?s 0 ?fv 0 0) = Some ?t"
    by (simp only: run_append [OF 0] run_append [OF 1] run_append [OF 2] run_append [OF 3] run_append [OF 4]
        run_append [OF 5] run_append [OF 6] run_append [OF 7] run_append [OF 8] run_append [OF 9] run_append [OF 10]
        run_append [OF 11] 12)
  moreover have "1 + (1 + (1 + (1 + (1 + (1 + (1 + (1 + (1 + (1 + (1 + (1 + 1))))))))))) = (13 :: nat)" by simp
  ultimately have "?run 13 (driver_start (text + int i * 4) fv) = Some ?t" unfolding s0 by (simp only:)
  moreover have "cpu_pc ?t = word_of_int (text + 4 * (int i + 10) + e)" by (simp add: A_def)
  ultimately show thesis using that v0 by simp
qed

text \<open>The two instructions at the target of a table entry, or the return that stands there.\<close>

lemma run_record:
  assumes two: "two_at ins j = Inr (a, b)" "0 \<le> j" and bnd: "0 \<le> text" "text + 4 * int (length ins) \<le> 2 ^ 64"
    and ok: "is_adrp a 0" "add_immediate b 0 0" and s: "cpu_pc s = word_of_int (text + 4 * j)"
  obtains t where "run_driver data segs ins text 2 s = Some t" "cpu_pc t = word_of_int (text + 4 * (j + 2))"
    "cpu_x0 t = word_of_int (bc_adrp_target (text + j * 4) a + add_value b)"
proof -
  note w = two_atE [OF two]
  have f0: "fetch ins text (cpu_pc s) = Some a"
    unfolding s using fetch_at [OF bnd two(2)] w by simp
  let ?u = "advance (s\<lparr>cpu_x0 := adrp_value (cpu_pc s) a\<rparr>)" let ?t = "advance (?u\<lparr>cpu_x0 := cpu_x0 ?u + imm12 b\<rparr>)"
  have pu: "cpu_pc ?u = word_of_int (text + 4 * (j + 1))" by (simp add: advance_def s distrib_left)
  have f1: "fetch ins text (cpu_pc ?u) = Some b"
    unfolding pu using fetch_at [OF bnd, of "j + 1"] w two(2) by simp
  have "run_driver data segs ins text (1 + 1) s = Some ?t"
    using f0 f1 by (simp add: exec_adrp(1) [OF ok(1)] exec_add(1) [OF ok(2)])
  then have "run_driver data segs ins text 2 s = Some ?t" by (simp only: one_add_one)
  moreover have "cpu_pc ?t = word_of_int (text + 4 * (j + 2))" by (simp add: advance_def s distrib_left)
  moreover have "cpu_x0 ?t = word_of_int (bc_adrp_target (text + j * 4) a + add_value b)"
  proof -
    have "adrp_value (cpu_pc s) a = word_of_int (bc_adrp_target (text + 4 * j) a)"
      unfolding s by (rule adrp_value_target) (use bnd two(2) w in auto)
    then show ?thesis using add_immediate_value(1) [OF ok(2)] by (simp add: advance_def mult.commute)
  qed
  ultimately show thesis using that by blast
qed

text \<open>C28: What the checker computes for a format is what the driver returns: running the matched chooser on that
format follows the jump table and leaves the checker's descriptor address in register x0, at the end of the record's
two instructions or at the return the table jumps to. The jump must be aligned and not lead before the code, which
the checker does not test.\<close>
theorem descriptor_is_returned:
  assumes "chooser_match (take 18 (drop i ins)) = Some cnt" and "i + 17 < length ins"
    and "0 \<le> text_address" and "text_address + 4 * int (length ins) \<le> 2 ^ 64"
    and "1 \<le> fv" and "fv < cnt"
    and "list_all (\<lambda>(va, _, _, fs). 0 \<le> va \<and> va + fs \<le> 2 ^ 64) segs"
    and "table_entry data segs ins (text_address + int i * 4) (int i) fv = Inr e"
    and "4 dvd e" and "0 \<le> int i + 10 + e div 4"
    and "descriptor_for_format data segs ins text_address (int i) fv = Inr d"
  shows "\<exists>n t. run_driver data segs ins text_address n (driver_start (text_address + int i * 4) fv) = Some t \<and>
    cpu_x0 t = word_of_int d \<and>
    (cpu_pc t = word_of_int (text_address + 4 * (int i + 12 + e div 4)) \<or>
     fetch ins text_address (cpu_pc t) = Some 0xD65F03C0)"
proof -
  let ?run = "run_driver data segs ins text_address" let ?j = "int i + 10 + e div 4"
  obtain u where u: "?run 13 (driver_start (text_address + int i * 4) fv) = Some u"
      "cpu_pc u = word_of_int (text_address + 4 * (int i + 10) + e)"
      "cpu_x0 u = word_of_int (bc_adrp_target (text_address + (int i + 3) * 4) (ins ! (i + 3)) + add_value (ins ! (i + 4)))"
    using run_chooser [OF assms(1-8)] by blast
  have e: "e = 4 * (e div 4)" using assms(9) by simp
  have pc: "cpu_pc u = word_of_int (text_address + 4 * ?j)"
    unfolding u(2) by (subst e) (simp add: distrib_left)
  have "(text_address + int i * 4 + 10 * 4 + e - (text_address + int i * 4)) div 4 = 10 + e div 4" using assms(9) by auto
  then have tgt: "chooser_target data segs ins text_address (int i) fv = Inr ?j"
    using assms(5,8) by (simp add: chooser_target_def)
  from assms(11) tgt obtain a b where two: "two_at ins ?j = Inr (a, b)" by (auto simp: descriptor_for_format_def bindR_Inr_iff)
  note w = two_atE [OF two assms(10)]
  show ?thesis
  proof (cases "a = 0xD65F03C0")
    case True
    have "two_at ins (int i + 3) = Inr (ins ! (i + 3), ins ! (i + 4))"
    proof -
      have "py_slice ins (int i + 3) (int i + 3 + 2) = take 2 (drop (i + 3) ins)"
        using py_slice_take_drop [of "int i + 3" "int i + 3 + 2" ins] assms(2) by (simp add: nat_add_distrib)
      also have "\<dots> = [ins ! (i + 3), ins ! (i + 4)]"
        using assms(2) by (auto simp: take_Suc_conv_app_nth eval_nat_numeral)
      finally show ?thesis by (simp add: two_at_def)
    qed
    then have "d = bc_adrp_target (text_address + (int i + 3) * 4) (ins ! (i + 3)) + add_value (ins ! (i + 4))"
      using assms(11) tgt two True by (auto simp: descriptor_for_format_def bindR_Inr_iff)
    moreover have "fetch ins text_address (cpu_pc u) = Some 0xD65F03C0"
      unfolding pc using fetch_at [OF assms(3,4,10)] w True by simp
    ultimately show ?thesis using u by blast
  next
    case False
    then have ok: "is_adrp a 0" "add_immediate b 0 0" and d: "d = bc_adrp_target (text_address + ?j * 4) a + add_value b"
      using assms(11) tgt two by (auto simp: descriptor_for_format_def bindR_Inr_iff)
    obtain t where t: "?run 2 u = Some t" "cpu_pc t = word_of_int (text_address + 4 * (?j + 2))" "cpu_x0 t = word_of_int d"
      using run_record [OF two assms(10,3,4) ok pc] d by blast
    have "?run (13 + 2) (driver_start (text_address + int i * 4) fv) = Some t"
      by (simp only: run_append [OF u(1)] t(1))
    moreover have "?j + 2 = int i + 12 + e div 4" by simp
    ultimately show ?thesis using t(2,3) by metis
  qed
qed

definition demo_code :: "int list" where
  "demo_code =
     [0x51000410, 0x7100021F, 0x540001C8, 0x90000000, 0x91000000, 0xF100021F, 0x9A9F9210, 0x90000011,
      0x91010231, 0xB8B07A30, 0x10000011, 0x8B100230, 0xD61F0200, 0xD65F03C0, 0x90000000, 0x91040000, 0xD65F03C0, 0]"

definition demo_limit :: "int list" where
  "demo_limit = demo_code[1 := 0x7100061F, 5 := 0xF100061F]"

definition demo_image :: bytes where
  "demo_image = replicate 64 0 @ le_words 4 [16, 12]"

lemma demo_descriptor:
  "\<exists>n t. run_driver demo_image [(4096, 72, 0, 72)] demo_limit 4096 n (driver_start 4096 1) = Some t \<and>
    cpu_x0 t = word_of_int 4352"
proof -
  have "chooser_match (take 18 (drop 0 demo_limit)) = Some 3" by code_simp
  moreover have "table_entry demo_image [(4096, 72, 0, 72)] demo_limit (4096 + int 0 * 4) (int 0) 1 = Inr 16" by code_simp
  moreover have "descriptor_for_format demo_image [(4096, 72, 0, 72)] demo_limit 4096 (int 0) 1 = Inr 4352" by code_simp
  moreover have "length demo_limit = 18" by code_simp
  ultimately show ?thesis
    using descriptor_is_returned [of 0 demo_limit 3 4096 1 "[(4096, 72, 0, 72)]" demo_image 16 4352] by auto
qed

end
