(* ===== verification/Import_Jobs.thy ===== *)
theory Import_Jobs
  imports MachO "HOL-Library.AList"
begin

text \<open>
  \<^verbatim>\<open>prepare-modern-cpu-imports.py\<close>, \<^verbatim>\<open>prepare-modern-vmm-runtime-imports.py\<close> and
  \<^verbatim>\<open>prepare-modern-vmm-allocator-imports.py\<close> (\<^verbatim>\<open>scripts/development\<close>): the three scripts are one program over
  different tables of targets, so the model is one function of a job. It edits the ordinals of chained imports and
  the matching symbol descriptors, drops the signature command and adds load commands for the providers, and then
  asserts what it promised. SHA-256 is a parameter; writing the candidate, \<^verbatim>\<open>dyld_info\<close> and the report are left out.
\<close>

subsection \<open>Load commands\<close>

text \<open>\<^verbatim>\<open>for cmd, at, size in commands(data)\<close>: the generator's assertions stand between the steps of the loop that
  consumes it.\<close>

fun command_loop :: "bytes \<Rightarrow> int \<Rightarrow> (int \<Rightarrow> int \<Rightarrow> int \<Rightarrow> 's \<Rightarrow> 's res) \<Rightarrow> nat \<Rightarrow> int \<Rightarrow> 's \<Rightarrow> 's res" where
  "command_loop data stop f 0 at s = bindR (guardR (at = stop) Assertion_Error) (\<lambda>_. Inr s)"
| "command_loop data stop f (Suc n) at s =
     bindR (u32x2 data at) (\<lambda>(cmd, sz).
     bindR (guardR (8 \<le> sz \<and> sz mod 8 = 0 \<and> at + sz \<le> stop) Assertion_Error) (\<lambda>_.
     bindR (f cmd at sz s) (command_loop data stop f n (at + sz))))"

definition commands :: "bytes \<Rightarrow> (int \<Rightarrow> int \<Rightarrow> int \<Rightarrow> 's \<Rightarrow> 's res) \<Rightarrow> 's \<Rightarrow> 's res" where
  "commands data f s =
     bindR (guardR (32 \<le> length data) Assertion_Error) (\<lambda>_.
     bindR (u32 data 0) (\<lambda>magic.
     bindR (guardR (magic = MH_MAGIC_64) Assertion_Error) (\<lambda>_.
     bindR (u32 data 20) (\<lambda>sz.
     let stop = 32 + sz in
     bindR (guardR (stop \<le> int (length data)) Assertion_Error) (\<lambda>_.
     bindR (u32 data 16) (\<lambda>n. command_loop data stop f (nat n) 32 s))))))"

definition table_string :: "bytes \<Rightarrow> int \<Rightarrow> int \<Rightarrow> bytes res" where
  "table_string data at stop =
     bindR (guardR (0 \<le> at \<and> at < stop \<and> stop \<le> int (length data)) Assertion_Error) (\<lambda>_.
     let z = find_nul data at stop in
     bindR (guardR (at \<le> z \<and> z - at < 4096) Assertion_Error) (\<lambda>_.
     py_decode (py_slice data at z)))"

definition library_command :: "bytes \<Rightarrow> int \<Rightarrow> int \<Rightarrow> int \<Rightarrow> bytes list \<Rightarrow> bytes list res" where
  "library_command data cmd at sz names =
     (if cmd \<in> {0xC, 0x80000018, 0x8000001F, 0x80000023}
      then bindR (u32 data (at + 8)) (\<lambda>off.
           bindR (table_string data (at + off) (at + sz)) (\<lambda>name. Inr (names @ [name])))
      else Inr names)"

definition libraries :: "bytes \<Rightarrow> bytes list res" where
  "libraries data = commands data (library_command data) []"

subsection \<open>The chained imports\<close>

record import_row =
  ir_index :: int
  ir_offset :: int
  ir_symbol :: bytes
  ir_ordinal :: int
  ir_weak :: bool
  ir_addend :: int

definition fixups_command :: "bytes \<Rightarrow> int \<Rightarrow> int \<Rightarrow> int \<Rightarrow> (int \<times> int) list \<Rightarrow> (int \<times> int) list res" where
  "fixups_command data cmd at sz acc =
     (if cmd = LC_DYLD_CHAINED_FIXUPS then bindR (u32x2 data (at + 8)) (\<lambda>r. Inr (acc @ [r])) else Inr acc)"

definition import_row_at :: "bytes \<Rightarrow> int \<Rightarrow> int \<Rightarrow> int \<Rightarrow> int \<Rightarrow> nat \<Rightarrow> import_row res" where
  "import_row_at data start sz imports symbols index =
     (let at = start + imports + int index * 8 in
      bindR (u32 data at) (\<lambda>word.
      bindR (i32 data (at + 4)) (\<lambda>addend.
      let ordinal = word AND 255; ordinal = (if ordinal > 0xF0 then ordinal - 256 else ordinal) in
      bindR (guardR (symbols + drop_bit 9 word < sz) Assertion_Error) (\<lambda>_.
      bindR (table_string data (start + symbols + drop_bit 9 word) (start + sz)) (\<lambda>name.
      Inr \<lparr>ir_index = int index, ir_offset = at, ir_symbol = name, ir_ordinal = ordinal,
           ir_weak = (word AND 256 \<noteq> 0), ir_addend = addend\<rparr>)))))"

definition import_rows :: "bytes \<Rightarrow> import_row list res" where
  "import_rows data =
     bindR (commands data (fixups_command data) []) (\<lambda>fixups.
     bindR (guardR (length fixups = 1) Assertion_Error) (\<lambda>_.
     let (start, sz) = fixups ! 0 in
     bindR (guardR (start + sz \<le> int (length data)) Assertion_Error) (\<lambda>_.
     bindR (unpack_us [4, 4, 4, 4, 4, 4, 4] data start) (\<lambda>h.
     let imports = h ! 2; symbols = h ! 3; cnt = h ! 4 in
     bindR (guardR (h ! 0 = h ! 6 \<and> h ! 6 = 0 \<and> h ! 5 = 2 \<and> cnt = 1203) Assertion_Error) (\<lambda>_.
     bindR (guardR (imports + cnt * 8 \<le> sz \<and> symbols < sz) Assertion_Error) (\<lambda>_.
     mapR (import_row_at data start sz imports symbols) [0..<nat cnt]))))))"

definition provider_command :: "bytes \<Rightarrow> bytes res" where
  "provider_command name =
     (let encoded = name @ [0]; sz = (24 + int (length encoded) + 7) AND NOT 7 in
      bindR (pack_new 4 [0xC, sz, 24, 0, 0, 0]) (\<lambda>h.
      Inr (h @ encoded @ zeros (sz - 24 - int (length encoded)))))"

subsection \<open>The job\<close>

text \<open>The targets with the ordinal they must have and the provider they move to; the last two fields are the checks
  only some of the scripts make.\<close>

record import_job =
  job_targets :: "(bytes \<times> int \<times> bytes) list"
  job_additions :: "bytes list"
  job_swift_core :: bool
  job_all_nlist :: bool

definition source_sha :: bytes where
  "source_sha = ascii ''c81d16f0ec5364bf71d915ac3ee9388610dc940446b2ad1abf3849ba57d46422''"

definition source_bytes :: nat where
  "source_bytes = 5195312"

definition cxx_provider :: bytes where "cxx_provider = ascii ''@rpath/VM27CxxProvider.dylib''"
definition allocator_provider :: bytes where "allocator_provider = ascii ''@rpath/VM27AllocatorProvider.dylib''"
definition swift_provider :: bytes where "swift_provider = ascii ''@rpath/VM27SwiftLookupCompat.dylib''"

definition cpu_targets :: "(bytes \<times> int \<times> bytes) list" where
  "cpu_targets =
     [(ascii ''__ZTINSt3__119bad_expected_accessIvEE'', 14, cxx_provider),
      (ascii ''__ZNKSt3__119bad_expected_accessIvE4whatEv'', 14, cxx_provider),
      (ascii ''__ZNSt13exception_ptr31__from_native_exception_pointerEPv'', 14, cxx_provider),
      (ascii ''__ZNSt3__113__hash_memoryEPKvm'', 14, cxx_provider),
      (ascii ''_malloc_type_calloc'', 15, allocator_provider)]"

definition swift_target :: "bytes \<times> int \<times> bytes" where
  "swift_target = (ascii ''_swift_getTypeByMangledNameInContext2'', 41, swift_provider)"

definition malloc_target :: "bytes \<times> int \<times> bytes" where
  "malloc_target = (ascii ''_malloc_type_malloc'', 15, allocator_provider)"

text \<open>\<^verbatim>\<open>{name: len(old_libraries) + index + 1 for index, name in enumerate(additions)}\<close>.\<close>

fun new_ordinals :: "int \<Rightarrow> bytes list \<Rightarrow> (bytes \<times> int) list" where
  "new_ordinals n [] = []"
| "new_ordinals n (name # names) = (name, n + 1) # new_ordinals (n + 1) names"

definition ordinal_of :: "(bytes \<times> int) list \<Rightarrow> bytes \<Rightarrow> int res" where
  "ordinal_of ordinals name = (case map_of ordinals name of None \<Rightarrow> Inl Key_Error | Some k \<Rightarrow> Inr k)"

definition redirect_row ::
    "(bytes \<times> int \<times> bytes) list \<Rightarrow> (bytes \<times> int) list \<Rightarrow> import_row \<Rightarrow> bytes \<times> import_row list
     \<Rightarrow> (bytes \<times> import_row list) res" where
  "redirect_row targets ordinals row = (\<lambda>(data, selected).
     case map_of targets (ir_symbol row) of
       None \<Rightarrow> Inr (data, selected)
     | Some (expected, provider) \<Rightarrow>
         bindR (guardR (ir_ordinal row = expected \<and> \<not> ir_weak row \<and> ir_addend row = 0) Assertion_Error) (\<lambda>_.
         bindR (u32 data (ir_offset row)) (\<lambda>word.
         bindR (ordinal_of ordinals provider) (\<lambda>k.
         bindR (p32 data (ir_offset row) ((word AND NOT 255) OR k)) (\<lambda>data.
         Inr (data, selected @ [row]))))))"

definition symtab_command :: "bytes \<Rightarrow> int \<Rightarrow> int \<Rightarrow> int \<Rightarrow> int list list \<Rightarrow> int list list res" where
  "symtab_command data cmd at sz acc =
     (if cmd = LC_SYMTAB then bindR (unpack_us [4, 4, 4, 4] data (at + 8)) (\<lambda>r. Inr (acc @ [r])) else Inr acc)"

text \<open>One \<^verbatim>\<open>nlist\<close> entry; the state has the names and offsets of the descriptors changed so far.\<close>

definition redirect_nlist ::
    "(bytes \<times> int \<times> bytes) list \<Rightarrow> (bytes \<times> int) list \<Rightarrow> int \<Rightarrow> int \<Rightarrow> int \<Rightarrow> nat
     \<Rightarrow> bytes \<times> (bytes \<times> int) list \<Rightarrow> (bytes \<times> (bytes \<times> int) list) res" where
  "redirect_nlist targets ordinals symoff stroff strsize index = (\<lambda>(data, changes).
     let at = symoff + int index * 16 in
     bindR (unpack_us [4, 1, 1, 2, 8] data at) (\<lambda>e.
     let strx = e ! 0; kind = e ! 1; desc = e ! 3 in
     if kind AND 0xE0 \<noteq> 0 \<or> kind AND 0xE \<noteq> 0 \<or> strx = 0 then Inr (data, changes)
     else bindR (guardR (strx < strsize) Assertion_Error) (\<lambda>_.
       bindR (table_string data (stroff + strx) (stroff + strsize)) (\<lambda>name.
       case map_of targets name of
         None \<Rightarrow> Inr (data, changes)
       | Some (expected, provider) \<Rightarrow>
           bindR (guardR (drop_bit 8 desc = expected \<and> desc AND 0x40 = 0) Assertion_Error) (\<lambda>_.
           bindR (ordinal_of ordinals provider) (\<lambda>k.
           bindR (p16 data (at + 6) ((desc AND 255) OR push_bit 8 k)) (\<lambda>data.
           Inr (data, changes @ [(name, at + 6)]))))))))"

subsection \<open>Commands and sections of the original\<close>

definition list_command :: "int \<Rightarrow> int \<Rightarrow> int \<Rightarrow> (int \<times> int \<times> int) list \<Rightarrow> (int \<times> int \<times> int) list res" where
  "list_command cmd at sz acc = Inr (acc @ [(cmd, at, sz)])"

definition section_range :: "bytes \<Rightarrow> int \<Rightarrow> nat \<Rightarrow> (int \<times> int) list \<Rightarrow> (int \<times> int) list res" where
  "section_range original at index ranges =
     (let s = at + 72 + int index * 80 in
      bindR (u64 original (s + 40)) (\<lambda>len.
      bindR (u32 original (s + 48)) (\<lambda>offset.
      bindR (u32 original (s + 64)) (\<lambda>flags.
      if len \<noteq> 0 \<and> offset \<noteq> 0 \<and> flags AND 255 \<notin> {1, 12, 18} then
        bindR (guardR (offset + len \<le> int (length original)) Assertion_Error) (\<lambda>_. Inr (ranges @ [(offset, len)]))
      else Inr ranges))))"

definition segment_ranges :: "bytes \<Rightarrow> int \<times> int \<times> int \<Rightarrow> (int \<times> int) list \<Rightarrow> (int \<times> int) list res" where
  "segment_ranges original = (\<lambda>(cmd, at, sz) ranges.
     if cmd = LC_SEGMENT_64 then
       bindR (u32 original (at + 64)) (\<lambda>cnt.
       bindR (guardR (72 + cnt * 80 = sz) Assertion_Error) (\<lambda>_.
       foldR (section_range original at) [0..<nat cnt] ranges))
     else Inr ranges)"

subsection \<open>The whole program\<close>

definition strong_count :: "import_row list \<Rightarrow> nat" where
  "strong_count rows = length (filter (\<lambda>r. \<not> ir_weak r) rows)"

definition check_source :: "(bytes \<Rightarrow> bytes) \<Rightarrow> bytes \<Rightarrow> unit res" where
  "check_source sha original =
     bindR (guardR (length original = source_bytes \<and> sha original = source_sha) Assertion_Error) (\<lambda>_.
     bindR (unpack_us [4, 4, 4] original 4) (\<lambda>h.
     guardR (h = [0x100000C, 0x80000002, 2]) Assertion_Error))"

definition check_libraries :: "import_job \<Rightarrow> bytes list \<Rightarrow> unit res" where
  "check_libraries job old =
     bindR (guardR (py_slice old 13 15 = [ascii ''/usr/lib/libc++.1.dylib'', ascii ''/usr/lib/libSystem.B.dylib''])
              Assertion_Error) (\<lambda>_.
     bindR (if job_swift_core job
            then bindR (py_index old 40) (\<lambda>l. guardR (l = ascii ''/usr/lib/swift/libswiftCore.dylib'') Assertion_Error)
            else Inr ()) (\<lambda>_.
     guardR (set (job_additions job) \<inter> set old = {} \<and> length old + length (job_additions job) \<le> 0xF0) Assertion_Error))"

text \<open>The ordinals of the import table and of the symbol table.\<close>

definition redirect_imports ::
    "import_job \<Rightarrow> (bytes \<times> int) list \<Rightarrow> import_row list \<Rightarrow> bytes \<Rightarrow> (bytes \<times> import_row list) res" where
  "redirect_imports job ordinals before data =
     bindR (foldR (redirect_row (job_targets job) ordinals) before (data, [])) (\<lambda>(data, selected).
     bindR (guardR (length selected = length (job_targets job)
              \<and> ir_symbol ` set selected = fst ` set (job_targets job)) Assertion_Error) (\<lambda>_.
     Inr (data, selected)))"

definition redirect_symbols ::
    "import_job \<Rightarrow> (bytes \<times> int) list \<Rightarrow> bytes \<Rightarrow> (bytes \<times> (bytes \<times> int) list) res" where
  "redirect_symbols job ordinals data =
     bindR (commands data (symtab_command data) []) (\<lambda>symtabs.
     bindR (guardR (length symtabs = 1) Assertion_Error) (\<lambda>_.
     let t = symtabs ! 0; symoff = t ! 0; nsyms = t ! 1; stroff = t ! 2; strsize = t ! 3 in
     bindR (guardR (symoff + nsyms * 16 \<le> int (length data) \<and> stroff + strsize \<le> int (length data)) Assertion_Error) (\<lambda>_.
     bindR (foldR (redirect_nlist (job_targets job) ordinals symoff stroff strsize) [0..<nat nsyms] (data, []))
       (\<lambda>(data, changes).
     bindR (guardR (job_all_nlist job \<longrightarrow> length changes = length (job_targets job)
              \<and> fst ` set changes = fst ` set (job_targets job)) Assertion_Error) (\<lambda>_.
     Inr (data, changes))))))"

text \<open>The new command table, with the first section's offset it must stay below.\<close>

definition replace_commands :: "import_job \<Rightarrow> bytes \<Rightarrow> bytes \<Rightarrow> (bytes \<times> int \<times> (int \<times> int) list) res" where
  "replace_commands job original data =
     bindR (commands original list_command []) (\<lambda>cs.
     let signatures = filter (\<lambda>(cmd, _, _). cmd = 0x1D) cs in
     bindR (guardR (length signatures = 1) Assertion_Error) (\<lambda>_.
     bindR (u32 original 20) (\<lambda>old_size.
     bindR (guardR ((case signatures ! 0 of (_, at, sz) \<Rightarrow> at + sz) = 32 + old_size) Assertion_Error) (\<lambda>_.
     let unchanged = map (\<lambda>(_, at, sz). py_slice original at (at + sz)) (filter (\<lambda>(cmd, _, _). cmd \<noteq> 0x1D) cs) in
     bindR (mapR provider_command (job_additions job)) (\<lambda>added.
     let new_commands = concat (unchanged @ added) in
     bindR (foldR (segment_ranges original) cs []) (\<lambda>ranges.
     let old_end = 32 + old_size; new_end = 32 + int (length new_commands) in
     bindR (list_min (map fst ranges)) (\<lambda>first_section.
     bindR (guardR (old_end \<le> new_end \<and> new_end \<le> first_section
              \<and> list_all (\<lambda>b. b = 0) (py_slice original old_end first_section)) Assertion_Error) (\<lambda>_.
     bindR (p32s (py_set_slice data 32 new_end new_commands) 16
              [int (length unchanged) + int (length (job_additions job)), int (length new_commands)]) (\<lambda>data.
     Inr (data, new_end, ranges))))))))))"

text \<open>The assertions over the result.\<close>

definition expected_row :: "import_job \<Rightarrow> (bytes \<times> int) list \<Rightarrow> import_row \<Rightarrow> import_row res" where
  "expected_row job ordinals row =
     (case map_of (job_targets job) (ir_symbol row) of
        None \<Rightarrow> Inr row
      | Some (_, provider) \<Rightarrow> bindR (ordinal_of ordinals provider) (\<lambda>k. Inr (row\<lparr>ir_ordinal := k\<rparr>)))"

definition check_row :: "import_job \<Rightarrow> (bytes \<times> int) list \<Rightarrow> import_row \<times> import_row \<Rightarrow> unit \<Rightarrow> unit res" where
  "check_row job ordinals = (\<lambda>(old, new) _.
     bindR (expected_row job ordinals old) (\<lambda>e. guardR (new = e) Assertion_Error))"

definition changed_places :: "bytes \<Rightarrow> bytes \<Rightarrow> nat list" where
  "changed_places a b = filter (\<lambda>i. a ! i \<noteq> b ! i) [0..<min (length a) (length b)]"

definition allowed_place :: "int \<Rightarrow> import_row list \<Rightarrow> (bytes \<times> int) list \<Rightarrow> nat \<Rightarrow> bool" where
  "allowed_place new_end selected changes i \<longleftrightarrow>
     (16 \<le> i \<and> i < 24) \<or> (32 \<le> int i \<and> int i < new_end)
     \<or> int i \<in> ir_offset ` set selected \<or> int i \<in> snd ` set changes \<or> int i - 1 \<in> snd ` set changes"

definition check_result ::
    "import_job \<Rightarrow> (bytes \<times> int) list \<Rightarrow> bytes \<Rightarrow> import_row list \<Rightarrow> bytes list \<Rightarrow> import_row list
     \<Rightarrow> (bytes \<times> int) list \<Rightarrow> int \<Rightarrow> (int \<times> int) list \<Rightarrow> bytes \<Rightarrow> unit res" where
  "check_result job ordinals original before old_libraries selected changes new_end ranges data =
     bindR (import_rows data) (\<lambda>after.
     bindR (libraries data) (\<lambda>new_libraries.
     bindR (guardR (new_libraries = old_libraries @ job_additions job) Assertion_Error) (\<lambda>_.
     bindR (guardR (length after = length before \<and> strong_count after = 1064) Assertion_Error) (\<lambda>_.
     bindR (foldR (check_row job ordinals) (zip before after) ()) (\<lambda>_.
     bindR (guardR (list_all (\<lambda>(off, sz). py_slice original off (off + sz) = py_slice data off (off + sz)) ranges)
              Assertion_Error) (\<lambda>_.
     bindR (commands data (\<lambda>cmd at sz. if cmd = 0x1D then (\<lambda>_. Inl Assertion_Error) else Inr) ()) (\<lambda>_.
     guardR (length data = length original
       \<and> list_all (allowed_place new_end selected changes) (changed_places original data)) Assertion_Error)))))))"

definition prepare_imports :: "import_job \<Rightarrow> (bytes \<Rightarrow> bytes) \<Rightarrow> bytes \<Rightarrow> bytes res" where
  "prepare_imports job sha original =
     bindR (check_source sha original) (\<lambda>_.
     bindR (import_rows original) (\<lambda>before.
     bindR (guardR (strong_count before = 1064) Assertion_Error) (\<lambda>_.
     bindR (libraries original) (\<lambda>old_libraries.
     bindR (check_libraries job old_libraries) (\<lambda>_.
     let ordinals = new_ordinals (int (length old_libraries)) (job_additions job) in
     bindR (redirect_imports job ordinals before original) (\<lambda>(data, selected).
     bindR (redirect_symbols job ordinals data) (\<lambda>(data, changes).
     bindR (replace_commands job original data) (\<lambda>(data, new_end, ranges).
     bindR (check_result job ordinals original before old_libraries selected changes new_end ranges data) (\<lambda>_.
     Inr data)))))))))"

definition cpu_job :: import_job where
  "cpu_job = \<lparr>job_targets = cpu_targets, job_additions = [cxx_provider, allocator_provider],
     job_swift_core = False, job_all_nlist = False\<rparr>"

definition runtime_job :: import_job where
  "runtime_job = \<lparr>job_targets = cpu_targets @ [swift_target],
     job_additions = [cxx_provider, allocator_provider, swift_provider], job_swift_core = True, job_all_nlist = True\<rparr>"

definition allocator_job :: import_job where
  "allocator_job = \<lparr>job_targets = cpu_targets @ [malloc_target, swift_target],
     job_additions = [cxx_provider, allocator_provider, swift_provider], job_swift_core = True, job_all_nlist = True\<rparr>"

definition prepare_cpu_imports :: "(bytes \<Rightarrow> bytes) \<Rightarrow> bytes \<Rightarrow> bytes res" where
  "prepare_cpu_imports = prepare_imports cpu_job"

definition prepare_runtime_imports :: "(bytes \<Rightarrow> bytes) \<Rightarrow> bytes \<Rightarrow> bytes res" where
  "prepare_runtime_imports = prepare_imports runtime_job"

definition prepare_allocator_imports :: "(bytes \<Rightarrow> bytes) \<Rightarrow> bytes \<Rightarrow> bytes res" where
  "prepare_allocator_imports = prepare_imports allocator_job"

subsection \<open>Where the imports lead\<close>

lemma new_ordinals_range:
  "map_of (new_ordinals n names) name = Some k \<Longrightarrow>
   n < k \<and> k \<le> n + int (length names) \<and> names ! nat (k - n - 1) = name"
proof (induction n names rule: new_ordinals.induct)
  case (2 n nm names)
  show ?case
  proof (cases "name = nm")
    case False
    then have k: "n + 1 < k" "k \<le> n + 1 + int (length names)" "names ! nat (k - (n + 1) - 1) = name"
      using 2 by auto
    then have "nat (k - n - 1) = Suc (nat (k - (n + 1) - 1))" by simp
    then show ?thesis using k by simp
  qed (use 2 in auto)
qed simp

text \<open>A row of the prepared image: the same import, bound to its provider when it is a target.\<close>

definition bound_row :: "import_job \<Rightarrow> bytes list \<Rightarrow> import_row \<Rightarrow> import_row \<Rightarrow> bool" where
  "bound_row job libs old new =
     (case map_of (job_targets job) (ir_symbol old) of
        None \<Rightarrow> new = old
      | Some (_, provider) \<Rightarrow>
          0 < ir_ordinal new \<and> ir_ordinal new \<le> int (length libs) \<and> libs ! nat (ir_ordinal new - 1) = provider
          \<and> new = old\<lparr>ir_ordinal := ir_ordinal new\<rparr>)"

lemma check_row_bound:
  assumes "check_row job (new_ordinals (int (length libs)) (job_additions job)) (old, new) () = Inr ()"
  shows "bound_row job (libs @ job_additions job) old new"
proof (cases "map_of (job_targets job) (ir_symbol old)")
  case None
  then show ?thesis using assms by (simp add: check_row_def expected_row_def bound_row_def)
next
  case (Some t)
  obtain e provider where t: "t = (e, provider)" by (cases t)
  let ?os = "new_ordinals (int (length libs)) (job_additions job)"
  from assms Some t obtain k where k: "map_of ?os provider = Some k" "new = old\<lparr>ir_ordinal := k\<rparr>"
    by (auto simp: check_row_def expected_row_def ordinal_of_def bindR_Inr_iff split: option.splits)
  from new_ordinals_range [OF k(1)]
  have r: "int (length libs) < k" "k \<le> int (length libs) + int (length (job_additions job))"
      "job_additions job ! nat (k - int (length libs) - 1) = provider" by auto
  have "nat (k - 1) = length libs + nat (k - int (length libs) - 1)" using r(1) by simp
  then have "(libs @ job_additions job) ! nat (k - 1) = provider" using r(3) by (simp add: nth_append)
  then show ?thesis using k(2) r Some t by (simp add: bound_row_def)
qed

lemma foldR_each: "foldR f xs () = Inr () \<Longrightarrow> x \<in> set xs \<Longrightarrow> f x () = Inr ()"
  by (induction xs) (auto simp: bindR_Inr_iff)

lemma check_resultE:
  assumes "check_result job ordinals original before libs selected changes new_end ranges data = Inr ()"
  obtains after where "import_rows data = Inr after" "libraries data = Inr (libs @ job_additions job)"
    "length after = length before" "foldR (check_row job ordinals) (zip before after) () = Inr ()"
    "list_all (\<lambda>(off, sz). py_slice original off (off + sz) = py_slice data off (off + sz)) ranges"
    "length data = length original" "list_all (allowed_place new_end selected changes) (changed_places original data)"
  using assms unfolding check_result_def by (auto simp: bindR_Inr_iff)


end
