(* ===== verification/Dsc_Audit.thy ===== *)
theory Dsc_Audit
  imports Py_Prelude "HOL-Library.AList"
begin

text \<open>
  \<^verbatim>\<open>scripts/audit-ipados-dsc.py\<close>: every system dependency and import of the packaged binaries is looked up in a dyld
  shared cache, following re-exports. What the tools (\<^verbatim>\<open>ipsw\<close>, \<^verbatim>\<open>dyld_info\<close>, \<^verbatim>\<open>file\<close>) print about an image is a
  parameter, already parsed; the caches of parsed output do not show. Names are strings of ASCII characters.
\<close>

subsection \<open>Names\<close>

text \<open>\<^verbatim>\<open>s.split(c)\<close> at one character, and its inverse.\<close>

fun split_char :: "char \<Rightarrow> string \<Rightarrow> string list" where
  "split_char c [] = [[]]"
| "split_char c (x # xs) =
     (if x = c then [] # split_char c xs
      else case split_char c xs of [] \<Rightarrow> [[x]] | w # ws \<Rightarrow> (x # w) # ws)"

fun join_char :: "char \<Rightarrow> string list \<Rightarrow> string" where
  "join_char c [] = []"
| "join_char c [w] = w"
| "join_char c (w # v # ws) = w @ [c] @ join_char c (v # ws)"

definition basename :: "string \<Rightarrow> string" where
  "basename path = last (split_char (CHR ''/'') path)"

definition dependency_label :: "string \<Rightarrow> string" where
  "dependency_label path =
     (let base = basename path in if suffix ''.dylib'' base then take (length base - 6) base else base)"

definition is_digits :: "string \<Rightarrow> bool" where
  "is_digits s \<longleftrightarrow> s \<noteq> [] \<and> list_all (\<lambda>c. c \<in> set ''0123456789'') s"

text \<open>The components are given in reverse, so \<^verbatim>\<open>pop\<close> drops the head.\<close>

fun shorter_labels :: "string list \<Rightarrow> string list" where
  "shorter_labels [] = []"
| "shorter_labels [c] = []"
| "shorter_labels (c # d # ds) =
     (if is_digits c \<or> length c = 1 then join_char (CHR ''.'') (rev (d # ds)) # shorter_labels (d # ds) else [])"

definition possible_labels :: "string \<Rightarrow> string list" where
  "possible_labels path =
     (let label = dependency_label path in remdups (label # shorter_labels (rev (split_char (CHR ''.'') label))))"

definition normalized_install_name :: "string \<Rightarrow> string" where
  "normalized_install_name path = py_replace ''.framework/Versions/A/'' ''.framework/'' path"

subsection \<open>The shared cache\<close>

type_synonym lib_info = "string list \<times> string list"

record shared_cache =
  sc_images :: "(string \<times> string) list"
  sc_tbd :: "string \<Rightarrow> lib_info option"
  sc_symbols :: "string \<Rightarrow> string list"
  sc_reexports :: "string \<Rightarrow> string list"

text \<open>\<^verbatim>\<open>self.images\<close>, from the listing of the images.\<close>

definition image_table :: "string list \<Rightarrow> (string \<times> string) list res" where
  "image_table images =
     bindR (guardR (images \<noteq> []) Runtime_Error) (\<lambda>_.
     Inr (fold (\<lambda>image t. AList.update (normalized_install_name image) image t) images []))"

definition actual_install_name :: "shared_cache \<Rightarrow> string \<Rightarrow> string option" where
  "actual_install_name c requested = map_of (sc_images c) (normalized_install_name requested)"

text \<open>Exports and re-exports of a library: its TBD, or what its Mach-O tables say.\<close>

definition library_info :: "shared_cache \<Rightarrow> string \<Rightarrow> lib_info option" where
  "library_info c name =
     (case sc_tbd c (case actual_install_name c name of None \<Rightarrow> name | Some a \<Rightarrow> a) of
        Some i \<Rightarrow> Some i
      | None \<Rightarrow> (case actual_install_name c name of
          None \<Rightarrow> None
        | Some a \<Rightarrow> Some (sc_symbols c a, sc_reexports c a)))"

text \<open>\<^verbatim>\<open>any(self.exports_symbol(item, symbol, visited) for item in items)\<close>, with the visited set that the calls
  share; each call looks at its own re-exports before the next item.\<close>

partial_function (option) any_exports ::
    "shared_cache \<Rightarrow> string \<Rightarrow> string list \<Rightarrow> string list \<Rightarrow> (bool \<times> string list) option" where
  "any_exports c symbol items visited =
     (case items of
        [] \<Rightarrow> Some (False, visited)
      | item # rest \<Rightarrow>
          if normalized_install_name item \<in> set visited then any_exports c symbol rest visited
          else (case library_info c item of
            None \<Rightarrow> any_exports c symbol rest (normalized_install_name item # visited)
          | Some (exports, reexports) \<Rightarrow>
              if symbol \<in> set exports then Some (True, normalized_install_name item # visited)
              else Option.bind (any_exports c symbol reexports (normalized_install_name item # visited))
                (\<lambda>r. if fst r then Some (True, snd r) else any_exports c symbol rest (snd r))))"

definition exports_symbol :: "shared_cache \<Rightarrow> string \<Rightarrow> string \<Rightarrow> bool option" where
  "exports_symbol c install_name symbol = map_option fst (any_exports c symbol [install_name] [])"

subsection \<open>The audit\<close>

text \<open>One line of \<^verbatim>\<open>dyld_info -dependents\<close>, in columns.\<close>

definition linked_dependencies :: "string list list \<Rightarrow> (string \<times> bool) list" where
  "linked_dependencies ls =
     concat (map (\<lambda>columns. if columns \<noteq> [] \<and> (prefix ''/'' (last columns) \<or> prefix ''@'' (last columns))
        then [(last columns, ''weak-link'' \<in> set (butlast columns))] else []) ls)"

definition system_path :: "string \<Rightarrow> bool" where
  "system_path p \<longleftrightarrow> prefix ''/System/'' p \<or> prefix ''/usr/'' p \<or> prefix ''/Library/Apple/'' p"

definition hypervisor_name :: string where
  "hypervisor_name = ''/System/Library/Frameworks/Hypervisor.framework/Hypervisor''"

datatype problem =
    Missing_Dependency string string
  | No_Owner string string
  | Missing_Import string string string

record audit =
  missing_dependencies :: "problem list"
  missing_imports :: "problem list"
  weak_missing_dependencies :: nat
  weak_missing_imports :: nat
  audited_imports :: nat

type_synonym label_table = "(string \<times> (string \<times> bool) list) list"

definition add_label :: "string \<times> bool \<Rightarrow> string \<Rightarrow> label_table \<Rightarrow> label_table" where
  "add_label dep label labels =
     AList.update label ((case map_of labels label of None \<Rightarrow> [] | Some ds \<Rightarrow> ds) @ [dep]) labels"

definition audit_dependency ::
    "shared_cache \<Rightarrow> bool \<Rightarrow> string \<Rightarrow> string \<times> bool \<Rightarrow> label_table \<times> audit \<Rightarrow> label_table \<times> audit" where
  "audit_dependency c bundled binary dep = (\<lambda>(labels, a).
     let (dependency, weak) = dep; labels = fold (add_label dep) (possible_labels dependency) labels in
     (labels,
      if \<not> system_path dependency then a
      else if dependency = hypervisor_name \<and> bundled then a
      else if actual_install_name c dependency = None then
        (if weak then a\<lparr>weak_missing_dependencies := weak_missing_dependencies a + 1\<rparr>
         else a\<lparr>missing_dependencies := missing_dependencies a @ [Missing_Dependency binary dependency]\<rparr>)
      else a))"

text \<open>One import: the symbol, the label of its owner, and whether it is weak.\<close>

definition audit_import ::
    "shared_cache \<Rightarrow> bool \<Rightarrow> string \<Rightarrow> label_table \<Rightarrow> string \<times> string \<times> bool \<Rightarrow> audit \<Rightarrow> audit option" where
  "audit_import c bundled binary labels = (\<lambda>(symbol, label, weak_import) a.
     if prefix ''<'' label then Some a
     else (case (case map_of labels label of None \<Rightarrow> [] | Some ds \<Rightarrow> ds) of
       [] \<Rightarrow> Some (a\<lparr>missing_imports := missing_imports a @ [No_Owner binary label]\<rparr>)
     | d # ds \<Rightarrow>
         (case filter (\<lambda>item. system_path (fst item)) (d # ds) of
            [] \<Rightarrow> Some a
          | (dependency, weak_dependency) # _ \<Rightarrow>
              if dependency = hypervisor_name \<and> bundled then Some a
              else let a = a\<lparr>audited_imports := audited_imports a + 1\<rparr> in
                (case exports_symbol c dependency symbol of
                   None \<Rightarrow> None
                 | Some True \<Rightarrow> Some a
                 | Some False \<Rightarrow>
                     Some (if weak_import \<or> weak_dependency
                           then a\<lparr>weak_missing_imports := weak_missing_imports a + 1\<rparr>
                           else a\<lparr>missing_imports := missing_imports a @ [Missing_Import binary symbol dependency]\<rparr>)))))"

fun audit_imports ::
    "shared_cache \<Rightarrow> bool \<Rightarrow> string \<Rightarrow> label_table \<Rightarrow> (string \<times> string \<times> bool) list \<Rightarrow> audit \<Rightarrow> audit option" where
  "audit_imports c bundled binary labels [] a = Some a"
| "audit_imports c bundled binary labels (i # is) a =
     Option.bind (audit_import c bundled binary labels i a) (audit_imports c bundled binary labels is)"

type_synonym audited_binary = "string \<times> string list list \<times> (string \<times> string \<times> bool) list"

definition audit_binary :: "shared_cache \<Rightarrow> bool \<Rightarrow> audited_binary \<Rightarrow> audit \<Rightarrow> audit option" where
  "audit_binary c bundled = (\<lambda>(binary, dependents, imps) a.
     let (labels, a) = fold (audit_dependency c bundled binary) (linked_dependencies dependents) ([], a) in
     audit_imports c bundled binary labels imps a)"

fun audit_binaries :: "shared_cache \<Rightarrow> bool \<Rightarrow> audited_binary list \<Rightarrow> audit \<Rightarrow> audit option" where
  "audit_binaries c bundled [] a = Some a"
| "audit_binaries c bundled (b # bs) a = Option.bind (audit_binary c bundled b a) (audit_binaries c bundled bs)"

definition empty_audit :: audit where
  "empty_audit = \<lparr>missing_dependencies = [], missing_imports = [], weak_missing_dependencies = 0,
     weak_missing_imports = 0, audited_imports = 0\<rparr>"

text \<open>\<^verbatim>\<open>main\<close>: the problems it prints and its exit status. No binaries at all is an error.\<close>

definition audit_main :: "shared_cache \<Rightarrow> bool \<Rightarrow> audited_binary list \<Rightarrow> (problem list \<times> int) res option" where
  "audit_main c bundled binaries =
     (if binaries = [] then Some (Inl Runtime_Error)
      else map_option (\<lambda>a. let ps = missing_dependencies a @ missing_imports a in
             Inr (ps, if ps \<noteq> [] then 1 else 0)) (audit_binaries c bundled binaries empty_audit))"

subsection \<open>The search through the re-exports\<close>

definition reexports_to :: "shared_cache \<Rightarrow> string \<Rightarrow> string \<Rightarrow> bool" where
  "reexports_to c x y \<longleftrightarrow> (\<exists>exports reexports. library_info c x = Some (exports, reexports) \<and> y \<in> set reexports)"

definition provides :: "shared_cache \<Rightarrow> string \<Rightarrow> string \<Rightarrow> bool" where
  "provides c symbol x \<longleftrightarrow> (\<exists>exports reexports. library_info c x = Some (exports, reexports) \<and> symbol \<in> set exports)"

text \<open>What a finished search leaves: every library it visited lacks the symbol and has its re-exports visited.\<close>

definition searched :: "shared_cache \<Rightarrow> string \<Rightarrow> string set \<Rightarrow> string list \<Rightarrow> string list \<Rightarrow> bool" where
  "searched c symbol N vis vis' \<longleftrightarrow>
     (\<forall>m \<in> N. normalized_install_name m \<in> set vis' - set vis \<longrightarrow>
        \<not> provides c symbol m \<and> (\<forall>k. reexports_to c m k \<longrightarrow> normalized_install_name k \<in> set vis'))"

definition search_ok :: "shared_cache \<Rightarrow> string \<Rightarrow> string set \<Rightarrow> string list \<Rightarrow> string list \<Rightarrow> bool" where
  "search_ok c symbol N items vis \<longleftrightarrow>
     (\<exists>r vis'. any_exports c symbol items vis = Some (r, vis') \<and> set vis \<subseteq> set vis' \<and>
        (r \<longrightarrow> (\<exists>x \<in> set items. \<exists>m. (reexports_to c)\<^sup>*\<^sup>* x m \<and> provides c symbol m)) \<and>
        (\<not> r \<longrightarrow> normalized_install_name ` set items \<subseteq> set vis' \<and> searched c symbol N vis vis'))"

lemma any_exports_step:
  "any_exports c symbol [] vis = Some (False, vis)"
  "normalized_install_name n \<in> set vis \<Longrightarrow> any_exports c symbol (n # ns) vis = any_exports c symbol ns vis"
  "normalized_install_name n \<notin> set vis \<Longrightarrow> library_info c n = None \<Longrightarrow>
     any_exports c symbol (n # ns) vis = any_exports c symbol ns (normalized_install_name n # vis)"
  "normalized_install_name n \<notin> set vis \<Longrightarrow> library_info c n = Some (ex, re) \<Longrightarrow>
     any_exports c symbol (n # ns) vis =
       (if symbol \<in> set ex then Some (True, normalized_install_name n # vis)
        else Option.bind (any_exports c symbol re (normalized_install_name n # vis))
               (\<lambda>r. if fst r then Some (True, snd r) else any_exports c symbol ns (snd r)))"
  by (subst any_exports.simps; simp)+

lemma searched_refl: "searched c symbol N vis vis"
  by (simp add: searched_def)

lemma searched_trans:
  assumes "searched c symbol N a b" "searched c symbol N b d" "set b \<subseteq> set d"
  shows "searched c symbol N a d"
  using assms unfolding searched_def by blast

lemma any_exports_ok:
  assumes fin: "finite N" and "set items \<subseteq> N"
    and closed: "\<And>x y. x \<in> N \<Longrightarrow> reexports_to c x y \<Longrightarrow> y \<in> N"
    and same: "\<And>x y. x \<in> N \<Longrightarrow> y \<in> N \<Longrightarrow> normalized_install_name x = normalized_install_name y \<Longrightarrow>
      library_info c x = library_info c y"
  shows "search_ok c symbol N items vis"
  using assms(2)
proof (induction "card (normalized_install_name ` N - set vis)" arbitrary: items vis rule: less_induct)
  case less
  let ?nm = normalized_install_name
  from less.prems show ?case
  proof (induction items)
    case Nil
    show ?case by (auto simp: search_ok_def any_exports_step(1) searched_refl)
  next
    case (Cons n ns)
    then have n: "n \<in> N" and ns: "set ns \<subseteq> N" by auto
    show ?case
    proof (cases "?nm n \<in> set vis")
      case True
      from Cons.IH [OF ns] show ?thesis
        unfolding search_ok_def any_exports_step(2) [OF True] using True by (auto 4 3)
    next
      case False
      let ?vis = "?nm n # vis"
      have smaller: "card (?nm ` N - set w) < card (?nm ` N - set vis)" if "set ?vis \<subseteq> set w" for w
        by (rule psubset_card_mono) (use fin n False that in auto)
      have rest: "search_ok c symbol N ns w" if "set ?vis \<subseteq> set w" for w
        using less.hyps [OF smaller [OF that] ns] .
      show ?thesis
      proof (cases "library_info c n")
        case None
        have first: "searched c symbol N vis ?vis"
          unfolding searched_def
        proof (intro ballI impI)
          fix m assume m: "m \<in> N" "?nm m \<in> set ?vis - set vis"
          then have "library_info c m = None" using same [OF m(1) n] None by auto
          then show "\<not> provides c symbol m \<and> (\<forall>k. reexports_to c m k \<longrightarrow> ?nm k \<in> set ?vis)"
            by (simp add: provides_def reexports_to_def)
        qed
        obtain r vis' where r: "any_exports c symbol ns ?vis = Some (r, vis')" "set ?vis \<subseteq> set vis'"
            "r \<longrightarrow> (\<exists>x \<in> set ns. \<exists>m. (reexports_to c)\<^sup>*\<^sup>* x m \<and> provides c symbol m)"
            "\<not> r \<longrightarrow> ?nm ` set ns \<subseteq> set vis' \<and> searched c symbol N ?vis vis'"
          using rest [of ?vis] unfolding search_ok_def by auto
        show ?thesis
          unfolding search_ok_def any_exports_step(3) [OF False None] r(1)
          using r(2-4) searched_trans [OF first _ r(2)] by (intro exI [of _ r] exI [of _ vis']) auto
      next
        case (Some i)
        obtain ex re where i: "library_info c n = Some (ex, re)" using Some by (cases i) auto
        note step = any_exports_step(4) [OF False i, of symbol ns]
        have edge: "reexports_to c n k" if "k \<in> set re" for k using that i by (auto simp: reexports_to_def)
        show ?thesis
        proof (cases "symbol \<in> set ex")
          case True
          then have "provides c symbol n" using i by (auto simp: provides_def)
          then show ?thesis unfolding search_ok_def step using True by auto
        next
          case absent: False
          have re: "set re \<subseteq> N" using closed [OF n] edge by auto
          obtain r vis' where r: "any_exports c symbol re ?vis = Some (r, vis')" "set ?vis \<subseteq> set vis'"
              "r \<longrightarrow> (\<exists>x \<in> set re. \<exists>m. (reexports_to c)\<^sup>*\<^sup>* x m \<and> provides c symbol m)"
              "\<not> r \<longrightarrow> ?nm ` set re \<subseteq> set vis' \<and> searched c symbol N ?vis vis'"
            using less.hyps [OF smaller re, of ?vis] unfolding search_ok_def by auto
          show ?thesis
          proof (cases r)
            case True
            then obtain x m where "x \<in> set re" "(reexports_to c)\<^sup>*\<^sup>* x m" "provides c symbol m" using r(3) by auto
            then have "(reexports_to c)\<^sup>*\<^sup>* n m" using edge by (meson converse_rtranclp_into_rtranclp)
            then show ?thesis
              unfolding search_ok_def step using absent True r(1,2) \<open>provides c symbol m\<close> by auto
          next
            case no: False
            then have v: "?nm ` set re \<subseteq> set vis'" "searched c symbol N ?vis vis'" using r(4) by auto
            have first: "searched c symbol N vis vis'"
              unfolding searched_def
            proof (intro ballI impI)
              fix m assume m: "m \<in> N" "?nm m \<in> set vis' - set vis"
              show "\<not> provides c symbol m \<and> (\<forall>k. reexports_to c m k \<longrightarrow> ?nm k \<in> set vis')"
              proof (cases "?nm m = ?nm n")
                case True
                then have "library_info c m = Some (ex, re)" using same [OF m(1) n] i by simp
                then show ?thesis using absent v(1) by (auto simp: provides_def reexports_to_def)
              qed (use v(2) m in \<open>auto simp: searched_def\<close>)
            qed
            obtain r2 vis2 where s: "any_exports c symbol ns vis' = Some (r2, vis2)" "set vis' \<subseteq> set vis2"
                "r2 \<longrightarrow> (\<exists>x \<in> set ns. \<exists>m. (reexports_to c)\<^sup>*\<^sup>* x m \<and> provides c symbol m)"
                "\<not> r2 \<longrightarrow> ?nm ` set ns \<subseteq> set vis2 \<and> searched c symbol N vis' vis2"
              using rest [OF r(2)] unfolding search_ok_def by auto
            have "any_exports c symbol (n # ns) vis = Some (r2, vis2)"
              using step absent r(1) no s(1) by simp
            moreover have "set vis \<subseteq> set vis2" "?nm n \<in> set vis2" using r(2) s(2) by auto
            moreover have "\<not> r2 \<Longrightarrow> searched c symbol N vis vis2" using searched_trans [OF first _ s(2)] s(4) by blast
            ultimately show ?thesis unfolding search_ok_def using s(3,4) by auto
          qed
        qed
      qed
    qed
  qed
qed

text \<open>C30: The search for a symbol always ends, also when libraries re-export each other in a cycle, and says yes
exactly when some library that the first one reaches through re-exports provides the symbol. The libraries it can
reach are finitely many, and two names that differ by the framework version directory mean the same library.\<close>
theorem exports_symbol_reachable:
  assumes "finite N" and "name \<in> N"
    and "\<forall>x \<in> N. \<forall>y. reexports_to c x y \<longrightarrow> y \<in> N"
    and "\<forall>x \<in> N. \<forall>y \<in> N. normalized_install_name x = normalized_install_name y \<longrightarrow> library_info c x = library_info c y"
  shows "exports_symbol c name symbol = Some (\<exists>m. (reexports_to c)\<^sup>*\<^sup>* name m \<and> provides c symbol m)"
proof -
  have "search_ok c symbol N [name] []"
  proof (rule any_exports_ok [OF assms(1)])
    show "set [name] \<subseteq> N" using assms(2) by simp
    show "y \<in> N" if "x \<in> N" "reexports_to c x y" for x y using assms(3) that by blast
    show "library_info c x = library_info c y"
      if "x \<in> N" "y \<in> N" "normalized_install_name x = normalized_install_name y" for x y
      using assms(4) that by blast
  qed
  then obtain r vis where r: "any_exports c symbol [name] [] = Some (r, vis)"
      "r \<longrightarrow> (\<exists>m. (reexports_to c)\<^sup>*\<^sup>* name m \<and> provides c symbol m)"
      "\<not> r \<longrightarrow> normalized_install_name name \<in> set vis \<and> searched c symbol N [] vis"
    unfolding search_ok_def by auto
  have "\<not> provides c symbol m" if "\<not> r" "(reexports_to c)\<^sup>*\<^sup>* name m" for m
  proof -
    from that(2) have "m \<in> N \<and> normalized_install_name m \<in> set vis"
    proof induction
      case base
      then show ?case using assms(2) r(3) that(1) by simp
    next
      case (step y z)
      then have "y \<in> N" "normalized_install_name y \<in> set vis - set []" by auto
      then show ?case using r(3) that(1) step.hyps(2) assms(3) unfolding searched_def by blast
    qed
    then show ?thesis using r(3) that(1) by (auto simp: searched_def)
  qed
  then have "r \<longleftrightarrow> (\<exists>m. (reexports_to c)\<^sup>*\<^sup>* name m \<and> provides c symbol m)" using r(2) by blast
  then show ?thesis by (simp add: exports_symbol_def r(1))
qed

text \<open>Two libraries that re-export each other.\<close>

definition demo_cache :: shared_cache where
  "demo_cache = \<lparr>sc_images = [(''/a'', ''/a''), (''/b'', ''/b'')],
     sc_tbd = (\<lambda>n. if n = ''/a'' then Some ([''_f''], [''/b'']) else if n = ''/b'' then Some ([''_g''], [''/a'']) else None),
     sc_symbols = (\<lambda>_. []), sc_reexports = (\<lambda>_. [])\<rparr>"

lemma demo_normal: "normalized_install_name ''/a'' = ''/a''" "normalized_install_name ''/b'' = ''/b''"
  by code_simp+

lemma demo_info:
  "library_info demo_cache ''/a'' = Some ([''_f''], [''/b''])" "library_info demo_cache ''/b'' = Some ([''_g''], [''/a''])"
  unfolding library_info_def actual_install_name_def demo_normal by (simp_all add: demo_cache_def)

lemma exports_symbol_reachable_witness:
  "exports_symbol demo_cache ''/a'' ''_g'' = Some True \<and> exports_symbol demo_cache ''/a'' ''_h'' = Some False"
proof -
  have closed: "\<forall>x \<in> {''/a'', ''/b''}. \<forall>y. reexports_to demo_cache x y \<longrightarrow> y \<in> {''/a'', ''/b''}"
    unfolding reexports_to_def using demo_info by simp
  have same: "\<forall>x \<in> {''/a'', ''/b''}. \<forall>y \<in> {''/a'', ''/b''}. normalized_install_name x = normalized_install_name y \<longrightarrow>
      library_info demo_cache x = library_info demo_cache y" by (auto simp: demo_normal)
  note e = exports_symbol_reachable [of "{''/a'', ''/b''}" "''/a''" demo_cache, OF _ _ closed same]
  have "(reexports_to demo_cache)\<^sup>*\<^sup>* ''/a'' ''/b''" by (rule r_into_rtranclp) (simp add: reexports_to_def demo_info)
  moreover have "provides demo_cache ''_g'' ''/b''" by (simp add: provides_def demo_info)
  ultimately have yes: "\<exists>m. (reexports_to demo_cache)\<^sup>*\<^sup>* ''/a'' m \<and> provides demo_cache ''_g'' m" by blast
  have "m \<in> {''/a'', ''/b''}" if "(reexports_to demo_cache)\<^sup>*\<^sup>* ''/a'' m" for m
    using that by induction (use closed in blast)+
  moreover have "\<not> provides demo_cache ''_h'' m" if "m \<in> {''/a'', ''/b''}" for m
    using that by (auto simp: provides_def demo_info)
  ultimately have "\<not> (\<exists>m. (reexports_to demo_cache)\<^sup>*\<^sup>* ''/a'' m \<and> provides demo_cache ''_h'' m)" by blast
  then show ?thesis using e [of "''_g''"] e [of "''_h''"] yes by simp
qed

end
