(* ===== verification/Pvg_Profile.thy ===== *)
theory Pvg_Profile
  imports Py_Io MachO
begin

text \<open>
  \<^verbatim>\<open>scripts/development/prepare-modern-pvg-ui-profile.py\<close>: the guards on the exact reviewed framework binary, the two
  patches, and the comparison of the signed candidate with the input. SHA-256 (in hexadecimal) and \<^verbatim>\<open>codesign\<close> are
  parameters; the output directory, the reports and the other tools are left out.
\<close>

subsection \<open>The reviewed build\<close>

definition pvg_size :: nat where "pvg_size = 665056"
definition pvg_uuid :: bytes where "pvg_uuid = ascii ''9e6a667aa77532de8dd56872ef6a53d9''"
definition header_size :: int where "header_size = 4064"
definition header_sha :: bytes where
  "header_sha = ascii ''a4e199dcb0f8278f2970acd2f3ed52540aee2e8db9dded33076a956f18a9845f''"
definition target_sha :: bytes where
  "target_sha = ascii ''7c052a43cf26b232b114d787f6b3f9133c0646db953858717645895ab0ef5065''"
definition target_cd :: bytes where "target_cd = ascii ''88b6ad7d5a32de3a956ac8f4b82c4d6f5604dfc8''"
definition shared_offset :: int where "shared_offset = 0x26B98"
definition shared_original :: bytes where
  "shared_original = [0x08, 0xA0, 0x61, 0x39, 0x00, 0x01, 0x00, 0x12, 0xC0, 0x03, 0x5F, 0xD6]"
definition shared_no :: bytes where
  "shared_no = [0x00, 0x00, 0x80, 0x52, 0x1F, 0x20, 0x03, 0xD5, 0xC0, 0x03, 0x5F, 0xD6]"
definition profile_offset :: int where "profile_offset = 0xDD8C"
definition profile_original :: bytes where "profile_original = [0xF3, 0x03, 0x00, 0xAA]"
definition profile_mac :: bytes where "profile_mac = [0x13, 0x00, 0x80, 0x52]"
definition physical_query :: bytes where
  "physical_query = [0xE0, 0x03, 0x16, 0xAA, 0xA2, 0x7D, 0x80, 0x52, 0x9E, 0x60, 0x01, 0x94]"

record pvg_build =
  build_name :: bytes
  build_cd :: bytes
  build_shared :: bytes
  build_profile :: bytes

definition pvg_inputs :: "(bytes \<times> pvg_build) list" where
  "pvg_inputs =
     [(ascii ''6e1d9945180e8dcf57474b7ecd7bc42a49379e4101bb8db089a4433eae97c92d'',
       \<lparr>build_name = ascii ''original-pvg27'', build_cd = ascii ''1ff660a809fbcecb8407a98015ef7fc1ab7d22fe'',
        build_shared = shared_original, build_profile = profile_original\<rparr>),
      (ascii ''fee8179463878128371b80a4ea776d2b72f8207dd817c2033eeb112ff8ca005c'',
       \<lparr>build_name = ascii ''shared-handles-disabled'', build_cd = ascii ''5faec3260055bfb8b5a234e1ad5a9a143d8b3b11'',
        build_shared = shared_no, build_profile = profile_original\<rparr>),
      (target_sha,
       \<lparr>build_name = ascii ''reviewed-ui-profile'', build_cd = target_cd,
        build_shared = shared_no, build_profile = profile_mac\<rparr>)]"

type_synonym pvg_segment = "bytes \<times> int \<times> int \<times> int \<times> int \<times> int \<times> int"

definition pvg_segments :: "pvg_segment list" where
  "pvg_segments =
     [(ascii ''__TEXT'', 4294967296, 425984, 0, 425984, 5, 5),
      (ascii ''__DATA_CONST'', 4295393280, 81920, 425984, 81920, 3, 3),
      (ascii ''__AUTH_CONST'', 4295475200, 32768, 507904, 32768, 3, 3),
      (ascii ''__AUTH'', 4295507968, 16384, 540672, 16384, 3, 3),
      (ascii ''__DATA'', 4295524352, 16384, 557056, 16384, 3, 3),
      (ascii ''__EXTRA_OBJC'', 4295540736, 65536, 573440, 65536, 3, 3),
      (ascii ''__LINKEDIT'', 4295606272, 32768, 638976, 26080, 1, 1)]"

definition pvg_guards :: "(int \<times> int \<times> bytes) list" where
  "pvg_guards =
     [(58044, 44, ascii ''fbc215c356d660ba30d278ef76ef2b2e8f6fe512b5b723f78d98b6f346a2b392''),
      (404736, 32, ascii ''5a8fa4c7f9d00e6de1dcbf4bc2844050eed42fa949119cada7199d0d50cc24fa''),
      (149072, 32, ascii ''59c5b1145a6b46d5ea2a6801f4dbe594dd8fd5a0bb775885fefc7980d134321d'')]"

definition require :: "bool \<Rightarrow> unit res" where
  "require b = guardR b Value_Error"

subsection \<open>The layout\<close>

record pvg_section =
  ps_name :: bytes
  ps_va :: int
  ps_bytes :: int
  ps_offset :: int
  ps_flags :: int
  ps_zero_fill :: bool
  ps_sha :: "bytes option"

record pvg_layout =
  pl_segments :: "pvg_segment list"
  pl_sections :: "pvg_section list"
  pl_uuids :: "bytes list"
  pl_signatures :: "(int \<times> int \<times> int) list"

definition pvg_section_at :: "(bytes \<Rightarrow> bytes) \<Rightarrow> bytes \<Rightarrow> bytes \<Rightarrow> int \<Rightarrow> pvg_section list \<Rightarrow> pvg_section list res" where
  "pvg_section_at sha data name p sections =
     bindR (ascii_strict (cstr16 data p)) (\<lambda>section_name.
     bindR (unpack_us [8, 8, 4] data (p + 32)) (\<lambda>w.
     bindR (u32 data (p + 64)) (\<lambda>flags.
     let address = w ! 0; len = w ! 1; offset = w ! 2; zero_fill = flags AND 0xFF \<in> {1, 12, 18} in
     bindR (require (zero_fill \<or> offset + len \<le> int (length data))) (\<lambda>_.
     Inr (sections @ [\<lparr>ps_name = name @ ascii ''/'' @ section_name, ps_va = address, ps_bytes = len, ps_offset = offset,
       ps_flags = flags, ps_zero_fill = zero_fill,
       ps_sha = (if zero_fill then None else Some (sha (py_slice data offset (offset + len))))\<rparr>])))))"

definition pvg_command :: "(bytes \<Rightarrow> bytes) \<Rightarrow> bytes \<Rightarrow> int \<Rightarrow> int \<Rightarrow> int \<Rightarrow> pvg_layout \<Rightarrow> pvg_layout res" where
  "pvg_command sha data command sz pos l =
     (if command = LC_SEGMENT_64 then
        bindR (require (72 \<le> sz)) (\<lambda>_.
        bindR (ascii_strict (cstr16 data (pos + 8))) (\<lambda>name.
        bindR (u64x4 data (pos + 24)) (\<lambda>(va, vs, fo, fs).
        bindR (i32 data (pos + 56)) (\<lambda>maxprot.
        bindR (i32 data (pos + 60)) (\<lambda>initprot.
        bindR (u32 data (pos + 64)) (\<lambda>nsections.
        bindR (require (sz = 72 + 80 * nsections)) (\<lambda>_.
        bindR (foldR (pvg_section_at sha data name) (sect_offs pos nsections) (pl_sections l)) (\<lambda>sections.
        Inr (l\<lparr>pl_segments := pl_segments l @ [(name, va, vs, fo, fs, maxprot, initprot)],
               pl_sections := sections\<rparr>)))))))))
      else if command = 0x1B then
        bindR (require (sz = 24)) (\<lambda>_.
        Inr (l\<lparr>pl_uuids := pl_uuids l @ [hex_bytes (py_slice data (pos + 8) (pos + 24))]\<rparr>))
      else if command = 0x1D then
        bindR (require (sz = 16)) (\<lambda>_.
        bindR (u32x2 data (pos + 8)) (\<lambda>(off, n). Inr (l\<lparr>pl_signatures := pl_signatures l @ [(pos, off, n)]\<rparr>)))
      else Inr l)"

fun pvg_commands :: "(bytes \<Rightarrow> bytes) \<Rightarrow> bytes \<Rightarrow> int \<Rightarrow> nat \<Rightarrow> int \<Rightarrow> pvg_layout \<Rightarrow> (int \<times> pvg_layout) res" where
  "pvg_commands sha data stop 0 pos l = Inr (pos, l)"
| "pvg_commands sha data stop (Suc n) pos l =
     bindR (require (pos + 8 \<le> stop)) (\<lambda>_.
     bindR (u32x2 data pos) (\<lambda>(command, sz).
     bindR (require (8 \<le> sz \<and> pos + sz \<le> stop)) (\<lambda>_.
     bindR (pvg_command sha data command sz pos l) (pvg_commands sha data stop n (pos + sz)))))"

definition pvg_macho :: "(bytes \<Rightarrow> bytes) \<Rightarrow> bytes \<Rightarrow> pvg_layout res" where
  "pvg_macho sha data =
     bindR (require (length data = pvg_size \<and> py_slice data 0 4 = [0xCF, 0xFA, 0xED, 0xFE])) (\<lambda>_.
     bindR (u32x2 data 4) (\<lambda>cpu.
     bindR (require (cpu = (0x100000C, 0x80000002))) (\<lambda>_.
     bindR (u32x2 data 16) (\<lambda>(cnt, command_bytes).
     let stop = 32 + command_bytes in
     bindR (require (stop = header_size \<and> sha (py_slice data 0 stop) = header_sha)) (\<lambda>_.
     bindR (pvg_commands sha data stop (nat cnt) 32
              \<lparr>pl_segments = [], pl_sections = [], pl_uuids = [], pl_signatures = []\<rparr>) (\<lambda>(pos, l).
     bindR (require (pos = stop \<and> pl_segments l = pvg_segments)) (\<lambda>_.
     bindR (require (pl_uuids l = [pvg_uuid] \<and> pl_signatures l = [(4048, 663456, 1600)])) (\<lambda>_.
     Inr l))))))))"

subsection \<open>Validation and preparation\<close>

definition pvg_validate :: "(bytes \<Rightarrow> bytes) \<Rightarrow> bytes \<Rightarrow> (bytes \<times> pvg_build \<times> pvg_layout) res" where
  "pvg_validate sha data =
     (case map_of pvg_inputs (sha data) of
        None \<Rightarrow> Inl Value_Error
      | Some build \<Rightarrow>
          bindR (pvg_macho sha data) (\<lambda>l.
          bindR (require (py_slice data shared_offset (shared_offset + 12) = build_shared build)) (\<lambda>_.
          bindR (require (py_slice data profile_offset (profile_offset + 4) = build_profile build)) (\<lambda>_.
          bindR (require (py_slice data (profile_offset - 12) profile_offset = physical_query)) (\<lambda>_.
          bindR (require (list_all (\<lambda>(off, n, expected). sha (py_slice data off (off + n)) = expected) pvg_guards)) (\<lambda>_.
          Inr (sha data, build, l)))))))"

definition pvg_patched :: "bytes \<Rightarrow> bytes" where
  "pvg_patched raw =
     py_set_slice (py_set_slice raw shared_offset (shared_offset + 12) shared_no)
       profile_offset (profile_offset + 4) profile_mac"

definition differences :: "bytes \<Rightarrow> bytes \<Rightarrow> nat list" where
  "differences a b = filter (\<lambda>i. a ! i \<noteq> b ! i) [0..<min (length a) (length b)]"

definition pvg_allowed :: "nat \<Rightarrow> bool" where
  "pvg_allowed i \<longleftrightarrow>
     list_ex (\<lambda>(start, n). start \<le> int i \<and> int i < start + n) [(profile_offset, 4), (shared_offset, 12), (663456, 1600)]"

definition changed_section :: "pvg_section \<times> pvg_section \<Rightarrow> bytes list \<Rightarrow> bytes list res" where
  "changed_section = (\<lambda>(a, b) changed.
     bindR (require (a\<lparr>ps_sha := None\<rparr> = b\<lparr>ps_sha := None\<rparr>)) (\<lambda>_.
     Inr (if ps_sha a \<noteq> ps_sha b then changed @ [ps_name a] else changed)))"

definition pvg_compare ::
    "bytes \<Rightarrow> bytes \<Rightarrow> pvg_layout \<Rightarrow> bytes \<Rightarrow> pvg_layout \<Rightarrow> unit res" where
  "pvg_compare digest raw before candidate after =
     bindR (require (list_all pvg_allowed (differences raw candidate))) (\<lambda>_.
     bindR (require (pl_segments before = pl_segments after \<and> pl_signatures before = pl_signatures after)) (\<lambda>_.
     bindR (foldR changed_section (zip (pl_sections before) (pl_sections after)) []) (\<lambda>changed.
     require (changed = (if digest = target_sha then [] else [ascii ''__TEXT/__text''])))))"

definition pvg_prepare :: "(bytes \<Rightarrow> bytes) \<Rightarrow> (bytes \<Rightarrow> bytes res) \<Rightarrow> bytes \<Rightarrow> bytes res" where
  "pvg_prepare sha sign raw =
     bindR (pvg_validate sha raw) (\<lambda>(digest, build, before).
     bindR (sign (pvg_patched raw)) (\<lambda>candidate.
     bindR (pvg_validate sha candidate) (\<lambda>(after_sha, after_build, after).
     bindR (require (after_sha = target_sha \<and> build_cd after_build = target_cd)) (\<lambda>_.
     bindR (pvg_compare digest raw before candidate after) (\<lambda>_. Inr candidate)))))"

subsection \<open>The patches stay where they may\<close>

lemma differences_put_at:
  "i + length ys \<le> length xs \<Longrightarrow> set (differences xs (put_at xs i ys)) \<subseteq> {i ..< i + length ys}"
  by (auto simp: differences_def nth_put_at split: if_splits)

lemma pvg_patched_allowed:
  assumes "length raw = pvg_size"
  shows "length (pvg_patched raw) = pvg_size \<and> list_all pvg_allowed (differences raw (pvg_patched raw))"
proof -
  let ?a = "put_at raw (nat shared_offset) shared_no"
  have l: "length shared_no = 12" "length profile_mac = 4" by (simp_all add: shared_no_def profile_mac_def)
  have a: "py_set_slice raw shared_offset (shared_offset + 12) shared_no = ?a"
    by (rule py_set_slice_put_at) (simp_all add: l assms pvg_size_def shared_offset_def)
  have la: "length ?a = pvg_size" by (simp add: l assms pvg_size_def shared_offset_def)
  have p: "pvg_patched raw = put_at ?a (nat profile_offset) profile_mac"
    unfolding pvg_patched_def a by (rule py_set_slice_put_at) (simp_all add: l la pvg_size_def profile_offset_def)
  have "pvg_allowed i" if i: "i < pvg_size" "raw ! i \<noteq> pvg_patched raw ! i" for i
    using i unfolding p
    by (auto simp: nth_put_at l la assms pvg_size_def shared_offset_def profile_offset_def pvg_allowed_def split: if_splits)
  then show ?thesis
    unfolding list_all_iff differences_def p
    by (simp add: l la assms pvg_size_def profile_offset_def)
qed

end
