(* ===== verification/Hotspot_Merge.thy ===== *)
theory Hotspot_Merge
  imports Dsc_Audit
begin

text \<open>
  \<^verbatim>\<open>packaging/rootless/bootpd-hotspot-merge.py\<close>: the subnet of an active hotspot is merged into the configuration of
  the DHCP server. Property lists are trees; reals and dates, which the code never looks into, are left out. Reading
  and writing property lists is a pair of parameters, and \<^verbatim>\<open>None\<close> stands for every failure to read one.
\<close>

subsection \<open>Property lists\<close>

datatype plist =
    PStr string
  | PInt int
  | PBool bool
  | PData "nat list"
  | PArr "plist list"
  | PDict "(string \<times> plist) list"

definition dict_get :: "string \<Rightarrow> plist \<Rightarrow> plist option" where
  "dict_get key p = (case p of PDict d \<Rightarrow> map_of d key | _ \<Rightarrow> None)"

fun is_dict :: "plist \<Rightarrow> bool" where
  "is_dict (PDict _) = True"
| "is_dict _ = False"

text \<open>Iterating over a value: a dict yields its keys, a string its characters, and a number cannot be iterated.\<close>

fun plist_items :: "plist \<Rightarrow> plist list res" where
  "plist_items (PArr xs) = Inr xs"
| "plist_items (PDict d) = Inr (map (\<lambda>kv. PStr (fst kv)) d)"
| "plist_items (PStr s) = Inr (map (\<lambda>c. PStr [c]) s)"
| "plist_items (PData bs) = Inr (map (\<lambda>b. PInt (int b)) bs)"
| "plist_items (PInt _) = Inl Type_Error"
| "plist_items (PBool _) = Inl Type_Error"

text \<open>The value a set stores: \<^verbatim>\<open>True == 1\<close> in Python, and lists and dicts cannot be stored at all.\<close>

fun hashed :: "plist \<Rightarrow> plist res" where
  "hashed (PArr _) = Inl Type_Error"
| "hashed (PDict _) = Inl Type_Error"
| "hashed (PBool b) = Inr (PInt (if b then 1 else 0))"
| "hashed p = Inr p"

subsection \<open>The active hotspot\<close>

definition creator :: plist where
  "creator = PStr ''vzi-hotspot-compat''"

definition is_space :: "char \<Rightarrow> bool" where
  "is_space c \<longleftrightarrow> (let k = (of_char c :: nat) in (9 \<le> k \<and> k \<le> 13) \<or> (28 \<le> k \<and> k \<le> 32))"

definition lstrip :: "string \<Rightarrow> string" where
  "lstrip s = dropWhile is_space s"

type_synonym blocks = "(string \<times> string list) list"

text \<open>The lines of \<^verbatim>\<open>ifconfig -a\<close>, by interface.\<close>

definition block_line :: "string \<Rightarrow> blocks \<times> string option \<Rightarrow> blocks \<times> string option" where
  "block_line line = (\<lambda>(blocks, current).
     let (blocks, current) =
           (if line \<noteq> [] \<and> \<not> is_space (hd line) \<and> CHR '':'' \<in> set line
            then let name = takeWhile (\<lambda>c. c \<noteq> CHR '':'') line in (AList.update name [] blocks, Some name)
            else (blocks, current))
     in (case current of
           None \<Rightarrow> (blocks, current)
         | Some name \<Rightarrow>
             (if name = [] then blocks
              else AList.update name ((case map_of blocks name of None \<Rightarrow> [] | Some ls \<Rightarrow> ls) @ [line]) blocks, current)))"

definition interface_blocks :: "string list option \<Rightarrow> blocks" where
  "interface_blocks out = (case out of None \<Rightarrow> [] | Some ls \<Rightarrow> fst (fold block_line ls ([], None)))"

definition has_desc :: "string list \<Rightarrow> bool" where
  "has_desc ls = list_ex (\<lambda>l. sublist ''desc: com.apple.MobileInternetSharing'' l) ls"

definition has_ap_member :: "string list \<Rightarrow> bool" where
  "has_ap_member ls = list_ex (\<lambda>l. prefix ''member: ap'' (lstrip l)) ls"

definition hotspot_subnet :: "blocks \<Rightarrow> plist \<Rightarrow> (string \<times> plist) option" where
  "hotspot_subnet blocks subnet =
     (case subnet of
        PDict d \<Rightarrow>
          (case map_of d ''interface'' of
             Some (PStr interface) \<Rightarrow>
               (if interface = [] then None
                else let ls = (case map_of blocks interface of None \<Rightarrow> [] | Some ls \<Rightarrow> ls) in
                  if has_desc ls \<or> has_ap_member ls then Some (interface, PDict (AList.update ''_creator'' creator d))
                  else None)
           | _ \<Rightarrow> None)
      | _ \<Rightarrow> None)"

definition hotspot_config :: "plist option \<Rightarrow> string list option \<Rightarrow> (string \<times> plist) option res" where
  "hotspot_config stock_file out =
     (let stock = (case stock_file of None \<Rightarrow> PDict [] | Some p \<Rightarrow> p);
          subnets = (if is_dict stock then (case dict_get ''Subnets'' stock of None \<Rightarrow> PArr [] | Some s \<Rightarrow> s) else PArr [])
      in bindR (plist_items subnets) (\<lambda>xs.
         Inr (map_option (\<lambda>x. the (hotspot_subnet (interface_blocks out) x))
               (find (\<lambda>x. hotspot_subnet (interface_blocks out) x \<noteq> None) xs))))"

subsection \<open>The merge\<close>

definition ours :: "plist \<Rightarrow> bool" where
  "ours x \<longleftrightarrow> is_dict x \<and> dict_get ''_creator'' x = Some creator"

text \<open>The interface of one of our subnets; \<^verbatim>\<open>None\<close> goes into the set too, but no entry of a property list equals it.\<close>

definition stale_interface :: "plist \<Rightarrow> plist option res" where
  "stale_interface x =
     (case dict_get ''interface'' x of None \<Rightarrow> Inr None | Some i \<Rightarrow> bindR (hashed i) (\<lambda>h. Inr (Some h)))"

definition keep_value :: "plist list \<Rightarrow> plist \<Rightarrow> plist list \<Rightarrow> plist list res" where
  "keep_value stale x kept = bindR (hashed x) (\<lambda>h. Inr (if h \<in> set stale then kept else kept @ [x]))"

definition merge_key ::
    "plist list \<Rightarrow> string option \<Rightarrow> string \<Rightarrow> (string \<times> plist) list \<Rightarrow> (string \<times> plist) list res" where
  "merge_key stale interface key data =
     (let v = (case map_of data key of None \<Rightarrow> PArr [] | Some v \<Rightarrow> v);
          was_list = (case v of PArr _ \<Rightarrow> True | _ \<Rightarrow> False);
          values = (case v of PArr xs \<Rightarrow> xs | _ \<Rightarrow> [])
      in bindR (foldR (keep_value stale) values []) (\<lambda>values.
         let values = (case interface of
               Some i \<Rightarrow> if PStr i \<notin> set values then values @ [PStr i] else values
             | None \<Rightarrow> values)
         in Inr (if was_list \<or> interface \<noteq> None then AList.update key (PArr values) data else data)))"

definition merged_keys :: "string list" where
  "merged_keys = [''dhcp_enabled'', ''detect_other_dhcp_server'', ''ignore_allow_deny'']"

definition merge_data :: "(string \<times> plist) option \<Rightarrow> plist option \<Rightarrow> plist res" where
  "merge_data hotspot config =
     (let data = (case config of Some (PDict d) \<Rightarrow> d | _ \<Rightarrow> [(''Subnets'', PArr [])]);
          old_subnets = (case map_of data ''Subnets'' of None \<Rightarrow> PArr [] | Some s \<Rightarrow> s) in
      bindR (plist_items old_subnets) (\<lambda>xs.
      bindR (mapR stale_interface (filter ours xs)) (\<lambda>stale.
      let data = AList.update ''Subnets'' (PArr (filter (\<lambda>x. \<not> ours x) xs)) data in
      bindR (foldR (merge_key (List.map_filter id stale) (map_option fst hotspot)) merged_keys data) (\<lambda>data.
      Inr (PDict (case hotspot of
         None \<Rightarrow> data
       | Some (_, subnet) \<Rightarrow>
           AList.update ''Subnets'' (PArr (filter (\<lambda>x. \<not> ours x) xs @ [subnet])) data))))))"

text \<open>\<^verbatim>\<open>merge\<close> over the file: its new contents, and whether it was written.\<close>

definition merge_file ::
    "(bytes \<Rightarrow> plist option) \<Rightarrow> (plist \<Rightarrow> bytes) \<Rightarrow> (string \<times> plist) option \<Rightarrow> bytes option \<Rightarrow> (bytes option \<times> bool) res" where
  "merge_file loads dumps hotspot contents =
     bindR (merge_data hotspot (Option.bind contents loads)) (\<lambda>data.
     Inr (if contents = Some (dumps data) then (contents, False) else (Some (dumps data), True)))"

subsection \<open>Repeated merges\<close>

lemma hashed_str: "hashed x = Inr (PStr i) \<longleftrightarrow> x = PStr i"
  by (cases x rule: hashed.cases) auto

definition hashable :: "plist \<Rightarrow> bool" where
  "hashable x \<longleftrightarrow> is_ok (hashed x)"

definition not_stale :: "plist list \<Rightarrow> plist \<Rightarrow> bool" where
  "not_stale stale x = (case hashed x of Inl _ \<Rightarrow> True | Inr h \<Rightarrow> h \<notin> set stale)"

lemma not_stale_hashed: "hashed x = Inr h \<Longrightarrow> not_stale stale x \<longleftrightarrow> h \<notin> set stale"
  by (simp add: not_stale_def)

lemma keep_values:
  "list_all hashable xs \<Longrightarrow> foldR (keep_value stale) xs acc = Inr (acc @ filter (not_stale stale) xs)"
proof (induction xs arbitrary: acc)
  case (Cons x xs)
  then obtain h where h: "hashed x = Inr h" by (cases "hashed x") (auto simp: hashable_def)
  show ?case using Cons by (simp add: keep_value_def h not_stale_hashed [OF h])
qed simp

lemma keep_values_Inr: "foldR (keep_value stale) xs acc = Inr ys \<Longrightarrow> list_all hashable xs"
proof (induction xs arbitrary: acc)
  case (Cons x xs)
  then show ?case by (cases "hashed x") (auto simp: keep_value_def hashable_def)
qed simp

text \<open>A hotspot as \<open>hotspot_config\<close> gives it.\<close>

definition hotspot_ok :: "(string \<times> plist) option \<Rightarrow> bool" where
  "hotspot_ok h = (case h of None \<Rightarrow> True
     | Some (i, s) \<Rightarrow> dict_get ''interface'' s = Some (PStr i) \<and> ours s)"

lemma hotspot_config_ok: "hotspot_config stock out = Inr h \<Longrightarrow> hotspot_ok h"
proof (cases h)
  case (Some p)
  assume "hotspot_config stock out = Inr h"
  then obtain x where x: "hotspot_subnet (interface_blocks out) x = Some p"
    by (auto simp: hotspot_config_def Let_def bindR_Inr_iff Some find_Some_iff)
  obtain d where d: "x = PDict d" using x by (cases x) (auto simp: hotspot_subnet_def)
  obtain i where i: "map_of d ''interface'' = Some (PStr i)"
    using x by (auto simp: hotspot_subnet_def d split: option.splits plist.splits if_splits)
  have "p = (i, PDict (AList.update ''_creator'' creator d))"
    using x by (auto simp: hotspot_subnet_def d i Let_def split: if_splits)
  then show ?thesis by (simp add: Some hotspot_ok_def ours_def dict_get_def map_of_update i)
qed (simp add: hotspot_ok_def)

definition our_stale :: "(string \<times> plist) option \<Rightarrow> plist list" where
  "our_stale h = (case h of None \<Rightarrow> [] | Some (i, _) \<Rightarrow> [PStr i])"

definition our_subnets :: "(string \<times> plist) option \<Rightarrow> plist list" where
  "our_subnets h = (case h of None \<Rightarrow> [] | Some (_, s) \<Rightarrow> [s])"

lemma filter_our_stale:
  assumes "list_all hashable xs"
  shows "filter (not_stale (our_stale h)) xs = (case h of None \<Rightarrow> xs | Some (i, _) \<Rightarrow> filter (\<lambda>x. x \<noteq> PStr i) xs)"
proof -
  have "not_stale (our_stale h) x = (case h of None \<Rightarrow> True | Some (i, _) \<Rightarrow> x \<noteq> PStr i)" if "x \<in> set xs" for x
  proof -
    have "is_ok (hashed x)" using assms that by (auto simp: hashable_def list_all_iff)
    then obtain y where y: "hashed x = Inr y" by (cases "hashed x") auto
    show ?thesis using hashed_str [of x] by (auto simp: not_stale_hashed [OF y] our_stale_def y split: option.splits)
  qed
  then show ?thesis by (cases h) (auto cong: filter_cong)
qed

text \<open>What a merge leaves under a key: a list of hashable entries with the interface among them. The next merge
  moves the interface to the end, and the one after that changes nothing.\<close>

definition merged_value :: "(string \<times> plist) option \<Rightarrow> plist \<Rightarrow> bool" where
  "merged_value h v =
     (case v of
        PArr xs \<Rightarrow> list_all hashable xs \<and> (case h of None \<Rightarrow> True | Some (i, _) \<Rightarrow> PStr i \<in> set xs)
      | _ \<Rightarrow> h = None)"

definition norm_value :: "(string \<times> plist) option \<Rightarrow> plist \<Rightarrow> plist" where
  "norm_value h v =
     (case h of None \<Rightarrow> v
      | Some (i, _) \<Rightarrow> (case v of PArr xs \<Rightarrow> PArr (filter (\<lambda>x. x \<noteq> PStr i) xs @ [PStr i]) | _ \<Rightarrow> v))"

lemma norm_value_twice [simp]: "norm_value h (norm_value h v) = norm_value h v"
  by (auto simp: norm_value_def split: option.splits plist.splits)

lemma hashable_PStr [simp]: "hashable (PStr i)"
  by (simp add: hashable_def)

lemma merged_norm: "merged_value h v \<Longrightarrow> merged_value h (norm_value h v)"
  by (auto simp: norm_value_def merged_value_def list_all_iff split: option.splits plist.splits)

lemma merge_key_norm:
  assumes "map_of data key = Some v" "merged_value h v"
  shows "merge_key (our_stale h) (map_option fst h) key data = Inr (AList.update key (norm_value h v) data)"
proof (cases "\<exists>xs. v = PArr xs")
  case True
  then obtain xs where v: "v = PArr xs" ..
  then have ok: "list_all hashable xs" using assms by (simp add: merged_value_def)
  show ?thesis
    by (cases h) (auto simp: merge_key_def assms v keep_values [OF ok] filter_our_stale [OF ok] norm_value_def Let_def)
next
  case False
  then have "h = None" using assms by (cases v) (auto simp: merged_value_def)
  then show ?thesis using False
    by (cases v) (auto simp: merge_key_def assms Let_def norm_value_def update_same)
qed

lemma merge_key_merged:
  assumes "merge_key stale (map_option fst h) key data = Inr data'"
  shows "(\<exists>v. map_of data' key = Some v \<and> merged_value h v) \<and> (\<forall>k. k \<noteq> key \<longrightarrow> map_of data' k = map_of data k)"
proof -
  define v where "v = (case map_of data key of None \<Rightarrow> PArr [] | Some v \<Rightarrow> v)"
  define vals where "vals = (case v of PArr xs \<Rightarrow> xs | _ \<Rightarrow> [])"
  obtain ys where ys: "foldR (keep_value stale) vals [] = Inr ys"
    using assms by (auto simp: merge_key_def Let_def bindR_Inr_iff v_def vals_def)
  define zs where "zs = (case map_option fst h of
      Some i \<Rightarrow> if PStr i \<notin> set ys then ys @ [PStr i] else ys | None \<Rightarrow> ys)"
  have d: "data' = (if (case v of PArr _ \<Rightarrow> True | _ \<Rightarrow> False) \<or> map_option fst h \<noteq> None
      then AList.update key (PArr zs) data else data)"
    using assms unfolding merge_key_def Let_def v_def [symmetric] vals_def [symmetric] ys zs_def by auto
  have ok: "list_all hashable vals" by (rule keep_values_Inr [OF ys])
  have "ys = filter (not_stale stale) vals" using ys keep_values [OF ok] by simp
  then have zs: "merged_value h (PArr zs)"
    using ok by (auto simp: merged_value_def zs_def list_all_iff split: option.splits)
  show ?thesis
  proof (cases "(case v of PArr _ \<Rightarrow> True | _ \<Rightarrow> False) \<or> map_option fst h \<noteq> None")
    case True
    then have d': "data' = AList.update key (PArr zs) data" using d by argo
    show ?thesis unfolding d' using zs by (auto simp: map_of_update)
  next
    case False
    then have d': "data' = data" using d by auto
    have h: "h = None" using False by (cases h) auto
    have "map_of data key = Some v" using False by (cases "map_of data key") (auto simp: v_def)
    moreover have "merged_value h v" using False by (cases v) (auto simp: merged_value_def h)
    ultimately show ?thesis by (simp add: d')
  qed
qed

lemma merge_keys_merged:
  assumes "foldR (merge_key stale (map_option fst h)) keys data = Inr data'" "distinct keys"
  shows "(\<forall>k \<in> set keys. \<exists>v. map_of data' k = Some v \<and> merged_value h v)
    \<and> (\<forall>k. k \<notin> set keys \<longrightarrow> map_of data' k = map_of data k)"
  using assms
proof (induction keys arbitrary: data)
  case (Cons key keys)
  then obtain d where d: "merge_key stale (map_option fst h) key data = Inr d"
    and r: "foldR (merge_key stale (map_option fst h)) keys d = Inr data'" by (auto simp: bindR_Inr_iff)
  show ?case using Cons.IH [OF r] Cons.prems(2) merge_key_merged [OF d] by auto
qed simp

lemma merge_keys_norm:
  assumes "\<forall>k \<in> set keys. \<exists>v. map_of data k = Some v \<and> merged_value h v" "distinct keys"
  shows "\<exists>data'. foldR (merge_key (our_stale h) (map_option fst h)) keys data = Inr data'
    \<and> (\<forall>k. map_of data' k = (if k \<in> set keys then map_option (norm_value h) (map_of data k) else map_of data k))"
  using assms
proof (induction keys arbitrary: data)
  case (Cons key keys)
  then obtain v where v: "map_of data key = Some v" "merged_value h v" by auto
  let ?d = "AList.update key (norm_value h v) data"
  have "\<forall>k \<in> set keys. \<exists>w. map_of ?d k = Some w \<and> merged_value h w" using Cons.prems by (auto simp: map_of_update)
  from Cons.IH [OF this] Cons.prems(2) show ?case using v Cons.prems(2)
    by (auto simp: merge_key_norm [OF v] map_of_update)
qed simp

lemma merge_keys_same:
  assumes "\<forall>k \<in> set keys. \<exists>v. map_of data k = Some v \<and> merged_value h v \<and> norm_value h v = v"
  shows "foldR (merge_key (our_stale h) (map_option fst h)) keys data = Inr data"
  using assms
proof (induction keys)
  case (Cons key keys)
  then obtain v where v: "map_of data key = Some v" "merged_value h v" "norm_value h v = v" by auto
  show ?case using Cons by (simp add: merge_key_norm [OF v(1,2)] v(3) update_same [OF v(1)])
qed simp

text \<open>A merged configuration, and one that the next merge leaves alone.\<close>

definition merged :: "(string \<times> plist) option \<Rightarrow> (string \<times> plist) list \<Rightarrow> bool" where
  "merged h d \<longleftrightarrow>
     (\<exists>xs. map_of d ''Subnets'' = Some (PArr (filter (\<lambda>x. \<not> ours x) xs @ our_subnets h)))
     \<and> (\<forall>k \<in> set merged_keys. \<exists>v. map_of d k = Some v \<and> merged_value h v)"

definition settled :: "(string \<times> plist) option \<Rightarrow> (string \<times> plist) list \<Rightarrow> bool" where
  "settled h d \<longleftrightarrow> merged h d \<and> (\<forall>k \<in> set merged_keys. \<exists>v. map_of d k = Some v \<and> norm_value h v = v)"

lemma merged_keys_distinct: "distinct merged_keys" "''Subnets'' \<notin> set merged_keys"
  by (simp_all add: merged_keys_def)

lemma our_subnet_ours: "hotspot_ok h \<Longrightarrow> filter ours (our_subnets h) = our_subnets h"
  by (auto simp: hotspot_ok_def our_subnets_def split: option.splits)

lemma our_subnet_stale:
  "hotspot_ok h \<Longrightarrow>
     \<exists>stale. mapR stale_interface (our_subnets h) = Inr stale \<and> List.map_filter id stale = our_stale h"
  by (auto simp: hotspot_ok_def our_subnets_def our_stale_def stale_interface_def map_filter_simps
      split: option.splits)

text \<open>The merge of a merged configuration, up to its loop over the keys.\<close>

lemma merge_data_merged:
  assumes h: "hotspot_ok h"
    and sub: "map_of d ''Subnets'' = Some (PArr (filter (\<lambda>x. \<not> ours x) xs @ our_subnets h))"
  defines "d0 \<equiv> AList.update ''Subnets'' (PArr (filter (\<lambda>x. \<not> ours x) xs)) d"
  shows "merge_data h (Some (PDict d)) =
     bindR (foldR (merge_key (our_stale h) (map_option fst h)) merged_keys d0) (\<lambda>d'.
       Inr (PDict (case h of None \<Rightarrow> d'
         | Some _ \<Rightarrow> AList.update ''Subnets'' (PArr (filter (\<lambda>x. \<not> ours x) xs @ our_subnets h)) d')))"
proof -
  have f: "filter ours (filter (\<lambda>x. \<not> ours x) xs @ our_subnets h) = our_subnets h"
    "filter (\<lambda>x. \<not> ours x) (filter (\<lambda>x. \<not> ours x) xs @ our_subnets h) = filter (\<lambda>x. \<not> ours x) xs"
    using our_subnet_ours [OF h] by (auto simp: filter_empty_conv filter_id_conv)
  obtain stale where st: "mapR stale_interface (our_subnets h) = Inr stale" "List.map_filter id stale = our_stale h"
    using our_subnet_stale [OF h] by auto
  have data: "(case Some (PDict d) of Some (PDict d) \<Rightarrow> d | _ \<Rightarrow> [(''Subnets'', PArr [])]) = d" by simp
  have items: "plist_items (case map_of d ''Subnets'' of None \<Rightarrow> PArr [] | Some s \<Rightarrow> s)
      = Inr (filter (\<lambda>x. \<not> ours x) xs @ our_subnets h)" by (simp only: sub option.case plist_items.simps)
  show ?thesis
    unfolding merge_data_def Let_def d0_def data items bindR_simps f st(1)
    by (cases h) (simp_all add: st(2) our_subnets_def split: prod.split)
qed

lemma merge_gives_merged:
  assumes "hotspot_ok h" "merge_data h config = Inr p"
  shows "\<exists>d. p = PDict d \<and> merged h d"
proof -
  define d0 where "d0 = (case config of Some (PDict d) \<Rightarrow> d | _ \<Rightarrow> [(''Subnets'', PArr [])])"
  obtain xs stale d where
    m: "foldR (merge_key (List.map_filter id stale) (map_option fst h)) merged_keys
         (AList.update ''Subnets'' (PArr (filter (\<lambda>x. \<not> ours x) xs)) d0) = Inr d"
    and p: "p = PDict (case h of None \<Rightarrow> d
         | Some (_, subnet) \<Rightarrow> AList.update ''Subnets'' (PArr (filter (\<lambda>x. \<not> ours x) xs @ [subnet])) d)"
    using assms(2) by (auto simp: merge_data_def Let_def bindR_Inr_iff d0_def [symmetric])
  note k = merge_keys_merged [OF m merged_keys_distinct(1)]
  have s: "map_of d ''Subnets'' = Some (PArr (filter (\<lambda>x. \<not> ours x) xs))"
    using k merged_keys_distinct(2) by (simp add: map_of_update)
  show ?thesis
  proof (cases h)
    case None
    then show ?thesis using p s k by (auto simp: merged_def our_subnets_def)
  next
    case (Some q)
    obtain i subnet where q: "q = (i, subnet)" by (cases q)
    let ?d = "AList.update ''Subnets'' (PArr (filter (\<lambda>x. \<not> ours x) xs @ [subnet])) d"
    have "merged h ?d"
      using k merged_keys_distinct(2) by (auto simp: merged_def our_subnets_def Some q map_of_update)
    then show ?thesis using p by (simp add: Some q)
  qed
qed

lemma merge_of_merged:
  assumes "hotspot_ok h" "merged h d"
  shows "\<exists>d'. merge_data h (Some (PDict d)) = Inr (PDict d')
    \<and> (\<forall>k \<in> set merged_keys. map_of d' k = map_option (norm_value h) (map_of d k))"
proof -
  from assms(2) obtain xs where sub: "map_of d ''Subnets'' = Some (PArr (filter (\<lambda>x. \<not> ours x) xs @ our_subnets h))"
    by (auto simp: merged_def)
  let ?d0 = "AList.update ''Subnets'' (PArr (filter (\<lambda>x. \<not> ours x) xs)) d"
  have "\<forall>k \<in> set merged_keys. \<exists>v. map_of ?d0 k = Some v \<and> merged_value h v"
    using assms(2) merged_keys_distinct(2) by (auto simp: merged_def map_of_update)
  from merge_keys_norm [OF this merged_keys_distinct(1)] obtain d1
    where d1: "foldR (merge_key (our_stale h) (map_option fst h)) merged_keys ?d0 = Inr d1"
    and n: "\<forall>k. map_of d1 k = (if k \<in> set merged_keys then map_option (norm_value h) (map_of ?d0 k) else map_of ?d0 k)"
    by blast
  have n: "map_of d1 k = map_option (norm_value h) (map_of d k)" if "k \<in> set merged_keys" for k
  proof -
    have "k \<noteq> ''Subnets''" using that merged_keys_distinct(2) by auto
    then show ?thesis using n that by (simp add: map_of_update)
  qed
  let ?d = "case h of None \<Rightarrow> d1
    | Some _ \<Rightarrow> AList.update ''Subnets'' (PArr (filter (\<lambda>x. \<not> ours x) xs @ our_subnets h)) d1"
  have "merge_data h (Some (PDict d)) = Inr (PDict ?d)"
    unfolding merge_data_merged [OF assms(1) sub] d1 by simp
  moreover have "map_of ?d k = map_option (norm_value h) (map_of d k)" if "k \<in> set merged_keys" for k
  proof -
    have "k \<noteq> ''Subnets''" using that merged_keys_distinct(2) by auto
    then have "map_of ?d k = map_of d1 k" by (cases h) (simp_all add: map_of_update)
    then show ?thesis using n [OF that] by simp
  qed
  ultimately show ?thesis by blast
qed

lemma merge_of_settled:
  assumes "hotspot_ok h" "settled h d"
  shows "merge_data h (Some (PDict d)) = Inr (PDict d)"
proof -
  from assms(2) obtain xs where sub: "map_of d ''Subnets'' = Some (PArr (filter (\<lambda>x. \<not> ours x) xs @ our_subnets h))"
    by (auto simp: settled_def merged_def)
  let ?d0 = "AList.update ''Subnets'' (PArr (filter (\<lambda>x. \<not> ours x) xs)) d"
  have v: "\<exists>v. map_of d k = Some v \<and> merged_value h v \<and> norm_value h v = v" if "k \<in> set merged_keys" for k
    using assms(2) that by (fastforce simp: settled_def merged_def)
  have "\<forall>k \<in> set merged_keys. \<exists>v. map_of ?d0 k = Some v \<and> merged_value h v \<and> norm_value h v = v"
  proof
    fix k assume k: "k \<in> set merged_keys"
    then have "k \<noteq> ''Subnets''" using merged_keys_distinct(2) by auto
    then show "\<exists>v. map_of ?d0 k = Some v \<and> merged_value h v \<and> norm_value h v = v"
      using v [OF k] by (simp add: map_of_update)
  qed
  note r = merge_keys_same [OF this]
  show ?thesis
  proof (cases h)
    case None
    then have "?d0 = d" using sub by (simp add: our_subnets_def update_same)
    then show ?thesis using merge_data_merged [OF assms(1) sub] r by (simp add: None)
  next
    case (Some q)
    then show ?thesis
      using merge_data_merged [OF assms(1) sub] r by (simp add: update_twice update_same [OF sub [unfolded Some]])
  qed
qed

lemma merge_settles:
  assumes "hotspot_ok h" "merged h d" "merge_data h (Some (PDict d)) = Inr (PDict d')"
  shows "settled h d'"
proof -
  obtain d1 where d1: "merge_data h (Some (PDict d)) = Inr (PDict d1)"
    and n: "\<forall>k \<in> set merged_keys. map_of d1 k = map_option (norm_value h) (map_of d k)"
    using merge_of_merged [OF assms(1,2)] by blast
  have "d' = d1" using d1 assms(3) by simp
  moreover have "merged h d'" using merge_gives_merged [OF assms(1,3)] by auto
  moreover have "\<exists>v. map_of d1 k = Some v \<and> norm_value h v = v" if "k \<in> set merged_keys" for k
    using n that assms(2) by (fastforce simp: merged_def)
  ultimately show ?thesis by (simp add: settled_def)
qed

text \<open>C31: once a merge has succeeded, the retries settle: the second merge succeeds too, and every later one leaves the
  configuration as it is, whatever it held before and whichever hotspot \<open>hotspot_config\<close> found.\<close>

theorem merges_settle:
  "case hotspot_config stock out of
     Inl _ \<Rightarrow> True
   | Inr h \<Rightarrow> (case merge_data h config of
       Inl _ \<Rightarrow> True
     | Inr p \<Rightarrow> \<exists>q. merge_data h (Some p) = Inr q \<and> merge_data h (Some q) = Inr q)"
proof (cases "hotspot_config stock out")
  case (Inr h)
  then have h: "hotspot_ok h" by (rule hotspot_config_ok)
  show ?thesis
  proof (cases "merge_data h config")
    case p: (Inr p)
    obtain d where d: "p = PDict d" "merged h d" using merge_gives_merged [OF h p] by blast
    obtain d' where d': "merge_data h (Some (PDict d)) = Inr (PDict d')"
      using merge_of_merged [OF h d(2)] by blast
    have "merge_data h (Some (PDict d')) = Inr (PDict d')"
      by (rule merge_of_settled [OF h merge_settles [OF h d(2) d']])
    then show ?thesis using Inr p d(1) d' by auto
  qed (simp add: Inr)
qed simp

text \<open>One merge is not enough when the user's own list names the interface before other entries: the next merge takes
  the interface for its own and moves it to the end.\<close>

lemma first_merge_may_move:
  "let h = Some (''b'', PDict [(''interface'', PStr ''b''), (''_creator'', creator)]);
       mine = PDict [(''Subnets'', PArr []), (''dhcp_enabled'', PArr [PStr ''b'', PStr ''en0''])]
   in \<exists>p q. merge_data h (Some mine) = Inr p \<and> merge_data h (Some p) = Inr q
     \<and> dict_get ''dhcp_enabled'' p = Some (PArr [PStr ''b'', PStr ''en0''])
     \<and> dict_get ''dhcp_enabled'' q = Some (PArr [PStr ''en0'', PStr ''b''])"
  by (simp add: merge_data_def merged_keys_def merge_key_def keep_value_def stale_interface_def ours_def dict_get_def
      creator_def map_filter_simps Let_def)

end
