(* ===== verification/A2s_Batch.thy ===== *)
theory A2s_Batch
  imports Arm64 Py_Io "HOL-Library.AList"
begin

text \<open>
  \<^verbatim>\<open>vz/development/tools/cache-a2s-batch.py\<close>, the symbol tool behind \<^verbatim>\<open>uncache.py\<close>: it names the addresses it
  is given by the exports of the cache's images, through pointer slots, import stubs and selector stubs, and keeps
  a memo of the names. What DyldExtractor reads (\<^verbatim>\<open>convertAddr\<close>, a context's \<^verbatim>\<open>readFormat\<close> and \<^verbatim>\<open>getBytes\<close>, the
  slide mappings, \<^verbatim>\<open>ReadExports\<close>) and what \<^verbatim>\<open>ipsw\<close> prints are parameters. Text is its UTF-8 bytes.
\<close>

subsection \<open>The cache\<close>

text \<open>A context: \<open>cf_data\<close> is its \<^verbatim>\<open>file\<close>, which the code also unpacks itself.\<close>

record cache_file =
  cf_data :: bytes
  cf_fields :: "nat list \<Rightarrow> int \<Rightarrow> int list res"
  cf_bytes :: "int \<Rightarrow> int \<Rightarrow> bytes"

record slide_mapping =
  sm_address :: int
  sm_size :: int
  sm_version :: int
  sm_decode :: "int \<Rightarrow> int"

record cache_export =
  ex_flags :: int
  ex_address :: int
  ex_name :: bytes

record symbol_cache =
  ac_convert :: "int \<Rightarrow> (int \<times> cache_file) option"
  ac_mappings :: "slide_mapping list"
  ac_images :: "(int \<times> bytes) list"
  ac_exports :: "bytes \<Rightarrow> int \<Rightarrow> int \<Rightarrow> cache_export list res"

definition in_mapping :: "int \<Rightarrow> slide_mapping \<Rightarrow> bool" where
  "in_mapping a m \<longleftrightarrow> sm_address m \<le> a \<and> a < sm_address m + sm_size m"

subsection \<open>Stubs\<close>

definition island_disp :: "int \<Rightarrow> int" where
  "island_disp word =
     (let displacement = word AND 0x3FFFFFF
      in if displacement AND 0x2000000 \<noteq> 0 then displacement - 0x4000000 else displacement)"

definition island_page :: "int \<Rightarrow> int \<Rightarrow> int" where
  "island_page word pc =
     (let immediate = (drop_bit 29 word AND 3) OR push_bit 2 (drop_bit 5 word AND 0x7FFFF);
          immediate = (if immediate AND 0x100000 \<noteq> 0 then immediate - 0x200000 else immediate)
      in (pc AND NOT 0xFFF) + immediate * 4096)"

definition is_adrp :: "int \<Rightarrow> bool" where
  "is_adrp w \<longleftrightarrow> w AND 0x9F000000 = 0x90000000"

definition is_add :: "int \<Rightarrow> bool" where
  "is_add w \<longleftrightarrow> w AND 0xFFC00000 = 0x91000000"

definition is_ldr :: "int \<Rightarrow> bool" where
  "is_ldr w \<longleftrightarrow> w AND 0xFFC00000 = 0xF9400000"

definition is_jump :: "int \<Rightarrow> bool" where
  "is_jump w \<longleftrightarrow> w AND 0xFFFFFC00 = 0xD71F0800 \<or> w AND 0xFFFFFC1F = 0xD61F0000"

definition rd :: "int \<Rightarrow> int" where
  "rd w = w AND 31"

definition rn :: "int \<Rightarrow> int" where
  "rn w = drop_bit 5 w AND 31"

definition imm12 :: "int \<Rightarrow> int" where
  "imm12 w = drop_bit 10 w AND 0xFFF"

text \<open>The loop over the four words; \<open>pc\<close> is \<^verbatim>\<open>address + i * 4\<close>.\<close>

fun stub_scan :: "int \<Rightarrow> int list \<Rightarrow> (int \<rightharpoonup> int) \<Rightarrow> (int \<rightharpoonup> int) \<Rightarrow> int option" where
  "stub_scan pc [] registers loads = None"
| "stub_scan pc (w # ws) registers loads =
     (if is_adrp w then stub_scan (pc + 4) ws (registers(rd w \<mapsto> island_page w pc)) loads
      else if is_add w \<and> registers (rn w) \<noteq> None
        then stub_scan (pc + 4) ws (registers(rd w \<mapsto> the (registers (rn w)) + imm12 w)) loads
      else if is_ldr w \<and> registers (rn w) \<noteq> None
        then stub_scan (pc + 4) ws registers (loads(rd w \<mapsto> the (registers (rn w)) + imm12 w * 8))
      else if is_jump w then loads (rn w)
      else stub_scan (pc + 4) ws registers loads)"

function stub_pointer_slot :: "symbol_cache \<Rightarrow> nat \<Rightarrow> int \<Rightarrow> int option res" where
  "stub_pointer_slot c depth address =
     (case ac_convert c address of
        None \<Rightarrow> Inr None
      | Some (off, context) \<Rightarrow>
          if depth > 4 then Inr None
          else bindR (cf_fields context [4, 4, 4, 4] off) (\<lambda>ws.
            if ws ! 0 AND 0xFC000000 = 0x14000000
            then stub_pointer_slot c (depth + 1) (address + island_disp (ws ! 0) * 4)
            else Inr (stub_scan address ws Map.empty Map.empty)))"
  by pat_completeness auto
termination by (relation "measure (\<lambda>(c, depth, address). 5 - depth)") auto

declare stub_pointer_slot.simps [simp del]

definition printable :: "bytes \<Rightarrow> bool" where
  "printable bs \<longleftrightarrow> list_all (\<lambda>b. 32 \<le> uint b \<and> uint b < 127) bs"

definition selector_stub :: "symbol_cache \<Rightarrow> int \<Rightarrow> (int \<times> bytes) option res" where
  "selector_stub c address =
     (case ac_convert c address of
        None \<Rightarrow> Inr None
      | Some (off, context) \<Rightarrow>
          bindR (cf_fields context [4, 4, 4] off) (\<lambda>ws.
          let adrp = ws ! 0; add = ws ! 1; branch = ws ! 2 in
          if adrp AND 0x9F00001F \<noteq> 0x90000001 \<or> add AND 0xFFC003FF \<noteq> 0x91000021 then Inr None
          else if branch AND 0xFC000000 \<noteq> 0x14000000 then Inr None
          else case ac_convert c (island_page adrp address + imm12 add) of
            None \<Rightarrow> Inr None
          | Some (name_off, name_context) \<Rightarrow>
              let name_data = cf_bytes name_context name_off 256 in
              if 0 \<notin> set name_data then Inr None
              else let name = before_nul name_data in
                if name = [] \<or> \<not> printable name then Inr None
                else Inr (Some (address + 8 + island_disp branch * 4, name))))"

subsection \<open>What an address is\<close>

text \<open>The dicts \<^verbatim>\<open>destinations\<close>, \<^verbatim>\<open>stub_destinations\<close> and \<^verbatim>\<open>selector_stubs\<close> and the set \<^verbatim>\<open>strings\<close> have the
  wanted addresses as keys, and each address enters one of them at most.\<close>

datatype place =
    Nothing
  | Destination int
  | Stub_Destination int
  | Selector_Stub int bytes
  | Chars

definition place_of :: "symbol_cache \<Rightarrow> int \<Rightarrow> place res" where
  "place_of c address =
     (case ac_convert c address of
        None \<Rightarrow> Inr Nothing
      | Some (off, context) \<Rightarrow>
          (case find (in_mapping address) (ac_mappings c) of
             Some m \<Rightarrow>
               bindR (cf_fields context [8] off) (\<lambda>raw.
               Inr (if sm_version m = 5 \<and> address mod 8 = 0 then Destination (sm_decode m (raw ! 0)) else Nothing))
           | None \<Rightarrow>
               let raw_string = before_nul (cf_bytes context off 256) in
               if raw_string \<noteq> [] \<and> printable raw_string then Inr Chars
               else bindR (selector_stub c address) (\<lambda>selector.
                 case selector of
                   Some (target, name) \<Rightarrow> Inr (Selector_Stub target name)
                 | None \<Rightarrow> bindR (stub_pointer_slot c 0 address) (\<lambda>slot.
                     case slot of
                       None \<Rightarrow> Inr Nothing
                     | Some slot \<Rightarrow>
                         (case ac_convert c slot of
                            None \<Rightarrow> Inl Type_Error
                          | Some (slot_off, slot_context) \<Rightarrow>
                              (case find (\<lambda>m. sm_version m = 5 \<and> in_mapping slot m) (ac_mappings c) of
                                 None \<Rightarrow> Inr Nothing
                               | Some m \<Rightarrow> bindR (cf_fields slot_context [8] slot_off) (\<lambda>raw.
                                   Inr (Stub_Destination (sm_decode m (raw ! 0))))))))))"

subsection \<open>The exports\<close>

text \<open>The walk over an image's load commands: the export trie and the address of \<^verbatim>\<open>__LINKEDIT\<close>.\<close>

type_synonym image_ranges = "(int \<times> int) option \<times> int option \<times> int"

definition range_command :: "bytes \<Rightarrow> image_ranges \<Rightarrow> image_ranges res" where
  "range_command data = (\<lambda>(export, linkedit, off).
     bindR (u32x2 data off) (\<lambda>(cmd, sz).
     bindR (guardR (\<not> sz < 8) Value_Error) (\<lambda>_.
     if cmd = 0x19 then
       (if before_nul (py_slice data (off + 8) (off + 24)) = ascii ''__LINKEDIT''
        then bindR (u64 data (off + 24)) (\<lambda>l. Inr (export, Some l, off + sz))
        else Inr (export, linkedit, off + sz))
     else if cmd = 0x80000033 then bindR (u32x2 data (off + 8)) (\<lambda>e. Inr (Some e, linkedit, off + sz))
     else if cmd = 0x22 \<or> cmd = 0x80000022 then
       bindR (u32x2 data (off + 40)) (\<lambda>e. Inr (if snd e \<noteq> 0 then Some e else export, linkedit, off + sz))
     else Inr (export, linkedit, off + sz))))"

definition image_ranges :: "bytes \<Rightarrow> int \<Rightarrow> ((int \<times> int) option \<times> int option) res" where
  "image_ranges data off =
     bindR (u32 data (off + 16)) (\<lambda>ncmds.
     bindR (foldR (\<lambda>_. range_command data) [0..<nat ncmds] (None, None, off + 32)) (\<lambda>(export, linkedit, _).
     Inr (export, linkedit)))"

type_synonym names = "(int \<times> bytes \<times> bytes) list"

definition cache_alias :: "bytes \<Rightarrow> bool" where
  "cache_alias name \<longleftrightarrow> prefix (ascii ''__got.'') name \<or> prefix (ascii ''_ptr.'') name"

text \<open>\<^verbatim>\<open>names[address] = name, image_path\<close>, with canonical names ahead of aliases.\<close>

definition add_name :: "int \<Rightarrow> bytes \<Rightarrow> bytes \<Rightarrow> names \<Rightarrow> names" where
  "add_name address name path names =
     (case map_of names address of
        None \<Rightarrow> AList.update address (name, path) names
      | Some previous \<Rightarrow>
          if cache_alias (fst previous) then AList.update address (name, path) names else names)"

definition rstrip_zeros :: "bytes \<Rightarrow> bytes" where
  "rstrip_zeros bs = rev (dropWhile (\<lambda>b. b = 0) (rev bs))"

definition export_address :: "int \<Rightarrow> cache_export \<Rightarrow> int" where
  "export_address base e = (if ex_flags e AND 3 = 2 then ex_address e else base + ex_address e)"

definition add_export :: "int set \<Rightarrow> int \<Rightarrow> bytes \<Rightarrow> cache_export \<Rightarrow> names \<Rightarrow> names res" where
  "add_export interesting base path e names =
     (if ex_flags e AND 0x08 \<noteq> 0 then Inr names
      else if export_address base e \<in> interesting
        then bindR (py_decode (rstrip_zeros (ex_name e))) (\<lambda>name.
          Inr (add_name (export_address base e) name path names))
      else Inr names)"

definition add_image :: "symbol_cache \<Rightarrow> int set \<Rightarrow> int \<times> bytes \<Rightarrow> names \<Rightarrow> names res" where
  "add_image c interesting img names =
     (case ac_convert c (fst img) of
        None \<Rightarrow> Inl Type_Error
      | Some (off, context) \<Rightarrow>
          bindR (image_ranges (cf_data context) off) (\<lambda>(export, linkedit).
          case (export, linkedit) of
            (Some (start, sz), Some l) \<Rightarrow>
              if sz = 0 then Inr names
              else (case ac_convert c l of
                None \<Rightarrow> Inl Type_Error
              | Some (_, link_context) \<Rightarrow>
                  bindR (ac_exports c (cf_data link_context) start sz) (\<lambda>es.
                  foldR (add_export interesting (fst img) (snd img)) es names))
          | _ \<Rightarrow> Inr names))"

subsection \<open>The names\<close>

type_synonym naming = "bytes option \<times> bytes option"

definition place_target :: "place \<Rightarrow> int list" where
  "place_target p =
     (case p of Destination t \<Rightarrow> [t] | Stub_Destination t \<Rightarrow> [t] | Selector_Stub t _ \<Rightarrow> [t] | _ \<Rightarrow> [])"

definition named_of :: "names \<Rightarrow> int \<Rightarrow> place \<Rightarrow> naming option" where
  "named_of names address p =
     (case map_of names address of
        Some (name, path) \<Rightarrow> Some (Some name, Some path)
      | None \<Rightarrow>
          (case p of
             Destination t \<Rightarrow>
               (case map_of names t of
                  None \<Rightarrow> None
                | Some (name, path) \<Rightarrow>
                    Some (Some (if name \<noteq> ascii ''_OBJC_CLASS_$_Protocol'' then ascii ''__got.'' @ name else name),
                      Some path))
           | Stub_Destination t \<Rightarrow> map_option (\<lambda>(name, path). (Some name, Some path)) (map_of names t)
           | Selector_Stub t selector \<Rightarrow>
               (case map_of names t of
                  None \<Rightarrow> None
                | Some (name, path) \<Rightarrow>
                    if name = ascii ''_objc_msgSend'' then Some (Some (ascii ''_objc_msgSend$'' @ selector), Some path)
                    else None)
           | Chars \<Rightarrow> Some (None, None)
           | Nothing \<Rightarrow> None))"

text \<open>\<open>wanted\<close> lists the set in the order Python iterates over it.\<close>

definition exported_symbols :: "symbol_cache \<Rightarrow> int list \<Rightarrow> (int \<rightharpoonup> naming) res" where
  "exported_symbols c wanted =
     bindR (mapR (place_of c) wanted) (\<lambda>places.
     let interesting = set wanted \<union> set (concat (map place_target places)) in
     bindR (foldR (add_image c interesting) (ac_images c) []) (\<lambda>names.
     Inr (\<lambda>a. Option.bind (map_of (zip wanted places) a) (named_of names a))))"

subsection \<open>The fallback and the memo\<close>

definition byte_space :: "byte \<Rightarrow> bool" where
  "byte_space b \<longleftrightarrow> (9 \<le> uint b \<and> uint b \<le> 13) \<or> (28 \<le> uint b \<and> uint b \<le> 32)"

text \<open>\<^verbatim>\<open>\s*0x[0-9a-fA-F]+:\s+(.+?)\s*$\<close>: after the colon at least one space, and when there is nothing else the
  group takes the last of several spaces.\<close>

definition a2s_line :: "bytes \<Rightarrow> bytes option" where
  "a2s_line line =
     (let s = dropWhile byte_space line in
      if prefix (ascii ''0x'') s then
        let s = drop 2 s; hex = takeWhile (\<lambda>b. nibble b \<noteq> None) s; s = drop (length hex) s in
        if hex \<noteq> [] \<and> prefix (ascii '':'') s then
          let s = drop 1 s; rest = dropWhile byte_space s in
          if s = [] \<or> \<not> byte_space (hd s) then None
          else if rest \<noteq> [] then Some (rev (dropWhile byte_space (rev rest)))
          else if 2 \<le> length s then Some [last s] else None
        else None
      else None)"

fun a2s_name :: "bytes list \<Rightarrow> bytes option" where
  "a2s_name [] = None"
| "a2s_name (line # ls) =
     (case a2s_line line of
        None \<Rightarrow> a2s_name ls
      | Some symbol \<Rightarrow>
          let symbol = (if suffix (ascii '' + 0x0'') symbol then take (length symbol - 6) symbol else symbol)
          in if sublist (ascii '' + '') symbol then None else Some symbol)"

definition resolve_with_ipsw :: "(int \<Rightarrow> bytes list res) \<Rightarrow> int \<Rightarrow> naming res" where
  "resolve_with_ipsw ipsw address = bindR (ipsw address) (\<lambda>ls. Inr (a2s_name ls, None))"

definition py_hex :: "int \<Rightarrow> bytes" where
  "py_hex n = (if n < 0 then ascii ''-0x'' @ hex_digits (- n) else ascii ''0x'' @ hex_digits n)"

type_synonym memo = "(bytes \<times> naming) list"

definition load_memo :: "bytes \<Rightarrow> (bytes \<times> memo) option \<Rightarrow> memo" where
  "load_memo uuid saved = (case saved of None \<Rightarrow> [] | Some (u, m) \<Rightarrow> if u = uuid then m else [])"

definition is_missing :: "memo \<Rightarrow> int \<Rightarrow> bool" where
  "is_missing memo a =
     (case map_of memo (py_hex a) of None \<Rightarrow> True | Some v \<Rightarrow> fst v = Some (ascii ''?''))"

definition report ::
    "(int \<Rightarrow> bytes list res) \<Rightarrow> (int \<rightharpoonup> naming) \<Rightarrow> int \<Rightarrow> memo \<times> (int \<times> naming) list
     \<Rightarrow> (memo \<times> (int \<times> naming) list) res" where
  "report ipsw symbols a = (\<lambda>(memo, out).
     bindR (if map_of memo (py_hex a) = None \<and> symbols a = None then resolve_with_ipsw ipsw a
            else Inr (case symbols a of Some v \<Rightarrow> v | None \<Rightarrow> the (map_of memo (py_hex a)))) (\<lambda>v.
     Inr (AList.update (py_hex a) v memo, out @ [(a, v)])))"

text \<open>The names printed, in order, and the memo written; \<open>order\<close> is the order of the set of missing addresses.\<close>

definition a2s_main ::
    "symbol_cache \<Rightarrow> (int \<Rightarrow> bytes list res) \<Rightarrow> (int list \<Rightarrow> int list) \<Rightarrow> bytes \<Rightarrow> (bytes \<times> memo) option \<Rightarrow> int list
     \<Rightarrow> ((bytes \<times> memo) \<times> (int \<times> naming) list) res" where
  "a2s_main c ipsw order uuid saved addresses =
     (let wanted = sorted_list_of_set (set addresses);
          memo = load_memo uuid saved;
          missing = filter (is_missing memo) wanted
      in bindR (if missing \<noteq> [] then exported_symbols c (order missing) else Inr Map.empty) (\<lambda>symbols.
         bindR (foldR (report ipsw symbols) wanted (memo, [])) (\<lambda>(memo, out).
         Inr ((uuid, memo), out))))"

subsection \<open>What a stub jumps to\<close>

text \<open>A processor that runs a stub: 64-bit registers, memory read by \<open>mem\<close>. A pointer's authentication is not looked
  at, so \<^verbatim>\<open>BRAA\<close> jumps like \<^verbatim>\<open>BR\<close>.\<close>

definition is_b :: "int \<Rightarrow> bool" where
  "is_b w \<longleftrightarrow> w AND 0xFC000000 = 0x14000000"

definition cpu_step :: "(int \<Rightarrow> int) \<Rightarrow> (int \<Rightarrow> int) \<Rightarrow> int \<times> (int \<Rightarrow> int) \<Rightarrow> (int \<times> (int \<Rightarrow> int)) option" where
  "cpu_step fetch mem = (\<lambda>(pc, r). let w = fetch pc in
     if is_b w then Some (pc + island_disp w * 4, r)
     else if is_adrp w then Some (pc + 4, r(rd w := island_page w pc mod 2 ^ 64))
     else if is_add w then Some (pc + 4, r(rd w := (r (rn w) + imm12 w) mod 2 ^ 64))
     else if is_ldr w then Some (pc + 4, r(rd w := mem ((r (rn w) + imm12 w * 8) mod 2 ^ 64)))
     else if is_jump w then Some (r (rn w), r)
     else None)"

fun cpu_run :: "(int \<Rightarrow> int) \<Rightarrow> (int \<Rightarrow> int) \<Rightarrow> nat \<Rightarrow> int \<times> (int \<Rightarrow> int) \<Rightarrow> (int \<times> (int \<Rightarrow> int)) option" where
  "cpu_run fetch mem 0 s = Some s"
| "cpu_run fetch mem (Suc n) s = Option.bind (cpu_step fetch mem s) (cpu_run fetch mem n)"

text \<open>The shape of a stub: \<open>known\<close> registers hold addresses, \<open>loaded\<close> ones a word of memory, and the code jumps through
  a loaded one.\<close>

fun stub_shape :: "int set \<Rightarrow> int set \<Rightarrow> int list \<Rightarrow> bool" where
  "stub_shape known loaded [] = False"
| "stub_shape known loaded (w # ws) =
     (if is_adrp w then rd w \<notin> loaded \<and> stub_shape (insert (rd w) known) loaded ws
      else if is_add w then rn w \<in> known \<and> rd w \<notin> loaded \<and> stub_shape (insert (rd w) known) loaded ws
      else if is_ldr w then rn w \<in> known \<and> stub_shape (known - {rd w}) (insert (rd w) loaded) ws
      else is_jump w \<and> rn w \<in> loaded)"

lemma and_bit31: "w AND m = v \<Longrightarrow> bit v 31 \<Longrightarrow> bit (w :: int) 31"
  by (auto simp: bit_and_iff)

lemma high_opcode: "is_adrp w \<or> is_add w \<or> is_ldr w \<or> is_jump w \<Longrightarrow> bit w 31"
proof -
  have b: "bit (0x90000000 :: int) 31" "bit (0x91000000 :: int) 31" "bit (0xF9400000 :: int) 31"
    "bit (0xD71F0800 :: int) 31" "bit (0xD61F0000 :: int) 31" by (simp_all add: bit_iff_odd)
  show "is_adrp w \<or> is_add w \<or> is_ldr w \<or> is_jump w \<Longrightarrow> bit w 31"
    unfolding is_adrp_def is_add_def is_ldr_def is_jump_def using and_bit31 b by blast
qed

lemma b_opcode: "is_b w \<Longrightarrow> \<not> bit w 31"
proof
  assume "is_b w" "bit w 31"
  have "bit (0xFC000000 :: int) 31" by (simp add: bit_iff_odd)
  with \<open>bit w 31\<close> have "bit (w AND 0xFC000000) 31" by (simp only: bit_and_iff)
  then show False using \<open>is_b w\<close> by (simp add: is_b_def bit_iff_odd)
qed

lemma shape_no_branch: "stub_shape known loaded (w # ws) \<Longrightarrow> \<not> is_b w"
  using high_opcode [of w] b_opcode [of w] by (auto split: if_splits)

lemma stub_scan_runs:
  assumes "stub_shape known loaded ws"
    and "\<forall>k \<in> known. \<exists>a. registers k = Some a \<and> r k = a mod 2 ^ 64"
    and "\<forall>k \<in> loaded. \<exists>s. loads k = Some s \<and> r k = mem (s mod 2 ^ 64)"
    and "\<forall>i < length ws. fetch (pc + 4 * int i) = ws ! i"
  shows "\<exists>slot n r'. stub_scan pc ws registers loads = Some slot
    \<and> cpu_run fetch mem n (pc, r) = Some (mem (slot mod 2 ^ 64), r')"
  using assms
proof (induction ws arbitrary: known loaded registers loads r pc)
  case (Cons w ws)
  have f: "fetch pc = w" using Cons.prems(4) by force
  have f': "\<forall>i < length ws. fetch (pc + 4 + 4 * int i) = ws ! i"
  proof (intro allI impI)
    fix i assume "i < length ws"
    then show "fetch (pc + 4 + 4 * int i) = ws ! i" using Cons.prems(4) [rule_format, of "Suc i"]
      by (simp add: algebra_simps)
  qed
  note nb = shape_no_branch [OF Cons.prems(1)]
  have step: ?case
    if s: "cpu_step fetch mem (pc, r) = Some (pc + 4, r1)"
      and t: "stub_scan pc (w # ws) registers loads = stub_scan (pc + 4) ws registers1 loads1"
      and p: "stub_shape known1 loaded1 ws"
        "\<forall>k \<in> known1. \<exists>a. registers1 k = Some a \<and> r1 k = a mod 2 ^ 64"
        "\<forall>k \<in> loaded1. \<exists>s. loads1 k = Some s \<and> r1 k = mem (s mod 2 ^ 64)"
    for r1 registers1 loads1 known1 loaded1
  proof -
    obtain slot n r' where "stub_scan (pc + 4) ws registers1 loads1 = Some slot"
      "cpu_run fetch mem n (pc + 4, r1) = Some (mem (slot mod 2 ^ 64), r')"
      using Cons.IH [OF p f'] by blast
    then have "stub_scan pc (w # ws) registers loads = Some slot"
      "cpu_run fetch mem (Suc n) (pc, r) = Some (mem (slot mod 2 ^ 64), r')"
      using s t by simp_all
    then show ?thesis by blast
  qed
  consider (adrp) "is_adrp w" | (add) "\<not> is_adrp w" "is_add w" | (ldr) "\<not> is_adrp w" "\<not> is_add w" "is_ldr w"
    | (jump) "\<not> is_adrp w" "\<not> is_add w" "\<not> is_ldr w" "is_jump w"
    using Cons.prems(1) by (auto split: if_splits)
  then show ?case
  proof cases
    case adrp
    show ?thesis
      by (rule step [of "r(rd w := island_page w pc mod 2 ^ 64)" "registers(rd w \<mapsto> island_page w pc)" loads
          "insert (rd w) known" loaded]) (use adrp nb f Cons.prems(1-3) in \<open>auto simp: cpu_step_def Let_def\<close>)
  next
    case add
    then have k: "rn w \<in> known" using Cons.prems(1) by simp
    then obtain a where a: "registers (rn w) = Some a" "r (rn w) = a mod 2 ^ 64" using Cons.prems(2) by blast
    show ?thesis
      by (rule step [of "r(rd w := (a + imm12 w) mod 2 ^ 64)" "registers(rd w \<mapsto> a + imm12 w)" loads
          "insert (rd w) known" loaded])
        (use add nb f a Cons.prems(1-3) in \<open>auto simp: cpu_step_def Let_def mod_simps\<close>)
  next
    case ldr
    then have k: "rn w \<in> known" using Cons.prems(1) by simp
    then obtain a where a: "registers (rn w) = Some a" "r (rn w) = a mod 2 ^ 64" using Cons.prems(2) by blast
    show ?thesis
      by (rule step [of "r(rd w := mem ((a + imm12 w * 8) mod 2 ^ 64))" registers
            "loads(rd w \<mapsto> a + imm12 w * 8)" "known - {rd w}" "insert (rd w) loaded"])
        (use ldr nb f a Cons.prems(1-3) in \<open>auto simp: cpu_step_def Let_def mod_simps\<close>)
  next
    case jump
    then obtain s where "loads (rn w) = Some s" "r (rn w) = mem (s mod 2 ^ 64)"
      using Cons.prems(1,3) by auto
    then have "stub_scan pc (w # ws) registers loads = Some s"
      "cpu_run fetch mem 1 (pc, r) = Some (mem (s mod 2 ^ 64), r)"
      using jump nb f by (auto simp: cpu_step_def Let_def)
    then show ?thesis by blast
  qed
qed simp

text \<open>Where \<open>n\<close> branch islands lead, and a cache in which code can be read.\<close>

fun hop :: "(int \<Rightarrow> int) \<Rightarrow> nat \<Rightarrow> int \<Rightarrow> int" where
  "hop fetch 0 a = a"
| "hop fetch (Suc n) a = hop fetch n (a + island_disp (fetch a) * 4)"

definition four_words :: "(int \<Rightarrow> int) \<Rightarrow> int \<Rightarrow> int list" where
  "four_words fetch a = [fetch a, fetch (a + 4), fetch (a + 8), fetch (a + 12)]"

definition code_at :: "symbol_cache \<Rightarrow> (int \<Rightarrow> int) \<Rightarrow> int \<Rightarrow> bool" where
  "code_at c fetch a =
     (case ac_convert c a of None \<Rightarrow> False
      | Some (off, f) \<Rightarrow> cf_fields f [4, 4, 4, 4] off = Inr (four_words fetch a))"

lemma slot_of_stub:
  assumes "code_at c fetch a" "depth \<le> 4" "stub_shape {} {} (four_words fetch a)"
  shows "\<exists>slot n r'. stub_pointer_slot c depth a = Inr (Some slot)
    \<and> cpu_run fetch mem n (a, r) = Some (mem (slot mod 2 ^ 64), r')"
proof -
  obtain off f where f: "ac_convert c a = Some (off, f)" "cf_fields f [4, 4, 4, 4] off = Inr (four_words fetch a)"
    using assms(1) by (auto simp: code_at_def split: option.splits)
  have w: "\<forall>i < length (four_words fetch a). fetch (a + 4 * int i) = four_words fetch a ! i"
    by (auto simp: four_words_def nth_Cons split: nat.splits)
  obtain slot n r' where s: "stub_scan a (four_words fetch a) Map.empty Map.empty = Some slot"
    and run: "cpu_run fetch mem n (a, r) = Some (mem (slot mod 2 ^ 64), r')"
    using stub_scan_runs [OF assms(3) _ _ w, of Map.empty r Map.empty mem] by auto
  have "\<not> is_b (four_words fetch a ! 0)" using assms(3) by (simp add: four_words_def shape_no_branch)
  then have "stub_pointer_slot c depth a = Inr (Some slot)"
    using assms(2) by (subst stub_pointer_slot.simps) (simp add: f s is_b_def)
  then show ?thesis using run by blast
qed

lemma slot_behind_islands:
  assumes "n + depth \<le> 4" "\<forall>i < n. is_b (fetch (hop fetch i a))" "\<forall>i \<le> n. code_at c fetch (hop fetch i a)"
    and "stub_shape {} {} (four_words fetch (hop fetch n a))"
  shows "\<exists>slot m r'. stub_pointer_slot c depth a = Inr (Some slot)
    \<and> cpu_run fetch mem m (a, r) = Some (mem (slot mod 2 ^ 64), r')"
  using assms
proof (induction n arbitrary: depth a)
  case 0
  then show ?case using slot_of_stub [of c fetch a depth mem r] by simp
next
  case (Suc n)
  let ?b = "a + island_disp (fetch a) * 4"
  have b: "is_b (fetch a)" using Suc.prems(2) by force
  obtain off f where f: "ac_convert c a = Some (off, f)" "cf_fields f [4, 4, 4, 4] off = Inr (four_words fetch a)"
    using Suc.prems(3) [rule_format, of 0] by (auto simp: code_at_def split: option.splits)
  have "\<forall>i < n. is_b (fetch (hop fetch i ?b))" "\<forall>i \<le> n. code_at c fetch (hop fetch i ?b)"
    using Suc.prems(2,3) by (metis Suc_less_eq hop.simps(2), metis Suc_le_mono hop.simps(2))
  then obtain slot m r' where s: "stub_pointer_slot c (depth + 1) ?b = Inr (Some slot)"
    and run: "cpu_run fetch mem m (?b, r) = Some (mem (slot mod 2 ^ 64), r')"
    using Suc.IH [of "depth + 1" ?b] Suc.prems(1,4) by auto
  have "stub_pointer_slot c depth a = Inr (Some slot)"
    using Suc.prems(1) b s by (subst stub_pointer_slot.simps) (simp add: f four_words_def is_b_def)
  moreover have "cpu_run fetch mem (Suc m) (a, r) = Some (mem (slot mod 2 ^ 64), r')"
    using b run by (simp add: cpu_step_def Let_def)
  ultimately show ?case by blast
qed


text \<open>An island at \<^verbatim>\<open>0x1000\<close> that leads to \<^verbatim>\<open>adrp x16; add x17, x16, #16; ldr x16, [x17, #8]; braa x16, x17\<close>.\<close>

definition demo_code :: "int \<Rightarrow> int" where
  "demo_code a =
     (if a = 0x1000 then 0x14000400 else if a = 0x2000 then 0xB0000010 else if a = 0x2004 then 0x91004211
      else if a = 0x2008 then 0xF9400630 else if a = 0x200C then 0xD71F0A11 else 0)"

definition demo_symbol_cache :: symbol_cache where
  "demo_symbol_cache = \<lparr>
     ac_convert = (\<lambda>a. Some (a, \<lparr>cf_data = [],
       cf_fields = (\<lambda>ws off. Inr [demo_code off, demo_code (off + 4), demo_code (off + 8), demo_code (off + 12)]),
       cf_bytes = (\<lambda>_ _. [])\<rparr>)),
     ac_mappings = [], ac_images = [], ac_exports = (\<lambda>_ _ _. Inr [])\<rparr>"


text \<open>The tool and \<^verbatim>\<open>uncache.py\<close> read an \<^verbatim>\<open>ADRP\<close> alike.\<close>

lemma island_page_adrp_target: "island_page word pc = adrp_target word pc"
proof -
  have "push_bit 2 h OR l = l OR push_bit 2 h" for h l :: int by (rule or.commute)
  then show ?thesis
    by (simp add: island_page_def adrp_target_def page_base_def Let_def push_bit_eq_mult [of 12] push_bit_eq_mult [of 20]
        push_bit_eq_mult [of 21] flip: mult.commute [of _ 4096])
qed

subsection \<open>Which name an address gets\<close>

text \<open>The exports an image contributes, in order, and the choice among those of one address: the first canonical
  one, or else the last alias.\<close>

definition usable_export :: "int set \<Rightarrow> int \<Rightarrow> cache_export \<Rightarrow> bool" where
  "usable_export interesting base e \<longleftrightarrow> ex_flags e AND 0x08 = 0 \<and> export_address base e \<in> interesting"

definition export_row :: "int \<Rightarrow> bytes \<Rightarrow> cache_export \<Rightarrow> int \<times> bytes \<times> bytes" where
  "export_row base path e = (export_address base e, rstrip_zeros (ex_name e), path)"

definition image_exports :: "symbol_cache \<Rightarrow> int \<times> bytes \<Rightarrow> cache_export list" where
  "image_exports c img =
     (case ac_convert c (fst img) of
        None \<Rightarrow> []
      | Some (off, context) \<Rightarrow>
          (case image_ranges (cf_data context) off of
             Inr (Some (start, sz), Some l) \<Rightarrow>
               if sz = 0 then []
               else (case ac_convert c l of
                  None \<Rightarrow> []
                | Some (_, link) \<Rightarrow> (case ac_exports c (cf_data link) start sz of Inr es \<Rightarrow> es | Inl _ \<Rightarrow> []))
           | _ \<Rightarrow> []))"

definition image_rows :: "symbol_cache \<Rightarrow> int set \<Rightarrow> int \<times> bytes \<Rightarrow> names" where
  "image_rows c interesting img =
     map (export_row (fst img) (snd img)) (filter (usable_export interesting (fst img)) (image_exports c img))"

definition canonical :: "(bytes \<times> bytes) list \<Rightarrow> (bytes \<times> bytes) option" where
  "canonical rows =
     (case find (\<lambda>r. \<not> cache_alias (fst r)) rows of
        Some r \<Rightarrow> Some r
      | None \<Rightarrow> if rows = [] then None else Some (last rows))"

definition rows_at :: "int \<Rightarrow> names \<Rightarrow> (bytes \<times> bytes) list" where
  "rows_at a rows = map snd (filter (\<lambda>r. fst r = a) rows)"

lemma find_snoc: "find P (xs @ [x]) = (case find P xs of Some y \<Rightarrow> Some y | None \<Rightarrow> if P x then Some x else None)"
  by (induction xs) auto

lemma canonical_snoc:
  "canonical (rows @ [r]) =
     (case canonical rows of Some p \<Rightarrow> if cache_alias (fst p) then Some r else Some p | None \<Rightarrow> Some r)"
proof (cases "find (\<lambda>r. \<not> cache_alias (fst r)) rows")
  case None
  then have "cache_alias (fst x)" if "x \<in> set rows" for x
    using that unfolding find_None_iff by blast
  then show ?thesis using None by (simp add: canonical_def find_snoc)
next
  case (Some p)
  then have "\<not> cache_alias (fst p)" by (auto simp: find_Some_iff)
  then show ?thesis using Some by (simp add: canonical_def find_snoc)
qed

lemma add_name_lookup:
  "map_of (add_name a n p names) b =
     (if b = a then (case map_of names a of Some q \<Rightarrow> if cache_alias (fst q) then Some (n, p) else Some q
                     | None \<Rightarrow> Some (n, p))
      else map_of names b)"
  by (auto simp: add_name_def map_of_update split: option.splits)

lemma fold_names:
  "map_of (fold (\<lambda>(a, n, p). add_name a n p) rows []) a = canonical (rows_at a rows)"
proof (induction rows rule: rev_induct)
  case Nil
  then show ?case by (simp add: rows_at_def canonical_def)
next
  case (snoc r rows)
  obtain b n p where r: "r = (b, n, p)" by (cases r)
  show ?case using snoc
    by (auto simp: r rows_at_def add_name_lookup canonical_snoc split: option.splits)
qed

lemma add_exports_rows:
  assumes "foldR (add_export interesting base path) es names = Inr names'"
  shows "names' = fold (\<lambda>(a, n, p). add_name a n p)
    (map (export_row base path) (filter (usable_export interesting base) es)) names"
  using assms
proof (induction es arbitrary: names)
  case (Cons e es)
  then obtain ns where ns: "add_export interesting base path e names = Inr ns"
    "foldR (add_export interesting base path) es ns = Inr names'" by (auto simp: bindR_Inr_iff)
  have "ns = (if usable_export interesting base e
      then add_name (export_address base e) (rstrip_zeros (ex_name e)) path names else names)"
    using ns(1) by (auto simp: add_export_def usable_export_def bindR_Inr_iff split: if_splits)
  then show ?case using Cons.IH [OF ns(2)] by (simp add: export_row_def)
qed simp

lemma add_image_rows:
  assumes "add_image c interesting img names = Inr names'"
  shows "names' = fold (\<lambda>(a, n, p). add_name a n p) (image_rows c interesting img) names"
proof -
  obtain off f where f: "ac_convert c (fst img) = Some (off, f)"
    using assms by (auto simp: add_image_def split: option.splits)
  obtain export linkedit where r: "image_ranges (cf_data f) off = Inr (export, linkedit)"
    using assms by (auto simp: add_image_def f bindR_Inr_iff)
  show ?thesis
  proof (cases "\<exists>start sz l. export = Some (start, sz) \<and> linkedit = Some l \<and> sz \<noteq> 0")
    case False
    then have "names' = names" "image_exports c img = []"
      using assms by (auto simp: add_image_def image_exports_def f r split: option.splits prod.splits if_splits)
    then show ?thesis by (simp add: image_rows_def)
  next
    case True
    then obtain start sz l where e: "export = Some (start, sz)" "linkedit = Some l" "sz \<noteq> 0" by blast
    obtain lo link es where l: "ac_convert c l = Some (lo, link)" "ac_exports c (cf_data link) start sz = Inr es"
      and fo: "foldR (add_export interesting (fst img) (snd img)) es names = Inr names'"
      using assms e(3) by (auto simp: add_image_def f r e(1,2) bindR_Inr_iff split: option.splits)
    show ?thesis using add_exports_rows [OF fo] e(3) by (simp add: image_rows_def image_exports_def f r e(1,2) l)
  qed
qed

lemma add_images_rows:
  "foldR (add_image c interesting) imgs names = Inr names' \<Longrightarrow>
   names' = fold (\<lambda>(a, n, p). add_name a n p) (concat (map (image_rows c interesting) imgs)) names"
proof (induction imgs arbitrary: names)
  case (Cons img imgs)
  then obtain ns where ns: "add_image c interesting img names = Inr ns"
    "foldR (add_image c interesting) imgs ns = Inr names'" by (auto simp: bindR_Inr_iff)
  show ?case using Cons.IH [OF ns(2)] add_image_rows [OF ns(1)] by simp
qed simp

text \<open>The rows of an address do not depend on which other addresses are interesting.\<close>

lemma rows_at_interesting:
  assumes "a \<in> interesting"
  shows "rows_at a (concat (map (image_rows c interesting) imgs)) = rows_at a (concat (map (image_rows c UNIV) imgs))"
proof -
  have "rows_at a (image_rows c interesting img) = rows_at a (image_rows c UNIV img)" for img
  proof -
    have "filter (\<lambda>e. export_address (fst img) e = a) (filter (usable_export interesting (fst img)) es)
      = filter (\<lambda>e. export_address (fst img) e = a) (filter (usable_export UNIV (fst img)) es)" for es
      using assms by (induction es) (auto simp: usable_export_def)
    then show ?thesis by (simp add: rows_at_def image_rows_def filter_map o_def export_row_def)
  qed
  then show ?thesis by (induction imgs) (simp_all add: rows_at_def)
qed

definition all_rows :: "symbol_cache \<Rightarrow> names" where
  "all_rows c = concat (map (image_rows c UNIV) (ac_images c))"

text \<open>C33: an address that some image exports gets the name of its first export that is no cache alias, or else of its
  last alias, whatever else was asked for. Any other address is named only if it holds text, which has no name, or
  through the exported address that its pointer or stub leads to, with that export's image.\<close>

theorem exported_symbols_canonical:
  "case exported_symbols c wanted of
     Inl e \<Rightarrow> \<not> is_ok (exported_symbols c wanted)
   | Inr symbols \<Rightarrow>
       (case canonical (rows_at a (all_rows c)) of
          Some (name, path) \<Rightarrow> symbols a = (if a \<in> set wanted then Some (Some name, Some path) else None)
        | None \<Rightarrow> (case symbols a of
            None \<Rightarrow> True
          | Some v \<Rightarrow> a \<in> set wanted \<and>
              (case place_of c a of
                 Inr Chars \<Rightarrow> v = (None, None)
               | Inr p \<Rightarrow> (case place_target p of
                   [] \<Rightarrow> False
                 | t # _ \<Rightarrow> snd v \<noteq> None \<and> snd v = map_option snd (canonical (rows_at t (all_rows c))))
               | Inl _ \<Rightarrow> False)))"
proof (cases "exported_symbols c wanted")
  case (Inr symbols)
  obtain places names where p: "mapR (place_of c) wanted = Inr places"
    and n: "foldR (add_image c (set wanted \<union> set (concat (map place_target places)))) (ac_images c) [] = Inr names"
    and s: "symbols = (\<lambda>a. Option.bind (map_of (zip wanted places) a) (named_of names a))"
    using Inr by (auto simp: exported_symbols_def Let_def bindR_Inr_iff)
  let ?I = "set wanted \<union> set (concat (map place_target places))"
  have look: "map_of names t = canonical (rows_at t (all_rows c))" if "t \<in> ?I" for t
    using rows_at_interesting [OF that] unfolding add_images_rows [OF n] fold_names all_rows_def by simp
  have len: "length places = length wanted" by (rule mapR_length [OF p])
  have none: "symbols a = None" if "a \<notin> set wanted"
  proof -
    have "map_of (zip wanted places) a = None" using that by (auto simp: map_of_eq_None_iff dest: set_zip_leftD)
    then show ?thesis by (simp add: s)
  qed
  show ?thesis
  proof (cases "a \<in> set wanted")
    case False
    then show ?thesis using none by (auto simp: Inr split: option.splits prod.splits)
  next
    case True
    then have "a \<in> fst ` set (zip wanted places)" using len by (metis map_fst_zip set_map)
    then obtain q where q: "map_of (zip wanted places) a = Some q"
      by (cases "map_of (zip wanted places) a") (auto simp: map_of_eq_None_iff)
    then obtain i where i: "i < length wanted" "wanted ! i = a" "places ! i = q"
      using map_of_SomeD [OF q] by (auto simp: set_zip)
    have pq: "place_of c a = Inr q" using mapR_nth [OF p i(1)] i(2,3) by simp
    have "q \<in> set places" using i len by auto
    then have t: "set (place_target q) \<subseteq> ?I" by auto
    show ?thesis
    proof (cases "canonical (rows_at a (all_rows c))")
      case (Some r)
      then have "map_of names a = Some r" using look [of a] True by simp
      then show ?thesis using True q Some by (auto simp: Inr s named_of_def split: prod.splits)
    next
      case None
      then have a: "map_of names a = None" using look [of a] True by simp
      have lt: "canonical (rows_at u (all_rows c)) = map_of names u" if "u \<in> set (place_target q)" for u
        using look [OF subsetD [OF t that]] by simp
      show ?thesis
        by (cases q) (auto simp: Inr None True s q pq named_of_def a place_target_def lt
            split: option.splits if_splits prod.splits)
    qed
  qed
qed simp

subsection \<open>The memo\<close>

lemma hex_digits_nonneg_inj: "hex_digits a = hex_digits b \<Longrightarrow> 0 \<le> a \<Longrightarrow> 0 \<le> b \<Longrightarrow> a = b"
  by (metis hex_digits_parse)

lemma py_hex_inj: "py_hex a = py_hex b \<Longrightarrow> a = b"
proof -
  assume e: "py_hex a = py_hex b"
  have h: "hd (py_hex x) = (if x < 0 then 0x2D else 0x30)" for x
    by (simp add: py_hex_def ascii_def)
  have s: "(a < 0) = (b < 0)" using h [of a] h [of b] e by (auto split: if_splits)
  show "a = b"
  proof (cases "a < 0")
    case True
    then have "hex_digits (- a) = hex_digits (- b)" using e s by (simp add: py_hex_def)
    then show ?thesis using hex_digits_nonneg_inj [of "- a" "- b"] True s by simp
  next
    case False
    then have "hex_digits a = hex_digits b" using e s by (simp add: py_hex_def)
    then show ?thesis using hex_digits_nonneg_inj [of a b] False s by simp
  qed
qed

lemma report_lookup:
  "report ipsw symbols a (memo, out) = Inr (memo', out') \<Longrightarrow>
     \<exists>v. memo' = AList.update (py_hex a) v memo \<and> out' = out @ [(a, v)]"
  by (auto simp: report_def bindR_Inr_iff)

lemma reports:
  assumes "foldR (report ipsw symbols) ws (memo, out) = Inr (memo', out')" "distinct ws"
  shows "\<exists>f. out' = out @ map (\<lambda>a. (a, f a)) ws \<and> (\<forall>a \<in> set ws. map_of memo' (py_hex a) = Some (f a))
    \<and> (\<forall>k. k \<notin> py_hex ` set ws \<longrightarrow> map_of memo' k = map_of memo k)"
  using assms
proof (induction ws arbitrary: memo out)
  case (Cons a ws)
  obtain m o1 where st: "report ipsw symbols a (memo, out) = Inr (m, o1)"
    and r: "foldR (report ipsw symbols) ws (m, o1) = Inr (memo', out')"
    using Cons.prems(1) by (auto simp: bindR_Inr_iff)
  obtain v where v: "m = AList.update (py_hex a) v memo" "o1 = out @ [(a, v)]"
    using report_lookup [OF st] by blast
  obtain f where f: "out' = o1 @ map (\<lambda>a. (a, f a)) ws" "\<forall>b \<in> set ws. map_of memo' (py_hex b) = Some (f b)"
    "\<forall>k. k \<notin> py_hex ` set ws \<longrightarrow> map_of memo' k = map_of m k"
    using Cons.IH [OF r] Cons.prems(2) by auto
  let ?f = "f(a := v)"
  have a: "a \<notin> set ws" using Cons.prems(2) by simp
  then have "py_hex a \<notin> py_hex ` set ws" using py_hex_inj by blast
  then have "map_of memo' (py_hex a) = Some v" using f(3) v(1) by (simp add: map_of_update)
  moreover have "map (\<lambda>b. (b, ?f b)) ws = map (\<lambda>b. (b, f b)) ws" using a by auto
  ultimately have "out' = out @ map (\<lambda>b. (b, ?f b)) (a # ws)"
    "\<forall>b \<in> set (a # ws). map_of memo' (py_hex b) = Some (?f b)"
    "\<forall>k. k \<notin> py_hex ` set (a # ws) \<longrightarrow> map_of memo' k = map_of memo k"
    using f a v by (auto simp: map_of_update)
  then show ?case by blast
qed simp

lemma reports_from_memo:
  "\<forall>a \<in> set ws. map_of memo (py_hex a) = Some (f a) \<Longrightarrow>
   foldR (report ipsw Map.empty) ws (memo, out) = Inr (memo, out @ map (\<lambda>a. (a, f a)) ws)"
  by (induction ws arbitrary: out) (auto simp: report_def update_same)

text \<open>C34: after a run whose names are not in doubt (\<^verbatim>\<open>"?"\<close>), a second run with the memo it wrote asks neither the
  cache nor \<^verbatim>\<open>ipsw\<close>, so it prints the same names whatever these would say now, and leaves the memo as it is.\<close>

theorem second_run_from_memo:
  "case a2s_main c ipsw order uuid saved addresses of
     Inl e \<Rightarrow> \<not> is_ok (a2s_main c ipsw order uuid saved addresses)
   | Inr (written, out) \<Rightarrow>
       map fst out = sorted_list_of_set (set addresses)
       \<and> (if list_ex (\<lambda>(_, v). fst v = Some (ascii ''?'')) out then True
          else a2s_main c' ipsw' order' uuid (Some written) addresses = Inr (written, out))"
proof (cases "a2s_main c ipsw order uuid saved addresses")
  case (Inr r)
  define ws where "ws = sorted_list_of_set (set addresses)"
  obtain symbols memo out where r: "r = ((uuid, memo), out)"
    and f: "foldR (report ipsw symbols) ws (load_memo uuid saved, []) = Inr (memo, out)"
    using Inr by (auto simp: a2s_main_def Let_def ws_def bindR_Inr_iff)
  have d: "distinct ws" by (simp add: ws_def)
  obtain f where f: "out = map (\<lambda>a. (a, f a)) ws" "\<forall>a \<in> set ws. map_of memo (py_hex a) = Some (f a)"
    using reports [OF f d] by auto
  have fsts: "map fst out = ws" by (simp add: f(1) o_def)
  have again: "a2s_main c' ipsw' order' uuid (Some (uuid, memo)) addresses = Inr ((uuid, memo), out)"
    if "\<not> list_ex (\<lambda>(_, v). fst v = Some (ascii ''?'')) out"
  proof -
    have "filter (is_missing memo) ws = []"
      using that f by (auto simp: filter_empty_conv is_missing_def list_ex_iff)
    then show ?thesis
      using reports_from_memo [of ws memo f ipsw' "[]"] f
      by (simp add: a2s_main_def Let_def load_memo_def flip: ws_def)
  qed
  show ?thesis using again fsts by (simp add: Inr r ws_def)
qed simp

end
