(* ===== verification/Http_Proxy.thy ===== *)
theory Http_Proxy
  imports Py_Io
begin

text \<open>
  \<^verbatim>\<open>scripts/development/apple-mitm-observe.py\<close>: the proxy that ends the TLS connections of one host, reads each
  message, rewrites the device's identifiers and passes it on. The sockets are a parameter, a record of what the
  calls do to the world's state; TLS, threads and the log are left out. A latin-1 string is its bytes.
\<close>

subsection \<open>Strings\<close>

definition CRLF :: bytes where
  "CRLF = [13, 10]"

text \<open>\<^verbatim>\<open>xs.partition(sep)\<close>, when \<^verbatim>\<open>sep\<close> occurs.\<close>

fun cut_at :: "bytes \<Rightarrow> bytes \<Rightarrow> (bytes \<times> bytes) option" where
  "cut_at sep [] = (if sep = [] then Some ([], []) else None)"
| "cut_at sep (x # xs) =
     (if prefix sep (x # xs) then Some ([], drop (length sep) (x # xs))
      else map_option (\<lambda>(h, r). (x # h, r)) (cut_at sep xs))"

text \<open>\<^verbatim>\<open>xs.split(b"\r\n")\<close>.\<close>

fun split_lines :: "bytes \<Rightarrow> bytes list" where
  "split_lines [] = [[]]"
| "split_lines [x] = [[x]]"
| "split_lines (x # y # xs) =
     (if x = 13 \<and> y = 10 then [] # split_lines xs
      else case split_lines (y # xs) of [] \<Rightarrow> [[x]] | l # ls \<Rightarrow> (x # l) # ls)"

fun join_lines :: "bytes list \<Rightarrow> bytes" where
  "join_lines [] = []"
| "join_lines [l] = l"
| "join_lines (l # m # ls) = l @ CRLF @ join_lines (m # ls)"

definition latin_space :: "byte \<Rightarrow> bool" where
  "latin_space b \<longleftrightarrow> (9 \<le> uint b \<and> uint b \<le> 13) \<or> (28 \<le> uint b \<and> uint b \<le> 32) \<or> uint b \<in> {0x85, 0xA0}"

definition strip_by :: "(byte \<Rightarrow> bool) \<Rightarrow> bytes \<Rightarrow> bytes" where
  "strip_by sp s = rev (dropWhile sp (rev (dropWhile sp s)))"

definition latin_lower :: "bytes \<Rightarrow> bytes" where
  "latin_lower = map (\<lambda>b. let k = uint b in
     if (65 \<le> k \<and> k \<le> 90) \<or> (0xC0 \<le> k \<and> k \<le> 0xDE \<and> k \<noteq> 0xD7) then b + 32 else b)"

text \<open>\<^verbatim>\<open>int(s, base)\<close>: blanks around, a sign, a prefix in base 16, and single underscores between the digits.\<close>

definition py_int :: "(byte \<Rightarrow> bool) \<Rightarrow> int \<Rightarrow> bytes \<Rightarrow> int res" where
  "py_int sp base s =
     (let s = strip_by sp s;
          neg = prefix (ascii ''-'') s;
          s = (if neg \<or> prefix (ascii ''+'') s then drop 1 s else s);
          hex = base = 16 \<and> (prefix (ascii ''0x'') s \<or> prefix (ascii ''0X'') s);
          s = (if hex then drop 2 s else s);
          s = (if hex \<and> prefix (ascii ''_'') s then drop 1 s else s);
          groups = split_at 0x5F s
      in if list_all (\<lambda>g. g \<noteq> [] \<and> list_all (\<lambda>b. case nibble b of None \<Rightarrow> False | Some d \<Rightarrow> d < base) g) groups
         then let n = foldl (\<lambda>n b. base * n + the (nibble b)) 0 (concat groups) in Inr (if neg then - n else n)
         else Inl Value_Error)"

subsection \<open>Reading a message\<close>

record 'p world =
  w_client :: "nat \<Rightarrow> 'p \<Rightarrow> bytes res \<times> 'p"
  w_server :: "nat \<Rightarrow> 'p \<Rightarrow> bytes res \<times> 'p"
  w_to_client :: "bytes \<Rightarrow> 'p \<Rightarrow> unit res \<times> 'p"
  w_to_server :: "bytes \<Rightarrow> 'p \<Rightarrow> unit res \<times> 'p"
  w_connect :: "'p \<Rightarrow> unit res \<times> 'p"

definition is_target :: "bytes \<Rightarrow> bool" where
  "is_target host \<longleftrightarrow> latin_lower host = ascii ''setup.icloud.com''"

partial_function (option) recv_head ::
    "(nat \<Rightarrow> 'p \<Rightarrow> bytes res \<times> 'p) \<Rightarrow> bytes \<Rightarrow> 'p \<Rightarrow> ((bytes option \<times> bytes) res \<times> 'p) option" where
  "recv_head recv buf p =
     (case cut_at (CRLF @ CRLF) buf of
        Some (head, rest) \<Rightarrow> Some (Inr (Some head, rest), p)
      | None \<Rightarrow> (case recv 4096 p of
          (Inl e, p) \<Rightarrow> Some (Inl e, p)
        | (Inr [], p) \<Rightarrow> Some (Inr (None, buf), p)
        | (Inr (c # cs), p) \<Rightarrow> recv_head recv (buf @ c # cs) p))"

type_synonym header = "bytes \<times> bytes"

definition header_dict :: "header list \<Rightarrow> bytes \<Rightarrow> bytes option" where
  "header_dict headers = map_of (rev (map (\<lambda>(k, v). (latin_lower k, strip_by latin_space v)) headers))"

text \<open>\<^verbatim>\<open>while len(data) < n\<close>; the flag says whether the peer closed first. A content length asks for what is left,
  a chunk for 4096 bytes at a time.\<close>

partial_function (option) recv_upto ::
    "(nat \<Rightarrow> 'p \<Rightarrow> bytes res \<times> 'p) \<Rightarrow> bool \<Rightarrow> int \<Rightarrow> bytes \<Rightarrow> 'p \<Rightarrow> ((bytes \<times> bool) res \<times> 'p) option" where
  "recv_upto recv exact n data p =
     (if \<not> int (length data) < n then Some (Inr (data, False), p)
      else case recv (if exact then nat (n - int (length data)) else 4096) p of
        (Inl e, p) \<Rightarrow> Some (Inl e, p)
      | (Inr [], p) \<Rightarrow> Some (Inr (data, True), p)
      | (Inr (c # cs), p) \<Rightarrow> recv_upto recv exact n (data @ c # cs) p)"

partial_function (option) recv_line ::
    "(nat \<Rightarrow> 'p \<Rightarrow> bytes res \<times> 'p) \<Rightarrow> bytes \<Rightarrow> 'p \<Rightarrow> ((bytes \<times> (bytes \<times> bytes) option) res \<times> 'p) option" where
  "recv_line recv data p =
     (case cut_at CRLF data of
        Some lr \<Rightarrow> Some (Inr (data, Some lr), p)
      | None \<Rightarrow> (case recv 4096 p of
          (Inl e, p) \<Rightarrow> Some (Inl e, p)
        | (Inr [], p) \<Rightarrow> Some (Inr (data, None), p)
        | (Inr (c # cs), p) \<Rightarrow> recv_line recv (data @ c # cs) p))"

text \<open>The chunked branch. Its chunks are sliced off and dropped.\<close>

definition ascii_ws :: "byte \<Rightarrow> bool" where
  "ascii_ws b \<longleftrightarrow> (9 \<le> uint b \<and> uint b \<le> 13) \<or> uint b = 32"

partial_function (option) read_chunks ::
    "(nat \<Rightarrow> 'p \<Rightarrow> bytes res \<times> 'p) \<Rightarrow> bytes \<Rightarrow> 'p \<Rightarrow> ((bytes \<times> bytes) res \<times> 'p) option" where
  "read_chunks recv data p =
     (case recv_line recv data p of
        None \<Rightarrow> None
      | Some (Inl e, p) \<Rightarrow> Some (Inl e, p)
      | Some (Inr (data, None), p) \<Rightarrow> Some (Inr (data, []), p)
      | Some (Inr (_, Some (size_line, data)), p) \<Rightarrow>
          (case py_int ascii_ws 16 (hd (split_at 0x3B size_line)) of
             Inl e \<Rightarrow> Some (Inl e, p)
           | Inr n \<Rightarrow>
               (case recv_upto recv False (n + 2) data p of
                  None \<Rightarrow> None
                | Some (Inl e, p) \<Rightarrow> Some (Inl e, p)
                | Some (Inr (data, closed), p) \<Rightarrow>
                    (if closed then Some (Inr (data, []), p)
                     else if n = 0 then Some (Inr (py_slice data (n + 2) (int (length data)), []), p)
                     else read_chunks recv (py_slice data (n + 2) (int (length data))) p))))"

definition read_body ::
    "(nat \<Rightarrow> 'p \<Rightarrow> bytes res \<times> 'p) \<Rightarrow> bytes \<Rightarrow> header list \<Rightarrow> ('p, bytes \<times> bytes) io" where
  "read_body recv rest headers =
     (case header_dict headers (ascii ''content-length'') of
        Some v \<Rightarrow>
          bindM (resM (py_int latin_space 10 v)) (\<lambda>n.
          bindM (recv_upto recv True n (py_slice rest 0 n)) (\<lambda>(data, _). retM (data, [])))
      | None \<Rightarrow>
          if map_option latin_lower (header_dict headers (ascii ''transfer-encoding'')) = Some (ascii ''chunked'')
          then read_chunks recv rest
          else retM ([], rest))"

definition header_line :: "bytes \<Rightarrow> header option" where
  "header_line ln =
     map_option (\<lambda>(k, v). (strip_by latin_space k, strip_by latin_space v)) (cut_at (ascii '':'') ln)"

definition parse_headers :: "bytes \<Rightarrow> bytes \<times> header list" where
  "parse_headers head = (let ls = split_lines head in (hd ls, List.map_filter header_line (tl ls)))"

subsection \<open>Rewriting and writing it\<close>

definition IPAD_UDID :: bytes where "IPAD_UDID = ascii ''AE1C4759-51A7-5455-B6CB-3B3CF98D4EA3''"
definition IPAD_SERIAL :: bytes where "IPAD_SERIAL = ascii ''R9D3WPY7T5''"
definition VM_UDID :: bytes where "VM_UDID = ascii ''B39EFD32-C664-596A-B3EE-E3024771A962''"
definition VM_SERIAL :: bytes where "VM_SERIAL = ascii ''Z6PNXXV1RW''"

definition swap_ids :: "bytes \<Rightarrow> bytes" where
  "swap_ids s = py_replace VM_SERIAL IPAD_SERIAL (py_replace VM_UDID IPAD_UDID s)"

definition rewrite_header :: "header \<Rightarrow> header" where
  "rewrite_header = (\<lambda>(k, v).
     let kl = latin_lower k in
     (k, if kl \<in> {ascii ''x-appleid-device-udid'', ascii ''x-client-udid''} then IPAD_UDID
         else if kl = ascii ''x-apple-i-srl-no'' then IPAD_SERIAL
         else if sublist (ascii ''udid'') (latin_lower v) \<or> sublist (ascii ''serial'') (latin_lower v)
             \<or> prefix (ascii ''x-mme-client-info'') kl
           then swap_ids v else v))"

definition rewrite :: "bytes \<times> header list \<times> bytes \<Rightarrow> bytes \<times> header list \<times> bytes" where
  "rewrite = (\<lambda>(start, headers, body).
     (swap_ids start, map rewrite_header headers, if body \<noteq> [] then swap_ids body else body))"

definition build_head :: "bytes \<Rightarrow> header list \<Rightarrow> bytes \<Rightarrow> bytes" where
  "build_head start headers body =
     start @ CRLF @ join_lines (map (\<lambda>(k, v). k @ ascii '': '' @ v) headers) @ CRLF @ CRLF @ body"

subsection \<open>The proxy\<close>

text \<open>One message from a socket: its parts, or \<^verbatim>\<open>None\<close> when the peer closed before a head was complete.\<close>

definition read_message ::
    "(nat \<Rightarrow> 'p \<Rightarrow> bytes res \<times> 'p) \<Rightarrow> ('p, (bytes \<times> header list \<times> bytes) option) io" where
  "read_message recv =
     bindM (recv_head recv []) (\<lambda>(head, rest).
     case head of
       None \<Rightarrow> retM None
     | Some head \<Rightarrow> (let (start, headers) = parse_headers head in
         bindM (read_body recv rest headers) (\<lambda>(body, _). retM (Some (start, headers, body)))))"

definition opM :: "('p \<Rightarrow> 'a res \<times> 'p) \<Rightarrow> ('p, 'a) io" where
  "opM f = (\<lambda>p. Some (f p))"

text \<open>The loop of \<^verbatim>\<open>mitm\<close> after the handshake; \<open>up\<close> says that the server is connected. An exception ends it, as the
  end of a connection does.\<close>

definition exchange :: "'p world \<Rightarrow> bool \<Rightarrow> bool \<Rightarrow> ('p, bool) io" where
  "exchange w REWRITE up =
     bindM (read_message (w_client w)) (\<lambda>req.
     case req of
       None \<Rightarrow> retM False
     | Some m \<Rightarrow>
         bindM (if up then retM () else opM (w_connect w)) (\<lambda>_.
         case (if REWRITE then rewrite m else m) of (start, headers, body) \<Rightarrow>
         bindM (opM (w_to_server w (build_head start headers body))) (\<lambda>_.
         bindM (read_message (w_server w)) (\<lambda>resp.
         case resp of
           None \<Rightarrow> retM False
         | Some (rstart, rheaders, rbody) \<Rightarrow>
             bindM (opM (w_to_client w (build_head rstart rheaders rbody))) (\<lambda>_. retM True)))))"

partial_function (option) mitm :: "'p world \<Rightarrow> bool \<Rightarrow> bool \<Rightarrow> 'p \<Rightarrow> 'p option" where
  "mitm w REWRITE up p =
     (case exchange w REWRITE up p of
        None \<Rightarrow> None
      | Some (Inl _, p) \<Rightarrow> Some p
      | Some (Inr again, p) \<Rightarrow> if again then mitm w REWRITE True p else Some p)"

text \<open>The request line of \<^verbatim>\<open>handle\<close>: the host and port to connect to, and whether the connection is ended here.\<close>

definition connect_request :: "bytes \<Rightarrow> (bytes \<times> int \<times> bool) option res" where
  "connect_request head =
     (let parts = map (map word_of_int) (str_split (map uint (hd (split_lines head)))) in
      if length parts < 2 \<or> hd parts \<noteq> ascii ''CONNECT'' then Inr None
      else (case (case cut_at (ascii '':'') (parts ! 1) of None \<Rightarrow> (parts ! 1, []) | Some hp \<Rightarrow> hp) of (host, port) \<Rightarrow>
        bindR (if port = [] then Inr 443 else py_int latin_space 10 port) (\<lambda>n. Inr (Some (host, n, is_target host)))))"

subsection \<open>A socket\<close>

text \<open>Bytes that arrive in pieces, after which the peer closes: \<^verbatim>\<open>recv(n)\<close> gives at most \<open>n\<close> bytes of the next piece,
  and nothing at the end.\<close>

definition sock_recv :: "nat \<Rightarrow> bytes list \<Rightarrow> bytes res \<times> bytes list" where
  "sock_recv n cs =
     (case dropWhile (\<lambda>c. c = []) cs of
        [] \<Rightarrow> (Inr [], [])
      | c # cs \<Rightarrow> (Inr (take n c), if length c \<le> n then cs else drop n c # cs))"

lemma concat_dropWhile: "concat (dropWhile (\<lambda>c. c = []) cs) = concat cs"
  by (induction cs) auto

lemma sock_recv_end: "concat cs = [] \<Longrightarrow> sock_recv n cs = (Inr [], [])"
proof -
  assume "concat cs = []"
  then have d: "dropWhile (\<lambda>c. c = []) cs = []" by simp
  show ?thesis unfolding sock_recv_def d by simp
qed

lemma sock_recv_more:
  assumes "concat cs \<noteq> []" "0 < n"
  obtains x c cs' where "sock_recv n cs = (Inr (x # c), cs')" "(x # c) @ concat cs' = concat cs" "length (x # c) \<le> n"
proof -
  have "dropWhile (\<lambda>c. c = []) cs \<noteq> []" using assms(1) by (metis concat.simps(1) concat_dropWhile)
  then obtain d ds where d: "dropWhile (\<lambda>c. c = []) cs = d # ds" by (meson neq_Nil_conv)
  have "d \<noteq> []" using hd_dropWhile [of "\<lambda>c. c = []" cs] unfolding d by simp
  then obtain x c where xc: "take n d = x # c" using assms(2) by (cases "take n d") auto
  let ?cs = "if length d \<le> n then ds else drop n d # ds"
  have "sock_recv n cs = (Inr (x # c), ?cs)" by (simp add: sock_recv_def d xc)
  moreover have "(x # c) @ concat ?cs = concat cs"
    using concat_dropWhile [of cs] unfolding xc [symmetric] d by (simp add: append_assoc [symmetric])
  moreover have "length (x # c) \<le> n" unfolding xc [symmetric] by simp
  ultimately show thesis by (rule that)
qed

subsection \<open>Cutting\<close>

lemma cut_at_Some: "cut_at sep xs = Some (h, r) \<Longrightarrow> xs = h @ sep @ r"
proof (induction xs arbitrary: h)
  case (Cons x xs)
  show ?case
  proof (cases "prefix sep (x # xs)")
    case True
    obtain zs where z: "x # xs = sep @ zs" using True by (auto simp: prefix_def)
    have "h = []" "r = drop (length sep) (x # xs)" using Cons.prems True by simp_all
    then show ?thesis using z by simp
  next
    case False
    then show ?thesis using Cons by auto
  qed
qed (auto split: if_splits)

lemma cut_at_append: "cut_at sep xs = Some (h, r) \<Longrightarrow> cut_at sep (xs @ ys) = Some (h, r @ ys)"
proof (induction xs arbitrary: h)
  case Nil
  then show ?case by (cases ys) (auto split: if_splits)
next
  case (Cons x xs)
  show ?case
  proof (cases "prefix sep (x # xs)")
    case True
    then have "prefix sep (x # xs @ ys)" by (metis append_Cons prefix_prefix)
    obtain zs where z: "x # xs = sep @ zs" using True by (auto simp: prefix_def)
    have z': "x # xs @ ys = sep @ zs @ ys" using z by (metis append_Cons append_assoc)
    have d: "drop (length sep) (x # xs) = zs" unfolding z by simp
    have d': "drop (length sep) (x # xs @ ys) = zs @ ys" "prefix sep (x # xs @ ys)" unfolding z' by simp_all
    have "h = []" "r = zs" using Cons.prems True d by auto
    then show ?thesis using d' by simp
  next
    case False
    then obtain h' where h': "cut_at sep xs = Some (h', r)" "h = x # h'" using Cons.prems by auto
    then have len: "length sep \<le> length (x # xs)" using cut_at_Some [OF h'(1)] by simp
    have "\<not> prefix sep (x # xs @ ys)"
    proof
      assume "prefix sep (x # xs @ ys)"
      then have "prefix sep ((x # xs) @ ys)" by simp
      then show False using False len by (metis prefix_length_prefix prefixI)
    qed
    then show ?thesis using Cons.IH [OF h'(1)] h' by simp
  qed
qed

lemma recv_head_cut:
  assumes "cut_at (CRLF @ CRLF) (buf @ concat cs) = Some (h, r)"
  shows "\<exists>rest cs'. recv_head sock_recv buf cs = Some (Inr (Some h, rest), cs') \<and> rest @ concat cs' = r"
  using assms
proof (induction "length (concat cs)" arbitrary: buf cs rule: less_induct)
  case less
  show ?case
  proof (cases "cut_at (CRLF @ CRLF) buf")
    case (Some hr)
    obtain h' r' where hr: "hr = (h', r')" by (cases hr)
    have "h' = h" "r' @ concat cs = r"
      using cut_at_append [OF Some [unfolded hr], of "concat cs"] less.prems by simp_all
    then show ?thesis using Some by (subst recv_head.simps) (auto simp: hr)
  next
    case None
    then have "concat cs \<noteq> []" using less.prems by (metis append_Nil2 option.distinct(1))
    then obtain x c cs' where s: "sock_recv 4096 cs = (Inr (x # c), cs')" and e: "(x # c) @ concat cs' = concat cs"
      by (rule sock_recv_more [of cs 4096]) simp_all
    have "length (concat cs') < length (concat cs)" unfolding e [symmetric] by simp
    moreover have "cut_at (CRLF @ CRLF) ((buf @ x # c) @ concat cs') = Some (h, r)"
      using less.prems unfolding e [symmetric] by simp
    ultimately obtain rest cs'' where "recv_head sock_recv (buf @ x # c) cs' = Some (Inr (Some h, rest), cs'')"
      "rest @ concat cs'' = r" using less.hyps by blast
    then show ?thesis by (subst recv_head.simps) (simp add: None s)
  qed
qed

lemma recv_upto_exact:
  assumes "length data \<le> n" "n \<le> length (data @ concat cs)"
  shows "\<exists>cs'. recv_upto sock_recv True (int n) data cs = Some (Inr (take n (data @ concat cs), False), cs')"
  using assms
proof (induction "length (concat cs)" arbitrary: data cs rule: less_induct)
  case less
  show ?case
  proof (cases "length data = n")
    case True
    then show ?thesis by (subst recv_upto.simps) simp
  next
    case False
    then have "0 < n - length data" using less.prems by simp
    moreover have "concat cs \<noteq> []" using False less.prems by (metis append_Nil2 le_antisym)
    ultimately obtain x c cs' where s: "sock_recv (n - length data) cs = (Inr (x # c), cs')"
      and e: "(x # c) @ concat cs' = concat cs" and l: "length (x # c) \<le> n - length data"
      using sock_recv_more by metis
    have "length (concat cs') < length (concat cs)" unfolding e [symmetric] by simp
    moreover have "length (data @ x # c) \<le> n" using l False less.prems by simp
    moreover have "n \<le> length ((data @ x # c) @ concat cs')" using less.prems(2) unfolding e [symmetric] by simp
    ultimately obtain cs'' where
      "recv_upto sock_recv True (int n) (data @ x # c) cs' = Some (Inr (take n ((data @ x # c) @ concat cs'), False), cs'')"
      using less.hyps by blast
    moreover have "nat (int n - int (length data)) = n - length data" by simp
    moreover have "(data @ x # c) @ concat cs' = data @ concat cs" unfolding e [symmetric] by simp
    ultimately show ?thesis using False less.prems(1)
      by (subst recv_upto.simps) (simp add: s)
  qed
qed

subsection \<open>A message from end to end\<close>

text \<open>A message whose parts carry no line ends and no blanks at their ends, as a client writes them.\<close>

definition trimmed :: "bytes \<Rightarrow> bool" where
  "trimmed s \<longleftrightarrow> s = [] \<or> \<not> latin_space (hd s) \<and> \<not> latin_space (last s)"

definition clean_header :: "header \<Rightarrow> bool" where
  "clean_header = (\<lambda>(k, v). 13 \<notin> set k \<and> 13 \<notin> set v \<and> 0x3A \<notin> set k \<and> trimmed k \<and> trimmed v)"

definition clean_message :: "bytes \<times> header list \<times> bytes \<Rightarrow> bool" where
  "clean_message = (\<lambda>(start, headers, body). 13 \<notin> set start \<and> list_all clean_header headers
     \<and> (\<exists>v. header_dict headers (ascii ''content-length'') = Some v
        \<and> list_all (\<lambda>b. 48 \<le> uint b \<and> uint b \<le> 57) v \<and> py_int latin_space 10 v = Inr (int (length body))))"

lemma strip_trimmed: "trimmed s \<Longrightarrow> strip_by latin_space s = s"
proof (cases "s = []")
  case False
  assume "trimmed s"
  then have h: "\<not> latin_space (hd s)" "\<not> latin_space (last s)" using False by (auto simp: trimmed_def)
  have "dropWhile latin_space s = s" using h(1) False by (cases s) auto
  moreover have "dropWhile latin_space (rev s) = rev s" using h(2) False by (cases s rule: rev_cases) auto
  ultimately show ?thesis by (simp add: strip_by_def)
qed (simp add: strip_by_def)

lemma strip_space_front: "latin_space b \<Longrightarrow> strip_by latin_space (b # s) = strip_by latin_space s"
  by (simp add: strip_by_def)

lemma split_lines_ne: "split_lines s \<noteq> []"
  by (induction s rule: split_lines.induct) (auto split: list.splits)

lemma split_lines_plain: "13 \<notin> set l \<Longrightarrow> split_lines l = [l]"
  by (induction l rule: split_lines.induct) auto

lemma split_lines_cons: "13 \<notin> set l \<Longrightarrow> split_lines (l @ CRLF @ s) = l # split_lines s"
proof (induction l)
  case Nil
  then show ?case by (simp add: CRLF_def)
next
  case (Cons x l)
  then have ih: "split_lines (l @ CRLF @ s) = l # split_lines s" and x: "x \<noteq> 13" by auto
  obtain y ys where y: "l @ CRLF @ s = y # ys" by (cases "l @ CRLF @ s") (auto simp: CRLF_def)
  have "split_lines (x # l @ CRLF @ s) = (x # l) # split_lines s"
    unfolding y using x ih [unfolded y] by simp
  then show ?case by simp
qed

lemma split_join: "ls \<noteq> [] \<Longrightarrow> \<forall>l \<in> set ls. 13 \<notin> set l \<Longrightarrow> split_lines (join_lines ls) = ls"
proof (induction ls rule: join_lines.induct)
  case (3 l m ls)
  then show ?case by (simp add: split_lines_cons)
qed (auto simp: split_lines_plain)

lemma cut_skip: "13 \<notin> set l \<Longrightarrow>
  cut_at (CRLF @ CRLF) (l @ s) = map_option (\<lambda>(h, r). (l @ h, r)) (cut_at (CRLF @ CRLF) s)"
proof (induction l)
  case (Cons x l)
  then have "\<not> prefix (CRLF @ CRLF) (x # l @ s)" by (auto simp: CRLF_def)
  then show ?case using Cons by (cases "cut_at (CRLF @ CRLF) s") auto
qed (cases "cut_at (CRLF @ CRLF) s"; simp)

lemma cut_line: "x \<noteq> 13 \<Longrightarrow>
  cut_at (CRLF @ CRLF) (CRLF @ x # s) = map_option (\<lambda>(h, r). (CRLF @ h, r)) (cut_at (CRLF @ CRLF) (x # s))"
  by (cases "cut_at (CRLF @ CRLF) (x # s)") (auto simp: CRLF_def)

lemma cut_lines:
  assumes "ls \<noteq> []" "\<forall>l \<in> set ls. 13 \<notin> set l" "\<forall>l \<in> set (tl ls). l \<noteq> []"
  shows "cut_at (CRLF @ CRLF) (join_lines ls @ CRLF @ CRLF @ body) = Some (join_lines ls, body)"
  using assms
proof (induction ls rule: join_lines.induct)
  case (2 l)
  have "cut_at (CRLF @ CRLF) (CRLF @ CRLF @ body) = Some ([], body)" by (simp add: CRLF_def)
  then show ?case using 2 by (simp add: cut_skip del: append_assoc add: append_assoc [symmetric]) (simp add: cut_skip)
next
  case (3 l m ls)
  have ih: "cut_at (CRLF @ CRLF) (join_lines (m # ls) @ CRLF @ CRLF @ body) = Some (join_lines (m # ls), body)"
    by (rule "3.IH") (use "3.prems" in auto)
  obtain x t where m: "m = x # t" "x \<noteq> 13" using "3.prems"(2,3) by (cases m) auto
  obtain j where j: "join_lines (m # ls) = x # j" using m by (cases ls) auto
  have "cut_at (CRLF @ CRLF) (CRLF @ join_lines (m # ls) @ CRLF @ CRLF @ body)
      = Some (CRLF @ join_lines (m # ls), body)"
    using cut_line [OF m(2), of "j @ CRLF @ CRLF @ body"] ih unfolding j by simp
  then have "cut_at (CRLF @ CRLF) (l @ CRLF @ join_lines (m # ls) @ CRLF @ CRLF @ body)
      = Some (l @ CRLF @ join_lines (m # ls), body)"
    using "3.prems"(2) cut_skip [of l "CRLF @ join_lines (m # ls) @ CRLF @ CRLF @ body"] by simp
  then show ?case by simp
qed simp

definition line_of :: "header \<Rightarrow> bytes" where
  "line_of = (\<lambda>(k, v). k @ ascii '': '' @ v)"

lemma cut_colon: "0x3A \<notin> set k \<Longrightarrow> cut_at (ascii '':'') (k @ 0x3A # s) = Some (k, s)"
  by (induction k) (auto simp: ascii_def)

lemma header_line_of: "clean_header h \<Longrightarrow> header_line (line_of h) = Some h"
proof -
  assume c: "clean_header h"
  obtain k v where h: "h = (k, v)" by (cases h)
  have a: "ascii '': '' = [0x3A, 0x20]" "latin_space 0x20" by (simp_all add: ascii_def latin_space_def)
  show ?thesis using c
    by (simp add: h header_line_def line_of_def a cut_colon clean_header_def strip_trimmed strip_space_front)
qed

lemma line_of_clean: "clean_header h \<Longrightarrow> 13 \<notin> set (line_of h) \<and> line_of h \<noteq> []"
  by (auto simp: clean_header_def line_of_def ascii_def)

lemma parse_built:
  assumes "13 \<notin> set start" "list_all clean_header headers" "headers \<noteq> []"
  shows "cut_at (CRLF @ CRLF) (build_head start headers body @ extra)
      = Some (join_lines (start # map line_of headers), body @ extra)"
    and "parse_headers (join_lines (start # map line_of headers)) = (start, headers)"
proof -
  let ?ls = "start # map line_of headers"
  have l: "\<forall>l \<in> set ?ls. 13 \<notin> set l" "\<forall>l \<in> set (tl ?ls). l \<noteq> []"
    using assms line_of_clean by (auto simp: list_all_iff)
  have "build_head start headers body @ extra = join_lines ?ls @ CRLF @ CRLF @ body @ extra"
    using assms(3) by (cases headers) (simp_all add: build_head_def line_of_def)
  then show "cut_at (CRLF @ CRLF) (build_head start headers body @ extra) = Some (join_lines ?ls, body @ extra)"
    using cut_lines [OF _ l, of "body @ extra"] by simp
  have "List.map_filter header_line (map line_of headers) = headers"
    using assms(2) by (induction headers) (auto simp: map_filter_simps header_line_of)
  then show "parse_headers (join_lines ?ls) = (start, headers)"
    using split_join [OF _ l(1)] by (simp add: parse_headers_def Let_def)
qed

lemma read_built:
  assumes "clean_message (start, headers, body)" "concat cs = build_head start headers body @ extra"
  shows "\<exists>cs'. read_message sock_recv cs = Some (Inr (Some (start, headers, body)), cs')"
proof -
  obtain v where c: "13 \<notin> set start" "list_all clean_header headers"
    "header_dict headers (ascii ''content-length'') = Some v" "py_int latin_space 10 v = Inr (int (length body))"
    using assms(1) by (auto simp: clean_message_def)
  have ne: "headers \<noteq> []" using c(3) by (auto simp: header_dict_def)
  note p = parse_built [OF c(1,2) ne]
  obtain rest cs1 where h: "recv_head sock_recv [] cs = Some (Inr (Some (join_lines (start # map line_of headers)), rest), cs1)"
    and r: "rest @ concat cs1 = body @ extra"
    using recv_head_cut [of "[]" cs] p(1) [of body extra] assms(2) by auto
  let ?n = "length body" and ?d = "take (length body) rest"
  have sl: "py_slice rest 0 (int ?n) = ?d" by (simp add: py_slice_def slice_bound_def min_def)
  have "take ?n (?d @ concat cs1) = body \<and> ?n \<le> length (?d @ concat cs1)"
  proof (cases "?n \<le> length rest")
    case True
    then have "?d = body" using r by (metis append_eq_append_conv_if take_all_iff)
    then show ?thesis by simp
  next
    case False
    then have "?d @ concat cs1 = body @ extra" using r by simp
    then show ?thesis by simp
  qed
  then obtain cs2 where "recv_upto sock_recv True (int ?n) ?d cs1 = Some (Inr (body, False), cs2)"
    using recv_upto_exact [of ?d ?n cs1] by auto
  then have "read_message sock_recv cs = Some (Inr (Some (start, headers, body)), cs2)"
    by (simp add: read_message_def bindM_def h p(2) read_body_def c(3,4) sl)
  then show ?thesis by blast
qed

subsection \<open>Rewriting keeps a message readable\<close>

lemma replace_nth:
  assumes "length new = length old" "k < length xs"
  shows "py_replace old new xs ! k = xs ! k \<or> py_replace old new xs ! k \<in> set new"
  using assms
proof (induction old new xs arbitrary: k rule: py_replace.induct)
  case (2 old new x xs)
  show ?case
  proof (cases "old \<noteq> [] \<and> prefix old (x # xs)")
    case True
    note len = prefix_length_le [OF conjunct2 [OF True]]
    have r: "py_replace old new (x # xs) = new @ py_replace old new (drop (length old) (x # xs))" using True by simp
    show ?thesis
    proof (cases "k < length new")
      case False
      then obtain j where k: "k = length old + j" using "2.prems"(1) by (metis le_add_diff_inverse not_less)
      then have "j < length (drop (length old) (x # xs))" using "2.prems"(2) by simp
      then have "py_replace old new (drop (length old) (x # xs)) ! j = drop (length old) (x # xs) ! j
          \<or> py_replace old new (drop (length old) (x # xs)) ! j \<in> set new"
        using "2.IH"(1) True "2.prems"(1) by blast
      then show ?thesis using "2.prems"(1) len unfolding r by (simp add: k nth_append)
    qed (unfold r, simp add: nth_append)
  next
    case False
    then have r: "py_replace old new (x # xs) = x # py_replace old new xs" by auto
    show ?thesis using "2.IH"(2) False "2.prems" unfolding r by (cases k) auto
  qed
qed simp

lemma replace_set: "length new = length old \<Longrightarrow> set (py_replace old new xs) \<subseteq> set xs \<union> set new"
proof
  fix y assume len: "length new = length old" and "y \<in> set (py_replace old new xs)"
  then obtain k where k: "k < length xs" "y = py_replace old new xs ! k"
    by (auto simp: in_set_conv_nth py_replace_length)
  then show "y \<in> set xs \<union> set new" using replace_nth [OF len k(1)] by auto
qed

lemma replace_trimmed:
  assumes "length new = length old" "trimmed xs" "list_all (\<lambda>b. \<not> latin_space b) new"
  shows "trimmed (py_replace old new xs)"
proof (cases "xs = []")
  case False
  let ?ys = "py_replace old new xs"
  have len: "length ?ys = length xs" using assms(1) by (rule py_replace_length)
  then have ne: "?ys \<noteq> []" using False by auto
  have "hd ?ys = ?ys ! 0" "hd xs = xs ! 0" "last ?ys = ?ys ! (length xs - 1)" "last xs = xs ! (length xs - 1)"
    using ne False len by (simp_all add: hd_conv_nth last_conv_nth)
  then show ?thesis
    using replace_nth [OF assms(1), of 0 xs] replace_nth [OF assms(1), of "length xs - 1" xs] assms(2,3) False
    by (auto simp: trimmed_def list_all_iff)
qed (simp add: trimmed_def)

lemma id_lengths: "length IPAD_UDID = length VM_UDID" "length IPAD_SERIAL = length VM_SERIAL"
  by (simp_all add: IPAD_UDID_def VM_UDID_def IPAD_SERIAL_def VM_SERIAL_def ascii_def)

lemma id_bytes:
  "list_all (\<lambda>b. \<not> latin_space b) IPAD_UDID" "list_all (\<lambda>b. \<not> latin_space b) IPAD_SERIAL"
  "13 \<notin> set IPAD_UDID" "13 \<notin> set IPAD_SERIAL"
  by code_simp+

lemma swap_length: "length (swap_ids s) = length s"
  by (simp add: swap_ids_def py_replace_length id_lengths)

lemma swap_set: "13 \<notin> set s \<Longrightarrow> 13 \<notin> set (swap_ids s)"
  using replace_set [OF id_lengths(1), of s] replace_set [OF id_lengths(2), of "py_replace VM_UDID IPAD_UDID s"]
    id_bytes(3,4) by (auto simp: swap_ids_def)

lemma swap_trimmed: "trimmed s \<Longrightarrow> trimmed (swap_ids s)"
  by (simp add: swap_ids_def replace_trimmed id_lengths id_bytes)

lemma id_trimmed: "trimmed IPAD_UDID" "trimmed IPAD_SERIAL"
  by code_simp+

lemma rewrite_header_clean: "clean_header h \<Longrightarrow> clean_header (rewrite_header h)"
  by (cases h) (auto simp: rewrite_header_def clean_header_def Let_def swap_set swap_trimmed id_bytes id_trimmed)

lemma digits_keep:
  assumes "list_all (\<lambda>b. 48 \<le> uint b \<and> uint b \<le> 57) v" "latin_lower k = ascii ''content-length''"
  shows "rewrite_header (k, v) = (k, v)"
proof -
  have low: "latin_lower v = v" using assms(1) by (induction v) (auto simp: latin_lower_def)
  have d: "\<not> sublist (b # s) v" if "\<not> (48 \<le> uint b \<and> uint b \<le> 57)" for b s
  proof
    assume "sublist (b # s) v"
    then have "b \<in> set v" by (auto simp: sublist_def)
    then show False using assms(1) that by (auto simp: list_all_iff)
  qed
  have u: "\<not> sublist (ascii ''udid'') v" "\<not> sublist (ascii ''serial'') v"
    by (simp_all add: ascii_def d)
  have k: "ascii ''content-length'' \<notin> {ascii ''x-appleid-device-udid'', ascii ''x-client-udid''}"
    "ascii ''content-length'' \<noteq> ascii ''x-apple-i-srl-no''"
    "\<not> prefix (ascii ''x-mme-client-info'') (ascii ''content-length'')"
    by (simp_all add: ascii_def)
  show ?thesis using k u by (simp add: rewrite_header_def Let_def assms(2) low)
qed

lemma header_dict_snoc:
  "header_dict (hs @ [(k, v)]) c = (if latin_lower k = c then Some (strip_by latin_space v) else header_dict hs c)"
  by (simp add: header_dict_def)

lemma rewrite_length_header:
  assumes "list_all clean_header hs" "header_dict hs (ascii ''content-length'') = Some v"
    and "list_all (\<lambda>b. 48 \<le> uint b \<and> uint b \<le> 57) v"
  shows "header_dict (map rewrite_header hs) (ascii ''content-length'') = Some v"
  using assms
proof (induction hs rule: rev_induct)
  case Nil
  then show ?case by simp
next
  case (snoc h hs)
  obtain k w where h: "h = (k, w)" by (cases h)
  obtain w' where r: "rewrite_header h = (k, w')" by (auto simp: h rewrite_header_def Let_def)
  show ?case
  proof (cases "latin_lower k = ascii ''content-length''")
    case True
    then have "strip_by latin_space w = w" "strip_by latin_space w = v"
      using snoc.prems(1,2) by (auto simp: h header_dict_snoc clean_header_def strip_trimmed)
    then show ?thesis using digits_keep [OF snoc.prems(3) True] True
      by (simp add: h header_dict_snoc)
  next
    case False
    then show ?thesis using snoc by (simp add: h header_dict_snoc r [unfolded h])
  qed
qed

lemma rewrite_clean: "clean_message m \<Longrightarrow> clean_message (rewrite m)"
proof -
  assume c: "clean_message m"
  obtain start headers body where m: "m = (start, headers, body)" by (cases m)
  obtain v where v: "13 \<notin> set start" "list_all clean_header headers"
    "header_dict headers (ascii ''content-length'') = Some v" "list_all (\<lambda>b. 48 \<le> uint b \<and> uint b \<le> 57) v"
    "py_int latin_space 10 v = Inr (int (length body))"
    using c by (auto simp: m clean_message_def)
  have "list_all clean_header (map rewrite_header headers)"
    using v(2) by (auto simp: list_all_iff rewrite_header_clean)
  then show ?thesis
    using rewrite_length_header [OF v(2,3,4)] v by (simp add: m rewrite_def clean_message_def swap_set swap_length)
qed

text \<open>C35: a message as a client writes it is read in whole however the network cuts it, and the message that the proxy
  writes for it, with the identifiers rewritten, is again read in whole by the server: the rewriting keeps the
  content length right.\<close>

theorem rewritten_message_read:
  assumes "clean_message m" "concat cs = build_head (fst m) (fst (snd m)) (snd (snd m)) @ extra"
    and "concat ds = build_head (fst (rewrite m)) (fst (snd (rewrite m))) (snd (snd (rewrite m))) @ extra'"
  shows "(\<exists>cs'. read_message sock_recv cs = Some (Inr (Some m), cs'))
    \<and> (\<exists>ds'. read_message sock_recv ds = Some (Inr (Some (rewrite m)), ds'))"
proof -
  obtain start headers body where m: "m = (start, headers, body)" by (cases m)
  obtain start' headers' body' where r: "rewrite m = (start', headers', body')" by (cases "rewrite m")
  have "clean_message (rewrite m)" using assms(1) by (rule rewrite_clean)
  then show ?thesis
    using read_built [of start headers body cs extra] read_built [of start' headers' body' ds extra'] assms
    by (simp add: m r [unfolded m])
qed

definition demo_message :: "bytes \<times> header list \<times> bytes" where
  "demo_message = (ascii ''POST / HTTP/1.1'',
     [(ascii ''X-Apple-I-SRL-NO'', ascii ''Z6PNXXV1RW''), (ascii ''Content-Length'', ascii ''11'')], ascii ''Z6PNXXV1RW!'')"

lemma rewritten_message_read_witness:
  "(\<exists>cs'. read_message sock_recv [build_head (fst demo_message) (fst (snd demo_message)) (snd (snd demo_message))]
      = Some (Inr (Some demo_message), cs'))
   \<and> (\<exists>ds'. read_message sock_recv [build_head (fst (rewrite demo_message)) (fst (snd (rewrite demo_message)))
      (snd (snd (rewrite demo_message)))] = Some (Inr (Some (rewrite demo_message)), ds'))"
proof (rule rewritten_message_read [of _ _ "[]" _ "[]"])
  have h: "header_dict (fst (snd demo_message)) (ascii ''content-length'') = Some (ascii ''11'')" by code_simp
  have p: "py_int latin_space 10 (ascii ''11'') = Inr 11" by code_simp
  have d: "list_all (\<lambda>b. 48 \<le> uint b \<and> uint b \<le> 57) (ascii ''11'')" by code_simp
  have c: "list_all clean_header (fst (snd demo_message))" "13 \<notin> set (fst demo_message)"
    "length (snd (snd demo_message)) = 11" by code_simp+
  show "clean_message demo_message"
    unfolding clean_message_def case_prod_beta using h p d c by auto
qed simp_all

declare recv_head.simps [code] recv_upto.simps [code] recv_line.simps [code] read_chunks.simps [code]

text \<open>What the proxy loses: the data of a chunked message, and a second message that arrived with the first.\<close>

lemma chunked_data_lost:
  "read_message sock_recv [build_head (ascii ''P'') [(ascii ''Transfer-Encoding'', ascii ''chunked'')]
     (ascii ''2'' @ CRLF @ ascii ''ab'' @ CRLF @ ascii ''0'' @ CRLF @ CRLF)]
   = Some (Inr (Some (ascii ''P'', [(ascii ''Transfer-Encoding'', ascii ''chunked'')], [])), [])"
  by code_simp

lemma pipelined_message_lost:
  "read_message sock_recv [build_head (ascii ''P'') [(ascii ''Content-Length'', ascii ''1'')] (ascii ''a'')
     @ build_head (ascii ''Q'') [(ascii ''Content-Length'', ascii ''0'')] []]
   = Some (Inr (Some (ascii ''P'', [(ascii ''Content-Length'', ascii ''1'')], ascii ''a'')), [])"
  by code_simp

end
