(* ===== verification/Package_Runtime.thy ===== *)
theory Package_Runtime
  imports Macho_Patches "HOL-Library.Char_ord" "HOL-Library.List_Lexorder"
begin

text \<open>
  \<^verbatim>\<open>scripts/development/package-virtualmac2.py\<close>: the checks on what goes into the macOS 27 runtime (the install names a
  binary loads, its platform, the shader cache, the private compiler) and what of it is staged. JSON is a tree whose
  objects keep their pairs in order; numbers with a fraction, which no field of these files has, are left out. The
  JSON parser, SHA-256 and the directory that is read are parameters; copying, links, signing and archives are left out.
\<close>

subsection \<open>Load commands\<close>

definition is_dylib_command :: "int \<Rightarrow> bool" where
  "is_dylib_command cmd \<longleftrightarrow> cmd = 0xC \<or> cmd = 0x80000018 \<or> cmd = 0x8000001F \<or> cmd = 0x80000023"

definition dependency_name :: "bytes \<Rightarrow> int \<Rightarrow> int \<Rightarrow> bytes res" where
  "dependency_name data off sz =
     bindR (guardR (\<not> sz < 24) Value_Error) (\<lambda>_.
     bindR (u32 data (off + 8)) (\<lambda>n.
     let start = off + n; stop = find_nul data start (off + sz) in
     bindR (guardR (\<not> (start < off + 24 \<or> stop < start)) Value_Error) (\<lambda>_.
     py_decode (py_slice data start stop))))"

fun dependency_scan :: "bytes \<Rightarrow> int \<Rightarrow> nat \<Rightarrow> int \<Rightarrow> bytes list \<Rightarrow> (int \<times> bytes list) res" where
  "dependency_scan data lim 0 off names = Inr (off, names)"
| "dependency_scan data lim (Suc n) off names =
     bindR (guardR (\<not> (off + 8 > lim \<or> lim > int (length data))) Value_Error) (\<lambda>_.
     bindR (u32x2 data off) (\<lambda>(cmd, sz).
     bindR (guardR (\<not> (sz < 8 \<or> off + sz > lim)) Value_Error) (\<lambda>_.
     bindR (if is_dylib_command cmd then bindR (dependency_name data off sz) (\<lambda>nm. Inr (names @ [nm])) else Inr names)
       (dependency_scan data lim n (off + sz)))))"

definition dylib_dependencies :: "bytes \<Rightarrow> bytes list res" where
  "dylib_dependencies data =
     bindR (guardR (\<not> int (length data) < 32) Value_Error) (\<lambda>_.
     bindR (u32 data 0) (\<lambda>magic.
     bindR (guardR (magic = 0xFEEDFACF) Value_Error) (\<lambda>_.
     bindR (u32x2 data 16) (\<lambda>(count, command_bytes).
     bindR (dependency_scan data (32 + command_bytes) (nat count) 32 []) (\<lambda>(off, names).
     bindR (guardR (off = 32 + command_bytes) Value_Error) (\<lambda>_. Inr names))))))"

fun platform_scan :: "bytes \<Rightarrow> nat \<Rightarrow> int \<Rightarrow> (int \<times> int) list \<Rightarrow> (int \<times> int) list res" where
  "platform_scan data 0 off platforms = Inr platforms"
| "platform_scan data (Suc n) off platforms =
     bindR (u32x2 data off) (\<lambda>(command, sz).
     bindR (if command = 0x32 then
        bindR (guardR (\<not> sz < 24) Value_Error) (\<lambda>_.
        bindR (u32x2 data (off + 8)) (\<lambda>p. Inr (platforms @ [p])))
      else Inr platforms) (platform_scan data n (off + sz)))"

definition compiler_platform :: "string \<Rightarrow> bytes \<Rightarrow> unit res" where
  "compiler_platform name data =
     bindR (dylib_dependencies data) (\<lambda>_.
     bindR (unpack_us [4, 4, 4, 4] data 4) (\<lambda>h.
     bindR (guardR (h ! 0 = 0x100000C \<and> h ! 2 = (if name = ''metal-library-convert'' then 2 else 6)) Value_Error) (\<lambda>_.
     bindR (platform_scan data (nat (h ! 3)) 32 []) (\<lambda>platforms.
     guardR (platforms \<noteq> [] \<and> list_all (\<lambda>(platform, minimum). platform = 2 \<and> minimum \<le> 0x100100) platforms)
       Value_Error))))"

subsection \<open>JSON\<close>

datatype json =
    JNull
  | JBool bool
  | JInt int
  | JStr string
  | JArr "json list"
  | JObj "(string \<times> json) list"

text \<open>A dict of the pairs, in which the last value of a key wins.\<close>

definition py_dict :: "(string \<times> 'a) list \<Rightarrow> (string \<times> 'a) list" where
  "py_dict d = fold (\<lambda>(k, v). AList.update k v) d []"

definition json_get :: "string \<Rightarrow> json \<Rightarrow> json option" where
  "json_get key j = (case j of JObj d \<Rightarrow> map_of (py_dict d) key | _ \<Rightarrow> None)"

definition is_obj :: "json \<Rightarrow> bool" where
  "is_obj j = (case j of JObj _ \<Rightarrow> True | _ \<Rightarrow> False)"

text \<open>\<^verbatim>\<open>x == n\<close> for an integer, which also holds of \<^verbatim>\<open>True\<close> and \<^verbatim>\<open>False\<close>; and \<^verbatim>\<open>type(x) is int\<close>, which does not.\<close>

definition num_is :: "int \<Rightarrow> json \<Rightarrow> bool" where
  "num_is n j = (case j of JInt m \<Rightarrow> m = n | JBool b \<Rightarrow> (if b then 1 else 0) = n | _ \<Rightarrow> False)"

definition lower_hex :: "nat \<Rightarrow> string \<Rightarrow> bool" where
  "lower_hex n s \<longleftrightarrow> length s = n \<and> list_all (\<lambda>c. c \<in> set ''0123456789abcdef'') s"

definition hex_field :: "nat \<Rightarrow> json option \<Rightarrow> bool" where
  "hex_field n j = (case j of Some (JStr s) \<Rightarrow> lower_hex n s | _ \<Rightarrow> False)"

subsection \<open>The shader cache\<close>

datatype dir_entry = Link | File nat bytes

type_synonym dir = "string \<Rightarrow> dir_entry option"

text \<open>\<^verbatim>\<open>not isinstance(language, list) or ...\<close>, with its short circuits.\<close>

definition shader_language :: "json option \<Rightarrow> bool" where
  "shader_language j =
     (case j of
        Some (JArr [JInt a, JInt b, JInt c]) \<Rightarrow>
          c = 0 \<and> ((a = 1 \<and> 0 \<le> b \<and> b \<le> 2) \<or> (a = 2 \<and> 0 \<le> b \<and> b \<le> 4) \<or> (a = 3 \<and> b = 0))
      | _ \<Rightarrow> False)"

definition shader_manifest :: "json \<Rightarrow> (string \<times> json) list res" where
  "shader_manifest manifest =
     bindR (guardR (is_obj manifest
       \<and> (case json_get ''formatVersion'' manifest of Some (JInt v) \<Rightarrow> v = 1 | _ \<Rightarrow> False)
       \<and> json_get ''deviceSystemModified'' manifest = Some (JBool False)) Value_Error) (\<lambda>_.
     case json_get ''entries'' manifest of
       Some (JObj d) \<Rightarrow> bindR (guardR (d \<noteq> []) Value_Error) (\<lambda>_. Inr (sort_key fst (py_dict d)))
     | _ \<Rightarrow> Inl Value_Error)"

definition shader_entry :: "(bytes \<Rightarrow> string) \<Rightarrow> dir \<Rightarrow> string \<times> json \<Rightarrow> (string \<times> bytes) res" where
  "shader_entry sha source = (\<lambda>(input_hash, entry).
     let filename = input_hash @ ''.metallib'' in
     bindR (guardR (lower_hex 64 input_hash \<and> is_obj entry) Value_Error) (\<lambda>_.
     bindR (guardR (json_get ''filename'' entry = Some (JStr filename)
       \<and> hex_field 64 (json_get ''outputSHA256'' entry)
       \<and> (case json_get ''airVersion'' entry of
            Some (JArr [a, b, c]) \<Rightarrow> num_is 2 a \<and> num_is 5 b \<and> num_is 0 c | _ \<Rightarrow> False)
       \<and> shader_language (json_get ''languageVersion'' entry)
       \<and> json_get ''appleAIRVerified'' entry = Some (JBool True)
       \<and> json_get ''appleLLVMVerified'' entry = Some (JBool True)) Value_Error) (\<lambda>_.
     case source filename of
       None \<Rightarrow> Inl Os_Error
     | Some Link \<Rightarrow> Inl Value_Error
     | Some (File _ data) \<Rightarrow>
         bindR (guardR (length data \<le> 16 * 1024 * 1024 \<and> take 4 data = ascii ''MTLB''
           \<and> json_get ''outputSHA256'' entry = Some (JStr (sha data))) Value_Error) (\<lambda>_.
         Inr (filename, data)))))"

definition stage_shader_cache ::
    "(bytes \<Rightarrow> json option) \<Rightarrow> (bytes \<Rightarrow> string) \<Rightarrow> dir \<Rightarrow> (string \<times> bytes) list res" where
  "stage_shader_cache loads sha source =
     (case source ''manifest.json'' of
        None \<Rightarrow> Inl Os_Error
      | Some Link \<Rightarrow> Inl Value_Error
      | Some (File _ raw) \<Rightarrow>
          bindR (guardR (\<not> length raw > 1024 * 1024) Value_Error) (\<lambda>_.
          bindR (case loads raw of None \<Rightarrow> Inl Value_Error | Some j \<Rightarrow> Inr j) (\<lambda>manifest.
          bindR (shader_manifest manifest) (\<lambda>entries.
          bindR (mapR (shader_entry sha source) entries) (\<lambda>staged.
          Inr ((''manifest.json'', raw) # staged))))))"

subsection \<open>The compiler runtime\<close>

definition COMPILER_FILES :: "string list" where
  "COMPILER_FILES = [''VM27CompilerCompat.dylib'', ''VM27GPUCompiler.dylib'', ''VM27GPUCompilerImpl.dylib'',
     ''VM27LLVM.dylib'', ''VM27llvm-flatbuffers.dylib'', ''VM27llvm-lmdb.dylib'', ''metal-library-convert'']"

text \<open>\<^verbatim>\<open>unique_object\<close>, which refuses a repeated key in any object.\<close>

fun no_repeats :: "json \<Rightarrow> bool" where
  "no_repeats (JArr js) = list_all no_repeats js"
| "no_repeats (JObj d) = (distinct (map fst d) \<and> list_all (\<lambda>(k, j). no_repeats j) d)"
| "no_repeats _ = True"

record compiler_entry =
  ce_sha :: string
  ce_cdhash :: string
  ce_size :: int

definition profile_name :: "string \<Rightarrow> bool" where
  "profile_name s \<longleftrightarrow>
     (let word = ''abcdefghijklmnopqrstuvwxyzABCDEFGHIJKLMNOPQRSTUVWXYZ0123456789'' in
      s \<noteq> [] \<and> length s \<le> 128 \<and> hd s \<in> set word \<and> list_all (\<lambda>c. c \<in> set (word @ ''._-'')) (tl s))"

definition compiler_record :: "json \<Rightarrow> (string \<times> compiler_entry) list \<Rightarrow> (string \<times> compiler_entry) list res" where
  "compiler_record entry entries =
     (case (json_get ''filename'' entry, json_get ''sha256'' entry, json_get ''cdhash'' entry, json_get ''size'' entry) of
        (Some (JStr f), Some (JStr h), Some (JStr c), Some (JInt n)) \<Rightarrow>
          bindR (guardR (f \<in> set COMPILER_FILES \<and> f \<notin> fst ` set entries \<and> lower_hex 64 h \<and> lower_hex 40 c
            \<and> 0 < n \<and> n \<le> 256 * 1024 * 1024) Value_Error) (\<lambda>_.
          Inr (entries @ [(f, \<lparr>ce_sha = h, ce_cdhash = c, ce_size = n\<rparr>)]))
      | _ \<Rightarrow> Inl Value_Error)"

definition compiler_profile :: "json \<Rightarrow> (string \<times> compiler_entry) list res" where
  "compiler_profile profile =
     bindR (guardR ((case json_get ''formatVersion'' profile of Some (JInt v) \<Rightarrow> v = 1 | _ \<Rightarrow> False)
       \<and> (case json_get ''profile'' profile of Some (JStr s) \<Rightarrow> profile_name s | _ \<Rightarrow> False)
       \<and> list_all (\<lambda>key. case json_get key profile of
            Some (JStr s) \<Rightarrow> s \<noteq> [] \<and> \<not> length s > 1024 | _ \<Rightarrow> False) [''source'', ''scope'']) Value_Error) (\<lambda>_.
     case json_get ''files'' profile of
       Some (JArr files) \<Rightarrow>
         bindR (guardR (length files = length COMPILER_FILES) Value_Error) (\<lambda>_.
         bindR (foldR compiler_record files []) (\<lambda>entries.
         bindR (guardR (fst ` set entries = set COMPILER_FILES
           \<and> \<not> sum_list (map (\<lambda>(_, e). ce_size e) entries) > 256 * 1024 * 1024) Value_Error) (\<lambda>_.
         bindR (guardR (card ((\<lambda>(_, e). ce_cdhash e) ` set entries) = length COMPILER_FILES) Value_Error) (\<lambda>_.
         Inr entries))))
     | _ \<Rightarrow> Inl Value_Error)"

definition private_path :: bytes where
  "private_path = ascii ''@loader_path/''"

definition compiler_dependency :: "bytes \<Rightarrow> bool" where
  "compiler_dependency dep \<longleftrightarrow>
     (if prefix private_path dep then drop (length private_path) dep \<in> ascii ` set (butlast COMPILER_FILES)
      else prefix (ascii ''/usr/lib/'') dep \<or> prefix (ascii ''/System/Library/Frameworks/'') dep)"

text \<open>\<open>File n data\<close> is a regular file with \<open>n\<close> links.\<close>

definition compiler_code ::
    "(bytes \<Rightarrow> string) \<Rightarrow> dir \<Rightarrow> (string \<times> compiler_entry) list \<Rightarrow> string \<Rightarrow> (string \<times> bytes) res" where
  "compiler_code sha source entries name =
     (case (source name, map_of entries name) of
        (None, _) \<Rightarrow> Inl Os_Error
      | (_, None) \<Rightarrow> Inl Key_Error
      | (Some Link, _) \<Rightarrow> Inl Value_Error
      | (Some (File links data), Some entry) \<Rightarrow>
          bindR (guardR (links = 1 \<and> int (length data) = ce_size entry) Value_Error) (\<lambda>_.
          bindR (guardR (sha data = ce_sha entry) Value_Error) (\<lambda>_.
          bindR (compiler_platform name data) (\<lambda>_.
          bindR (dylib_dependencies data) (\<lambda>deps.
          bindR (guardR (list_all compiler_dependency deps) Value_Error) (\<lambda>_.
          Inr (name, data)))))))"

definition stage_compiler_runtime ::
    "(bytes \<Rightarrow> json option) \<Rightarrow> (bytes \<Rightarrow> string) \<Rightarrow> dir
     \<Rightarrow> ((string \<times> compiler_entry) list \<times> (string \<times> bytes) list \<times> bytes) res" where
  "stage_compiler_runtime loads sha source =
     (case source ''compiler-profile.json'' of
        Some (File links raw) \<Rightarrow>
          bindR (guardR (links = 1 \<and> \<not> length raw > 64 * 1024) Value_Error) (\<lambda>_.
          bindR (case loads raw of None \<Rightarrow> Inl Value_Error | Some j \<Rightarrow> Inr j) (\<lambda>profile.
          bindR (guardR (no_repeats profile) Value_Error) (\<lambda>_.
          bindR (compiler_profile profile) (\<lambda>entries.
          bindR (mapR (compiler_code sha source entries) COMPILER_FILES) (\<lambda>contents.
          Inr (entries, contents, raw))))))
      | _ \<Rightarrow> Inl Value_Error)"

subsection \<open>An added library is found\<close>

lemma dependency_name_to:
  assumes "dependency_name data off sz = Inr nm" "0 \<le> off"
  shows "\<exists>n. u32 data (off + 8) = Inr n \<and> 24 \<le> n \<and> 24 \<le> sz \<and> dylib_name data LC_LOAD_DYLIB sz off ns = Inr (ns @ [nm])"
proof -
  obtain n where n: "u32 data (off + 8) = Inr n" "24 \<le> sz" "\<not> off + n < off + 24"
    "\<not> find_nul data (off + n) (off + sz) < off + n"
    "py_decode (py_slice data (off + n) (find_nul data (off + n) (off + sz))) = Inr nm"
    using assms(1) unfolding dependency_name_def Let_def by (auto simp: bindR_Inr_iff)
  have "find_nul data (off + n) (off + sz) \<noteq> -1" using n(3,4) assms(2) by linarith
  then have "dylib_name data LC_LOAD_DYLIB sz off ns = Inr (ns @ [nm])" using n(1,5) by (simp add: dylib_name_def Let_def del: py_decode_Inr)
  then show ?thesis using n(1-3) by auto
qed

lemma dependency_name_of:
  assumes "u32 data (off + 8) = Inr n" "24 \<le> n" "24 \<le> sz" "0 \<le> off"
    and "dylib_name data LC_LOAD_DYLIB sz off ns = Inr (ns @ [nm])"
  shows "dependency_name data off sz = Inr nm"
proof -
  let ?e = "find_nul data (off + n) (off + sz)"
  have e: "?e \<noteq> -1" "py_decode (py_slice data (off + n) ?e) = Inr nm"
    using assms(5) by (auto simp: dylib_name_def assms(1) Let_def bindR_Inr_iff simp del: py_decode_Inr split: if_splits)
  have "0 \<le> ?e" using e(1) by (auto simp: find_nul_def Let_def split: if_splits)
  then have "off + n \<le> ?e" using find_nul_bounds [of "off + n" data "off + sz" ?e] assms(2,4) by simp
  then show ?thesis using assms(1-4) e by (simp add: dependency_name_def Let_def)
qed

lemma dependency_name_agree:
  assumes "dependency_name data off sz = Inr nm" "agree_on off sz data data'" "0 \<le> off"
  shows "dependency_name data' off sz = Inr nm"
proof -
  obtain n where n: "u32 data (off + 8) = Inr n" "24 \<le> n" "24 \<le> sz" "dylib_name data LC_LOAD_DYLIB sz off [] = Inr ([] @ [nm])"
    using dependency_name_to [OF assms(1,3)] by blast
  have "u32 data' (off + 8) = Inr n" using agree_on_unpack_u [OF assms(2), of "off + 8" 4] n assms(3) by simp
  moreover have "dylib_name data' LC_LOAD_DYLIB sz off [] = Inr ([] @ [nm])"
    using dylib_name_agree [OF assms(2,3)] n(3,4) by simp
  ultimately show ?thesis using dependency_name_of [OF _ n(2,3) assms(3)] by blast
qed

lemma dependency_scanE:
  assumes "dependency_scan data lim (Suc n) off names = Inr (off', names')"
  obtains cmd sz names1 where "u32x2 data off = Inr (cmd, sz)" "8 \<le> sz" "off + sz \<le> lim" "lim \<le> int (length data)"
    "(if is_dylib_command cmd then bindR (dependency_name data off sz) (\<lambda>nm. Inr (names @ [nm])) else Inr names) = Inr names1"
    "dependency_scan data lim n (off + sz) names1 = Inr (off', names')"
  using assms by (auto simp: bindR_Inr_iff)

lemma dependency_scan_off: "dependency_scan data lim n off names = Inr (off', names') \<Longrightarrow> off \<le> off'"
proof (induction n arbitrary: off names)
  case (Suc n)
  from Suc.prems obtain cmd sz names1 where "8 \<le> sz" "dependency_scan data lim n (off + sz) names1 = Inr (off', names')"
    by (rule dependency_scanE)
  then show ?case using Suc.IH by fastforce
qed simp

lemma dependency_scan_table:
  assumes "dependency_scan data lim n off names = Inr (off', names')" "0 \<le> off"
  shows "\<exists>cs. lc_table data n off = Inr cs \<and> dylibs_whole cs \<and> off' = off + sum_list (map (\<lambda>(c, z, o'). z) cs)"
  using assms
proof (induction n arbitrary: off names)
  case (Suc n)
  from Suc.prems(1) obtain cmd sz names1 where h: "u32x2 data off = Inr (cmd, sz)" "8 \<le> sz"
    and nm: "(if is_dylib_command cmd then bindR (dependency_name data off sz) (\<lambda>nm. Inr (names @ [nm])) else Inr names) = Inr names1"
    and r: "dependency_scan data lim n (off + sz) names1 = Inr (off', names')" by (rule dependency_scanE)
  have "cmd \<noteq> LC_LOAD_DYLIB \<or> 12 \<le> sz"
  proof (cases "is_dylib_command cmd")
    case True
    then obtain nm1 where "dependency_name data off sz = Inr nm1" using nm by (auto simp: bindR_Inr_iff)
    then show ?thesis using dependency_name_to [OF _ Suc.prems(2)] by fastforce
  qed (simp add: is_dylib_command_def LC_LOAD_DYLIB_def)
  moreover obtain cs where "lc_table data n (off + sz) = Inr cs" "dylibs_whole cs"
    "off' = off + sz + sum_list (map (\<lambda>(c, z, o'). z) cs)" using Suc.IH [OF r] h(2) Suc.prems(2) by auto
  ultimately show ?case using h(1) by (simp add: dylibs_whole_def)
qed (simp add: dylibs_whole_def)

lemma dependency_scan_agree:
  assumes "dependency_scan data lim n off names = Inr (off', names')" "agree_on off (off' - off) data data'"
    "lim \<le> lim'" "lim' \<le> int (length data')" "0 \<le> off"
  shows "dependency_scan data' lim' n off names = Inr (off', names')"
  using assms
proof (induction n arbitrary: off names)
  case (Suc n)
  from Suc.prems(1) obtain cmd sz names1 where h: "u32x2 data off = Inr (cmd, sz)" "8 \<le> sz" "off + sz \<le> lim"
    and nm: "(if is_dylib_command cmd then bindR (dependency_name data off sz) (\<lambda>nm. Inr (names @ [nm])) else Inr names) = Inr names1"
    and r: "dependency_scan data lim n (off + sz) names1 = Inr (off', names')" by (rule dependency_scanE)
  have e: "off + sz \<le> off'" by (rule dependency_scan_off [OF r])
  have a: "agree_on off sz data data'" "agree_on (off + sz) (off' - (off + sz)) data data'"
    by (rule agree_on_narrow [OF Suc.prems(2)]; use e h(2) in simp)+
  have hd: "u32x2 data' off = Inr (cmd, sz)"
    using h agree_on_unpack_u [OF a(1), of off 4] agree_on_unpack_u [OF a(1), of "off + 4" 4] Suc.prems(5)
    by (simp add: u32x2_eq)
  have "(if is_dylib_command cmd then bindR (dependency_name data' off sz) (\<lambda>nm. Inr (names @ [nm])) else Inr names) = Inr names1"
    using nm dependency_name_agree [OF _ a(1) Suc.prems(5)] by (auto simp: bindR_Inr_iff)
  moreover have "dependency_scan data' lim' n (off + sz) names1 = Inr (off', names')"
    by (rule Suc.IH [OF r a(2) Suc.prems(3,4)]) (use h(2) Suc.prems(5) in simp)
  ultimately show ?case using hd h(2,3) Suc.prems(3,4) by simp
qed simp

lemma dependency_scan_snoc:
  assumes "dependency_scan data lim n off names = Inr (off1, names1)"
    and "dependency_scan data lim 1 off1 names1 = Inr r"
  shows "dependency_scan data lim (Suc n) off names = Inr r"
  using assms
proof (induction n arbitrary: off names)
  case (Suc n)
  obtain cmd sz names0 where h: "u32x2 data off = Inr (cmd, sz)" "8 \<le> sz" "off + sz \<le> lim" "lim \<le> int (length data)"
    and nm: "(if is_dylib_command cmd then bindR (dependency_name data off sz) (\<lambda>nm. Inr (names @ [nm])) else Inr names) = Inr names0"
    and t: "dependency_scan data lim n (off + sz) names0 = Inr (off1, names1)"
    by (rule dependency_scanE [OF Suc.prems(1)])
  have g: "\<not> (off + 8 > lim \<or> lim > int (length data))" "\<not> (sz < 8 \<or> off + sz > lim)" using h(2-4) by simp_all
  show ?case
    by (subst dependency_scan.simps(2)) (simp only: g guardR_simps bindR_simps split_conv h(1) nm Suc.IH [OF t Suc.prems(2)] not_False_eq_True)
qed simp

text \<open>C36: the two tools agree: once \<^verbatim>\<open>add_macho_dylib.py\<close> has added a library to a binary whose dependencies the
  packager can read, the packager reads the same dependencies followed by the new one, so a virtual machine monitor
  prepared with it passes the packager's check of a prebuilt one.\<close>

theorem added_dependency_listed:
  assumes "dylib_dependencies data = Inr names" "add_macho_dylib name data = Inr (Some data')"
    and "utf8_ok name" "0 \<notin> set name"
  shows "dylib_dependencies data' = Inr (names @ [name])"
proof -
  obtain n area off where d: "32 \<le> length data" "u32 data 0 = Inr 0xFEEDFACF" "u32x2 data 16 = Inr (n, area)"
    "dependency_scan data (32 + area) (nat n) 32 [] = Inr (32 + area, names)"
    using assms(1) unfolding dylib_dependencies_def by (auto simp: bindR_Inr_iff)
  then have na: "u32 data 16 = Inr n" "u32 data 20 = Inr area" by (auto simp: u32x2_eq bindR_Inr_iff)
  obtain cs where cs: "lc_table data (nat n) 32 = Inr cs" "dylibs_whole cs"
    "32 + area = 32 + sum_list (map (\<lambda>(c, z, o'). z) cs)" using dependency_scan_table [OF d(4)] by auto
  define sz where "sz = align (24 + int (length (name @ [0]))) 8"
  have "\<forall>n' cs'. u32 data 16 = Inr n' \<longrightarrow> lc_table data (nat n') 32 = Inr cs' \<longrightarrow> dylibs_whole cs'"
    using na(1) cs(1,2) by simp
  from add_macho_dylib_result [OF assms(2-4) this sz_def] na cs(1) obtain c where
    r: "u32 data' 16 = Inr (n + 1)" "u32 data' 20 = Inr (area + sz)"
    "same_outside (\<lambda>k. 16 \<le> k \<and> k < 24 \<or> 32 + area \<le> int k \<and> int k < 32 + area + sz) data data'"
    "dylib_command name = Inr c" "holds_at data' (32 + area) c" by auto
  let ?cur = "32 + area" and ?lim = "32 + (area + sz)"
  note cb = dylib_command_bytes [OF r(4) sz_def]
  have len: "length data' = length data" by (rule same_outside_length [OF r(3)])
  have pos: "0 \<le> area" "0 \<le> n" using unpack_u_bounds [OF na(2)] unpack_u_bounds [OF na(1)] by simp_all
  have fit: "?lim \<le> int (length data')" using r(5) cb(2) by (simp add: holds_at_def)
  have old: "dependency_scan data' ?lim (nat n) 32 [] = Inr (?cur, names)"
    by (rule dependency_scan_agree [OF d(4) agree_on_outside [OF r(3)]]) (use pos cb(4) fit in auto)
  note new = dylib_command_scan [OF r(4) sz_def r(5) assms(4,3)]
  have "dylib_name data' LC_LOAD_DYLIB sz ?cur names = Inr (names @ [name])"
    using new(1) [of 0 names] new(2) by (auto simp: bindR_Inr_iff split: if_splits)
  moreover have "u32 c 8 = Inr 24"
    unfolding cb(1) unpack_u_def using cb(3,4) by (simp add: at_off_nonneg le_int_le_bytes)
  then have "u32 data' (?cur + 8) = Inr 24" using holds_at_unpack_u [OF r(5), of 8 4] cb(2,4) by simp
  ultimately have "dependency_name data' ?cur sz = Inr name"
    using dependency_name_of [of data' ?cur 24 sz names name] cb(4) pos by simp
  then have "dependency_scan data' ?lim 1 ?cur names = Inr (?lim, names @ [name])"
    using new(2) cb(4) fit by (simp add: is_dylib_command_def LC_LOAD_DYLIB_def)
  then have scan: "dependency_scan data' ?lim (nat (n + 1)) 32 [] = Inr (?lim, names @ [name])"
    using dependency_scan_snoc [OF old] pos by (simp add: nat_add_distrib del: dependency_scan.simps)
  have "u32 data' 0 = Inr 0xFEEDFACF" using same_outside_unpack_u [OF r(3), of 0 4] d(2) pos by simp
  moreover have "u32x2 data' 16 = Inr (n + 1, area + sz)" using r(1,2) by (simp add: u32x2_eq)
  ultimately show ?thesis using d(1) len scan by (simp add: dylib_dependencies_def del: dependency_scan.simps)
qed

lemma added_dependency_listed_witness:
  "\<exists>data'. add_macho_dylib (ascii ''a'') demo_header = Inr (Some data') \<and> dylib_dependencies data' = Inr [ascii ''a'']"
proof -
  have "dylib_dependencies demo_header = Inr []" by code_simp
  from added_dependency_listed [OF this add_macho_dylib_demo]
  show ?thesis using add_macho_dylib_demo by (auto simp: ascii_def)
qed

text \<open>The private compiler is closed: each of its files is staged, and every library one of them loads is a system
  library or another staged one.\<close>

lemma compiler_runtime_closed:
  assumes "stage_compiler_runtime loads sha source = Inr (entries, contents, raw)"
  shows "map fst contents = COMPILER_FILES
    \<and> (\<forall>(name, data) \<in> set contents. \<exists>deps. dylib_dependencies data = Inr deps
      \<and> (\<forall>dep \<in> set deps. (\<exists>lib \<in> fst ` set contents. dep = private_path @ ascii lib)
          \<or> prefix (ascii ''/usr/lib/'') dep \<or> prefix (ascii ''/System/Library/Frameworks/'') dep))"
proof -
  have m: "mapR (compiler_code sha source entries) COMPILER_FILES = Inr contents"
    using assms by (auto simp: stage_compiler_runtime_def bindR_Inr_iff split: option.splits dir_entry.splits)
  have step: "fst x = name \<and> (\<exists>deps. dylib_dependencies (snd x) = Inr deps \<and> list_all compiler_dependency deps)"
    if "compiler_code sha source entries name = Inr x" for name x
    using that by (auto simp: compiler_code_def bindR_Inr_iff split: option.splits dir_entry.splits)
  have len: "length contents = length COMPILER_FILES" by (rule mapR_length [OF m])
  have at: "compiler_code sha source entries (COMPILER_FILES ! i) = Inr (contents ! i)" if "i < length COMPILER_FILES" for i
    by (rule mapR_nth [OF m that])
  have names: "map fst contents = COMPILER_FILES"
    by (rule nth_equalityI) (use len step [OF at] in auto)
  then have staged: "set COMPILER_FILES = fst ` set contents" by (metis set_map)
  have dep: "(\<exists>lib \<in> fst ` set contents. d = private_path @ ascii lib)
      \<or> prefix (ascii ''/usr/lib/'') d \<or> prefix (ascii ''/System/Library/Frameworks/'') d" if c: "compiler_dependency d" for d
  proof (cases "prefix private_path d")
    case True
    then obtain lib where l: "lib \<in> set (butlast COMPILER_FILES)" "drop (length private_path) d = ascii lib"
      using c by (auto simp: compiler_dependency_def)
    then have "lib \<in> fst ` set contents" unfolding staged [symmetric] by (simp add: in_set_butlastD)
    moreover have "d = private_path @ ascii lib" using True l(2) by (auto simp: prefix_def)
    ultimately show ?thesis by blast
  qed (use c in \<open>simp add: compiler_dependency_def\<close>)
  show ?thesis
  proof (intro conjI names ballI)
    fix x assume "x \<in> set contents"
    then obtain i where "i < length COMPILER_FILES" "contents ! i = x" using len by (auto simp: in_set_conv_nth)
    then obtain deps where "dylib_dependencies (snd x) = Inr deps" "list_all compiler_dependency deps"
      using step [OF at] by blast
    then show "case x of (name, data) \<Rightarrow> \<exists>deps. dylib_dependencies data = Inr deps
      \<and> (\<forall>dep \<in> set deps. (\<exists>lib \<in> fst ` set contents. dep = private_path @ ascii lib)
          \<or> prefix (ascii ''/usr/lib/'') dep \<or> prefix (ascii ''/System/Library/Frameworks/'') dep)"
      using dep by (auto simp: list_all_iff)
  qed
qed

end
