(* ===== verification/Import_Audit.thy ===== *)
theory Import_Audit
  imports Fixup_Blob "HOL-Library.List_Lexorder"
begin

text \<open>
  \<^verbatim>\<open>vz/development/tools/backend-import-audit.py\<close>: the imports and library versions a rebuilt framework needs, held
  against a snapshot of the system's exports. The JSON snapshots are parameters, already parsed; a name is its UTF-8
  bytes, whose order is that of the code points. A set is a list here, and \<^verbatim>\<open>sorted\<close> removes repetitions first.
\<close>

subsection \<open>The contract of an image\<close>

type_synonym contract_state = "(bytes \<times> int) list \<times> (int \<times> int) option \<times> int"

definition contract_command :: "bytes \<Rightarrow> contract_state \<Rightarrow> contract_state res" where
  "contract_command data = (\<lambda>(dependencies, fixups, off).
     bindR (u32x2 data off) (\<lambda>(command, sz).
     bindR (guardR (\<not> (sz < 8 \<or> off + sz > int (length data))) Value_Error) (\<lambda>_.
     if command = 0xC \<or> command = 0x80000018 \<or> command = 0x8000001F \<or> command = 0x80000023 then
       bindR (u32 data (off + 8)) (\<lambda>name_offset.
       bindR (py_decode (before_nul (py_slice data (off + name_offset) (off + sz)))) (\<lambda>name.
       bindR (u32 data (off + 20)) (\<lambda>v. Inr (AList.update name v dependencies, fixups, off + sz))))
     else if command = 0x80000034 then
       bindR (u32x2 data (off + 8)) (\<lambda>f. Inr (dependencies, Some f, off + sz))
     else Inr (dependencies, fixups, off + sz))))"

definition contract_import :: "bytes \<Rightarrow> int \<Rightarrow> int \<Rightarrow> int \<Rightarrow> nat \<Rightarrow> bytes res" where
  "contract_import blob imports_offset symbols_offset fmt i =
     bindR (if fmt = 3 then bindR (u64 blob (imports_offset + int i * 16)) (\<lambda>word. Inr (drop_bit 32 word))
            else bindR (u32 blob (imports_offset + int i * (if fmt = 1 then 4 else 8))) (\<lambda>word. Inr (drop_bit 9 word)))
       (\<lambda>name_offset.
     let start = symbols_offset + name_offset; stop = find_nul blob start (int (length blob)) in
     bindR (guardR (\<not> (start \<ge> int (length blob) \<or> stop < start)) Value_Error) (\<lambda>_.
     py_decode (py_slice blob start stop)))"

definition contract_imports :: "bytes \<Rightarrow> bytes list res" where
  "contract_imports blob =
     bindR (unpack_us [4, 4, 4, 4, 4, 4, 4] blob 0) (\<lambda>h.
     let imports_offset = h ! 2; symbols_offset = h ! 3; n = h ! 4; fmt = h ! 5 in
     bindR (guardR (\<not> (h ! 0 \<noteq> 0 \<or> h ! 6 \<noteq> 0 \<or> fmt \<notin> {1, 2, 3})) Value_Error) (\<lambda>_.
     let stride = (if fmt = 1 then 4 else if fmt = 2 then 8 else 16) in
     bindR (guardR (\<not> imports_offset + n * stride > int (length blob)) Value_Error) (\<lambda>_.
     mapR (contract_import blob imports_offset symbols_offset fmt) [0..<nat n])))"

definition read_contract :: "bytes \<Rightarrow> (bytes list \<times> (bytes \<times> int) list) res" where
  "read_contract data =
     bindR (u32 data 0) (\<lambda>magic.
     bindR (guardR (magic = 0xFEEDFACF) Value_Error) (\<lambda>_.
     bindR (u32 data 16) (\<lambda>n.
     bindR (foldR (\<lambda>_. contract_command data) [0..<nat n] ([], None, 32)) (\<lambda>(dependencies, fixups, _).
     case fixups of
       None \<Rightarrow> Inl Value_Error
     | Some (fixup_offset, fixup_size) \<Rightarrow>
         bindR (contract_imports (py_slice data fixup_offset (fixup_offset + fixup_size))) (\<lambda>imports.
         Inr (imports, dependencies))))))"

subsection \<open>The report\<close>

record audit_report =
  import_count :: nat
  imports_not_found :: "bytes list"
  version_mismatches :: "(bytes \<times> int \<times> int) list"
  outside_snapshot :: "bytes list"

text \<open>The three fields of a version, which the report prints with dots.\<close>

definition version_fields :: "int \<Rightarrow> int \<times> int \<times> int" where
  "version_fields v = (drop_bit 16 v, drop_bit 8 v AND 255, v AND 255)"

definition audit_image :: "bytes set \<Rightarrow> (bytes \<rightharpoonup> int) \<Rightarrow> bytes \<Rightarrow> audit_report res" where
  "audit_image available versions data =
     bindR (read_contract data) (\<lambda>(imports, dependencies).
     Inr \<lparr>import_count = card (set imports),
       imports_not_found = sorted_list_of_set (set imports - available),
       version_mismatches = map (\<lambda>(d, required). (d, required, the (versions d)))
         (filter (\<lambda>(d, required). case versions d of None \<Rightarrow> False | Some current \<Rightarrow> current < required) dependencies),
       outside_snapshot = sorted_list_of_set (set (map fst dependencies) - dom versions)\<rparr>)"

definition available_symbols :: "bytes list list \<Rightarrow> bytes list list \<Rightarrow> bytes set" where
  "available_symbols snapshot extra = set (concat snapshot) \<union> set (concat extra)"

subsection \<open>What the audit reads of an emitted payload\<close>

lemma find_nul_block:
  assumes "holds_at b off (name @ [0])" "0 \<notin> set name"
  shows "find_nul b off (int (length b)) = off + int (length name)"
    and "py_slice b off (off + int (length name)) = name"
proof -
  have o: "0 \<le> off" "off + int (length name) + 1 \<le> int (length b)" using assms(1) by (auto simp: holds_at_def)
  have "take (length name + 1) (drop (nat off) b) = name @ [0]" using assms(1) by (simp add: holds_at_def)
  then obtain r where r: "drop (nat off) b = name @ [0] @ r" by (metis append_assoc append_take_drop_id)
  have n: "nat (int (length b) - off) = length (drop (nat off) b)" using o by simp
  have "py_slice b off (int (length b)) = take (nat (int (length b) - off)) (drop (nat off) b)"
    by (rule py_slice_take_drop) (use o in simp_all)
  then have s: "py_slice b off (int (length b)) = name @ 0 # r" unfolding n r by simp
  have bn: "before_nul (name @ 0 # r) = name"
    using before_nul_block [OF assms] by (simp add: r)
  have sb: "slice_bound (length b) off = nat off" using o by (simp add: slice_bound_def)
  show "find_nul b off (int (length b)) = off + int (length name)"
    unfolding find_nul_def Let_def s bn sb using o by simp
  have "py_slice b off (off + int (length name)) = take (nat (off + int (length name) - off)) (drop (nat off) b)"
    by (rule py_slice_take_drop) (use o in simp_all)
  then show "py_slice b off (off + int (length name)) = name" unfolding r by simp
qed

lemma contract_import_read:
  assumes run: "import_words weak symoff ks = Inr imp" "sym_pool ks [] Map.empty = (pool, symoff)" "weak \<in> {0, 1}"
    and offs: "holds_at blob io imp" "holds_at blob so pool"
    and small: "int (length pool) \<le> 2 ^ 23" and k: "k < length ks" "0 \<notin> set (snd (ks ! k))" "utf8_ok (snd (ks ! k))"
  shows "contract_import blob io so 1 k = Inr (snd (ks ! k))"
proof -
  obtain os where os: "length os = length ks" "\<forall>k < length ks. symoff (snd (ks ! k)) = Some (os ! k)"
    and imp: "imp = le_words 4 (map (\<lambda>(k, off). import_word weak (fst k) off) (zip ks os))"
    by (rule import_words_form [OF run(1,3)])
  let ?w = "import_word weak (fst (ks ! k)) (os ! k)"
  note w = import_word_bits [OF run(3)]
  have u: "u32 blob (io + int k * 4) = Inr ?w"
    by (rule u32_list [OF offs(1)[unfolded imp]]) (use k os w(4,5) in auto)
  obtain off where off: "symoff (snd (ks ! k)) = Some off" "holds_at pool off (snd (ks ! k) @ [0])"
    using pool_name [OF run(2), of "fst (ks ! k)" "snd (ks ! k)"] k(1) by auto
  have o: "os ! k = off" using os(2) k(1) off(1) by simp
  have small': "off mod 2 ^ 23 = off" using off(2) small by (auto simp: holds_at_def)
  have "0 \<le> ?w" "?w < 2 ^ 32" using w(4,5) by auto
  then have "?w div 2 ^ 9 mod 2 ^ 23 = ?w div 2 ^ 9" by (intro mod_pos_pos_trivial) auto
  then have d: "drop_bit 9 ?w = off"
    using w(3) [of "fst (ks ! k)" off] small' unfolding o by (simp add: bits_mod drop_bit_eq_div)
  have h: "holds_at blob (so + off) (snd (ks ! k) @ [0])" by (rule holds_at_sub [OF offs(2) off(2)])
  then have lt: "so + off < int (length blob)" by (simp add: holds_at_def)
  show ?thesis using k(3) lt find_nul_block [OF h k(2)] by (simp add: contract_import_def u d Let_def)
qed

text \<open>C37: the audit reads of an emitted payload exactly the names that \<^verbatim>\<open>uncache.py\<close> put into it, in their order.\<close>

theorem audit_reads_emitted_imports:
  assumes run: "fixups_blob weak nbase segs starts imports = Inr blob" and weak: "weak \<in> {0, 1}"
    and names: "\<forall>(lo, n) \<in> set imports. 0 \<notin> set n \<and> utf8_ok n"
    and small: "int (length (fst (sym_pool imports [] Map.empty))) \<le> 2 ^ 23"
  shows "contract_imports blob = Inr (map snd imports)"
proof -
  obtain pool symoff imp sii pad1 pad2 where p: "sym_pool imports [] Map.empty = (pool, symoff)"
    and iw: "import_words weak symoff imports = Inr imp"
    and bl: "blob = le_words 4 [0, 28, int (28 + length sii + length pad1), int (28 + length sii + length pad1 + length imp),
        int (length imports), 1, 0] @ sii @ pad1 @ imp @ pool @ pad2"
    and fit: "int (28 + length sii + length pad1 + length imp) < 2 ^ 32"
    by (rule fixups_blob_parts [OF run])
  let ?io = "int (28 + length sii + length pad1)" and ?so = "int (28 + length sii + length pad1 + length imp)"
  define h where "h = [0, 28, ?io, ?so, int (length imports), 1, 0]"
  have bl: "blob = le_words 4 h @ sii @ pad1 @ imp @ pool @ pad2" and lh: "length h = 7"
    using bl by (simp_all add: h_def del: le_words.simps)
  have hh: "holds_at blob 0 (le_words 4 h)" unfolding bl by (simp add: holds_at_def)
  have hi: "holds_at blob ?io imp"
    using holds_at_end [of "le_words 4 h @ sii @ pad1" imp "pool @ pad2"] by (simp add: bl lh add.assoc)
  have hp: "holds_at blob ?so pool"
    using holds_at_end [of "le_words 4 h @ sii @ pad1 @ imp" pool pad2] by (simp add: bl lh add.assoc)
  obtain os where "length os = length imports"
    "imp = le_words 4 (map (\<lambda>(k, off). import_word weak (fst k) off) (zip imports os))"
    by (rule import_words_form [OF iw weak])
  then have li: "length imp = 4 * length imports" by simp
  have hd: "unpack_us [4, 4, 4, 4, 4, 4, 4] blob 0 = Inr h"
  proof -
    have t: "drop (nat 0) blob = le_words 4 h @ sii @ pad1 @ imp @ pool @ pad2" by (simp add: bl)
    have "at_off blob 28 0 = Inr 0" using hh by (simp add: at_off_nonneg holds_at_def lh)
    then have "unpack_us [4, 4, 4, 4, 4, 4, 4] blob 0 = Inr (split_fields [4, 4, 4, 4, 4, 4, 4] blob)"
      by (simp add: unpack_us_def)
    also have "split_fields [4, 4, 4, 4, 4, 4, 4] blob = h"
      using fit li unfolding bl h_def by (simp add: le_int_le_bytes)
    finally show ?thesis .
  qed
  have "contract_import blob ?io ?so 1 k = Inr (map snd imports ! k)" if k: "k < length imports" for k
    using contract_import_read [OF iw p weak hi hp _ k] small p names nth_mem [OF k] k by (auto simp: case_prod_unfold)
  then have "mapR (contract_import blob ?io ?so 1) [0..<length imports] = Inr (map (\<lambda>k. map snd imports ! k) [0..<length imports])"
    by (intro mapR_Inr_map) simp
  also have "map (\<lambda>k. map snd imports ! k) [0..<length imports] = map snd imports"
    using map_nth [of "map snd imports"] by simp
  finally have m: "mapR (contract_import blob ?io ?so 1) [0..<length imports] = Inr (map snd imports)" .
  have "?io + int (length imports) * 4 \<le> int (length blob)" using hi li by (simp add: holds_at_def)
  moreover have "h ! 0 = 0" "h ! 2 = ?io" "h ! 3 = ?so" "h ! 4 = int (length imports)" "h ! 5 = 1" "h ! 6 = 0"
    by (simp_all add: h_def)
  ultimately show ?thesis unfolding contract_imports_def hd Let_def using m by simp
qed

lemma audit_reads_emitted_imports_witness:
  "\<exists>blob. fixups_blob 1 0x1000 [weave_example_seg] [(0, [0])] [(0xFE, ascii ''_a''), (0xFE, ascii ''_bc'')] = Inr blob
    \<and> contract_imports blob = Inr [ascii ''_a'', ascii ''_bc'']"
proof -
  let ?i = "[(0xFE, ascii ''_a''), (0xFE, ascii ''_bc'')] :: import_key list"
  have ok: "is_ok (fixups_blob 1 0x1000 [weave_example_seg] [(0, [0])] ?i)"
    "\<forall>(lo, n) \<in> set ?i. 0 \<notin> set n \<and> utf8_ok n" "int (length (fst (sym_pool ?i [] Map.empty))) \<le> 2 ^ 23" by code_simp+
  from ok(1) obtain blob where run: "fixups_blob 1 0x1000 [weave_example_seg] [(0, [0])] ?i = Inr blob" by (auto simp: is_ok_iff)
  have "contract_imports blob = Inr (map snd ?i)"
    by (rule audit_reads_emitted_imports [OF run _ ok(2,3)]) simp
  then show ?thesis using run by simp
qed

end
