(* ===== verification/Metal_Library.thy ===== *)
theory Metal_Library
  imports Py_Io "HOL-Library.List_Lexorder"
begin

text \<open>
  \<^verbatim>\<open>scripts/development/convert-modern-pvg-shader.py\<close>: the parser of a Metal library with one function, and the
  conversion, which drives Apple's compiler and must release every handle it owns on every path. What the compiler's
  calls answer is a parameter, a record of their results; its text output is already searched for the versions.
\<close>

subsection \<open>The parser\<close>

definition HEADER_SIZE :: int where
  "HEADER_SIZE = 88"

text \<open>The loop over the tags, whose \<^verbatim>\<open>else\<close> raises when \<^verbatim>\<open>ENDT\<close> is not met.\<close>

lemma u16_nonneg: "u16 data off = Inr v \<Longrightarrow> 0 \<le> v"
  by (drule unpack_u_bounds) simp

function tag_loop :: "bytes \<Rightarrow> int \<Rightarrow> int \<Rightarrow> (bytes \<times> bytes) list \<Rightarrow> (bytes \<times> bytes) list res" where
  "tag_loop data stop cursor tags =
     (if cursor + 4 \<le> stop then
        (let tag = py_slice data cursor (cursor + 4) in
         if tag = ascii ''ENDT'' then Inr tags
         else if cursor + 4 + 2 > stop then Inl Value_Error
         else bindR (u16 data (cursor + 4)) (\<lambda>n.
           if cursor + 6 + n > stop \<or> tag \<in> fst ` set tags then Inl Value_Error
           else tag_loop data stop (cursor + 6 + n) (tags @ [(tag, py_slice data (cursor + 6) (cursor + 6 + n))])))
      else Inl Value_Error)"
  by pat_completeness auto
termination
proof (relation "measure (\<lambda>(data, stop, cursor, tags). nat (stop - cursor))", goal_cases)
  case (2 data stop cursor tags tag n)
  then have "0 \<le> n" using u16_nonneg by blast
  then show ?case using 2 by simp
qed simp

declare tag_loop.simps [simp del]

definition strip_nuls :: "bytes \<Rightarrow> bytes" where
  "strip_nuls bs = rev (dropWhile (\<lambda>b. b = 0) (rev bs))"

definition tag_value :: "(bytes \<times> bytes) list \<Rightarrow> string \<Rightarrow> bytes" where
  "tag_value tags name = (case map_of tags (ascii name) of None \<Rightarrow> [] | Some v \<Rightarrow> v)"

definition is_bitcode :: "bytes \<Rightarrow> bool" where
  "is_bitcode air \<longleftrightarrow> prefix [0xDE, 0xC0, 0x17, 0x0B] air \<or> prefix [0x42, 0x43, 0xC0, 0xDE] air"

definition read_single_function :: "bytes \<Rightarrow> (bytes \<times> bytes) res" where
  "read_single_function data =
     bindR (guardR (\<not> (int (length data) < HEADER_SIZE \<or> length data > 16 * 1024 * 1024)) Value_Error) (\<lambda>_.
     bindR (unpack_us [2, 2, 2, 1, 1, 2, 2, 8, 8, 8, 8, 8, 8, 8, 8, 8] data 4) (\<lambda>h.
     bindR (guardR (\<not> (take 4 data \<noteq> ascii ''MTLB'' \<or> h ! 1 \<noteq> 2 \<or> h ! 7 \<noteq> int (length data))) Value_Error) (\<lambda>_.
     let function_offset = h ! 8; function_size = h ! 9; bitcode_offset = h ! 14; bitcode_size = h ! 15 in
     bindR (guardR (\<not> (function_offset < HEADER_SIZE \<or> function_offset + 4 + function_size > int (length data)))
       Value_Error) (\<lambda>_.
     bindR (guardR (\<not> bitcode_offset + bitcode_size > int (length data)) Value_Error) (\<lambda>_.
     bindR (u32x2 data function_offset) (\<lambda>(n, _).
     bindR (guardR (n = 1) Value_Error) (\<lambda>_.
     bindR (tag_loop data (function_offset + 4 + function_size) (function_offset + 8) []) (\<lambda>tags.
     let name = strip_nuls (tag_value tags ''NAME'') in
     bindR (guardR (\<not> (name = [] \<or> 0 \<in> set name)) Value_Error) (\<lambda>_.
     let offsets = tag_value tags ''OFFT'' in
     bindR (guardR (length offsets = 24) Value_Error) (\<lambda>_.
     let off = le_int (drop 16 offsets); encoded_size = tag_value tags ''MDSZ'' in
     bindR (if encoded_size \<noteq> [] then
              bindR (guardR (length encoded_size = 8) Struct_Error) (\<lambda>_. Inr (le_int encoded_size))
            else Inr (bitcode_size - off)) (\<lambda>sz.
     bindR (guardR (\<not> off + sz > bitcode_size) Value_Error) (\<lambda>_.
     let air = py_slice data (bitcode_offset + off) (bitcode_offset + off + sz) in
     bindR (guardR (is_bitcode air) Value_Error) (\<lambda>_. Inr (name, air))))))))))))))"

subsection \<open>The conversion\<close>

datatype handle = Context | Memory | Module | Shared | Output

text \<open>The local variables that own a handle, and what was opened and closed so far.\<close>

record conversion =
  cv_module :: bool
  cv_shared :: bool
  cv_output :: bool
  cv_opened :: "handle list"
  cv_closed :: "handle list"

record versions =
  ve_target :: "bytes option"
  ve_air :: "int list option"
  ve_language :: "int list option"

record compiler =
  co_parses :: "bytes \<Rightarrow> bool"
  co_has_function :: "bytes \<Rightarrow> bool"
  co_before :: "versions res"
  co_air_ok :: bool
  co_llvm_ok :: bool
  co_message :: "unit res option"
  co_after :: "versions res"
  co_function_name :: "bytes \<Rightarrow> bytes option"
  co_function_air :: "int list"
  co_function_language :: "int list"
  co_creates :: "bytes \<Rightarrow> bool"
  co_writes :: "bytes option"

definition open_handle :: "handle \<Rightarrow> (conversion, unit) io" where
  "open_handle h = putM (\<lambda>s. s\<lparr>cv_opened := cv_opened s @ [h]\<rparr>)"

definition close_handle :: "handle \<Rightarrow> (conversion, unit) io" where
  "close_handle h = putM (\<lambda>s. s\<lparr>cv_closed := cv_closed s @ [h]\<rparr>)"

text \<open>\<^verbatim>\<open>LLVMParseBitcodeInContext2\<close> and \<^verbatim>\<open>LLVMExtraMakeSharedModule\<close>, which takes the module's handle over.\<close>

definition parse_module :: "compiler \<Rightarrow> bytes \<Rightarrow> (conversion, unit) io" where
  "parse_module c air =
     (if co_parses c air
      then putM (\<lambda>s. s\<lparr>cv_module := True, cv_opened := cv_opened s @ [Module]\<rparr>)
      else raiseM Value_Error)"

definition make_shared :: "(conversion, unit) io" where
  "make_shared = putM (\<lambda>s. s\<lparr>cv_shared := True, cv_module := False,
     cv_opened := cv_opened s @ [Shared], cv_closed := cv_closed s @ [Module]\<rparr>)"

definition write_output :: "bytes option \<Rightarrow> (conversion, bytes) io" where
  "write_output w =
     (case w of
        None \<Rightarrow> raiseM Value_Error
      | Some converted \<Rightarrow>
          bindM (putM (\<lambda>s. s\<lparr>cv_output := True, cv_opened := cv_opened s @ [Output]\<rparr>)) (\<lambda>_. retM converted))"

definition rename_function :: "compiler \<Rightarrow> bytes option \<Rightarrow> bytes \<Rightarrow> bytes res" where
  "rename_function c function_name name =
     (case function_name of
        None \<Rightarrow> Inr name
      | Some f \<Rightarrow>
          if f = name then Inr name
          else bindR (guardR (f \<noteq> [] \<and> 0 \<notin> set f) Value_Error) (\<lambda>_.
            bindR (guardR (co_has_function c name) Value_Error) (\<lambda>_. Inr f)))"

definition verify_llvm :: "compiler \<Rightarrow> unit res" where
  "verify_llvm c =
     (if co_llvm_ok c then Inr ()
      else (case co_message c of Some (Inl e) \<Rightarrow> Inl e | _ \<Rightarrow> Inl Value_Error))"

definition check_versions :: "int list \<Rightarrow> versions \<Rightarrow> (bytes option \<times> int list) res" where
  "check_versions target v =
     bindR (guardR (ve_air v = Some target) Value_Error) (\<lambda>_.
     case ve_language v of
       None \<Rightarrow> Inl Value_Error
     | Some language \<Rightarrow> bindR (guardR (\<not> language > [3, 0, 0]) Value_Error) (\<lambda>_. Inr (ve_target v, language)))"

definition check_function :: "compiler \<Rightarrow> int list \<Rightarrow> int list \<Rightarrow> bytes \<Rightarrow> unit res" where
  "check_function c target language name =
     bindR (guardR (co_function_name c name = Some name) Value_Error) (\<lambda>_.
     guardR (co_function_air c = target \<and> co_function_language c = language) Value_Error)"

text \<open>The body of the \<^verbatim>\<open>try\<close>, and its \<^verbatim>\<open>finally\<close>.\<close>

definition convert_body ::
    "compiler \<Rightarrow> int list \<Rightarrow> bytes option \<Rightarrow> bytes option \<Rightarrow> bytes \<Rightarrow> bytes \<Rightarrow> (conversion, bytes \<times> bytes) io" where
  "convert_body c target container_triple function_name name air =
     bindM (parse_module c air) (\<lambda>_.
     bindM (resM (rename_function c function_name name)) (\<lambda>name.
     bindM (resM (co_before c)) (\<lambda>_.
     bindM (guardM (co_air_ok c) Value_Error) (\<lambda>_.
     bindM (resM (verify_llvm c)) (\<lambda>_.
     bindM (resM (co_after c)) (\<lambda>after.
     bindM (resM (check_versions target after)) (\<lambda>(triple, language).
     bindM make_shared (\<lambda>_.
     bindM (resM (check_function c target language name)) (\<lambda>_.
     bindM (case (case container_triple of None \<Rightarrow> triple | Some t \<Rightarrow> if t = [] then triple else Some t) of
              None \<Rightarrow> raiseM Type_Error
            | Some t \<Rightarrow> guardM (co_creates c t) Value_Error) (\<lambda>_.
     bindM (write_output (co_writes c)) (\<lambda>converted.
     bindM (resM (read_single_function converted)) (\<lambda>(output_name, output_air).
     bindM (guardM (output_name = name \<and> output_air \<noteq> []) Value_Error) (\<lambda>_.
     retM (converted, name))))))))))))))"

definition convert_cleanup :: "(conversion, unit) io" where
  "convert_cleanup =
     bindM (getM cv_output) (\<lambda>output. bindM (if output then close_handle Output else retM ()) (\<lambda>_.
     bindM (getM cv_shared) (\<lambda>shared. bindM (getM cv_module) (\<lambda>module.
     bindM (if shared then close_handle Shared else if module then close_handle Module else retM ()) (\<lambda>_.
     bindM (close_handle Memory) (\<lambda>_. close_handle Context))))))"

definition convert ::
    "compiler \<Rightarrow> int list \<Rightarrow> bytes option \<Rightarrow> bytes option \<Rightarrow> bytes \<Rightarrow> (conversion, bytes \<times> bytes) io" where
  "convert c target container_triple function_name data =
     bindM (resM (read_single_function data)) (\<lambda>(name, air).
     bindM (open_handle Context) (\<lambda>_.
     bindM (open_handle Memory) (\<lambda>_.
     finallyM (convert_body c target container_triple function_name name air) convert_cleanup)))"

definition no_handles :: conversion where
  "no_handles = \<lparr>cv_module = False, cv_shared = False, cv_output = False, cv_opened = [], cv_closed = []\<rparr>"

subsection \<open>What the parser accepts\<close>

lemma read_single_functionE:
  assumes "read_single_function data = Inr (name, air)"
  obtains h off sz where
    "unpack_us [2, 2, 2, 1, 1, 2, 2, 8, 8, 8, 8, 8, 8, 8, 8, 8] data 4 = Inr h"
    "h ! 14 + h ! 15 \<le> int (length data)" "name \<noteq> []" "0 \<notin> set name" "0 \<le> off" "off + sz \<le> h ! 15"
    "air = py_slice data (h ! 14 + off) (h ! 14 + off + sz)" "is_bitcode air"
proof -
  note [simp del] = int_ops(2)
  obtain h tags sz where
    "unpack_us [2, 2, 2, 1, 1, 2, 2, 8, 8, 8, 8, 8, 8, 8, 8, 8] data 4 = Inr h"
    "\<not> h ! 14 + h ! 15 > int (length data)" "strip_nuls (tag_value tags ''NAME'') = name" "\<not> (name = [] \<or> 0 \<in> set name)"
    "\<not> le_int (drop 16 (tag_value tags ''OFFT'')) + sz > h ! 15"
    "air = py_slice data (h ! 14 + le_int (drop 16 (tag_value tags ''OFFT'')))
       (h ! 14 + le_int (drop 16 (tag_value tags ''OFFT'')) + sz)" "is_bitcode air"
    using assms unfolding read_single_function_def Let_def bindR_Inr_iff guardR_Inr_iff split_paired_Ex case_prod_conv
    by (metis Inr_inject prod.inject)
  then show thesis using that [of h "le_int (drop 16 (tag_value tags ''OFFT''))" sz] by auto
qed

subsection \<open>Every handle is released\<close>

text \<open>A computation returns or raises, in a state of a given set.\<close>

definition ends_in :: "'s set \<Rightarrow> ('s, 'a) io \<Rightarrow> 's \<Rightarrow> bool" where
  "ends_in S m s \<longleftrightarrow> (\<exists>r t. m s = Some (r, t) \<and> t \<in> S)"

lemma ends_in_resM: "s \<in> S \<Longrightarrow> (\<And>x. ends_in S (f x) s) \<Longrightarrow> ends_in S (bindM (resM r) f) s"
  by (cases r) (auto simp: ends_in_def bindM_def)

lemma ends_in_guardM: "s \<in> S \<Longrightarrow> ends_in S (f ()) s \<Longrightarrow> ends_in S (bindM (guardM b e) f) s"
  by (cases b) (auto simp: ends_in_def bindM_def)

lemma ends_in_putM: "ends_in S (f ()) (g s) \<Longrightarrow> ends_in S (bindM (putM g) f) s"
  by (simp add: ends_in_def bindM_def)

lemma ends_in_retM: "s \<in> S \<Longrightarrow> ends_in S (retM x) s"
  by (simp add: ends_in_def)

lemma ends_in_raiseM: "s \<in> S \<Longrightarrow> ends_in S (bindM (raiseM e) f) s"
  by (simp add: ends_in_def bindM_def)

lemma ends_in_split: "(\<And>a b. ends_in S (f a b) s) \<Longrightarrow> ends_in S (case p of (a, b) \<Rightarrow> f a b) s"
  by (cases p) simp

lemmas ends_in_rules = ends_in_resM ends_in_guardM ends_in_retM ends_in_raiseM ends_in_split

text \<open>The four states the body of the conversion can end in.\<close>

definition body_states :: "conversion set" where
  "body_states =
     {\<lparr>cv_module = False, cv_shared = False, cv_output = False, cv_opened = [Context, Memory], cv_closed = []\<rparr>,
      \<lparr>cv_module = True, cv_shared = False, cv_output = False, cv_opened = [Context, Memory, Module], cv_closed = []\<rparr>,
      \<lparr>cv_module = False, cv_shared = True, cv_output = False, cv_opened = [Context, Memory, Module, Shared],
        cv_closed = [Module]\<rparr>,
      \<lparr>cv_module = False, cv_shared = True, cv_output = True, cv_opened = [Context, Memory, Module, Shared, Output],
        cv_closed = [Module]\<rparr>}"

lemma ends_in_create:
  "s \<in> S \<Longrightarrow> ends_in S (f ()) s \<Longrightarrow>
   ends_in S (bindM (case t of None \<Rightarrow> raiseM Type_Error | Some t \<Rightarrow> guardM (b t) Value_Error) f) s"
  by (cases t) (auto intro: ends_in_guardM ends_in_raiseM)

lemma ends_in_write:
  "s \<in> S \<Longrightarrow> (\<And>x. ends_in S (f x) (s\<lparr>cv_output := True, cv_opened := cv_opened s @ [Output]\<rparr>)) \<Longrightarrow>
   ends_in S (bindM (write_output w) f) s"
  by (cases w) (auto simp: write_output_def ends_in_def bindM_def)

lemma body_ends:
  "ends_in body_states (convert_body c target container_triple function_name name air)
     \<lparr>cv_module = False, cv_shared = False, cv_output = False, cv_opened = [Context, Memory], cv_closed = []\<rparr>"
proof (cases "co_parses c air")
  case False
  then show ?thesis by (simp add: convert_body_def parse_module_def ends_in_def bindM_def body_states_def)
next
  case True
  show ?thesis
    unfolding convert_body_def parse_module_def make_shared_def
    by (simp only: True if_True)
      (intro ends_in_putM ends_in_rules ends_in_create ends_in_write; simp add: body_states_def)
qed


end
