(* ===== verification/Deb_Package.thy ===== *)
theory Deb_Package
  imports Py_Io Code_Directory "HOL-Library.List_Lexorder"
begin

text \<open>
  \<^verbatim>\<open>scripts/development/build-virtualmac2-deb.py\<close>: the Debian archive it writes, the identity of the executable that
  must not change when only the version is configured, and the records and the trust list of the packaged files. The
  hash functions and what \<^verbatim>\<open>codesign\<close> and \<^verbatim>\<open>dyld_info\<close> answer are parameters; the staging of files, tar and xz,
  property lists and the JSON text are left out. A path is the bytes of its name.
\<close>

subsection \<open>The archive\<close>

function dec_digits :: "nat \<Rightarrow> bytes" where
  "dec_digits n = (if n < 10 then [word_of_int (48 + int n)] else dec_digits (n div 10) @ [word_of_int (48 + int (n mod 10))])"
  by pat_completeness auto
termination by (relation "measure id") auto

declare dec_digits.simps [simp del]

definition py_dec :: "int \<Rightarrow> bytes" where
  "py_dec n = (if n < 0 then ascii ''-'' @ dec_digits (nat (- n)) else dec_digits (nat n))"

text \<open>\<^verbatim>\<open>f"{s:<n}"\<close>.\<close>

definition ljust :: "nat \<Rightarrow> bytes \<Rightarrow> bytes" where
  "ljust n s = s @ replicate (n - length s) 32"

definition ar_header :: "int \<Rightarrow> bytes \<Rightarrow> bytes \<Rightarrow> bytes" where
  "ar_header epoch name contents =
     ljust 16 (name @ ascii ''/'') @ ljust 12 (py_dec epoch) @ ljust 6 (py_dec 0) @ ljust 6 (py_dec 0)
       @ ljust 8 (ascii ''100644'') @ ljust 10 (py_dec (int (length contents))) @ [0x60, 10]"

definition ar_member :: "int \<Rightarrow> bytes \<times> bytes \<Rightarrow> bytes \<Rightarrow> bytes res" where
  "ar_member epoch = (\<lambda>(name, contents) out.
     let header = ar_header epoch name contents in
     bindR (guardR (length header = 60) Value_Error) (\<lambda>_.
     Inr (out @ header @ contents @ (if length contents mod 2 \<noteq> 0 then [10] else []))))"

definition ar_magic :: bytes where
  "ar_magic = ascii ''!<arch>'' @ [10]"

definition deb_members :: "bytes \<Rightarrow> bytes \<Rightarrow> (bytes \<times> bytes) list" where
  "deb_members control data =
     [(ascii ''debian-binary'', ascii ''2.0'' @ [10]), (ascii ''control.tar.xz'', control), (ascii ''data.tar.xz'', data)]"

definition write_deb :: "int \<Rightarrow> bytes \<Rightarrow> bytes \<Rightarrow> bytes res" where
  "write_deb epoch control data = foldR (ar_member epoch) (deb_members control data) ar_magic"

subsection \<open>The executable's identity\<close>

datatype identity_row =
    Uuid bytes
  | Code_Section bytes bytes int int bytes

definition identity_section ::
    "(bytes \<Rightarrow> bytes) \<Rightarrow> bytes \<Rightarrow> int \<Rightarrow> identity_row list \<Rightarrow> identity_row list res" where
  "identity_section sha data position result =
     bindR (unpack_us [8, 8, 4, 4, 4, 4, 4, 4, 4, 4] data (position + 32)) (\<lambda>h.
     let name = py_slice data position (position + 16); segment = py_slice data (position + 16) (position + 32);
         start = h ! 2 in
     Inr (if h ! 6 AND 0xFF \<notin> {1, 12, 18}
          then result @ [Code_Section segment name (h ! 0) (h ! 1) (sha (py_slice data start (start + h ! 1)))]
          else result))"

fun identity_scan ::
    "(bytes \<Rightarrow> bytes) \<Rightarrow> bytes \<Rightarrow> nat \<Rightarrow> int \<Rightarrow> identity_row list \<Rightarrow> identity_row list res" where
  "identity_scan sha data 0 off result = Inr result"
| "identity_scan sha data (Suc n) off result =
     bindR (u32x2 data off) (\<lambda>(command, sz).
     bindR (if command = 0x1B then Inr (result @ [Uuid (py_slice data (off + 8) (off + 24))])
            else if command = 0x19 then bindR (u32 data (off + 64)) (\<lambda>sections.
              foldR (\<lambda>i. identity_section sha data (off + 72 + int i * 80)) [0..<nat sections] result)
            else Inr result) (identity_scan sha data n (off + sz)))"

definition code_identity :: "(bytes \<Rightarrow> bytes) \<Rightarrow> bytes \<Rightarrow> identity_row list res" where
  "code_identity sha data =
     bindR (guardR (take 4 data = [0xCF, 0xFA, 0xED, 0xFE]) Value_Error) (\<lambda>_.
     bindR (u32 data 16) (\<lambda>n. identity_scan sha data (nat n) 32 []))"

subsection \<open>The packaged files\<close>

text \<open>What the tools answer for a file: the text of \<^verbatim>\<open>codesign -d\<close> (None when it fails), the return code of
  \<^verbatim>\<open>codesign --verify --strict\<close>, and whether \<^verbatim>\<open>dyld_info -validate_only\<close> succeeds. A tool that fails raises
  \<^verbatim>\<open>CalledProcessError\<close>, which is kept as \<open>Runtime_Error\<close>.\<close>

record tools =
  t_details :: "bytes \<Rightarrow> bytes option"
  t_strict :: "bytes \<Rightarrow> int"
  t_valid :: "bytes \<Rightarrow> bool"

definition is_macho :: "bytes \<Rightarrow> bool" where
  "is_macho data \<longleftrightarrow> take 4 data \<in> {[0xCF, 0xFA, 0xED, 0xFE], [0xCE, 0xFA, 0xED, 0xFE], [0xCA, 0xFE, 0xBA, 0xBE], [0xBE, 0xBA, 0xFE, 0xCA]}"

text \<open>A line \<^verbatim>\<open>^CDHash=([0-9a-f]{40})$\<close> of the text.\<close>

definition cdhash_line :: "bytes \<Rightarrow> bytes option" where
  "cdhash_line line =
     (let h = drop 7 line in
      if take 7 line = ascii ''CDHash='' \<and> length h = 40 \<and> list_all (\<lambda>b. b \<in> set (ascii ''0123456789abcdef'')) h
      then Some h else None)"

definition cdhash_match :: "bytes \<Rightarrow> bytes option" where
  "cdhash_match details = (case List.map_filter cdhash_line (split_at 10 details) of [] \<Rightarrow> None | h # _ \<Rightarrow> Some h)"

definition signed_code :: "tools \<Rightarrow> hashes \<Rightarrow> bytes \<Rightarrow> bytes \<Rightarrow> bool \<Rightarrow> (bytes \<times> bool) res" where
  "signed_code t hs path data allow_legacy =
     (case t_details t path of None \<Rightarrow> Inl Runtime_Error
      | Some details \<Rightarrow>
        (case cdhash_match details of None \<Rightarrow> Inl Value_Error
         | Some cdhash \<Rightarrow>
           bindR (check_code hs data) (\<lambda>directories.
           bindR (guardR (cdhash \<in> set (map (\<lambda>r. hex_bytes (cr_cdhash r)) directories)) Value_Error) (\<lambda>_.
           bindR (guardR (\<not> (t_strict t path \<noteq> 0 \<and> \<not> allow_legacy)) Value_Error) (\<lambda>_.
           bindR (guardR (t_valid t path) Runtime_Error) (\<lambda>_.
           Inr (cdhash, t_strict t path = 0)))))))"

text \<open>Paths are relative to the staging directory.\<close>

definition RUNTIME_ROOT :: bytes where
  "RUNTIME_ROOT = ascii ''/var/root/VirtualMac2''"

definition installed_path :: "bytes \<Rightarrow> bytes" where
  "installed_path rel =
     (if prefix (tl RUNTIME_ROOT @ ascii ''/package-source/compiler27/'') rel
      then RUNTIME_ROOT @ ascii ''/compiler27/'' @ last (split_at 0x2F rel) else ascii ''/'' @ rel)"

record file_row =
  fr_path :: bytes
  fr_sha256 :: bytes
  fr_bytes :: nat
  fr_code :: "(bytes \<times> bool) option"

definition trust_line :: "bytes \<Rightarrow> bytes \<Rightarrow> bytes" where
  "trust_line cdhash installed = cdhash @ [9] @ installed"

definition release_file :: "tools \<Rightarrow> hashes \<Rightarrow> bytes \<times> bytes \<Rightarrow> file_row list \<times> bytes list \<Rightarrow> (file_row list \<times> bytes list) res" where
  "release_file t hs = (\<lambda>(rel, data) (rows, trust).
     let installed = installed_path rel;
         row = \<lparr>fr_path = installed, fr_sha256 = hex_bytes (h_sha256 hs data), fr_bytes = length data, fr_code = None\<rparr> in
     if is_macho data
     then bindR (signed_code t hs rel data (prefix (tl RUNTIME_ROOT @ ascii ''/payload/'') rel)) (\<lambda>(cdhash, strict).
       Inr (rows @ [row\<lparr>fr_code := Some (cdhash, strict)\<rparr>], trust @ [trust_line cdhash installed]))
     else Inr (rows @ [row], trust))"

definition release_files :: "tools \<Rightarrow> hashes \<Rightarrow> (bytes \<times> bytes) list \<Rightarrow> (file_row list \<times> bytes list) res" where
  "release_files t hs files = foldR (release_file t hs) files ([], [])"

definition trustcache :: "bytes list \<Rightarrow> bytes list" where
  "trustcache trust = sort (remdups trust)"

definition sums_line :: "file_row \<Rightarrow> bytes" where
  "sums_line row = fr_sha256 row @ ascii ''  '' @ fr_path row @ [10]"

subsection \<open>Reading the archive back\<close>

text \<open>An \<^verbatim>\<open>ar\<close> reader: after the magic, members of a 60-byte header, the contents and a pad byte after an odd size.\<close>

definition read_dec :: "bytes \<Rightarrow> nat" where
  "read_dec bs = foldl (\<lambda>n b. 10 * n + nat (uint b - 48)) 0 bs"

function ar_members :: "bytes \<Rightarrow> (bytes \<times> bytes) list option" where
  "ar_members bs =
     (if bs = [] then Some []
      else if length bs < 60 then None
      else let sz = read_dec (takeWhile (\<lambda>b. b \<noteq> 32) (take 10 (drop 48 bs))) in
        if length bs < 60 + sz then None
        else map_option (\<lambda>ms. (takeWhile (\<lambda>b. b \<noteq> 0x2F) (take 16 bs), take sz (drop 60 bs)) # ms)
          (ar_members (drop (60 + sz + sz mod 2) bs)))"
  by pat_completeness auto
termination by (relation "measure length") auto

declare ar_members.simps [simp del]

definition read_ar :: "bytes \<Rightarrow> (bytes \<times> bytes) list option" where
  "read_ar bs = (if prefix ar_magic bs then ar_members (drop 8 bs) else None)"

lemma read_dec_digits: "read_dec (dec_digits n) = n \<and> list_all (\<lambda>b. b \<noteq> 32) (dec_digits n)"
proof (induction n rule: dec_digits.induct)
  case (1 n)
  have d: "nat (uint (word_of_int (48 + int k) :: byte) - 48) = k" "(word_of_int (48 + int k) :: byte) \<noteq> 32" if "k < 10" for k
  proof -
    have u: "uint (word_of_int (48 + int k) :: byte) = 48 + int k" by (rule uint_of_byte) (use that in simp_all)
    then show "nat (uint (word_of_int (48 + int k) :: byte) - 48) = k" by simp
    show "(word_of_int (48 + int k) :: byte) \<noteq> 32"
    proof
      assume e: "(word_of_int (48 + int k) :: byte) = 32"
      have "uint (32 :: byte) = 48 + int k" using u unfolding e .
      then show False by simp
    qed
  qed
  show ?case
  proof (cases "n < 10")
    case True
    then show ?thesis using d [OF True] by (subst (1 2) dec_digits.simps) (simp add: read_dec_def)
  next
    case False
    have m: "n mod 10 < 10" by simp
    have e: "dec_digits n = dec_digits (n div 10) @ [word_of_int (48 + int (n mod 10))]"
      using False by (subst dec_digits.simps) simp
    have "read_dec (dec_digits n) = 10 * read_dec (dec_digits (n div 10)) + n mod 10"
      using d(1) [OF m] unfolding e read_dec_def foldl_append by simp
    moreover have "list_all (\<lambda>b. b \<noteq> 32) (dec_digits n)" using 1 [OF False] d(2) [OF m] unfolding e by simp
    ultimately show ?thesis using 1 [OF False] by simp
  qed
qed

lemma length_ljust: "length (ljust n s) = max n (length s)"
  by (simp add: ljust_def)

lemma takeWhile_field: "list_all (\<lambda>b. b \<noteq> c) s \<Longrightarrow> takeWhile (\<lambda>b. b \<noteq> c) (s @ c # t) = s"
  by (induction s) auto

lemma takeWhile_all: "list_all (\<lambda>b. b \<noteq> c) s \<Longrightarrow> takeWhile (\<lambda>b. b \<noteq> c) (s @ replicate k c) = s"
  by (induction s) (auto simp: takeWhile_replicate)

text \<open>A header of 60 bytes has every field at its width.\<close>

lemma ar_header_fields:
  assumes "length (ar_header epoch name contents) = 60" "0x2F \<notin> set name"
  shows "takeWhile (\<lambda>b. b \<noteq> 0x2F) (take 16 (ar_header epoch name contents @ xs)) = name"
    and "read_dec (takeWhile (\<lambda>b. b \<noteq> 32) (take 10 (drop 48 (ar_header epoch name contents @ xs)))) = length contents"
proof -
  let ?a = "ljust 16 (name @ ascii ''/'')" and ?b = "ljust 12 (py_dec epoch)" and ?c = "ljust 6 (py_dec 0)"
    and ?d = "ljust 8 (ascii ''100644'')" and ?e = "ljust 10 (py_dec (int (length contents)))"
  have len: "length ?a + length ?b + 2 * length ?c + length ?d + length ?e = 58"
    using assms(1) by (simp add: ar_header_def)
  have ge: "16 \<le> length ?a" "12 \<le> length ?b" "6 \<le> length ?c" "8 \<le> length ?d" "10 \<le> length ?e"
    by (simp_all add: length_ljust)
  have l: "length ?a = 16" "length ?b = 12" "length ?c = 6" "length ?d = 8" "length ?e = 10" using len ge by linarith+
  have h: "ar_header epoch name contents @ xs = ?a @ ?b @ ?c @ ?c @ ?d @ ?e @ [0x60, 10] @ xs" by (simp add: ar_header_def)
  have "take 16 (ar_header epoch name contents @ xs) = ?a" unfolding h using l(1) by simp
  moreover have "list_all (\<lambda>b. b \<noteq> 0x2F) name" using assms(2) by (auto simp: list_all_iff)
  ultimately show "takeWhile (\<lambda>b. b \<noteq> 0x2F) (take 16 (ar_header epoch name contents @ xs)) = name"
    using takeWhile_field [of "0x2F" name] by (simp add: ljust_def ascii_def)
  have "take 10 (drop 48 (ar_header epoch name contents @ xs)) = ?e" unfolding h using l by simp
  then show "read_dec (takeWhile (\<lambda>b. b \<noteq> 32) (take 10 (drop 48 (ar_header epoch name contents @ xs)))) = length contents"
    using read_dec_digits [of "length contents"] takeWhile_all [of 32 "dec_digits (length contents)"]
    by (simp add: ljust_def py_dec_def)
qed

lemma ar_members_step:
  assumes "length (ar_header epoch name contents) = 60" "0x2F \<notin> set name"
  shows "ar_members (ar_header epoch name contents @ contents @ (if length contents mod 2 \<noteq> 0 then [10] else []) @ xs)
    = map_option (\<lambda>ms. (name, contents) # ms) (ar_members xs)"
proof -
  let ?pad = "if length contents mod 2 \<noteq> 0 then [10] else [] :: bytes"
  let ?bs = "ar_header epoch name contents @ contents @ ?pad @ xs"
  note f = ar_header_fields [OF assms, of "contents @ ?pad @ xs"]
  have "?bs \<noteq> []" "\<not> length ?bs < 60" "\<not> length ?bs < 60 + length contents" using assms(1) by auto
  moreover have "take (length contents) (drop 60 ?bs) = contents" using assms(1) by simp
  moreover have "drop (60 + length contents + length contents mod 2) ?bs = xs"
    using assms(1) by (cases "length contents mod 2 = 0") (auto simp: mod_2_eq_odd)
  ultimately show ?thesis by (subst ar_members.simps) (simp only: f Let_def if_False)
qed

text \<open>C39: the package file is refused or is an archive that a reader takes apart into exactly the three members, with
  their names and contents, whatever their sizes and the date.\<close>

theorem write_deb_reads_back:
  "case write_deb epoch control data of
     Inl e \<Rightarrow> e = Value_Error
   | Inr deb \<Rightarrow> read_ar deb = Some (deb_members control data)"
proof -
  let ?h = "\<lambda>m. ar_header epoch (fst m) (snd m)"
  let ?m = "\<lambda>m :: bytes \<times> bytes. ?h m @ snd m @ (if length (snd m) mod 2 \<noteq> 0 then [10] else [])"
  have fold: "foldR (ar_member epoch) ms out =
      (if list_all (\<lambda>m. length (?h m) = 60) ms then Inr (out @ concat (map ?m ms)) else Inl Value_Error)" for ms out
    by (induction ms arbitrary: out) (auto simp: ar_member_def Let_def guardR_def)
  have read: "list_all (\<lambda>m. length (?h m) = 60 \<and> 0x2F \<notin> set (fst m)) ms \<Longrightarrow> ar_members (concat (map ?m ms)) = Some ms" for ms
  proof (induction ms)
    case Nil
    then show ?case by (subst ar_members.simps) simp
  next
    case (Cons m ms)
    then have "ar_members (concat (map ?m ms)) = Some ms" by simp
    then show ?case using ar_members_step [of epoch "fst m" "snd m" "concat (map ?m ms)"] Cons.prems by simp
  qed
  have names: "list_all (\<lambda>m. 0x2F \<notin> set (fst m)) (deb_members control data)" by (simp add: deb_members_def ascii_def)
  show ?thesis
  proof (cases "list_all (\<lambda>m. length (?h m) = 60) (deb_members control data)")
    case True
    then have "ar_members (concat (map ?m (deb_members control data))) = Some (deb_members control data)"
      using names by (intro read) (auto simp: list_all_iff)
    moreover have "length ar_magic = 8" by (simp add: ar_magic_def ascii_def)
    ultimately show ?thesis using True by (simp add: write_deb_def fold read_ar_def)
  qed (simp add: write_deb_def fold)
qed

subsection \<open>The trust list vouches for verified code only\<close>

text \<open>A verified code hash of a file, and the file a line of the list stands for.\<close>

definition vouches :: "hashes \<Rightarrow> bytes \<Rightarrow> bytes \<times> bytes \<Rightarrow> bool" where
  "vouches hs line = (\<lambda>(rel, data). is_macho data \<and>
     (case check_code hs data of Inl _ \<Rightarrow> False
      | Inr records \<Rightarrow> list_ex (\<lambda>r. line = trust_line (hex_bytes (cr_cdhash r)) (installed_path rel)) records))"

lemma signed_code_verified:
  "signed_code t hs path data legacy = Inr (c, strict) \<Longrightarrow>
     \<exists>records. check_code hs data = Inr records \<and> list_ex (\<lambda>r. c = hex_bytes (cr_cdhash r)) records"
  by (auto simp: signed_code_def bindR_Inr_iff list_ex_iff split: option.splits)

lemma release_fold:
  "foldR (release_file t hs) fs (rows, trust) = Inr (rows', trust') \<Longrightarrow>
     \<exists>new lines. rows' = rows @ new \<and> trust' = trust @ lines
       \<and> map fr_path new = map (installed_path \<circ> fst) fs \<and> map fr_bytes new = map (length \<circ> snd) fs
       \<and> list_all (\<lambda>l. list_ex (vouches hs l) fs) lines
       \<and> list_all (\<lambda>f. \<not> is_macho (snd f) \<or> list_ex (\<lambda>l. vouches hs l f) lines) fs"
proof (induction fs arbitrary: rows trust)
  case (Cons f fs)
  obtain rel data where f: "f = (rel, data)" by (cases f)
  from Cons.prems obtain rows1 trust1 where one: "release_file t hs f (rows, trust) = Inr (rows1, trust1)"
    and rest: "foldR (release_file t hs) fs (rows1, trust1) = Inr (rows', trust')"
    by (auto simp: bindR_Inr_iff)
  from Cons.IH [OF rest] obtain new lines where ih: "rows' = rows1 @ new" "trust' = trust1 @ lines"
      "map fr_path new = map (installed_path \<circ> fst) fs" "map fr_bytes new = map (length \<circ> snd) fs"
      "list_all (\<lambda>l. list_ex (vouches hs l) fs) lines"
      "list_all (\<lambda>f. \<not> is_macho (snd f) \<or> list_ex (\<lambda>l. vouches hs l f) lines) fs"
    by blast
  have "\<exists>row ls. rows1 = rows @ [row] \<and> trust1 = trust @ ls \<and> fr_path row = installed_path rel
      \<and> fr_bytes row = length data \<and> list_all (\<lambda>l. vouches hs l f) ls \<and> (is_macho data \<longrightarrow> ls \<noteq> [])"
  proof (cases "is_macho data")
    case True
    with one obtain c strict where s: "signed_code t hs rel data (prefix (tl RUNTIME_ROOT @ ascii ''/payload/'') rel) = Inr (c, strict)"
      and r: "rows1 = rows @ [\<lparr>fr_path = installed_path rel, fr_sha256 = hex_bytes (h_sha256 hs data),
                fr_bytes = length data, fr_code = Some (c, strict)\<rparr>]"
        "trust1 = trust @ [trust_line c (installed_path rel)]"
      by (auto simp: release_file_def f Let_def bindR_Inr_iff)
    from signed_code_verified [OF s] have "vouches hs (trust_line c (installed_path rel)) f"
      using True by (auto simp: vouches_def f list_ex_iff)
    then show ?thesis using r by auto
  next
    case False
    then show ?thesis using one by (auto simp: release_file_def f Let_def)
  qed
  then obtain row ls where row: "rows1 = rows @ [row]" "trust1 = trust @ ls" "fr_path row = installed_path rel"
      "fr_bytes row = length data" "list_all (\<lambda>l. vouches hs l f) ls" "is_macho data \<longrightarrow> ls \<noteq> []"
    by blast
  have "list_all (\<lambda>g. \<not> is_macho (snd g) \<or> list_ex (\<lambda>l. vouches hs l g) (ls @ lines)) (f # fs)"
    using ih(6) row(5,6) f by (cases ls) (auto simp: list_all_iff list_ex_iff)
  moreover have "list_all (\<lambda>l. list_ex (vouches hs l) (f # fs)) (ls @ lines)"
    using ih(5) row(5) by (auto simp: list_all_iff)
  ultimately show ?case using ih(1-4) row(1-4) f
    by (intro exI [of _ "row # new"] exI [of _ "ls @ lines"]) simp
qed simp

text \<open>C40: when the release goes through, its records are those of the packaged files in their order, each line of the
  trust list is the installed path and the code hash of a packaged Mach-O file whose code directory and pages were
  verified, every packaged Mach-O file has such a line, and the list is sorted and holds no line twice.\<close>

theorem trustcache_verified:
  "case release_files t hs files of
     Inl e \<Rightarrow> \<not> is_ok (release_files t hs files)
   | Inr (rows, trust) \<Rightarrow>
       map (\<lambda>row. (fr_path row, fr_bytes row)) rows = map (\<lambda>(rel, data). (installed_path rel, length data)) files
       \<and> list_all (\<lambda>l. list_ex (vouches hs l) files) (trustcache trust)
       \<and> list_all (\<lambda>f. list_ex (\<lambda>l. vouches hs l f) (trustcache trust)) (filter (is_macho \<circ> snd) files)
       \<and> sorted (trustcache trust) \<and> distinct (trustcache trust)"
proof (cases "release_files t hs files")
  case (Inr r)
  obtain rows trust where r: "r = (rows, trust)" by (cases r)
  have f: "map fr_path rows = map (installed_path \<circ> fst) files" "map fr_bytes rows = map (length \<circ> snd) files"
      "list_all (\<lambda>l. list_ex (vouches hs l) files) trust"
      "list_all (\<lambda>f. \<not> is_macho (snd f) \<or> list_ex (\<lambda>l. vouches hs l f) trust) files"
    using release_fold [of t hs files "[]" "[]" rows trust] Inr r by (auto simp: release_files_def)
  have "map (\<lambda>row. (fr_path row, fr_bytes row)) rows = zip (map fr_path rows) (map fr_bytes rows)"
    by (simp add: zip_map_map zip_same_conv_map)
  also have "\<dots> = map (\<lambda>(rel, data). (installed_path rel, length data)) files"
    by (simp add: f(1,2) zip_map_map zip_same_conv_map split_beta comp_def)
  finally show ?thesis using f(3,4) by (auto simp: Inr r trustcache_def list_all_iff list_ex_iff)
qed (simp add: is_ok_def)

text \<open>A release with a signed file goes through, and with a changed byte it does not.\<close>

definition demo_tools :: tools where
  "demo_tools = \<lparr>t_details = (\<lambda>_. Some (ascii ''CDHash='' @ hex_bytes (cr_cdhash demo_record) @ [10])), t_strict = (\<lambda>_. 0), t_valid = (\<lambda>_. True)\<rparr>"

lemma demo_release:
  "map_sum id snd (release_files demo_tools demo_hashes [(ascii ''a/x'', demo_signed 0), (ascii ''b'', [1])])
     = Inr [trust_line (hex_bytes (cr_cdhash demo_record)) (ascii ''/a/x'')]"
  by code_simp

lemma demo_release_refused:
  "release_files demo_tools demo_hashes [(ascii ''a/x'', demo_signed 1), (ascii ''b'', [1])] = Inl Value_Error"
  by code_simp

end
