(* ===== verification/Package_Cache.thy ===== *)
theory Package_Cache
  imports Py_Prelude "HOL-Library.Char_ord" "HOL-Library.List_Lexorder"
begin

text \<open>
  \<^verbatim>\<open>scripts/cleanup-package-cache.py\<close>: the newest packages of a directory stay, the others are moved to an archive.
  A file system holds regular files by directory and name; the version \<^verbatim>\<open>dpkg-deb\<close> reads of a file, the comparisons of
  \<^verbatim>\<open>dpkg --compare-versions\<close>, the order in which \<^verbatim>\<open>glob\<close> lists the directory and the clock are parameters.
\<close>

subsection \<open>The order of packages\<close>

record package_file =
  pf_mtime :: int
  pf_contents :: string

type_synonym files = "string \<times> string \<Rightarrow> package_file option"

record dpkg =
  dp_version :: "package_file \<Rightarrow> string option"
  dp_gt :: "string \<Rightarrow> string \<Rightarrow> bool"
  dp_lt :: "string \<Rightarrow> string \<Rightarrow> bool"

record candidate =
  cd_version :: string
  cd_name :: string
  cd_mtime :: int

text \<open>Python's tuple order of the modification time and the name.\<close>

definition key_less :: "candidate \<Rightarrow> candidate \<Rightarrow> bool" where
  "key_less l r \<longleftrightarrow> cd_mtime l < cd_mtime r \<or> (cd_mtime l = cd_mtime r \<and> cd_name l < cd_name r)"

definition compare :: "dpkg \<Rightarrow> candidate \<Rightarrow> candidate \<Rightarrow> int" where
  "compare d l r =
     (if \<not> dp_gt d (cd_version l) (cd_version r) \<and> dp_lt d (cd_version l) (cd_version r) then 1
      else if dp_gt d (cd_version l) (cd_version r) then - 1
      else if key_less r l then - 1 else if key_less l r then 1 else 0)"

text \<open>\<^verbatim>\<open>list.sort\<close> with \<^verbatim>\<open>cmp_to_key\<close>: a stable sort that asks for negative comparisons only. For a consistent
  comparison every such sort gives this list.\<close>

fun insert_by :: "('a \<Rightarrow> 'a \<Rightarrow> int) \<Rightarrow> 'a \<Rightarrow> 'a list \<Rightarrow> 'a list" where
  "insert_by cmp x [] = [x]"
| "insert_by cmp x (y # ys) = (if cmp y x < 0 then y # insert_by cmp x ys else x # y # ys)"

definition sort_by :: "('a \<Rightarrow> 'a \<Rightarrow> int) \<Rightarrow> 'a list \<Rightarrow> 'a list" where
  "sort_by cmp xs = foldr (insert_by cmp) xs []"

subsection \<open>Moving the old ones\<close>

text \<open>\<^verbatim>\<open>path.stem\<close> and \<^verbatim>\<open>path.suffix\<close>: the last dot counts unless it begins or ends the name.\<close>

definition last_dot :: "string \<Rightarrow> nat option" where
  "last_dot name =
     (let n = length (takeWhile (\<lambda>c. c \<noteq> CHR ''.'') (rev name)) in
      if 0 < n \<and> n + 1 < length name then Some (length name - n - 1) else None)"

definition stem :: "string \<Rightarrow> string" where
  "stem name = (case last_dot name of None \<Rightarrow> name | Some i \<Rightarrow> take i name)"

definition path_suffix :: "string \<Rightarrow> string" where
  "path_suffix name = (case last_dot name of None \<Rightarrow> [] | Some i \<Rightarrow> drop i name)"

definition find_candidates :: "dpkg \<Rightarrow> files \<Rightarrow> string \<Rightarrow> string list \<Rightarrow> candidate list" where
  "find_candidates d fs directory names =
     List.map_filter (\<lambda>name.
       case fs (directory, name) of None \<Rightarrow> None
       | Some f \<Rightarrow> map_option (\<lambda>v. \<lparr>cd_version = v, cd_name = name, cd_mtime = pf_mtime f\<rparr>) (dp_version d f))
     (filter (\<lambda>name. suffix ''.deb'' name) names)"

definition free_name :: "files \<Rightarrow> string \<Rightarrow> string \<Rightarrow> string \<Rightarrow> string" where
  "free_name fs archive name now =
     (if fs (archive, name) \<noteq> None then stem name @ ''.'' @ now @ path_suffix name else name)"

text \<open>\<^verbatim>\<open>shutil.move\<close> renames, and a rename replaces a file that has the new name already.\<close>

definition move :: "string \<times> string \<Rightarrow> string \<times> string \<Rightarrow> files \<Rightarrow> files" where
  "move src dst fs = (fs(src := None))(dst := fs src)"

fun move_all :: "string \<Rightarrow> string \<Rightarrow> (nat \<Rightarrow> string) \<Rightarrow> candidate list \<Rightarrow> nat \<Rightarrow> files \<Rightarrow> (string \<times> string) list \<times> files" where
  "move_all directory archive clock [] i fs = ([], fs)"
| "move_all directory archive clock (c # cs) i fs =
     (let dst = (archive, free_name fs archive (cd_name c) (clock i));
          (moved, fs') = move_all directory archive clock cs (i + 1) (move (directory, cd_name c) dst fs)
      in (dst # moved, fs'))"

definition ranked :: "dpkg \<Rightarrow> files \<Rightarrow> string \<Rightarrow> string list \<Rightarrow> candidate list" where
  "ranked d fs directory names = sort_by (compare d) (find_candidates d fs directory names)"

definition archive_old ::
    "dpkg \<Rightarrow> (nat \<Rightarrow> string) \<Rightarrow> string list \<Rightarrow> string \<Rightarrow> nat \<Rightarrow> string option \<Rightarrow> files \<Rightarrow> (string \<times> string) list \<times> files" where
  "archive_old d clock names directory keep archive_directory fs =
     (let archive = (case archive_directory of None \<Rightarrow> directory @ ''/.archive''
                     | Some a \<Rightarrow> a)
      in move_all directory archive clock (drop keep (ranked d fs directory names)) 0 fs)"

subsection \<open>What stays and what moves\<close>

lemma mset_insert_by: "mset (insert_by cmp x xs) = add_mset x (mset xs)"
  by (induction xs) auto

lemma mset_sort_by: "mset (sort_by cmp xs) = mset xs"
  by (induction xs) (simp_all add: sort_by_def mset_insert_by)

lemma set_insert_by: "set (insert_by cmp x xs) = insert x (set xs)"
  by (induction xs) auto

text \<open>What \<^verbatim>\<open>dpkg\<close> documents of its comparison: versions are totally ordered, up to equivalent spellings.\<close>

definition version_order :: "dpkg \<Rightarrow> bool" where
  "version_order d \<longleftrightarrow> (\<forall>a b. dp_lt d a b = dp_gt d b a) \<and> (\<forall>a b. dp_gt d a b \<longrightarrow> \<not> dp_gt d b a)
     \<and> (\<forall>a b c. \<not> dp_gt d a b \<longrightarrow> \<not> dp_gt d b c \<longrightarrow> \<not> dp_gt d a c)"

definition newer :: "dpkg \<Rightarrow> candidate \<Rightarrow> candidate \<Rightarrow> bool" where
  "newer d l r \<longleftrightarrow> dp_gt d (cd_version l) (cd_version r)
     \<or> (\<not> dp_gt d (cd_version r) (cd_version l) \<and> key_less r l)"

lemma version_orderD:
  assumes "version_order d"
  shows "dp_lt d a b = dp_gt d b a" and "dp_gt d a b \<Longrightarrow> \<not> dp_gt d b a"
    and "\<not> dp_gt d a b \<Longrightarrow> \<not> dp_gt d b c \<Longrightarrow> \<not> dp_gt d a c"
  using assms unfolding version_order_def by blast+

lemma compare_neg: "version_order d \<Longrightarrow> compare d l r < 0 \<longleftrightarrow> newer d l r"
  using version_orderD(2) [of d "cd_version l" "cd_version r"]
  by (simp add: compare_def newer_def version_orderD(1))

lemma key_less_asym: "key_less a b \<Longrightarrow> \<not> key_less b a"
  unfolding key_less_def by (elim disjE conjE) (simp_all add: less_le_not_le)

lemma key_less_negtrans: "\<not> key_less a b \<Longrightarrow> \<not> key_less b c \<Longrightarrow> \<not> key_less a c"
  unfolding key_less_def not_less de_Morgan_disj de_Morgan_conj
  by (metis order_trans order.antisym)

lemma newer_negtrans:
  assumes d: "version_order d" and ba: "\<not> newer d b a" and cb: "\<not> newer d c b"
  shows "\<not> newer d c a"
proof -
  note t = version_orderD(3) [OF d]
  have g: "\<not> dp_gt d (cd_version b) (cd_version a)" "\<not> dp_gt d (cd_version c) (cd_version b)"
    using ba cb unfolding newer_def by simp_all
  have "\<not> key_less a c" if "\<not> dp_gt d (cd_version a) (cd_version c)"
  proof -
    have "\<not> dp_gt d (cd_version a) (cd_version b)" "\<not> dp_gt d (cd_version b) (cd_version c)"
      using t [OF that g(2)] t [OF g(1) that] by simp_all
    then have "\<not> key_less a b" "\<not> key_less b c" using ba cb unfolding newer_def by simp_all
    then show ?thesis by (rule key_less_negtrans)
  qed
  then show ?thesis using t [OF g(2) g(1)] unfolding newer_def by blast
qed

lemma newer_asym: "version_order d \<Longrightarrow> newer d a b \<Longrightarrow> \<not> newer d b a"
  unfolding newer_def using version_orderD(2) key_less_asym by blast

definition ordered :: "dpkg \<Rightarrow> candidate list \<Rightarrow> bool" where
  "ordered d cs = sorted_wrt (\<lambda>l r. \<not> newer d r l) cs"

lemma ordered_insert_by:
  assumes d: "version_order d"
  shows "ordered d xs \<Longrightarrow> ordered d (insert_by (compare d) x xs)"
proof (induction xs)
  case (Cons y ys)
  show ?case
  proof (cases "newer d y x")
    case True
    then show ?thesis using Cons newer_asym [OF d True] by (simp add: ordered_def compare_neg [OF d] set_insert_by)
  next
    case False
    then have "\<forall>z \<in> set ys. \<not> newer d z x"
      using Cons.prems newer_negtrans [OF d False] by (simp add: ordered_def)
    then show ?thesis using False Cons.prems by (simp add: ordered_def compare_neg [OF d])
  qed
qed (simp add: ordered_def)

lemma ordered_sort_by: "version_order d \<Longrightarrow> ordered d (sort_by (compare d) xs)"
proof (induction xs)
  case Nil
  then show ?case by (simp add: sort_by_def ordered_def)
next
  case (Cons x xs)
  then show ?case by (simp add: sort_by_def ordered_insert_by)
qed

lemma ordered_ranked: "version_order d \<Longrightarrow> ordered d (ranked d fs directory names)"
  unfolding ranked_def by (rule ordered_sort_by)

text \<open>A package that is moved is not newer than one that stays.\<close>

lemma kept_are_newest:
  assumes "version_order d" "k \<in> set (take keep (ranked d fs directory names))" "m \<in> set (drop keep (ranked d fs directory names))"
  shows "\<not> newer d m k"
proof -
  let ?r = "ranked d fs directory names"
  have "sorted_wrt (\<lambda>l r. \<not> newer d r l) (take keep ?r @ drop keep ?r)"
    using ordered_ranked [OF assms(1), of fs directory names] by (simp add: ordered_def)
  then show ?thesis using assms(2,3) unfolding sorted_wrt_append by blast
qed

subsection \<open>No package is lost\<close>

lemma move_keeps:
  assumes "fs dst = None" "src \<noteq> dst"
  shows "ran (move src dst fs) = ran fs"
proof
  show "ran (move src dst fs) \<subseteq> ran fs" 
  proof
    fix f assume "f \<in> ran (move src dst fs)"
    then obtain p where "move src dst fs p = Some f" by (auto simp: ran_def)
    then have "fs (if p = dst then src else p) = Some f" by (auto simp: move_def split: if_splits)
    then show "f \<in> ran fs" by (rule ranI)
  qed
  show "ran fs \<subseteq> ran (move src dst fs)"
  proof
    fix f assume "f \<in> ran fs"
    then obtain p where p: "fs p = Some f" by (auto simp: ran_def)
    then have "move src dst fs (if p = src then dst else p) = Some f" using assms by (auto simp: move_def)
    then show "f \<in> ran (move src dst fs)" by (rule ranI)
  qed
qed

text \<open>The destination of the move of \<open>c\<close> at step \<open>i\<close> is free: always so for the plain name, and up to the clock for the
  name with the time, which the code does not test.\<close>

fun moves_free :: "string \<Rightarrow> string \<Rightarrow> (nat \<Rightarrow> string) \<Rightarrow> candidate list \<Rightarrow> nat \<Rightarrow> files \<Rightarrow> bool" where
  "moves_free directory archive clock [] i fs \<longleftrightarrow> True"
| "moves_free directory archive clock (c # cs) i fs \<longleftrightarrow>
     (let dst = (archive, free_name fs archive (cd_name c) (clock i)) in
      fs dst = None \<and> moves_free directory archive clock cs (i + 1) (move (directory, cd_name c) dst fs))"

lemma move_all_keeps:
  "directory \<noteq> archive \<Longrightarrow> moves_free directory archive clock cs i fs \<Longrightarrow>
     ran (snd (move_all directory archive clock cs i fs)) = ran fs"
  by (induction cs arbitrary: i fs) (simp_all add: Let_def split_beta move_keeps)

text \<open>A move loses a package only when the archive holds the plain name and the name with the time already.\<close>

lemma move_loses:
  "fs (archive, free_name fs archive name now) \<noteq> None \<Longrightarrow>
     fs (archive, name) \<noteq> None \<and> fs (archive, stem name @ ''.'' @ now @ path_suffix name) \<noteq> None"
  by (auto simp: free_name_def split: if_splits)

text \<open>Such a run exists: two clean-ups in the same second, of packages with one name, replace the rollback artifact that the
  first of them made.\<close>

definition demo_dpkg :: dpkg where
  "demo_dpkg = \<lparr>dp_version = (\<lambda>f. Some (pf_contents f)), dp_gt = (\<lambda>a b. a > b), dp_lt = (\<lambda>a b. a < b)\<rparr>"

definition demo_files :: files where
  "demo_files = [(''d'', ''a.deb'') \<mapsto> \<lparr>pf_mtime = 1, pf_contents = ''1''\<rparr>, (''d'', ''b.deb'') \<mapsto> \<lparr>pf_mtime = 1, pf_contents = ''2''\<rparr>,
     (''s'', ''a.deb'') \<mapsto> \<lparr>pf_mtime = 0, pf_contents = ''0''\<rparr>, (''s'', ''a.20240101-000000.deb'') \<mapsto> \<lparr>pf_mtime = 0, pf_contents = ''00''\<rparr>]"

lemma rollback_artifact_destroyed:
  "let (moved, fs) = archive_old demo_dpkg (\<lambda>_. ''20240101-000000'') [''a.deb'', ''b.deb''] ''d'' 1 (Some ''s'') demo_files in
   moved = [(''s'', ''a.20240101-000000.deb'')] \<and> map (\<lambda>p. map_option pf_contents (fs p)) [(''d'', ''a.deb''), (''d'', ''b.deb''),
     (''s'', ''a.deb''), (''s'', ''a.20240101-000000.deb'')] = [None, Some ''2'', Some ''0'', Some ''1'']"
  by code_simp

end
