(* ===== verification/Converter_Patch.thy ===== *)
theory Converter_Patch
  imports Code_Patches
begin

text \<open>
  \<^verbatim>\<open>scripts/development/patch-metal-library-convert.py\<close>: the two comparisons of the converter helper become unconditional.
  SHA-256 is a parameter; the file names and the modes are left out.
\<close>

definition INPUT_SHA256 :: string where
  "INPUT_SHA256 = ''92521f90f368cb7eb9c0d3b5abf3c3cf788f478954a3372651124e8db3a94311''"

text \<open>The file offset, the \<^verbatim>\<open>cbz w0\<close> to the accepting block, the \<^verbatim>\<open>b\<close> to the same block.\<close>

definition SITES :: "(int \<times> int \<times> int) list" where
  "SITES = [(0x62E8, 0x34000200, 0x14000010), (0x7020, 0x340000C0, 0x14000006)]"

definition converter_site :: "int \<times> int \<times> int \<Rightarrow> bytes \<Rightarrow> bytes res" where
  "converter_site = (\<lambda>(off, original, replacement) data.
     bindR (u32x2 data (off - 4)) (\<lambda>(call, br).
     bindR (guardR (\<not> (call AND 0xFC000000 \<noteq> 0x94000000 \<or> br \<noteq> original)) System_Exit) (\<lambda>_.
     p32 data off replacement)))"

definition patch_converter :: "(bytes \<Rightarrow> string) \<Rightarrow> bytes \<Rightarrow> bytes res" where
  "patch_converter sha data =
     bindR (guardR (sha data = INPUT_SHA256) System_Exit) (\<lambda>_. foldR converter_site SITES data)"

text \<open>Where a \<^verbatim>\<open>cbz w0\<close> and a \<^verbatim>\<open>b\<close> at \<open>off\<close> go.\<close>

definition cbz_w0_target :: "int \<Rightarrow> int \<Rightarrow> int option" where
  "cbz_w0_target w off =
     (if w AND 0xFF00001F \<noteq> 0x34000000 then None
      else (let imm = drop_bit 5 w AND 0x7FFFF in Some (off + 4 * (if imm AND 0x40000 \<noteq> 0 then imm - 0x80000 else imm))))"

definition b_target :: "int \<Rightarrow> int \<Rightarrow> int option" where
  "b_target w off =
     (if w AND 0xFC000000 \<noteq> 0x14000000 then None
      else (let imm = w AND 0x03FFFFFF in Some (off + 4 * (if imm AND 0x02000000 \<noteq> 0 then imm - 0x04000000 else imm))))"

lemma sites_same_block:
  "list_all (\<lambda>(off, original, replacement). cbz_w0_target original off \<noteq> None
     \<and> b_target replacement off = cbz_w0_target original off) SITES"
  by code_simp

lemma converter_site_done:
  assumes "converter_site (off, original, replacement) data = Inr data'" "4 \<le> off"
  shows "u32 data off = Inr original" "u32 data' off = Inr replacement"
    "\<exists>call. u32 data (off - 4) = Inr call \<and> branch_target call (off - 4) \<noteq> None"
    "same_outside (at_region off 4) data data'"
proof -
  from assms obtain call where c: "u32 data (off - 4) = Inr call" "u32 data off = Inr original"
      "call AND 0xFC000000 = 0x94000000" and p: "p32 data off replacement = Inr data'"
    by (auto simp: converter_site_def u32x2_eq bindR_Inr_iff)
  show "u32 data off = Inr original" by (rule c)
  show "\<exists>call. u32 data (off - 4) = Inr call \<and> branch_target call (off - 4) \<noteq> None"
    using c by (simp add: branch_target_def Let_def)
  show "u32 data' off = Inr replacement" using f32.rd_wr_same [OF p] by simp
  have "0 \<le> off" using assms(2) by simp
  from f32.wr_outside [OF p this] show "same_outside (at_region off 4) data data'"
    by (rule same_outside_mono) (simp add: at_region_def)
qed

text \<open>The patch refuses the file, or each site held a call followed by a branch on its answer, the branch is unconditional
  afterwards and goes where it went, and no other byte of the file changed.\<close>

theorem patch_converter_correct:
  assumes "patch_converter sha data = Inr data'"
  shows "sha data = INPUT_SHA256"
    and "list_all (\<lambda>(off, _, _). case (u32 data (off - 4), u32 data off, u32 data' off) of
          (Inr call, Inr old, Inr new) \<Rightarrow> branch_target call (off - 4) \<noteq> None \<and> cbz_w0_target old off \<noteq> None
            \<and> b_target new off = cbz_w0_target old off
        | _ \<Rightarrow> False) SITES"
    and "same_outside (\<lambda>k. at_region 0x62E8 4 k \<or> at_region 0x7020 4 k) data data'"
proof -
  from assms obtain d where sha: "sha data = INPUT_SHA256"
    and one: "converter_site (0x62E8, 0x34000200, 0x14000010) data = Inr d"
    and two: "converter_site (0x7020, 0x340000C0, 0x14000006) d = Inr data'"
    by (auto simp: patch_converter_def SITES_def bindR_Inr_iff)
  show "sha data = INPUT_SHA256" by (rule sha)
  note a = converter_site_done [OF one, simplified] and b = converter_site_done [OF two, simplified]
  have same: "u32 data' 0x62E8 = u32 d 0x62E8" "u32 d 0x701C = u32 data 0x701C" "u32 d 0x7020 = u32 data 0x7020"
    by (rule same_outside_unpack_u [OF b(4)] same_outside_unpack_u [OF a(4)], simp, simp add: at_region_def)+
  have t: "cbz_w0_target 0x34000200 0x62E8 \<noteq> None" "b_target 0x14000010 0x62E8 = cbz_w0_target 0x34000200 0x62E8"
    "cbz_w0_target 0x340000C0 0x7020 \<noteq> None" "b_target 0x14000006 0x7020 = cbz_w0_target 0x340000C0 0x7020"
    using sites_same_block by (simp_all add: SITES_def)
  show "list_all (\<lambda>(off, _, _). case (u32 data (off - 4), u32 data off, u32 data' off) of
          (Inr call, Inr old, Inr new) \<Rightarrow> branch_target call (off - 4) \<noteq> None \<and> cbz_w0_target old off \<noteq> None
            \<and> b_target new off = cbz_w0_target old off
        | _ \<Rightarrow> False) SITES"
    using a b same t by (auto simp: SITES_def)
  show "same_outside (\<lambda>k. at_region 0x62E8 4 k \<or> at_region 0x7020 4 k) data data'"
    by (rule same_outside_trans [OF same_outside_mono [OF a(4)] same_outside_mono [OF b(4)]]) simp_all
qed

end
