(* ===== verification/Gpu_Task.thy ===== *)
theory Gpu_Task
  imports Package_Runtime Stamp_Ios
begin

text \<open>
  \<^verbatim>\<open>scripts/development/build-modern-gputask.py\<close>: the GPU task's imports that iPadOS lacks are bound to the task's shim
  by writing its library ordinal into the import table, and the platform is restamped. The tools that thin, rename and
  sign the file, and the property list and the report, are left out.
\<close>

subsection \<open>The load commands\<close>

definition SHIM :: bytes where
  "SHIM = ascii ''/var/root/VirtualMac2/payload/Frameworks/ModernGPUTaskCompat.dylib''"

definition task_name :: "bytes \<Rightarrow> int \<Rightarrow> int \<Rightarrow> bytes res" where
  "task_name data off sz =
     bindR (u32 data (off + 8)) (\<lambda>n. py_decode (before_nul (py_slice data (off + n) (off + sz))))"

fun task_commands ::
    "bytes \<Rightarrow> nat \<Rightarrow> int \<Rightarrow> bytes list \<times> (int \<times> int) option \<Rightarrow> (bytes list \<times> (int \<times> int) option) res" where
  "task_commands data 0 off s = Inr s"
| "task_commands data (Suc n) off (dependencies, fixups) =
     bindR (u32x2 data off) (\<lambda>(command, sz).
     bindR (if is_dylib_command command then bindR (task_name data off sz) (\<lambda>nm. Inr (dependencies @ [nm]))
            else Inr dependencies) (\<lambda>dependencies.
     bindR (if command = LC_DYLD_CHAINED_FIXUPS then bindR (u32x2 data (off + 8)) (\<lambda>f. Inr (Some f)) else Inr fixups) (\<lambda>fixups.
     task_commands data n (off + sz) (dependencies, fixups))))"

subsection \<open>The import table\<close>

text \<open>The names bound to the shim.\<close>

definition shimmed :: "bytes \<Rightarrow> bool" where
  "shimmed name \<longleftrightarrow>
     prefix (ascii ''__ZNSt3__18to_chars'') name
     \<or> name \<in> set (map ascii [''_malloc_type_malloc'', ''_malloc_type_realloc'',
         ''__ZnwmSt19__type_descriptor_t'', ''__ZnamSt19__type_descriptor_t'',
         ''__ZdlPvSt19__type_descriptor_t'', ''__ZdaPvSt19__type_descriptor_t'',
         ''_OBJC_CLASS_$_MTLResourceAddressRangeArray''])
     \<or> name \<in> set (map ascii [''_MTLCopyDeviceForRegistryID'', ''_isRGBPixelFormat''])"

text \<open>Where the payload and its tables lie, and the format of the imports.\<close>

record import_table =
  it_base :: int
  it_length :: int
  it_imports :: int
  it_symbols :: int
  it_format :: int

definition stride :: "int \<Rightarrow> int" where
  "stride fmt = (if fmt = 1 then 4 else if fmt = 2 then 8 else 16)"

definition word_width :: "int \<Rightarrow> nat" where
  "word_width fmt = (if fmt = 3 then 8 else 4)"

definition entry_at :: "import_table \<Rightarrow> nat \<Rightarrow> int" where
  "entry_at t index = it_base t + it_imports t + int index * stride (it_format t)"

definition import_name :: "bytes \<Rightarrow> import_table \<Rightarrow> int \<Rightarrow> bytes res" where
  "import_name data t start =
     (let stop = find_nul data start (it_base t + it_length t) in
      bindR (guardR (\<not> stop < start) Value_Error) (\<lambda>_. py_decode (py_slice data start stop)))"

definition name_start :: "import_table \<Rightarrow> int \<Rightarrow> int" where
  "name_start t word = it_base t + it_symbols t + drop_bit (if it_format t = 3 then 32 else 9) word"

definition task_import :: "bytes \<Rightarrow> import_table \<Rightarrow> nat \<Rightarrow> (int \<times> bytes) res" where
  "task_import data t index =
     bindR (unpack_u (word_width (it_format t)) data (entry_at t index)) (\<lambda>word.
     bindR (import_name data t (name_start t word)) (\<lambda>name. Inr (word, name)))"

definition bound_word :: "import_table \<Rightarrow> int \<Rightarrow> int \<Rightarrow> int" where
  "bound_word t word ordinal = (word AND NOT (if it_format t = 3 then 0xFFFF else 0xFF)) OR ordinal"

definition port_import :: "import_table \<Rightarrow> int \<Rightarrow> nat \<Rightarrow> bytes \<times> bytes list \<Rightarrow> (bytes \<times> bytes list) res" where
  "port_import t ordinal index = (\<lambda>(data, bindings).
     bindR (task_import data t index) (\<lambda>(word, name).
     if shimmed name
     then bindR (pack_u (word_width (it_format t)) data (entry_at t index) (bound_word t word ordinal)) (\<lambda>data.
          Inr (data, bindings @ [name]))
     else Inr (data, bindings)))"

fun index_of :: "'a \<Rightarrow> 'a list \<Rightarrow> nat res" where
  "index_of x [] = Inl Value_Error"
| "index_of x (y # ys) = (if y = x then Inr 0 else bindR (index_of x ys) (\<lambda>n. Inr (Suc n)))"

definition read_table :: "bytes \<Rightarrow> int \<times> int \<Rightarrow> (import_table \<times> int) res" where
  "read_table data = (\<lambda>(base, len).
     bindR (unpack_us [4, 4, 4, 4, 4, 4, 4] data base) (\<lambda>h.
     bindR (guardR (\<not> (h ! 0 \<noteq> 0 \<or> h ! 6 \<noteq> 0 \<or> h ! 5 \<notin> {1, 2, 3})) Value_Error) (\<lambda>_.
     Inr (\<lparr>it_base = base, it_length = len, it_imports = h ! 2, it_symbols = h ! 3, it_format = h ! 5\<rparr>, h ! 4))))"

definition port_imports :: "bytes \<Rightarrow> (bytes \<times> bytes list) res" where
  "port_imports data =
     bindR (u32 data 16) (\<lambda>n.
     bindR (task_commands data (nat n) 32 ([], None)) (\<lambda>(dependencies, fixups).
     case fixups of None \<Rightarrow> Inl Value_Error
     | Some f \<Rightarrow>
       bindR (read_table data f) (\<lambda>(t, cnt).
       bindR (index_of SHIM dependencies) (\<lambda>i.
       foldR (port_import t (int i + 1)) [0..<nat cnt] (data, [])))))"

definition port_task :: "bytes \<Rightarrow> (bytes \<times> bytes list) res" where
  "port_task data =
     bindR (port_imports data) (\<lambda>(data, bindings).
     bindR (stamp data (minos_version 16 1)) (\<lambda>(data, found).
     bindR (guardR found Value_Error) (\<lambda>_. Inr (data, bindings))))"

subsection \<open>Every import keeps its name\<close>

text \<open>A table whose entries end before its names begin, for a shim ordinal that fits the field.\<close>

definition table_fits :: "import_table \<Rightarrow> nat \<Rightarrow> int \<Rightarrow> bool" where
  "table_fits t cnt ordinal \<longleftrightarrow> 0 \<le> it_base t \<and> 0 \<le> it_length t \<and> 0 \<le> it_imports t
     \<and> it_imports t + int cnt * stride (it_format t) \<le> it_symbols t \<and> 0 < ordinal \<and> ordinal < 256"

lemma stride_width: "int (word_width fmt) \<le> stride fmt" "0 < stride fmt"
  by (simp_all add: stride_def word_width_def)

lemma entry_order:
  assumes "i < j"
  shows "entry_at t i + int (word_width (it_format t)) \<le> entry_at t j"
proof -
  have "(int i + 1) * stride (it_format t) \<le> int j * stride (it_format t)"
    using assms stride_width(2) [of "it_format t"] by (intro mult_right_mono) auto
  then show ?thesis using stride_width(1) [of "it_format t"] by (simp add: entry_at_def algebra_simps)
qed

lemma entry_bounds:
  assumes "table_fits t cnt o'" "i < cnt"
  shows "0 \<le> entry_at t i" "entry_at t i + int (word_width (it_format t)) \<le> it_base t + it_symbols t"
proof -
  have "int i * stride (it_format t) + stride (it_format t) \<le> int cnt * stride (it_format t)"
    using assms(2) stride_width(2) [of "it_format t"] mult_right_mono [of "int i + 1" "int cnt" "stride (it_format t)"]
    by (simp add: algebra_simps)
  moreover have "0 \<le> int i * stride (it_format t)" using stride_width(2) [of "it_format t"] by simp
  ultimately show "0 \<le> entry_at t i" "entry_at t i + int (word_width (it_format t)) \<le> it_base t + it_symbols t"
    using assms(1) stride_width(1) [of "it_format t"] by (auto simp: entry_at_def table_fits_def)
qed

definition entry_region :: "import_table \<Rightarrow> nat \<Rightarrow> nat \<Rightarrow> bool" where
  "entry_region t i k \<longleftrightarrow> entry_at t i \<le> int k \<and> int k < entry_at t i + int (word_width (it_format t))"

lemma or_disjoint_range:
  assumes "0 \<le> (x::int)" "x < 2 ^ n" "0 \<le> y" "y < 2 ^ n"
  shows "0 \<le> x OR y \<and> x OR y < 2 ^ n"
  using assms by (simp add: OR_upper)

lemma bound_word_fields:
  assumes "0 \<le> ordinal" "ordinal < 256" "0 \<le> word" "word < 256 ^ word_width (it_format t)"
  shows "drop_bit (if it_format t = 3 then 32 else 9) (bound_word t word ordinal)
           = drop_bit (if it_format t = 3 then 32 else 9) word"
    and "bound_word t word ordinal AND (if it_format t = 3 then 0xFFFF else 0xFF) = ordinal"
    and "0 \<le> bound_word t word ordinal \<and> bound_word t word ordinal < 256 ^ word_width (it_format t)"
proof -
  define m where "m = (if it_format t = 3 then 16 else 8 :: nat)"
  have m: "(if it_format t = 3 then 0xFFFF else 0xFF) = (mask m :: int)" by (simp add: m_def mask_eq_exp_minus_1)
  have high: "\<not> bit ordinal k" if "8 \<le> k" for k
  proof -
    have "take_bit 8 ordinal = ordinal" using assms(1,2) by (simp add: take_bit_int_eq_self)
    then show ?thesis using that by (metis bit_take_bit_iff not_le)
  qed
  have low: "k < 8" "k < 16" if "bit ordinal k" for k using high [of k] that by (cases "8 \<le> k"; simp)+
  have b: "bit (bound_word t word ordinal) k = ((bit word k \<and> m \<le> k) \<or> bit ordinal k)" for k
    unfolding bound_word_def m by (auto simp: bit_or_iff bit_and_iff bit_not_iff bit_mask_iff)
  show "drop_bit (if it_format t = 3 then 32 else 9) (bound_word t word ordinal)
           = drop_bit (if it_format t = 3 then 32 else 9) word"
    by (rule bit_eqI) (auto simp: bit_drop_bit_eq b high m_def)
  show "bound_word t word ordinal AND (if it_format t = 3 then 0xFFFF else 0xFF) = ordinal"
    unfolding m by (rule bit_eqI) (use low in \<open>auto simp: bit_and_iff b bit_mask_iff m_def not_le\<close>)
  define n where "n = 8 * word_width (it_format t)"
  have n: "(256::int) ^ word_width (it_format t) = 2 ^ n" by (simp add: n_def power_mult)
  have "take_bit n word = word" using assms(3,4) n by (simp add: take_bit_int_eq_self)
  then have wl: "k < n" if "bit word k" for k using that by (metis bit_take_bit_iff)
  have ol: "k < n" if "bit ordinal k" for k using low(1) [OF that] by (simp add: n_def word_width_def)
  then have "take_bit n (bound_word t word ordinal) = bound_word t word ordinal"
    by (intro bit_eqI) (use wl ol in \<open>auto simp: bit_take_bit_iff b\<close>)
  then show "0 \<le> bound_word t word ordinal \<and> bound_word t word ordinal < 256 ^ word_width (it_format t)"
    unfolding n by (metis take_bit_nonnegative take_bit_int_less_exp)
qed

lemma import_name_same:
  assumes "same_outside R data data'" "table_fits t cnt o'" "\<And>k. R k \<Longrightarrow> int k < it_base t + it_symbols t"
    and st: "it_base t + it_symbols t \<le> st"
  shows "import_name data' t st = import_name data t st"
proof -
  let ?base = "it_base t + it_symbols t" and ?stop = "it_base t + it_length t"
  have "0 \<le> int cnt * stride (it_format t)" using stride_width(2) [of "it_format t"] by simp
  then have base: "0 \<le> ?base" "0 \<le> ?stop" using assms(2) by (simp_all add: table_fits_def)
  have agree: "agree_on ?base (max (?stop - ?base) 0) data data'"
    by (rule agree_on_outside [OF assms(1)]) (use assms(3) in force)
  have len: "length data' = length data" by (rule same_outside_length [OF assms(1)])
  have slice: "py_slice data' st q = py_slice data st q" if "0 \<le> q" "q \<le> max ?stop ?base" for q
    by (rule agree_on_slice [OF agree]) (use st base that in auto)
  have stop: "find_nul data' st ?stop = find_nul data st ?stop"
    using slice [of ?stop] base by (simp add: find_nul_def len)
  have "py_slice data' st (find_nul data st ?stop) = py_slice data st (find_nul data st ?stop)"
    if "st \<le> find_nul data st ?stop"
    using find_nul_range [of st ?stop data] that st base by (intro slice) auto
  then show ?thesis
    unfolding import_name_def Let_def stop by (cases "st \<le> find_nul data st ?stop") (simp_all add: guardR_def)
qed

lemma name_start_above: "0 \<le> word \<Longrightarrow> it_base t + it_symbols t \<le> name_start t word"
  by (simp add: name_start_def)

lemma task_import_same:
  assumes "same_outside R data data'" "table_fits t cnt o'" "i < cnt"
    and "\<And>k. R k \<Longrightarrow> \<not> entry_region t i k \<and> int k < it_base t + it_symbols t"
  shows "task_import data' t i = task_import data t i"
proof -
  have "unpack_u (word_width (it_format t)) data' (entry_at t i) = unpack_u (word_width (it_format t)) data (entry_at t i)"
    by (rule same_outside_unpack_u [OF assms(1) entry_bounds(1) [OF assms(2,3)]])
      (use assms(4) in \<open>auto simp: entry_region_def\<close>)
  moreover have "import_name data' t (name_start t w) = import_name data t (name_start t w)"
    if "unpack_u (word_width (it_format t)) data (entry_at t i) = Inr w" for w
    by (rule import_name_same [OF assms(1,2)]) (use assms(4) unpack_u_bounds [OF that] name_start_above in auto)
  ultimately show ?thesis
    by (cases "unpack_u (word_width (it_format t)) data (entry_at t i)") (simp_all add: task_import_def)
qed

lemma pack_entry_outside:
  "pack_u (word_width (it_format t)) data (entry_at t i) v = Inr d \<Longrightarrow> 0 \<le> entry_at t i \<Longrightarrow> same_outside (entry_region t i) data d"
  by (drule (1) same_outside_pack_u) (erule same_outside_mono, simp add: entry_region_def)

lemma entry_apart:
  assumes "entry_region t i k" "i \<noteq> j"
  shows "\<not> entry_region t j k"
  using assms entry_order [of i j t] entry_order [of j i t] by (cases "i < j") (auto simp: entry_region_def)

lemma port_import_step:
  assumes p: "port_import t ordinal i (data, bs) = Inr (d, bs')" and fit: "table_fits t cnt ordinal" and i: "i < cnt"
  shows "\<exists>word name. task_import data t i = Inr (word, name)
    \<and> task_import d t i = Inr (if shimmed name then bound_word t word ordinal else word, name)
    \<and> bs' = bs @ (if shimmed name then [name] else []) \<and> same_outside (entry_region t i) data d"
proof -
  from p obtain word name where r: "task_import data t i = Inr (word, name)" by (auto simp: port_import_def bindR_Inr_iff)
  show ?thesis
  proof (cases "shimmed name")
    case False
    then show ?thesis using p r by (auto simp: port_import_def)
  next
    case True
    let ?w = "word_width (it_format t)" and ?new = "bound_word t word ordinal"
    from p True have pk: "pack_u ?w data (entry_at t i) ?new = Inr d" and bs: "bs' = bs @ [name]"
      by (auto simp: port_import_def r bindR_Inr_iff)
    have out: "same_outside (entry_region t i) data d" by (rule pack_entry_outside [OF pk entry_bounds(1) [OF fit i]])
    have word: "0 \<le> word" "word < 256 ^ ?w" and name: "import_name data t (name_start t word) = Inr name"
      using r unpack_u_bounds by (auto simp: task_import_def bindR_Inr_iff)
    have "0 \<le> ordinal" "ordinal < 256" using fit by (simp_all add: table_fits_def)
    note nf = bound_word_fields(1) [OF this word]
    have "import_name d t (name_start t word) = Inr name"
      unfolding name [symmetric]
      by (rule import_name_same [OF out fit])
        (use entry_bounds(2) [OF fit i] name_start_above [OF word(1)] in \<open>auto simp: entry_region_def\<close>)
    then have "task_import d t i = Inr (?new, name)"
      by (simp add: task_import_def unpack_u_pack_u_same [OF pk] name_start_def nf)
    then show ?thesis using r bs out True by auto
  qed
qed

theorem ported_imports_bound:
  assumes "foldR (port_import t ordinal) is (data, bs) = Inr (data', bs')" and fit: "table_fits t cnt ordinal"
    and "distinct is" "\<forall>i \<in> set is. i < cnt"
  shows "same_outside (\<lambda>k. \<exists>i \<in> set is. entry_region t i k) data data'
    \<and> (\<forall>i \<in> set is. \<exists>word name. task_import data t i = Inr (word, name)
         \<and> task_import data' t i = Inr (if shimmed name then bound_word t word ordinal else word, name))"
  using assms(1,3,4)
proof (induction "is" arbitrary: data bs)
  case (Cons i "is")
  from Cons.prems(1) obtain d b where one: "port_import t ordinal i (data, bs) = Inr (d, b)"
    and rest: "foldR (port_import t ordinal) is (d, b) = Inr (data', bs')" by (auto simp: bindR_Inr_iff)
  have i: "i < cnt" using Cons.prems by simp
  note ih = Cons.IH [OF rest]
  from port_import_step [OF one fit i] obtain word name where
    r: "task_import data t i = Inr (word, name)"
      "task_import d t i = Inr (if shimmed name then bound_word t word ordinal else word, name)"
    and out: "same_outside (entry_region t i) data d" by blast
  have ih: "same_outside (\<lambda>k. \<exists>i \<in> set is. entry_region t i k) d data'"
    "\<forall>i \<in> set is. \<exists>word name. task_import d t i = Inr (word, name)
         \<and> task_import data' t i = Inr (if shimmed name then bound_word t word ordinal else word, name)"
    using Cons.IH [OF rest] Cons.prems by auto
  have below: "int k < it_base t + it_symbols t" if "entry_region t j k" "j < cnt" for j k
    using entry_bounds(2) [OF fit that(2)] that(1) by (simp add: entry_region_def)
  have here: "task_import data' t i = task_import d t i"
    by (rule task_import_same [OF ih(1) fit i]) (use Cons.prems below entry_apart in force)
  have there: "task_import d t j = task_import data t j" if "j \<in> set is" for j
    by (rule task_import_same [OF out fit]) (use Cons.prems below i entry_apart that in force)+
  have "same_outside (\<lambda>k. \<exists>i \<in> set (i # is). entry_region t i k) data data'"
    by (rule same_outside_trans [OF same_outside_mono [OF out] same_outside_mono [OF ih(1)]]) auto
  then show ?case using ih(2) there here r by simp
qed simp

end
