(* ===== verification/Library_Stamp.thy ===== *)
theory Library_Stamp
  imports MachO
begin

text \<open>
  The drivers \<^verbatim>\<open>scripts/development/build-modern-*.py\<close> compile small libraries and stamp or check their minimum version.
  Modelled are the stamp of \<^verbatim>\<open>build-modern-cpu-register-slice.py\<close>, whose text the two transaction drivers, the scalar
  slice and the read bridge repeat, and the check of \<^verbatim>\<open>build-modern-swift-enum-tag.py\<close>, repeated by the typed
  allocator's. Compiling, signing and the reports are left out.
\<close>

subsection \<open>The stamp\<close>

fun find_builds :: "bytes \<Rightarrow> int \<Rightarrow> nat \<Rightarrow> int \<Rightarrow> int list \<Rightarrow> (int \<times> int list) res" where
  "find_builds img lim 0 at builds = Inr (at, builds)"
| "find_builds img lim (Suc n) at builds =
     bindR (u32x2 img at) (\<lambda>(command, len).
     bindR (guardR (\<not> (len < 8 \<or> len mod 8 \<noteq> 0 \<or> at + len > lim)) Value_Error) (\<lambda>_.
     bindR (if command = 0x32 then bindR (guardR (\<not> len < 24) Value_Error) (\<lambda>_. Inr (builds @ [at])) else Inr builds)
       (find_builds img lim n (at + len))))"

definition stamp_with :: "int \<Rightarrow> bytes \<Rightarrow> bytes res" where
  "stamp_with ver img =
     bindR (u32 img 0) (\<lambda>magic.
     bindR (u32x2 img 16) (\<lambda>(cnt, sz).
     bindR (guardR (\<not> (magic \<noteq> 0xFEEDFACF \<or> 32 + sz > int (length img))) Value_Error) (\<lambda>_.
     bindR (find_builds img (32 + sz) (nat cnt) 32 []) (\<lambda>(at, builds).
     bindR (guardR (\<not> (at \<noteq> 32 + sz \<or> length builds \<noteq> 1)) Value_Error) (\<lambda>_.
     p32s img (builds ! 0 + 8) [2, ver, ver])))))"

definition stamp_slice :: "bytes \<Rightarrow> bytes res" where
  "stamp_slice = stamp_with 0xE0500"

definition stamp_bridge :: "bytes \<Rightarrow> bytes res" where
  "stamp_bridge = stamp_with 0x100100"

subsection \<open>The check\<close>

fun find_versions ::
    "bytes \<Rightarrow> int \<Rightarrow> nat \<Rightarrow> int \<Rightarrow> int list list \<times> bytes list \<Rightarrow> (int \<times> int list list \<times> bytes list) res" where
  "find_versions data lim 0 at s = Inr (at, s)"
| "find_versions data lim (Suc n) at (versions, uuids) =
     bindR (u32x2 data at) (\<lambda>(command, len).
     bindR (guardR (\<not> (len < 8 \<or> len mod 8 \<noteq> 0 \<or> at + len > lim)) Value_Error) (\<lambda>_.
     bindR (if command = 0x32 then bindR (unpack_us [4, 4, 4] data (at + 8)) (\<lambda>v. Inr (versions @ [v])) else Inr versions) (\<lambda>versions.
     let uuids = (if command = 0x1B then uuids @ [py_slice data (at + 8) (at + 24)] else uuids) in
     find_versions data lim n (at + len) (versions, uuids))))"

definition check_library :: "bytes \<Rightarrow> bytes res" where
  "check_library data =
     bindR (unpack_us [4, 4, 4] data 0) (\<lambda>h.
     bindR (guardR (h = [0xFEEDFACF, 0x100000C, 0x80000002]) Value_Error) (\<lambda>_.
     bindR (u32x2 data 16) (\<lambda>(ncmds, sz).
     bindR (guardR (\<not> 32 + sz > int (length data)) Value_Error) (\<lambda>_.
     bindR (find_versions data (32 + sz) (nat ncmds) 32 ([], [])) (\<lambda>(at, versions, uuids).
     bindR (guardR (\<not> (at \<noteq> 32 + sz \<or> versions \<noteq> [[2, 0x100100, 0x100100]] \<or> length uuids \<noteq> 1)) Value_Error) (\<lambda>_.
     Inr (uuids ! 0)))))))"

subsection \<open>A stamped library passes\<close>

definition version_region :: "int \<Rightarrow> nat \<Rightarrow> bool" where
  "version_region b k \<longleftrightarrow> b + 8 \<le> int k \<and> int k < b + 20"

lemma find_builds_step:
  assumes "find_builds img lim (Suc n) at bs = Inr r"
  obtains command len c where "u32x2 img at = Inr (command, len)" "8 \<le> len" "len mod 8 = 0" "at + len \<le> lim"
    "c = bs \<and> command \<noteq> 0x32 \<or> c = bs @ [at] \<and> command = 0x32 \<and> 24 \<le> len" "find_builds img lim n (at + len) c = Inr r"
proof -
  from assms obtain command len where u: "u32x2 img at = Inr (command, len)" by (auto simp: bindR_Inr_iff)
  have g: "8 \<le> len" "len mod 8 = 0" "at + len \<le> lim"
    and r: "bindR (if command = 0x32 then bindR (guardR (\<not> len < 24) Value_Error) (\<lambda>_. Inr (bs @ [at])) else Inr bs)
      (find_builds img lim n (at + len)) = Inr r"
    using assms by (simp_all only: find_builds.simps u bindR_simps prod.case bindR_Inr_iff [of "guardR _ _"] guardR_Inr_iff) auto
  show thesis
  proof (cases "command = 0x32")
    case True
    then have "24 \<le> len \<and> find_builds img lim n (at + len) (bs @ [at]) = Inr r" using r by (auto simp: bindR_Inr_iff)
    then show thesis using True that [OF u g, of "bs @ [at]"] by simp
  next
    case False
    then have "find_builds img lim n (at + len) bs = Inr r" using r by simp
    then show thesis using False that [OF u g, of bs] by simp
  qed
qed

lemma find_builds_new:
  "find_builds img lim n at bs = Inr (e, bs') \<Longrightarrow> \<exists>new. bs' = bs @ new \<and> (\<forall>b \<in> set new. at \<le> b \<and> b + 24 \<le> lim)"
proof (induction n arbitrary: at bs)
  case (Suc n)
  obtain command len c where w: "8 \<le> len" "at + len \<le> lim"
      "c = bs \<and> command \<noteq> (0x32 :: int) \<or> c = bs @ [at] \<and> command = 0x32 \<and> 24 \<le> len" "find_builds img lim n (at + len) c = Inr (e, bs')"
    by (rule find_builds_step [OF Suc.prems])
  from Suc.IH [OF w(4)] obtain new where "bs' = c @ new" "\<forall>b \<in> set new. at + len \<le> b \<and> b + 24 \<le> lim" by blast
  then show ?case using w(1-3) by (intro exI [of _ "(if c = bs then [] else [at]) @ new"]) auto
qed simp

lemma u32x3_eq:
  assumes "0 \<le> off"
  shows "unpack_us [4, 4, 4] b off =
    bindR (u32 b off) (\<lambda>x. bindR (u32 b (off + 4)) (\<lambda>y. bindR (u32 b (off + 8)) (\<lambda>z. Inr [x, y, z])))"
  using assms by (auto simp: unpack_us_def unpack_u_def at_off_nonneg nat_add_distrib add.commute)

lemma split_fields_take: "split_fields [4, 4, 4] (take 12 bs) = split_fields [4, 4, 4] bs"
  by (simp add: min_def drop_take)

lemma pack_us_read:
  assumes "p32s b off [x, y, z] = Inr b'" "0 \<le> off"
  shows "unpack_us [4, 4, 4] b' off = Inr [x, y, z]"
    and "same_outside (\<lambda>k. off \<le> int k \<and> int k < off + 12) b b'"
proof -
  let ?w = "le_bytes 4 x @ le_bytes 4 y @ le_bytes 4 z"
  have v: "0 \<le> x" "x < 256 ^ 4" "0 \<le> y" "y < 256 ^ 4" "0 \<le> z" "z < 256 ^ 4"
    and len: "off + 12 \<le> int (length b)" and b': "b' = put_at b (nat off) ?w"
    using assms by (auto simp: pack_us_def at_off_nonneg bindR_Inr_iff split: if_splits)
  have fit: "nat off + length ?w \<le> length b" using len assms(2) by simp
  have "length b' = length b" by (rule pack_us_length [OF assms(1)])
  moreover have "take 12 (drop (nat off) b') = ?w" using take_drop_put_at_same [of "nat off" ?w b] fit by (simp add: b')
  then have "split_fields [4, 4, 4] (drop (nat off) b') = split_fields [4, 4, 4] ?w"
    by (metis split_fields_take)
  moreover have "split_fields [4, 4, 4] ?w = [x, y, z]" using v by (simp add: le_int_le_bytes)
  ultimately show "unpack_us [4, 4, 4] b' off = Inr [x, y, z]"
    using len assms(2) by (simp add: unpack_us_def at_off_nonneg)
  show "same_outside (\<lambda>k. off \<le> int k \<and> int k < off + 12) b b'"
    unfolding b' by (rule same_outside_mono [OF same_outside_put_at [OF fit]]) (use assms(2) in auto)
qed

text \<open>The walk of the check sees the same commands, and at the stamped one the new version.\<close>

lemma find_versions_stamped:
  assumes "find_builds data lim n at bs = Inr (e, bs @ new)" "find_versions data lim n at (vs0, us) = Inr (e0, vs1, us1)"
    and "same_outside (version_region b) data data'" "unpack_us [4, 4, 4] data' (b + 8) = Inr v" "0 \<le> at"
    and "new = [b] \<or> new = [] \<and> b + 20 \<le> at" "length us' = length us"
  shows "\<exists>us2. find_versions data' lim n at (vs, us') = Inr (e, vs @ (if new = [] then [] else [v]), us2) \<and> length us2 = length us1"
  using assms
proof (induction n arbitrary: at bs vs vs0 us us' new)
  case (Suc n)
  obtain command len c where h: "u32x2 data at = Inr (command, len)" "8 \<le> len" "len mod 8 = 0" "at + len \<le> lim"
      and c: "c = bs \<and> command \<noteq> 0x32 \<or> c = bs @ [at] \<and> command = 0x32 \<and> 24 \<le> len"
      and rest: "find_builds data lim n (at + len) c = Inr (e, bs @ new)" by (rule find_builds_step [OF Suc.prems(1)])
  from find_builds_new [OF rest] obtain new' where new': "bs @ new = c @ new'" "\<forall>b \<in> set new'. at + len \<le> b" by blast
  let ?us = "if command = 0x1B then us @ [py_slice data (at + 8) (at + 24)] else us"
  let ?us' = "if command = 0x1B then us' @ [py_slice data' (at + 8) (at + 24)] else us'"
  from Suc.prems(2) h obtain vs0' where restv: "find_versions data lim n (at + len) (vs0', ?us) = Inr (e0, vs1, us1)"
    by (auto simp: bindR_Inr_iff Let_def split: if_splits)
  have uslen: "length ?us' = length ?us" using Suc.prems(7) by simp
  have far: "\<not> version_region b k" if "at \<le> int k" "int k < at + 8" for k
    using that Suc.prems(6) c new' h(2) by (auto simp: version_region_def)
  have "u32 data' at = u32 data at" "u32 data' (at + 4) = u32 data (at + 4)"
    using far Suc.prems(5) by (intro same_outside_unpack_u [OF Suc.prems(3)]; auto)+
  then have h': "u32x2 data' at = Inr (command, len)" using h(1) Suc.prems(5) by (simp add: u32x2_eq)
  show ?case
  proof (cases "command = 0x32")
    case True
    then have c: "c = bs @ [at]" "24 \<le> len" using c by auto
    then have "new = at # new'" using new'(1) by simp
    then have n: "new = [at]" "b = at" "new' = []" using Suc.prems(6) new'(2) h(2) by auto
    have r: "find_builds data lim n (at + len) c = Inr (e, c @ [])" using rest n(1) c(1) by simp
    from Suc.IH [OF r restv Suc.prems(3,4) _ _ uslen, of "vs @ [v]"] c(2) n(2) Suc.prems(5)
    show ?thesis using True Suc.prems(4) h(2,4) by (simp add: h' h(1,3) n guardR_def Let_def)
  next
    case False
    then have c: "c = bs" using c by auto
    have "new = [b] \<or> new = [] \<and> b + 20 \<le> at + len" using Suc.prems(6) h(2) by auto
    from Suc.IH [OF rest [unfolded c] restv Suc.prems(3,4) _ this uslen, of vs] h(2) Suc.prems(5) False
    show ?thesis using h(2,4) by (simp add: h' h(1,3) guardR_def Let_def)
  qed
qed simp

theorem stamped_library_checked:
  assumes "stamp_bridge data = Inr data'" "unpack_us [4, 4, 4] data 0 = Inr [0xFEEDFACF, 0x100000C, 0x80000002]"
    and "u32x2 data 16 = Inr (n, sz)" "find_versions data (32 + sz) (nat n) 32 ([], []) = Inr (e, vs, [uuid])"
  shows "is_ok (check_library data')"
    and "\<exists>b. 32 \<le> b \<and> b + 24 \<le> 32 + sz \<and> same_outside (version_region b) data data'"
proof -
  from assms(1,3) obtain b where sz: "32 + sz \<le> int (length data)"
    and f: "find_builds data (32 + sz) (nat n) 32 [] = Inr (32 + sz, [] @ [b])"
    and p: "p32s data (b + 8) [2, 0x100100, 0x100100] = Inr data'"
    by (auto simp: stamp_bridge_def stamp_with_def bindR_Inr_iff length_Suc_conv)
  have b: "32 \<le> b" "b + 24 \<le> 32 + sz" using find_builds_new [OF f] by auto
  have out: "same_outside (version_region b) data data'"
    by (rule same_outside_mono [OF pack_us_read(2) [OF p]]) (use b in \<open>auto simp: version_region_def\<close>)
  have v: "unpack_us [4, 4, 4] data' (b + 8) = Inr [2, 0x100100, 0x100100]" by (rule pack_us_read(1) [OF p]) (use b in simp)
  from find_versions_stamped [OF f assms(4) out v, of "[]" "[]"] obtain us2
    where w: "find_versions data' (32 + sz) (nat n) 32 ([], []) = Inr (32 + sz, [[2, 0x100100, 0x100100]], us2)" "length us2 = 1"
    by auto
  have low: "u32 data' p = u32 data p" if "0 \<le> p" "p \<le> 28" for p
    by (rule same_outside_unpack_u [OF out that(1)]) (use that(2) b in \<open>auto simp: version_region_def\<close>)
  have "unpack_us [4, 4, 4] data' 0 = Inr [0xFEEDFACF, 0x100000C, 0x80000002]" "u32x2 data' 16 = Inr (n, sz)"
    using assms(2,3) by (simp_all add: u32x3_eq u32x2_eq low)
  then show "is_ok (check_library data')"
    using w sz same_outside_length [OF out] by (simp add: check_library_def guardR_def is_ok_def)
  show "\<exists>b. 32 \<le> b \<and> b + 24 \<le> 32 + sz \<and> same_outside (version_region b) data data'" using b out by blast
qed

end
