(* ===== verification/Spec2Isabelle.thy ===== *)
theory Spec2Isabelle
  imports Weave Auth_Stubs Stamp_Ios Header_Rewrites Dylib_Paths Linkedit Export_Trie Class_Data
    Code_Patches Pci_Helper Macho_Patches Branch_Islands Eh_Tables Adrp_Sound Emit_Fixups Bind_Plan Objc_Lists
    Pool_Plan Localize Slide_Info Code_Directory Kernel_Probe Bc_Resolver
    Import_Jobs Dsc_Audit Pvg_Profile Hotspot_Merge A2s_Batch Http_Proxy
    Package_Runtime Import_Audit Metal_Library Deb_Package Package_Cache Converter_Patch Gpu_Task Library_Stamp
begin

text \<open>
  A verification library for the Python code of VirtualMacOniPad, which takes macOS frameworks out of the
  dyld shared cache, makes them loadable again on iPadOS, and patches the binaries around them.

  \<^bold>\<open>The program.\<close> \<^verbatim>\<open>src/VirtualMac/vz/uncache.py\<close> is its centre: it collects the image's fixups from the
  cache, re-lays the extracted file, repairs everything the layout or the cache's optimizer broke (code
  references, call stubs, Objective-C lists, exception tables, the export trie, strings), plans which slot is
  a rebase or a bind, weaves the pointer chains, and appends the chained-fixups payload with its load
  command. \<^verbatim>\<open>vz/stamp_ios.py\<close> then restamps the platform, and the scripts of \<^verbatim>\<open>vz/patches\<close> change single
  binaries behind guards on their old contents. \<^verbatim>\<open>vz/development/tools\<close> holds the symbol tool \<^verbatim>\<open>uncache.py\<close> calls and
  an audit of what it produced; the scripts of \<^verbatim>\<open>scripts\<close> and \<^verbatim>\<open>scripts/development\<close> prepare, convert, check and package
  the pieces of the runtime, talk to the guest's kernel over GDB, and observe its traffic.

  \<^bold>\<open>The theories.\<close>
  \<^item> \<^theory_text>\<open>Py_Prelude\<close>: the Python runtime (errors as a sum, \<^verbatim>\<open>struct\<close> fields, slices, loops that may
    raise) and the interfaces \<open>buffer_field\<close> and \<open>local_field\<close> of a readable and writable field;
    \<^theory_text>\<open>Bits\<close>: bit fields of integers.
  \<^item> \<^theory_text>\<open>MachO\<close>, \<^theory_text>\<open>Load_Commands\<close>, \<^theory_text>\<open>Command_Edit\<close>: the load-command table, segments and
    sections, rewriting the table as a list, and edits that stay inside their command.
  \<^item> \<^theory_text>\<open>Chained\<close>, \<^theory_text>\<open>Weave\<close>, \<^theory_text>\<open>Fixup_Blob\<close>, \<^theory_text>\<open>Emit_Fixups\<close>: pointer words, page chains, the
    payload and its splicing. The last one ends with the refinement: what a loader reads is the fixup map.
  \<^item> \<^theory_text>\<open>Slide_Info\<close>, \<^theory_text>\<open>Bind_Plan\<close>, \<^theory_text>\<open>Pool_Plan\<close>, \<^theory_text>\<open>Localize\<close>: collecting the fixups, choosing
    rebase or bind, the slot and string pool, and the localization of string pointers.
  \<^item> \<^theory_text>\<open>Layout\<close>, \<^theory_text>\<open>Linkedit\<close>, \<^theory_text>\<open>Header_Rewrites\<close>, \<^theory_text>\<open>Dylib_Paths\<close>: the three layouts with the address
    map, the file offsets of link-edit data, and the header passes.
  \<^item> \<^theory_text>\<open>Arm64\<close>, \<^theory_text>\<open>Auth_Stubs\<close>, \<^theory_text>\<open>Branch_Islands\<close>, \<^theory_text>\<open>Adrp_Flow\<close>, \<^theory_text>\<open>Adrp_Sound\<close>: instruction words, the
    rebuilt call stubs and islands, and the data-flow analysis that repairs ADRP pairs.
  \<^item> \<^theory_text>\<open>Leb128\<close>, \<^theory_text>\<open>Export_Trie\<close>, \<^theory_text>\<open>Eh_Tables\<close>, \<^theory_text>\<open>Objc_Lists\<close>, \<^theory_text>\<open>Class_Data\<close>: the metadata passes.
  \<^item> \<^theory_text>\<open>Stamp_Ios\<close>, \<^theory_text>\<open>Binary_Patches\<close>, \<^theory_text>\<open>Code_Patches\<close>, \<^theory_text>\<open>Pci_Helper\<close>, \<^theory_text>\<open>Macho_Patches\<close>: the stamper
    and the guarded patches; \<^theory_text>\<open>Converter_Patch\<close>, \<^theory_text>\<open>Gpu_Task\<close>, \<^theory_text>\<open>Library_Stamp\<close>, \<^theory_text>\<open>Pvg_Profile\<close>, \<^theory_text>\<open>Import_Jobs\<close>: the
    scripts of \<^verbatim>\<open>scripts/development\<close> that rewrite a binary of the runtime behind guards: the converter helper
    (\<^verbatim>\<open>patch-metal-library-convert.py\<close>), the GPU task's imports, the minimum version, the reviewed framework, and the
    import tables of the three \<^verbatim>\<open>prepare-modern\<close> scripts, whose result binds every import to the library it names.
  \<^item> \<^theory_text>\<open>A2s_Batch\<close>: \<^verbatim>\<open>cache-a2s-batch.py\<close>, which recognizes stubs and selector stubs, reads the export ranges, chooses
    canonical names and keeps a memo; a second run answers from the memo.
  \<^item> \<^theory_text>\<open>Code_Directory\<close>, \<^theory_text>\<open>Import_Audit\<close>, \<^theory_text>\<open>Dsc_Audit\<close>, \<^theory_text>\<open>Bc_Resolver\<close>: the checkers. A changed byte of signed code is
    refused, the audit reads exactly the imports \<^verbatim>\<open>uncache.py\<close> emitted, the search through re-exports ends and finds what
    is reachable, and the matched format chooser of the driver, run by a small interpreter, returns the descriptor the
    check computes.
  \<^item> \<^theory_text>\<open>Package_Runtime\<close>, \<^theory_text>\<open>Deb_Package\<close>, \<^theory_text>\<open>Package_Cache\<close>: packaging. The validation of the compiler runtime and the
    shader cache, the Debian archive with a reader that takes it apart, the trust list of verified code, and the
    clean-up of old packages.
  \<^item> \<^theory_text>\<open>Py_Io\<close>, \<^theory_text>\<open>Gdb_Remote\<close>, \<^theory_text>\<open>Kernel_Probe\<close>: a monad of computations that change a state, may raise and may not
    return, the GDB client over an arbitrary peer, and the kernel search and boot-argument change on top of it.
  \<^item> \<^theory_text>\<open>Http_Proxy\<close>, \<^theory_text>\<open>Hotspot_Merge\<close>, \<^theory_text>\<open>Metal_Library\<close>: the proxy that rewrites requests, the merge of the hotspot's subnet
    into the DHCP configuration, and the shader conversion, which closes every handle it opened on every path.

  \<^bold>\<open>State.\<close> A \<^verbatim>\<open>bytearray\<close> is a list of 8-bit words; a function that mutates one returns the new one. A Python
  integer is an \<^typ>\<open>int\<close>. Dicts are maps, or association lists where their order decides something.

  \<^bold>\<open>Parameters.\<close> The symbol tool behind \<^verbatim>\<open>a2s_batch\<close>, the disassembler capstone, DyldExtractor's access to the
  cache, and the iteration order of sets are arguments of the definitions that use them. So are hash functions, the
  parsed forms of JSON and property lists, what \<^verbatim>\<open>codesign\<close>, \<^verbatim>\<open>dyld_info\<close>, \<^verbatim>\<open>ipsw\<close>, \<^verbatim>\<open>ifconfig\<close> and \<^verbatim>\<open>dpkg\<close> answer, the socket with
  the peer behind it, the answers of the shader compiler, and the clock.

  \<^bold>\<open>Bounds and fuel.\<close> \<^theory_text>\<open>walk_chain\<close> reads a chain with fuel 2048, the number of 8-byte words in a page of
  0x4000 bytes; the decoded PCI helper runs for at most 1300 steps, more than its two passes over 32 slots
  take. The ADRP loop is a \<^theory_text>\<open>while_option\<close> that is proved to return a value; the version-3 page walk is a
  partial function that is proved to return when reads past the file fail. The receiving loops of the GDB client and
  of the proxy are partial functions, since a peer may keep them alive; what they return is proved for a peer that
  delivers, where they are shown to return.

  \<^bold>\<open>Not modelled.\<close> Opening and writing files, command lines and subprocesses, progress output and the debug environment
  variables of \<^verbatim>\<open>uncache.py\<close>. Of the packaging scripts the copying of trees, tar, xz, property lists, links and manifest
  texts; \<^verbatim>\<open>build-virtualmac2-standalone-deb.py\<close> and the build drivers not listed above do nothing else but run tools and
  compare their output. \<^verbatim>\<open>audit-entitlements.py\<close> is one comparison of two parsed lists. The localization scripts are regular
  expressions over source text. The LLDB tracers (\<^verbatim>\<open>vz/development/lldb\<close>, \<^verbatim>\<open>vz/development/probes\<close>, \<^verbatim>\<open>scripts/research\<close>) print
  what a debugger shows them, \<^verbatim>\<open>scripts/tests\<close> tests code that is modelled here, and \<^verbatim>\<open>tools/qoder-quest-migration\<close> moves
  an editor's chat history and has nothing to do with the program.
\<close>

end
